(* ===== verification/GoPrelude.thy ===== *)
theory GoPrelude imports Main "HOL-Library.AList" begin

text \<open>
  Shared vocabulary of the development: the functions of Go's packages
  \<^verbatim>\<open>strings\<close>, \<^verbatim>\<open>strconv\<close> and \<^verbatim>\<open>path\<close> that the modelled files call, over
  strings as character (byte) lists, HTTP headers as association lists, and the
  generic lemmas about them. Case mapping and white space are the ASCII ones: on
  the ASCII strings the server uses as methods, patterns and configuration
  values they agree with Go's Unicode-aware functions.
  The collection \<open>go_str\<close> gathers the characteristic facts of the string
  functions.
\<close>

named_theorems go_str \<open>characteristic facts of the string functions\<close>
named_theorems step_defs \<open>definitions that unfold one operation of a component\<close>

section \<open>Prefixes, suffixes and cut sets\<close>

definition HasPrefix :: "string \<Rightarrow> string \<Rightarrow> bool" where
  "HasPrefix s p = (take (length p) s = p)"

definition HasSuffix :: "string \<Rightarrow> string \<Rightarrow> bool" where
  "HasSuffix s p = (length p \<le> length s \<and> drop (length s - length p) s = p)"

definition TrimPrefix :: "string \<Rightarrow> string \<Rightarrow> string" where
  "TrimPrefix s p = (if HasPrefix s p then drop (length p) s else s)"

definition TrimSuffix :: "string \<Rightarrow> string \<Rightarrow> string" where
  "TrimSuffix s p = (if HasSuffix s p then take (length s - length p) s else s)"

definition CutPrefix :: "string \<Rightarrow> string \<Rightarrow> string option" where
  "CutPrefix s p = (if HasPrefix s p then Some (drop (length p) s) else None)"

definition trim_left_where :: "(char \<Rightarrow> bool) \<Rightarrow> string \<Rightarrow> string" where
  "trim_left_where P s = dropWhile P s"

definition trim_right_where :: "(char \<Rightarrow> bool) \<Rightarrow> string \<Rightarrow> string" where
  "trim_right_where P s = rev (dropWhile P (rev s))"

definition TrimLeft :: "string \<Rightarrow> char \<Rightarrow> string" where
  "TrimLeft s c = trim_left_where (\<lambda>x. x = c) s"

definition TrimRight :: "string \<Rightarrow> char \<Rightarrow> string" where
  "TrimRight s c = trim_right_where (\<lambda>x. x = c) s"

definition Trim :: "string \<Rightarrow> char \<Rightarrow> string" where
  "Trim s c = TrimRight (TrimLeft s c) c"

definition is_space :: "char \<Rightarrow> bool" where
  "is_space c = (c = CHR '' '' \<or> c = CHR 0x09 \<or> c = CHR 0x0A \<or> c = CHR 0x0B \<or> c = CHR 0x0C \<or> c = CHR 0x0D)"

definition TrimSpace :: "string \<Rightarrow> string" where
  "TrimSpace s = trim_right_where is_space (trim_left_where is_space s)"

fun Contains :: "string \<Rightarrow> string \<Rightarrow> bool" where
  "Contains [] p = (p = [])"
| "Contains (c # s) p = (HasPrefix (c # s) p \<or> Contains s p)"

section \<open>Case mapping\<close>

definition lower_char :: "char \<Rightarrow> char" where
  "lower_char c = (let n = (of_char c :: nat) in if 65 \<le> n \<and> n \<le> 90 then char_of (n + 32) else c)"

definition upper_char :: "char \<Rightarrow> char" where
  "upper_char c = (let n = (of_char c :: nat) in if 97 \<le> n \<and> n \<le> 122 then char_of (n - 32) else c)"

definition ToLower :: "string \<Rightarrow> string" where
  "ToLower s = map lower_char s"

definition ToUpper :: "string \<Rightarrow> string" where
  "ToUpper s = map upper_char s"

section \<open>Splitting and joining\<close>

text \<open>\<open>Split c s\<close> is \<^verbatim>\<open>strings.Split(s, sep)\<close> for the one-character separators the
  code uses: never empty, one more piece than separators.\<close>

fun Split :: "char \<Rightarrow> string \<Rightarrow> string list" where
  "Split c [] = [[]]"
| "Split c (x # s) =
     (if x = c then [] # Split c s
      else case Split c s of [] \<Rightarrow> [[x]] | p # ps \<Rightarrow> (x # p) # ps)"

fun Join :: "string list \<Rightarrow> string \<Rightarrow> string" where
  "Join [] sep = []"
| "Join [p] sep = p"
| "Join (p # q # ps) sep = p @ sep @ Join (q # ps) sep"

lemma Split_ne [simp]: "Split c s \<noteq> []"
  by (induction c s rule: Split.induct) (auto split: list.splits)

lemma Split_no_sep: "p \<in> set (Split c s) \<Longrightarrow> c \<notin> set p"
proof (induction c s arbitrary: p rule: Split.induct)
  case (2 c x s)
  then show ?case by (cases "Split c s") (auto split: if_splits)
qed simp

lemma Join_Cons: "ps \<noteq> [] \<Longrightarrow> Join (p # ps) sep = p @ sep @ Join ps sep"
  by (cases ps) auto

lemma Join_Split [simp, go_str]: "Join (Split c s) [c] = s"
proof (induction c s rule: Split.induct)
  case (2 c x s)
  show ?case
  proof (cases "x = c")
    case True
    with 2 show ?thesis by (simp add: Join_Cons)
  next
    case False
    obtain p ps where pp: "Split c s = p # ps" by (cases "Split c s") auto
    have "Join (p # ps) [c] = s" using 2 False pp by simp
    with False pp show ?thesis by (cases ps) auto
  qed
qed simp

lemma Split_append_sep: "c \<notin> set p \<Longrightarrow> Split c (p @ c # s) = p # Split c s"
  by (induction p) auto

lemma Split_no [simp]: "c \<notin> set p \<Longrightarrow> Split c p = [p]"
  by (induction p) auto

lemma Split_Join [go_str]:
  "ps \<noteq> [] \<Longrightarrow> (\<And>p. p \<in> set ps \<Longrightarrow> c \<notin> set p) \<Longrightarrow> Split c (Join ps [c]) = ps"
proof (induction ps)
  case (Cons p ps)
  show ?case
  proof (cases ps)
    case Nil
    with Cons.prems show ?thesis by simp
  next
    case (Cons q qs)
    then have "Split c (Join (p # ps) [c]) = p # Split c (Join ps [c])"
      using Cons.prems by (simp add: Split_append_sep)
    with Cons Cons.IH Cons.prems show ?thesis by simp
  qed
qed simp

lemma set_Join: "set (Join ps sep) \<subseteq> (\<Union>p\<in>set ps. set p) \<union> set sep"
  by (induction ps sep rule: Join.induct) auto

text \<open>\<^verbatim>\<open>strings.FieldsFunc\<close> and \<^verbatim>\<open>strings.Fields\<close>: the maximal runs of other characters.\<close>

fun fields_from :: "(char \<Rightarrow> bool) \<Rightarrow> string \<Rightarrow> string \<Rightarrow> string list" where
  "fields_from P acc [] = (if acc = [] then [] else [acc])"
| "fields_from P acc (c # s) =
     (if P c then (if acc = [] then fields_from P [] s else acc # fields_from P [] s)
      else fields_from P (acc @ [c]) s)"

definition FieldsFunc :: "string \<Rightarrow> (char \<Rightarrow> bool) \<Rightarrow> string list" where
  "FieldsFunc s P = fields_from P [] s"

definition Fields :: "string \<Rightarrow> string list" where
  "Fields s = FieldsFunc s is_space"

definition hex_digit :: "nat \<Rightarrow> char" where
  "hex_digit n = char_of (if n < 10 then 48 + n else 87 + n)"

section \<open>Basic facts of prefixes and trimming\<close>

lemma HasPrefix_append [simp, go_str]: "HasPrefix (p @ s) p"
  by (simp add: HasPrefix_def)

lemma HasPrefix_iff: "HasPrefix s p \<longleftrightarrow> (\<exists>t. s = p @ t)"
  by (metis HasPrefix_def HasPrefix_append append_take_drop_id)

lemma HasSuffix_iff: "HasSuffix s p \<longleftrightarrow> (\<exists>t. s = t @ p)"
proof
  assume "HasSuffix s p"
  then have "s = take (length s - length p) s @ p"
    by (metis HasSuffix_def append_take_drop_id)
  then show "\<exists>t. s = t @ p" ..
qed (auto simp: HasSuffix_def)

lemma Contains_iff: "Contains s p \<longleftrightarrow> (\<exists>a b. s = a @ p @ b)"
proof (induction s)
  case (Cons c s)
  have "(\<exists>a b. c # s = a @ p @ b) \<longleftrightarrow> HasPrefix (c # s) p \<or> (\<exists>a b. s = a @ p @ b)"
    by (metis HasPrefix_iff append_Cons append_Nil list.exhaust list.inject)
  with Cons show ?case by simp
qed auto

lemma TrimPrefix_append [simp, go_str]: "TrimPrefix (p @ s) p = s"
  by (simp add: TrimPrefix_def)

lemma TrimLeft_Cons [simp]: "TrimLeft (x # s) c = (if x = c then TrimLeft s c else x # s)"
  by (simp add: TrimLeft_def trim_left_where_def)

lemma TrimLeft_Nil [simp]: "TrimLeft [] c = []"
  by (simp add: TrimLeft_def trim_left_where_def)

lemma TrimRight_last [go_str]: "s \<noteq> [] \<Longrightarrow> last s \<noteq> c \<Longrightarrow> TrimRight s c = s"
  by (cases s rule: rev_cases) (auto simp: TrimRight_def trim_right_where_def)

lemma TrimRight_not_last: "TrimRight s c \<noteq> [] \<Longrightarrow> last (TrimRight s c) \<noteq> c"
  unfolding TrimRight_def trim_right_where_def
  by (metis (mono_tags) hd_dropWhile last_rev rev_is_Nil_conv)

section \<open>Searching\<close>

text \<open>\<^verbatim>\<open>strings.Index\<close>, \<^verbatim>\<open>strings.Cut\<close> and \<^verbatim>\<open>strings.ReplaceAll\<close> (for a text that is not empty).\<close>

fun Index :: "string \<Rightarrow> string \<Rightarrow> nat option" where
  "Index [] p = (if p = [] then Some 0 else None)"
| "Index (c # s) p = (if HasPrefix (c # s) p then Some 0 else map_option Suc (Index s p))"

lemma Index_Some: "Index s p = Some i \<Longrightarrow> i + length p \<le> length s"
proof (induction s p arbitrary: i rule: Index.induct)
  case (2 c s p)
  show ?case
  proof (cases "HasPrefix (c # s) p")
    case True
    then obtain t where "c # s = p @ t" by (auto simp: HasPrefix_iff)
    from arg_cong [OF this, of length] True 2 show ?thesis by simp
  next
    case False
    then obtain j where "Index s p = Some j" "i = Suc j" using 2 by auto
    with 2(1) [OF False] show ?thesis by auto
  qed
qed (auto split: if_splits)

lemma Index_empty [simp]: "Index s [] = Some 0"
  by (cases s) (simp_all add: HasPrefix_def)

definition Cut :: "string \<Rightarrow> string \<Rightarrow> (string \<times> string) option" where
  "Cut s sep = (case Index s sep of None \<Rightarrow> None | Some i \<Rightarrow> Some (take i s, drop (i + length sep) s))"

lemma Index_at: "Index s p = Some i \<Longrightarrow> s = take i s @ p @ drop (i + length p) s"
proof (induction s p arbitrary: i rule: Index.induct)
  case (2 c s p)
  show ?case
  proof (cases "HasPrefix (c # s) p")
    case True
    with 2 have "i = 0" by simp
    with True show ?thesis by (auto simp: HasPrefix_iff)
  next
    case False
    with 2 show ?thesis by auto
  qed
qed (auto split: if_splits)

lemma HasPrefix_append_left: "length p \<le> length s \<Longrightarrow> HasPrefix (s @ r) p = HasPrefix s p"
  by (simp add: HasPrefix_def)

lemma Index_append: "Index s p = Some i \<Longrightarrow> Index (s @ r) p = Some i"
proof (induction s p arbitrary: i rule: Index.induct)
  case (1 p)
  then show ?case by (cases r) (auto simp: HasPrefix_def split: if_splits)
next
  case (2 c s p)
  have "length p \<le> length (c # s)" using Index_Some [OF "2.prems"] by simp
  from HasPrefix_append_left [OF this, of r] 2 show ?case by (auto split: if_splits)
qed

lemma Cut_Some: "Cut s sep = Some (a, b) \<Longrightarrow> s = a @ sep @ b"
  unfolding Cut_def by (auto dest: Index_at split: option.splits)

lemma Cut_shorter: "Cut s sep = Some (a, b) \<Longrightarrow> sep \<noteq> [] \<Longrightarrow> length b < length s"
  by (auto dest!: Cut_Some)

function ReplaceAll :: "string \<Rightarrow> string \<Rightarrow> string \<Rightarrow> string" where
  "ReplaceAll s old new =
     (if old = [] then s
      else case Cut s old of None \<Rightarrow> s | Some (a, b) \<Rightarrow> a @ new @ ReplaceAll b old new)"
  by auto
termination by (relation "measure (\<lambda>(s, old, new). length s)") (auto dest: Cut_shorter)

declare ReplaceAll.simps [simp del]

section \<open>Decimal numbers\<close>

fun digits_rev :: "nat \<Rightarrow> string" where
  "digits_rev n = (if n < 10 then [char_of (48 + n)] else char_of (48 + n mod 10) # digits_rev (n div 10))"

declare digits_rev.simps [simp del]

definition Itoa_nat :: "nat \<Rightarrow> string" where
  "Itoa_nat n = rev (digits_rev n)"

definition Itoa :: "int \<Rightarrow> string" where
  "Itoa i = (if i < 0 then ''-'' @ Itoa_nat (nat (- i)) else Itoa_nat (nat i))"

definition is_digit :: "char \<Rightarrow> bool" where
  "is_digit c = (48 \<le> (of_char c :: nat) \<and> (of_char c :: nat) \<le> 57)"

definition digit_val :: "char \<Rightarrow> nat" where
  "digit_val c = (of_char c :: nat) - 48"

fun digits_val :: "nat \<Rightarrow> string \<Rightarrow> nat option" where
  "digits_val acc [] = Some acc"
| "digits_val acc (c # s) = (if is_digit c then digits_val (acc * 10 + digit_val c) s else None)"

text \<open>\<open>ParseInt64\<close> is \<^verbatim>\<open>strconv.ParseInt(s, 10, 64)\<close> (and \<^verbatim>\<open>strconv.Atoi\<close> on a 64-bit
  target): an optional sign, at least one digit, and a range check.\<close>

definition ParseInt64 :: "string \<Rightarrow> int option" where
  "ParseInt64 s =
     (let neg = HasPrefix s ''-'';
          ds = (if neg \<or> HasPrefix s ''+'' then tl s else s)
      in if ds = [] then None
         else case digits_val 0 ds of
                None \<Rightarrow> None
              | Some n \<Rightarrow> (let i = (if neg then - int n else int n)
                          in if - (2 ^ 63) \<le> i \<and> i < 2 ^ 63 then Some i else None))"

lemma digits_val_snoc:
  "digits_val acc (xs @ [c]) =
     (case digits_val acc xs of None \<Rightarrow> None | Some v \<Rightarrow> if is_digit c then Some (v * 10 + digit_val c) else None)"
  by (induction acc xs rule: digits_val.induct) auto

lemma digit_char: "d < 10 \<Longrightarrow> is_digit (char_of (48 + d :: nat)) \<and> digit_val (char_of (48 + d :: nat)) = d"
  by (simp add: is_digit_def digit_val_def of_char_of)

lemma digits_val_Itoa_nat: "digits_val 0 (Itoa_nat n) = Some n"
proof (induction n rule: digits_rev.induct)
  case (1 n)
  show ?case
  proof (cases "n < 10")
    case True
    then show ?thesis using digit_char [of n] by (simp add: Itoa_nat_def digits_rev.simps [of n])
  next
    case False
    then have "Itoa_nat n = Itoa_nat (n div 10) @ [char_of (48 + n mod 10)]"
      by (simp add: Itoa_nat_def digits_rev.simps [of n])
    moreover have "n mod 10 < 10" by simp
    ultimately show ?thesis using 1 [OF False] digit_char [of "n mod 10"] by (simp add: digits_val_snoc)
  qed
qed

lemma Itoa_nat_digits: "c \<in> set (Itoa_nat n) \<Longrightarrow> is_digit c"
proof (induction n rule: digits_rev.induct)
  case (1 n)
  then show ?case using digit_char [of n] digit_char [of "n mod 10"]
    by (cases "n < 10") (auto simp: Itoa_nat_def digits_rev.simps [of n])
qed

lemma Itoa_nat_ne: "Itoa_nat n \<noteq> []"
  by (simp add: Itoa_nat_def digits_rev.simps [of n])

lemma ParseInt64_Itoa:
  assumes "0 \<le> i" "i < 2 ^ 63"
  shows "ParseInt64 (Itoa i) = Some i"
proof -
  have it: "Itoa i = Itoa_nat (nat i)" using assms(1) by (simp add: Itoa_def)
  have "hd (Itoa_nat (nat i)) \<in> set (Itoa_nat (nat i))" using Itoa_nat_ne by simp
  then have d: "is_digit (hd (Itoa_nat (nat i)))" by (rule Itoa_nat_digits)
  have "\<not> HasPrefix (Itoa_nat (nat i)) ''-''" "\<not> HasPrefix (Itoa_nat (nat i)) ''+''"
    using d by (cases "Itoa_nat (nat i)"; auto simp: HasPrefix_def is_digit_def)+
  then show ?thesis using assms Itoa_nat_ne [of "nat i"] by (simp add: ParseInt64_def it Let_def digits_val_Itoa_nat)
qed

section \<open>HTTP headers and other string-keyed tables\<close>

type_synonym header = "(string \<times> string) list"

text \<open>\<open>hset\<close> is \<^verbatim>\<open>Header.Set\<close> and \<open>hget\<close> is \<^verbatim>\<open>Header.Get\<close>, on headers with one value per
  canonical key; a missing key reads as the empty string.\<close>

definition hset :: "string \<Rightarrow> string \<Rightarrow> header \<Rightarrow> header" where
  "hset k v h = AList.update k v h"

definition hget :: "header \<Rightarrow> string \<Rightarrow> string" where
  "hget h k = (case map_of h k of Some v \<Rightarrow> v | None \<Rightarrow> [])"

definition hdel :: "string \<Rightarrow> header \<Rightarrow> header" where
  "hdel k h = AList.delete k h"

lemma map_of_AList_update [simp]: "map_of (AList.update k v al) = (map_of al)(k \<mapsto> v)"
  by (rule update_conv')

lemma map_of_AList_delete [simp]: "map_of (AList.delete k al) = (map_of al)(k := None)"
  by (rule delete_conv')

lemma hget_hset [simp, go_str]: "hget (hset k v h) k' = (if k' = k then v else hget h k')"
  by (simp add: hget_def hset_def)

section \<open>Bounded caches\<close>

text \<open>The LRU cache is a library of its own; what the code relies on is that a lookup finds the last
  value added under the key unless the key has been removed or evicted. Which keys an addition
  evicts is the parameter \<open>ev\<close> of every addition.\<close>

definition lru_add :: "'k list \<Rightarrow> 'k \<Rightarrow> 'v \<Rightarrow> ('k \<times> 'v) list \<Rightarrow> ('k \<times> 'v) list" where
  "lru_add ev k v m = AList.update k v (filter (\<lambda>kv. fst kv \<notin> set ev) m)"

lemma map_of_filter_keys: "map_of (filter (\<lambda>kv. P (fst kv)) m) k = (if P k then map_of m k else None)"
  by (induction m) auto

lemma map_of_lru_add:
  "map_of (lru_add ev k v m) j = (if j = k then Some v else if j \<in> set ev then None else map_of m j)"
  by (simp add: lru_add_def map_of_filter_keys [where P = "\<lambda>x. x \<notin> set ev"])

end
