(* ===== verification/Router.thy ===== *)
theory Router imports GoPrelude begin

text \<open>
  The HTTP router of \<^verbatim>\<open>router.go\<close>, \<^verbatim>\<open>params.go\<close> and the registration calls of
  \<^verbatim>\<open>handler.go\<close>: path cleaning, pattern compilation, the two matching loops, route
  tables and dispatch. A handler is a value of an arbitrary type \<open>'h\<close>; dispatching
  a request yields the handler the code calls together with the route parameters it puts
  into the request context. Go maps are association lists (no duplicate keys), so
  a map iteration is the list order; no result below depends on that order except
  the order of the names in the \<^verbatim>\<open>Allow\<close> header, about which only membership is stated.
\<close>

section \<open>Cleaning a path\<close>

text \<open>\<open>clean_segs\<close> is the segment loop of the standard library's \<^verbatim>\<open>path.Clean\<close> on a rooted path:
  the stack holds the segments kept so far, last one first.\<close>

fun clean_segs :: "string list \<Rightarrow> string list \<Rightarrow> string list" where
  "clean_segs st [] = rev st"
| "clean_segs st (p # ps) =
     (if p = [] \<or> p = ''.'' then clean_segs st ps
      else if p = ''..'' then clean_segs (case st of [] \<Rightarrow> [] | _ # st' \<Rightarrow> st') ps
      else clean_segs (p # st) ps)"

definition path_Clean :: "string \<Rightarrow> string" where
  "path_Clean p = CHR ''/'' # Join (clean_segs [] (Split (CHR ''/'') p)) ''/''"

definition cleanPath :: "string \<Rightarrow> string" where
  "cleanPath p0 =
     (if p0 = [] then ''/''
      else let p = (if hd p0 \<noteq> CHR ''/'' then ''/'' @ p0 else p0);
               cp = path_Clean p
           in if cp \<noteq> ''/'' then
                (let t = TrimRight cp (CHR ''/'') in if t = [] then ''/'' else t)
              else cp)"

definition joinPaths :: "string \<Rightarrow> string \<Rightarrow> string" where
  "joinPaths pre p =
     (if pre = [] \<or> pre = ''/'' then cleanPath p
      else if p = [] \<or> p = ''/'' then cleanPath pre
      else cleanPath (pre @ ''/'' @ TrimLeft p (CHR ''/'')))"

section \<open>Patterns\<close>

datatype segment = SegStatic string | SegParam string | SegWildcard string

type_synonym params = "(string \<times> string) list"

definition compile_part :: "string \<Rightarrow> segment" where
  "compile_part part =
     (if HasPrefix part '':'' \<and> length part > 1 then SegParam (tl part)
      else if HasPrefix part ''*'' then SegWildcard (if length part > 1 then tl part else [])
      else SegStatic part)"

fun compile_parts :: "string list \<Rightarrow> segment list" where
  "compile_parts [] = []"
| "compile_parts (part # parts) =
     (case compile_part part of
        SegWildcard n \<Rightarrow> [SegWildcard n]
      | s \<Rightarrow> s # compile_parts parts)"

definition compilePattern :: "string \<Rightarrow> segment list" where
  "compilePattern p =
     (if p = ''/'' then [SegStatic ''/'']
      else compile_parts (Split (CHR ''/'') (Trim p (CHR ''/''))))"

definition splitPath :: "string \<Rightarrow> string list" where
  "splitPath p = (if p = ''/'' then [''/''] else Split (CHR ''/'') (Trim p (CHR ''/'')))"

section \<open>The two matching loops\<close>

fun match_loop :: "segment list \<Rightarrow> string list \<Rightarrow> params \<Rightarrow> params option" where
  "match_loop (SegStatic l # segs) (p # parts) ps =
     (if p \<noteq> l then None else match_loop segs parts ps)"
| "match_loop (SegParam n # segs) (p # parts) ps =
     match_loop segs parts (AList.update n p ps)"
| "match_loop (SegWildcard n # segs) (p # parts) ps =
     Some (if n \<noteq> [] then AList.update n (Join (p # parts) ''/'') ps else ps)"
| "match_loop segs parts ps = (if segs = [] \<and> parts = [] then Some ps else None)"

definition matchSegments :: "segment list \<Rightarrow> string \<Rightarrow> params option" where
  "matchSegments segs p =
     (if segs = [SegStatic ''/''] then (if p = ''/'' then Some [] else None)
      else match_loop segs (splitPath p) [])"

fun fast_loop :: "segment list \<Rightarrow> string list \<Rightarrow> bool" where
  "fast_loop (SegStatic l # segs) (p # parts) = (if p \<noteq> l then False else fast_loop segs parts)"
| "fast_loop (SegParam n # segs) (p # parts) = fast_loop segs parts"
| "fast_loop (SegWildcard n # segs) (p # parts) = True"
| "fast_loop segs parts = (segs = [] \<and> parts = [])"

definition fastMatchNoParams :: "segment list \<Rightarrow> string \<Rightarrow> bool" where
  "fastMatchNoParams segs p =
     (if segs = [SegStatic ''/''] then p = ''/'' else fast_loop segs (splitPath p))"

section \<open>Route tables, registration and dispatch\<close>

record 'h compiledRoute =
  handler :: 'h
  rpattern :: string
  segments :: "segment list"

record 'h router =
  static :: "(string \<times> (string \<times> 'h) list) list"
  dyn :: "(string \<times> 'h compiledRoute list) list"
  fallbackStatic :: "(string \<times> (string \<times> 'h) list) list"
  fallbackDyn :: "(string \<times> 'h compiledRoute list) list"
  notFound :: 'h

text \<open>\<open>nf\<close> is the standard library's \<^verbatim>\<open>http.NotFoundHandler()\<close>.\<close>

definition NewRouter :: "'h \<Rightarrow> 'h router" where
  "NewRouter nf = \<lparr>static = [], dyn = [], fallbackStatic = [], fallbackDyn = [], notFound = nf\<rparr>"

definition router_SetNotFoundHandler :: "'h \<Rightarrow> 'h option \<Rightarrow> 'h router \<Rightarrow> 'h router" where
  "router_SetNotFoundHandler nf h r = r\<lparr>notFound := (case h of None \<Rightarrow> nf | Some h' \<Rightarrow> h')\<rparr>"

definition is_static_pattern :: "string \<Rightarrow> bool" where
  "is_static_pattern p = (CHR '':'' \<notin> set p \<and> CHR ''*'' \<notin> set p)"

definition add_static ::
  "string \<Rightarrow> string \<Rightarrow> 'h \<Rightarrow> (string \<times> (string \<times> 'h) list) list \<Rightarrow> (string \<times> (string \<times> 'h) list) list" where
  "add_static m p h t =
     AList.update m (AList.update p h (case map_of t m of None \<Rightarrow> [] | Some mm \<Rightarrow> mm)) t"

definition add_dyn ::
  "string \<Rightarrow> 'h compiledRoute \<Rightarrow> (string \<times> 'h compiledRoute list) list \<Rightarrow> (string \<times> 'h compiledRoute list) list" where
  "add_dyn m cr t = AList.update m ((case map_of t m of None \<Rightarrow> [] | Some l \<Rightarrow> l) @ [cr]) t"

definition Handle :: "string \<Rightarrow> string \<Rightarrow> 'h \<Rightarrow> 'h router \<Rightarrow> 'h router" where
  "Handle method pat h r =
     (let m = ToUpper method; p0 = cleanPath pat; p = (if p0 = [] then ''/'' else p0)
      in if is_static_pattern p then r\<lparr>static := add_static m p h (static r)\<rparr>
         else r\<lparr>dyn := add_dyn m \<lparr>handler = h, rpattern = p, segments = compilePattern p\<rparr> (dyn r)\<rparr>)"

definition HandleFallback :: "string \<Rightarrow> string \<Rightarrow> 'h \<Rightarrow> 'h router \<Rightarrow> 'h router" where
  "HandleFallback method pat h r =
     (let m = ToUpper method; p0 = cleanPath pat; p = (if p0 = [] then ''/'' else p0)
      in if is_static_pattern p then r\<lparr>fallbackStatic := add_static m p h (fallbackStatic r)\<rparr>
         else r\<lparr>fallbackDyn := add_dyn m \<lparr>handler = h, rpattern = p, segments = compilePattern p\<rparr> (fallbackDyn r)\<rparr>)"

text \<open>The outcome of \<^verbatim>\<open>ServeHTTP\<close>: the handler called, with \<open>Some\<close> parameters when they were put
  into the request context and \<open>None\<close> when the request was passed on unchanged, or the
  automatic 204 answer with the names of the \<^verbatim>\<open>Allow\<close> header.\<close>

datatype 'h outcome = Call 'h "params option" | OptionsNoContent "string list"

definition lookup_static :: "(string \<times> (string \<times> 'h) list) list \<Rightarrow> string \<Rightarrow> string \<Rightarrow> 'h option" where
  "lookup_static t m p = (case map_of t m of None \<Rightarrow> None | Some mm \<Rightarrow> map_of mm p)"

fun first_match :: "'h compiledRoute list \<Rightarrow> string \<Rightarrow> ('h \<times> params) option" where
  "first_match [] p = None"
| "first_match (cr # crs) p =
     (case matchSegments (segments cr) p of
        Some ps \<Rightarrow> Some (handler cr, ps)
      | None \<Rightarrow> first_match crs p)"

definition lookup_dyn :: "(string \<times> 'h compiledRoute list) list \<Rightarrow> string \<Rightarrow> string \<Rightarrow> ('h \<times> params) option" where
  "lookup_dyn t m p = (case map_of t m of None \<Rightarrow> None | Some crs \<Rightarrow> first_match crs p)"

definition call_with :: "'h \<times> params \<Rightarrow> 'h outcome" where
  "call_with hp = Call (fst hp) (if snd hp \<noteq> [] then Some (snd hp) else None)"

definition serveOptionsIfKnown :: "'h router \<Rightarrow> string \<Rightarrow> string list option" where
  "serveOptionsIfKnown r p =
     (let allowed = map fst (filter (\<lambda>(m, mm). map_of mm p \<noteq> None) (static r))
                  @ map fst (filter (\<lambda>(m, crs). \<exists>cr\<in>set crs. fastMatchNoParams (segments cr) p) (dyn r))
      in if allowed = [] then None else Some allowed)"

definition ServeHTTP :: "'h router \<Rightarrow> string \<Rightarrow> string \<Rightarrow> 'h outcome" where
  "ServeHTTP r m urlpath =
     (let p0 = cleanPath urlpath; p = (if p0 = [] then ''/'' else p0)
      in case lookup_static (static r) m p of Some h \<Rightarrow> Call h None
       | None \<Rightarrow> (case lookup_dyn (dyn r) m p of Some hp \<Rightarrow> call_with hp
       | None \<Rightarrow> (case lookup_static (fallbackStatic r) m p of Some h \<Rightarrow> Call h None
       | None \<Rightarrow> (case lookup_dyn (fallbackDyn r) m p of Some hp \<Rightarrow> call_with hp
       | None \<Rightarrow> (if m = ''OPTIONS'' then
                    (case serveOptionsIfKnown r p of Some allowed \<Rightarrow> OptionsNoContent allowed
                     | None \<Rightarrow> Call (notFound r) None)
                  else Call (notFound r) None)))))"

section \<open>Parameters of a request and route groups\<close>

text \<open>The request context carries at most one parameter map under \<^verbatim>\<open>ctxParamsKey\<close>; \<open>None\<close> is an absent
  value. \<open>RouteParams\<close> copies the map, \<open>GetParams\<close> hands it out.\<close>

definition RouteParams :: "params option \<Rightarrow> params" where
  "RouteParams ctx = (case ctx of None \<Rightarrow> [] | Some ps \<Rightarrow> ps)"

definition Params_Get :: "params \<Rightarrow> string \<Rightarrow> string" where
  "Params_Get ps key = (case map_of ps key of Some v \<Rightarrow> v | None \<Rightarrow> [])"

definition GetParams :: "params option \<Rightarrow> params" where
  "GetParams ctx = (case ctx of Some ps \<Rightarrow> ps | None \<Rightarrow> [])"

definition WithParams :: "params option \<Rightarrow> params \<Rightarrow> params option" where
  "WithParams ctx ps = Some ps"

definition chain :: "'h \<Rightarrow> ('h \<Rightarrow> 'h) list \<Rightarrow> 'h" where
  "chain h mws = fold (\<lambda>mw h'. mw h') (rev mws) h"

record 'h RouteGroup =
  prefix :: string
  middlewares :: "('h \<Rightarrow> 'h) list"

definition Group :: "string \<Rightarrow> 'h RouteGroup" where
  "Group pre = \<lparr>prefix = pre, middlewares = []\<rparr>"

definition group_Use :: "('h \<Rightarrow> 'h) \<Rightarrow> 'h RouteGroup \<Rightarrow> 'h RouteGroup" where
  "group_Use m g = g\<lparr>middlewares := middlewares g @ [m]\<rparr>"

definition group_addRoute :: "'h RouteGroup \<Rightarrow> string \<Rightarrow> string \<Rightarrow> 'h \<Rightarrow> 'h router \<Rightarrow> 'h router" where
  "group_addRoute g method p h r =
     (let full = joinPaths (prefix g) p;
          h' = (if length (middlewares g) > 0 then chain h (middlewares g) else h)
      in Handle method full h' r)"

definition any_methods :: "string list" where
  "any_methods = [''GET'', ''POST'', ''PUT'', ''DELETE'', ''HEAD'', ''PATCH'', ''OPTIONS'']"

definition server_ANY :: "string \<Rightarrow> 'h \<Rightarrow> 'h router \<Rightarrow> 'h router" where
  "server_ANY p h r = fold (\<lambda>m r'. Handle m p h r') any_methods r"

definition group_ANY :: "'h RouteGroup \<Rightarrow> string \<Rightarrow> 'h \<Rightarrow> 'h router \<Rightarrow> 'h router" where
  "group_ANY g p h r = fold (\<lambda>m r'. group_addRoute g m p h r') any_methods r"

section \<open>Facts of path cleaning\<close>

definition good_seg :: "string \<Rightarrow> bool" where
  "good_seg s \<longleftrightarrow> s \<noteq> [] \<and> s \<noteq> ''.'' \<and> s \<noteq> ''..'' \<and> CHR ''/'' \<notin> set s"

lemma clean_segs_good:
  assumes "\<forall>s\<in>set st. good_seg s" "\<forall>s\<in>set ps. CHR ''/'' \<notin> set s"
  shows "\<forall>s\<in>set (clean_segs st ps). good_seg s"
  using assms
proof (induction st ps rule: clean_segs.induct)
  case (2 st p ps)
  have pop: "\<forall>s\<in>set (case st of [] \<Rightarrow> [] | _ # st' \<Rightarrow> st'). good_seg s"
    using "2.prems"(1) by (cases st) simp_all
  have push: "p \<noteq> [] \<Longrightarrow> p \<noteq> ''.'' \<Longrightarrow> p \<noteq> ''..'' \<Longrightarrow> \<forall>s\<in>set (p # st). good_seg s"
    using "2.prems" by (simp add: good_seg_def)
  show ?case
    using "2.IH" "2.prems" pop push by (simp del: list.simps(9))
qed simp

lemma clean_segs_id: "\<forall>s\<in>set ps. good_seg s \<Longrightarrow> clean_segs st ps = rev st @ ps"
  by (induction ps arbitrary: st) (auto simp: good_seg_def)

lemma clean_segs_append: "clean_segs st (ps @ qs) = clean_segs (rev (clean_segs st ps)) qs"
  by (induction st ps rule: clean_segs.induct) auto

lemma clean_segs_skip: "clean_segs st ([] # ps) = clean_segs st ps"
  by simp

definition norm_segs :: "string \<Rightarrow> string list" where
  "norm_segs p = clean_segs [] (Split (CHR ''/'') p)"

lemma norm_segs_good: "\<forall>s\<in>set (norm_segs p). good_seg s"
  unfolding norm_segs_def by (rule clean_segs_good) (auto dest: Split_no_sep)

lemma Join_good_last:
  "ps \<noteq> [] \<Longrightarrow> \<forall>s\<in>set ps. good_seg s \<Longrightarrow> Join ps sep \<noteq> [] \<and> last (Join ps sep) \<noteq> CHR ''/''"
proof (induction ps sep rule: Join.induct)
  case (2 p sep)
  then show ?case by (auto simp: good_seg_def) (metis last_in_set)
qed auto

lemma path_Clean_norm: "path_Clean p = CHR ''/'' # Join (norm_segs p) ''/''"
  by (simp add: path_Clean_def norm_segs_def)

lemma Split_append: "Split c (a @ c # b) = Split c a @ Split c b"
  by (induction a) (auto split: list.splits)

lemma norm_segs_slash [simp]: "norm_segs (CHR ''/'' # p) = norm_segs p"
  by (simp add: norm_segs_def)

lemma norm_segs_join: "norm_segs (a @ CHR ''/'' # b) = clean_segs (rev (norm_segs a)) (Split (CHR ''/'') b)"
  by (simp add: norm_segs_def Split_append clean_segs_append)

lemma cleanPath_norm: "cleanPath p = CHR ''/'' # Join (norm_segs p) ''/''"
proof (cases "p = []")
  case True
  then show ?thesis by (simp add: cleanPath_def norm_segs_def)
next
  case False
  define q where "q = (if hd p \<noteq> CHR ''/'' then ''/'' @ p else p)"
  have q: "norm_segs q = norm_segs p" by (simp add: q_def)
  have cp: "path_Clean q = CHR ''/'' # Join (norm_segs p) ''/''"
    by (simp add: path_Clean_norm q)
  show ?thesis
  proof (cases "norm_segs p = []")
    case True
    with False cp show ?thesis by (simp add: cleanPath_def q_def Let_def)
  next
    case ne: False
    from Join_good_last [OF ne norm_segs_good, of "''/''"]
    have "TrimRight (path_Clean q) (CHR ''/'') = path_Clean q" "path_Clean q \<noteq> ''/''"
      unfolding cp by (auto intro!: TrimRight_last)
    with False cp show ?thesis by (simp add: cleanPath_def Let_def flip: q_def)
  qed
qed

lemma cleanPath_ne [simp]: "cleanPath p \<noteq> []"
  by (simp add: cleanPath_norm)

lemma norm_segs_cleanPath [simp]: "norm_segs (cleanPath p) = norm_segs p"
proof (cases "norm_segs p = []")
  case True
  then show ?thesis by (simp add: cleanPath_norm norm_segs_def)
next
  case False
  have g: "\<forall>s\<in>set (norm_segs p). good_seg s" by (rule norm_segs_good)
  then have "Split (CHR ''/'') (Join (norm_segs p) ''/'') = norm_segs p"
    by (intro Split_Join False) (auto simp: good_seg_def)
  then have "norm_segs (Join (norm_segs p) ''/'') = norm_segs p"
    unfolding norm_segs_def [of "Join (norm_segs p) ''/''"] using g by (simp add: clean_segs_id)
  then show ?thesis by (simp add: cleanPath_norm)
qed

lemma splitPath_cleanPath: "norm_segs p \<noteq> [] \<Longrightarrow> splitPath (cleanPath p) = norm_segs p"
proof -
  assume ne: "norm_segs p \<noteq> []"
  have g: "\<forall>s\<in>set (norm_segs p). good_seg s" by (rule norm_segs_good)
  note l = Join_good_last [OF ne g, of "''/''"]
  obtain x xs qs where qq: "norm_segs p = (x # xs) # qs" and x: "x \<noteq> CHR ''/''"
  proof -
    obtain q qs where e: "norm_segs p = q # qs" using ne by (cases "norm_segs p") blast+
    with g have "good_seg q" by simp
    then have "q \<noteq> []" "CHR ''/'' \<notin> set q" by (simp_all only: good_seg_def not_False_eq_True)
    then show ?thesis using that e by (cases q) auto
  qed
  obtain y where y: "Join (norm_segs p) ''/'' = x # y"
    unfolding qq by (cases qs) simp_all
  have "TrimLeft (Join (norm_segs p) ''/'') (CHR ''/'') = Join (norm_segs p) ''/''"
    using x unfolding y by simp
  with l have "Trim (cleanPath p) (CHR ''/'') = Join (norm_segs p) ''/''"
    by (simp add: cleanPath_norm Trim_def TrimRight_last)
  moreover have "cleanPath p \<noteq> ''/''" using l by (simp add: cleanPath_norm)
  moreover have "Split (CHR ''/'') (Join (norm_segs p) ''/'') = norm_segs p"
    using g by (intro Split_Join ne) (auto simp: good_seg_def)
  ultimately show ?thesis by (simp add: splitPath_def)
qed

section \<open>Facts of the matching loops\<close>

fun seg_names :: "segment list \<Rightarrow> string list" where
  "seg_names [] = []"
| "seg_names (SegStatic l # segs) = seg_names segs"
| "seg_names (SegParam n # segs) = n # seg_names segs"
| "seg_names (SegWildcard n # segs) = [n]"

text \<open>\<open>render\<close> is the reverse of matching: the path segments a pattern stands for when its
  parameters take the values of \<open>sub\<close>.\<close>

fun render :: "(string \<Rightarrow> string) \<Rightarrow> segment list \<Rightarrow> string list" where
  "render sub [] = []"
| "render sub (SegStatic l # segs) = l # render sub segs"
| "render sub (SegParam n # segs) = sub n # render sub segs"
| "render sub (SegWildcard n # segs) = Split (CHR ''/'') (sub n)"

lemma fast_loop_match: "fast_loop segs parts \<longleftrightarrow> match_loop segs parts ps \<noteq> None"
  by (induction segs parts ps rule: match_loop.induct) auto

lemma match_loop_other:
  "match_loop segs parts ps = Some qs \<Longrightarrow> n \<notin> set (seg_names segs) \<Longrightarrow> map_of qs n = map_of ps n"
  by (induction segs parts ps rule: match_loop.induct) (auto split: if_splits)

lemma Params_Get_other:
  "match_loop segs parts ps = Some qs \<Longrightarrow> n \<notin> set (seg_names segs) \<Longrightarrow> Params_Get qs n = Params_Get ps n"
  by (simp add: Params_Get_def match_loop_other)

lemma Params_Get_update [simp]: "Params_Get (AList.update k v ps) n = (if n = k then v else Params_Get ps n)"
  by (simp add: Params_Get_def)

lemma match_loop_render:
  "match_loop segs parts ps = Some qs \<Longrightarrow> distinct (seg_names segs) \<Longrightarrow> [] \<notin> set (seg_names segs) \<Longrightarrow>
   \<forall>p\<in>set parts. CHR ''/'' \<notin> set p \<Longrightarrow> render (Params_Get qs) segs = parts"
proof (induction segs parts ps rule: match_loop.induct)
  case (2 n segs p parts ps)
  from "2.prems" have "Params_Get qs n = p"
    by (subst Params_Get_other [of segs parts "AList.update n p ps"]) auto
  with 2 show ?case by simp
next
  case (3 n segs p parts ps)
  then have "Params_Get qs n = Join (p # parts) ''/''" by auto
  with 3 show ?case by (simp only: render.simps) (rule Split_Join; auto)
qed (auto split: if_splits)

lemma render_match_loop:
  "distinct (seg_names segs) \<Longrightarrow> [] \<notin> set (seg_names segs) \<Longrightarrow>
   \<exists>qs. match_loop segs (render sub segs) ps = Some qs \<and> (\<forall>n\<in>set (seg_names segs). Params_Get qs n = sub n)"
proof (induction segs arbitrary: ps rule: seg_names.induct)
  case (3 n segs)
  then obtain qs where q: "match_loop segs (render sub segs) (AList.update n (sub n) ps) = Some qs"
    "\<forall>n\<in>set (seg_names segs). Params_Get qs n = sub n" by fastforce
  moreover have "Params_Get qs n = sub n"
    using "3.prems" by (subst Params_Get_other [OF q(1)]) auto
  ultimately show ?case by auto
next
  case (4 n segs)
  obtain p parts where pp: "Split (CHR ''/'') (sub n) = p # parts"
    by (cases "Split (CHR ''/'') (sub n)") auto
  then have "Join (p # parts) ''/'' = sub n" by (metis Join_Split)
  with 4 pp show ?case by simp
qed auto

lemma splitPath_no_slash: "p \<noteq> ''/'' \<Longrightarrow> \<forall>q\<in>set (splitPath p). CHR ''/'' \<notin> set q"
  unfolding splitPath_def by (auto dest: Split_no_sep)

section \<open>Facts of the route tables\<close>

lemma lookup_static_add [simp]:
  "lookup_static (add_static m p h t) m' p' = (if m' = m \<and> p' = p then Some h else lookup_static t m' p')"
  by (simp add: lookup_static_def add_static_def split: option.splits)

lemma first_match_append:
  "first_match (crs @ crs') p = (case first_match crs p of None \<Rightarrow> first_match crs' p | Some x \<Rightarrow> Some x)"
  by (induction crs) (auto split: option.splits)

lemma lookup_dyn_add:
  "lookup_dyn (add_dyn m cr t) m' p =
     (if m' = m then
        (case lookup_dyn t m p of
           Some x \<Rightarrow> Some x
         | None \<Rightarrow> map_option (\<lambda>ps. (handler cr, ps)) (matchSegments (segments cr) p))
      else lookup_dyn t m' p)"
  by (auto simp: lookup_dyn_def add_dyn_def first_match_append split: option.splits)

lemma lookup_dyn_add_mono: "lookup_dyn t m p = Some x \<Longrightarrow> lookup_dyn (add_dyn m' cr t) m p = Some x"
  by (auto simp: lookup_dyn_add)

definition primary_match :: "'h router \<Rightarrow> string \<Rightarrow> string \<Rightarrow> bool" where
  "primary_match r m p \<longleftrightarrow> lookup_static (static r) m p \<noteq> None \<or> lookup_dyn (dyn r) m p \<noteq> None"

definition fallback_match :: "'h router \<Rightarrow> string \<Rightarrow> string \<Rightarrow> bool" where
  "fallback_match r m p \<longleftrightarrow>
     lookup_static (fallbackStatic r) m p \<noteq> None \<or> lookup_dyn (fallbackDyn r) m p \<noteq> None"

text \<open>The tables of a router are Go maps: no key occurs twice, and a static row is never empty.\<close>

definition wf_router :: "'h router \<Rightarrow> bool" where
  "wf_router r \<longleftrightarrow> distinct (map fst (static r)) \<and> distinct (map fst (dyn r)) \<and>
     distinct (map fst (fallbackStatic r)) \<and> distinct (map fst (fallbackDyn r))"

lemma wf_NewRouter: "wf_router (NewRouter nf)"
  by (simp add: wf_router_def NewRouter_def)

lemma wf_Handle: "wf_router r \<Longrightarrow> wf_router (Handle method pat h r)"
  by (simp add: wf_router_def Handle_def Let_def add_static_def add_dyn_def distinct_update)

lemma wf_HandleFallback: "wf_router r \<Longrightarrow> wf_router (HandleFallback method pat h r)"
  by (simp add: wf_router_def HandleFallback_def Let_def add_static_def add_dyn_def distinct_update)

lemma first_match_None: "first_match crs p = None \<longleftrightarrow> (\<forall>cr\<in>set crs. matchSegments (segments cr) p = None)"
  by (induction crs) (auto split: option.splits)

lemma fastMatch_iff: "fastMatchNoParams segs p \<longleftrightarrow> matchSegments segs p \<noteq> None"
  by (simp add: fastMatchNoParams_def matchSegments_def fast_loop_match [where ps = "[]"])

lemma first_match_Some:
  "(\<exists>cr\<in>set crs. fastMatchNoParams (segments cr) p) \<longleftrightarrow> first_match crs p \<noteq> None"
  by (simp add: first_match_None fastMatch_iff)

lemma set_map_filter_fst:
  "distinct (map fst t) \<Longrightarrow> m \<in> set (map fst (filter (\<lambda>(m, x). P x) t)) \<longleftrightarrow> (\<exists>x. map_of t m = Some x \<and> P x)"
  by (force simp: image_iff)

lemma options_allowed_set:
  assumes "wf_router r"
  shows "set (case serveOptionsIfKnown r p of None \<Rightarrow> [] | Some al \<Rightarrow> al) = {m. primary_match r m p}"
proof -
  let ?A = "map fst (filter (\<lambda>(m, mm). map_of mm p \<noteq> None) (static r))"
  let ?B = "map fst (filter (\<lambda>(m, crs). \<exists>cr\<in>set crs. fastMatchNoParams (segments cr) p) (dyn r))"
  have A: "m \<in> set ?A \<longleftrightarrow> lookup_static (static r) m p \<noteq> None" for m
  proof -
    have "m \<in> set ?A \<longleftrightarrow> (\<exists>mm. map_of (static r) m = Some mm \<and> map_of mm p \<noteq> None)"
      using assms by (intro set_map_filter_fst) (simp add: wf_router_def)
    also have "\<dots> \<longleftrightarrow> lookup_static (static r) m p \<noteq> None"
      by (simp add: lookup_static_def split: option.splits)
    finally show ?thesis .
  qed
  have B: "m \<in> set ?B \<longleftrightarrow> lookup_dyn (dyn r) m p \<noteq> None" for m
  proof -
    have "m \<in> set ?B \<longleftrightarrow> (\<exists>crs. map_of (dyn r) m = Some crs \<and> (\<exists>cr\<in>set crs. fastMatchNoParams (segments cr) p))"
      using assms by (intro set_map_filter_fst) (simp add: wf_router_def)
    also have "\<dots> \<longleftrightarrow> lookup_dyn (dyn r) m p \<noteq> None"
      by (simp add: lookup_dyn_def first_match_Some split: option.splits)
    finally show ?thesis .
  qed
  have "(case serveOptionsIfKnown r p of None \<Rightarrow> [] | Some al \<Rightarrow> al) = ?A @ ?B"
    by (simp add: serveOptionsIfKnown_def Let_def)
  then show ?thesis using A B by (auto simp only: primary_match_def set_append)
qed

lemma ServeHTTP_primary:
  "primary_match r m (cleanPath url) \<Longrightarrow>
   ServeHTTP r m url =
     (case lookup_static (static r) m (cleanPath url) of Some h \<Rightarrow> Call h None
      | None \<Rightarrow> call_with (the (lookup_dyn (dyn r) m (cleanPath url))))"
  by (auto simp: ServeHTTP_def primary_match_def split: option.splits)

lemma norm_segs_render:
  assumes "segs \<noteq> []" "list_all good_seg segs"
  shows "norm_segs (CHR ''/'' # Join segs ''/'') = segs"
proof -
  have "Split (CHR ''/'') (Join segs ''/'') = segs"
    using assms by (intro Split_Join) (auto simp: good_seg_def list_all_iff)
  then show ?thesis using assms
    unfolding norm_segs_slash norm_segs_def by (simp add: clean_segs_id list_all_iff)
qed

lemma joinPaths_norm: "joinPaths pre p = cleanPath (pre @ ''/'' @ p)"
proof -
  have eq: "norm_segs a = norm_segs b \<Longrightarrow> cleanPath a = cleanPath b" for a b
    by (simp add: cleanPath_norm)
  have skip: "clean_segs st (Split (CHR ''/'') (TrimLeft p (CHR ''/''))) = clean_segs st (Split (CHR ''/'') p)" for st
    by (induction p) auto
  have pre: "norm_segs (pre @ CHR ''/'' # p) = clean_segs (rev (norm_segs pre)) (Split (CHR ''/'') p)"
    by (rule norm_segs_join)
  have empty: "norm_segs pre = [] \<Longrightarrow> norm_segs (pre @ CHR ''/'' # p) = norm_segs p"
    unfolding pre by (simp add: norm_segs_def)
  show ?thesis
    unfolding joinPaths_def
    by (auto intro!: eq simp: norm_segs_join skip empty)
qed

section \<open>Properties of the router\<close>

text \<open>A cleaned path is a fixed point of cleaning and is either the root or a slash followed by
  slash-separated segments none of which is empty, a dot or a double dot, whatever path
  the client sent; so no dispatched path can climb above the root.\<close>
theorem cleanPath_safe:
  "cleanPath (cleanPath p) = cleanPath p \<and>
   (cleanPath p = ''/'' \<or>
    (\<exists>segs. segs \<noteq> [] \<and> list_all good_seg segs \<and> cleanPath p = ''/'' @ Join segs ''/''))"
proof
  show "cleanPath (cleanPath p) = cleanPath p" by (metis cleanPath_norm norm_segs_cleanPath)
  show "cleanPath p = ''/'' \<or>
    (\<exists>segs. segs \<noteq> [] \<and> list_all good_seg segs \<and> cleanPath p = ''/'' @ Join segs ''/'')"
    using norm_segs_good [of p] by (cases "norm_segs p = []") (auto simp: cleanPath_norm list_all_iff)
qed

text \<open>The path of a route in a group is the cleaned concatenation of the group's prefix, a slash
  and the route's own path, for every prefix and path, the empty and the root ones included.\<close>
theorem group_route_path: "joinPaths pre p = cleanPath (pre @ ''/'' @ p)"
  by (rule joinPaths_norm)

text \<open>C9: Round trip of a parametrised route: after it is registered, a request for the path obtained by
  putting values for the pattern's named parameters (several segments for a trailing
  wildcard) reaches its handler, with exactly those values as its route parameters, unless
  an earlier primary route claims the path.\<close>
theorem route_url_roundtrip:
  assumes "\<not> is_static_pattern (cleanPath pat)"
    and "segs = compilePattern (cleanPath pat)"
    and "distinct (seg_names segs)" and "[] \<notin> set (seg_names segs)" and "seg_names segs \<noteq> []"
    and "list_all good_seg (render sub segs)"
    and "url = ''/'' @ Join (render sub segs) ''/''"
    and "\<not> primary_match r (ToUpper method) (cleanPath url)"
  shows "\<exists>qs. ServeHTTP (Handle method pat h r) (ToUpper method) url = Call h (Some qs) \<and>
              list_all (\<lambda>n. Params_Get qs n = sub n) (seg_names segs)"
proof -
  have ne: "render sub segs \<noteq> []" and seg: "segs \<noteq> [SegStatic ''/'']"
    using assms(5) by (cases segs rule: seg_names.cases; auto)+
  have ns: "norm_segs url = render sub segs"
    using norm_segs_render [OF ne assms(6)] assms(7) by simp
  have sp: "splitPath (cleanPath url) = render sub segs"
    using splitPath_cleanPath [of url] ns ne by simp
  obtain qs where q: "match_loop segs (render sub segs) [] = Some qs"
    "\<forall>n\<in>set (seg_names segs). Params_Get qs n = sub n"
    using render_match_loop [OF assms(3,4)] by blast
  have m: "matchSegments segs (cleanPath url) = Some qs"
    using q(1) seg by (simp add: matchSegments_def sp)
  have "qs \<noteq> []"
  proof
    assume "qs = []"
    then have "list_all (\<lambda>n. sub n = []) (seg_names segs)"
      using q(2) by (simp add: Params_Get_def list_all_iff)
    moreover obtain n where "n \<in> set (seg_names segs)" using assms(5) by (cases "seg_names segs") auto
    moreover have "\<exists>s\<in>set (render sub segs). s = [] " if "n \<in> set (seg_names segs)" "sub n = []" for n
      using that by (induction segs rule: seg_names.induct) auto
    ultimately show False using assms(6) by (fastforce simp: list_all_iff good_seg_def)
  qed
  moreover have "lookup_static (static r) (ToUpper method) (cleanPath url) = None"
    and "lookup_dyn (dyn r) (ToUpper method) (cleanPath url) = None"
    using assms(8) unfolding primary_match_def by blast+
  ultimately have "ServeHTTP (Handle method pat h r) (ToUpper method) url = Call h (Some qs)"
    using assms(1,2) m by (simp add: ServeHTTP_def Handle_def Let_def lookup_dyn_add call_with_def)
  with q(2) show ?thesis by (auto simp: list_all_iff)
qed

theorem route_url_roundtrip_witness:
  "\<exists>qs. ServeHTTP (Handle ''get'' ''/users/:id/files/*path'' (7::nat) (NewRouter 0)) ''GET''
           ''/users/42/files/a/b'' = Call 7 (Some qs) \<and>
         list_all (\<lambda>n. Params_Get qs n = (if n = ''id'' then ''42'' else ''a/b'')) [''id'', ''path'']"
proof -
  let ?sub = "\<lambda>n. if n = ''id'' then ''42'' else ''a/b''"
  let ?segs = "[SegStatic ''users'', SegParam ''id'', SegStatic ''files'', SegWildcard ''path'']"
  have s: "compilePattern (cleanPath ''/users/:id/files/*path'') = ?segs" by code_simp
  have r: "render ?sub ?segs = [''users'', ''42'', ''files'', ''a'', ''b'']" by simp
  have "\<exists>qs. ServeHTTP (Handle ''get'' ''/users/:id/files/*path'' (7::nat) (NewRouter 0)) (ToUpper ''get'')
           ''/users/42/files/a/b'' = Call 7 (Some qs) \<and>
         list_all (\<lambda>n. Params_Get qs n = ?sub n) (seg_names ?segs)"
    by (rule route_url_roundtrip [where sub = ?sub])
      (simp_all only: s r, code_simp, simp_all add: good_seg_def primary_match_def NewRouter_def
         lookup_static_def lookup_dyn_def)
  moreover have "ToUpper ''get'' = ''GET''" by code_simp
  ultimately show ?thesis by simp
qed





text \<open>The automatic answer to OPTIONS. For every router built by registrations, when no route of any
  table answers the request, an OPTIONS request is answered with 204 and an Allow header
  naming exactly the methods whose primary routes would answer that path, and falls to the
  not-found handler when there is none; any other method falls to the not-found handler.\<close>
theorem options_answer:
  assumes "wf_router r"
    and "\<not> primary_match r m (cleanPath url)" and "\<not> fallback_match r m (cleanPath url)"
  shows "(if m = ''OPTIONS'' \<and> {m'. primary_match r m' (cleanPath url)} \<noteq> {}
          then \<exists>al. ServeHTTP r m url = OptionsNoContent al \<and> set al = {m'. primary_match r m' (cleanPath url)}
          else ServeHTTP r m url = Call (notFound r) None)"
proof -
  have n: "lookup_static (static r) m (cleanPath url) = None" "lookup_dyn (dyn r) m (cleanPath url) = None"
    "lookup_static (fallbackStatic r) m (cleanPath url) = None" "lookup_dyn (fallbackDyn r) m (cleanPath url) = None"
    using assms(2,3) unfolding primary_match_def fallback_match_def by blast+
  let ?o = "serveOptionsIfKnown r (cleanPath url)"
  have o: "set (case ?o of None \<Rightarrow> [] | Some al \<Rightarrow> al) = {m. primary_match r m (cleanPath url)}"
    by (rule options_allowed_set [OF assms(1)])
  have ne: "?o \<noteq> Some []" by (simp add: serveOptionsIfKnown_def Let_def)
  have sv: "ServeHTTP r m url =
      (if m = ''OPTIONS'' then case ?o of None \<Rightarrow> Call (notFound r) None | Some al \<Rightarrow> OptionsNoContent al
       else Call (notFound r) None)"
    using n by (simp add: ServeHTTP_def)
  show ?thesis
  proof (cases ?o)
    case None
    with o show ?thesis unfolding sv by auto
  next
    case (Some al)
    with o have "set al = {m. primary_match r m (cleanPath url)}" by simp
    moreover have "set al \<noteq> {}" using Some ne by auto
    ultimately show ?thesis using Some unfolding sv by auto
  qed
qed

theorem options_answer_witness:
  "\<exists>al. ServeHTTP (Handle ''POST'' ''/a/:x'' (1::nat) (NewRouter 0)) ''OPTIONS'' ''/a/b'' = OptionsNoContent al \<and>
        set al = {m'. primary_match (Handle ''POST'' ''/a/:x'' (1::nat) (NewRouter 0)) m' (cleanPath ''/a/b'')}"
proof -
  let ?r = "Handle ''POST'' ''/a/:x'' (1::nat) (NewRouter 0)"
  have h: "wf_router ?r" by (intro wf_Handle wf_NewRouter)
  have p: "\<not> primary_match ?r ''OPTIONS'' (cleanPath ''/a/b'')" "\<not> fallback_match ?r ''OPTIONS'' (cleanPath ''/a/b'')"
    "primary_match ?r ''POST'' (cleanPath ''/a/b'')" by code_simp+
  then have "{m'. primary_match ?r m' (cleanPath ''/a/b'')} \<noteq> {}" by blast
  with options_answer [OF h p(1,2)] show ?thesis by simp
qed

text \<open>The answer to OPTIONS repeats a method that has both a static and a dynamic route for the path:
  the Allow header then reads \<^verbatim>\<open>GET, GET\<close>.\<close>
theorem options_allow_duplicates:
  "ServeHTTP (Handle ''GET'' ''/u/:id'' (1::nat) (Handle ''GET'' ''/u/me'' 2 (NewRouter 0))) ''OPTIONS'' ''/u/me''
     = OptionsNoContent [''GET'', ''GET'']"
  by code_simp

text \<open>A route whose whole pattern is one parameter also answers the root path, with the parameter set to
  a slash, although the root has no segment.\<close>
theorem root_matches_single_param:
  "ServeHTTP (Handle ''GET'' ''/:slug'' (1::nat) (NewRouter 0)) ''GET'' ''/'' = Call 1 (Some [(''slug'', ''/'')])"
  by code_simp

end
