(* ===== verification/ResponseWriters.thy ===== *)
theory ResponseWriters imports GoPrelude begin

text \<open>
  The writers a handler's response passes through: the standard library's connection
  writer (\<open>base\<close>), \<^verbatim>\<open>statusWriter\<close> and \<^verbatim>\<open>metricsWriter\<close> of \<^verbatim>\<open>metrics.go\<close>,
  \<^verbatim>\<open>statusRecorder\<close> of \<^verbatim>\<open>logger.go\<close>, and \<^verbatim>\<open>timeoutWriter\<close> of \<^verbatim>\<open>timeout.go\<close>.
  The locale \<open>response_writer\<close> is the contract of \<^verbatim>\<open>http.ResponseWriter\<close> with
  \<^verbatim>\<open>http.Flusher\<close>: the first final status is committed with the headers of that moment,
  a write or a flush commits 200 when nothing is committed yet, bodies accumulate.
  Inside it, the effect of a whole handler run is derived once and each wrapper is
  shown to preserve the contract of the writer it wraps; the interpretations give it for
  the stacks the server builds. Writes of the base writer do not fail, and
  status codes are at least 100 (the standard library panics otherwise). The contract
  leaves 101 aside: the base writer commits it like a final status, the wrappers pass it on
  as an informational one, and the code hands an upgrade to a hijacked connection instead.
\<close>

section \<open>The connection's own writer\<close>

record base =
  bheader :: header
  bcommit :: "(nat \<times> header) option"
  bbody :: string
  binfo :: "nat list"

definition base_new :: base where
  "base_new = \<lparr>bheader = [], bcommit = None, bbody = [], binfo = []\<rparr>"

definition informational :: "nat \<Rightarrow> bool" where
  "informational c = (100 \<le> c \<and> c < 200)"

definition valid_status :: "nat \<Rightarrow> bool" where
  "valid_status c = (100 \<le> c \<and> c \<noteq> 101)"

definition base_WriteHeader :: "nat \<Rightarrow> base \<Rightarrow> base" where
  "base_WriteHeader c b =
     (if bcommit b \<noteq> None then b
      else if informational c \<and> c \<noteq> 101 then b\<lparr>binfo := binfo b @ [c]\<rparr>
      else b\<lparr>bcommit := Some (c, bheader b)\<rparr>)"

definition base_Flush :: "base \<Rightarrow> base" where
  "base_Flush b = (if bcommit b = None then base_WriteHeader 200 b else b)"

definition base_Write :: "string \<Rightarrow> base \<Rightarrow> base" where
  "base_Write d b = (let b' = base_Flush b in b'\<lparr>bbody := bbody b' @ d\<rparr>)"

definition base_put :: "header \<Rightarrow> base \<Rightarrow> base" where
  "base_put h b = b\<lparr>bheader := h\<rparr>"

section \<open>The contract of a response writer\<close>

datatype wop = SetHeader header | WriteHeader nat | Write string | Flush

fun valid_op :: "wop \<Rightarrow> bool" where
  "valid_op (WriteHeader c) = valid_status c"
| "valid_op _ = True"

text \<open>What a run of a handler must produce: the committed status and headers, the body.\<close>

fun spec_commit :: "header \<Rightarrow> wop list \<Rightarrow> (nat \<times> header) option" where
  "spec_commit h [] = None"
| "spec_commit h (SetHeader h' # ops) = spec_commit h' ops"
| "spec_commit h (WriteHeader c # ops) = (if informational c then spec_commit h ops else Some (c, h))"
| "spec_commit h (Write d # ops) = Some (200, h)"
| "spec_commit h (Flush # ops) = Some (200, h)"

fun spec_body :: "wop list \<Rightarrow> string" where
  "spec_body [] = []"
| "spec_body (Write d # ops) = d @ spec_body ops"
| "spec_body (_ # ops) = spec_body ops"

text \<open>One call of the handler on a writer with the given operations, and a whole run.\<close>

definition exec_op ::
  "(header \<Rightarrow> 's \<Rightarrow> 's) \<Rightarrow> (nat \<Rightarrow> 's \<Rightarrow> 's) \<Rightarrow> (string \<Rightarrow> 's \<Rightarrow> 's) \<Rightarrow> ('s \<Rightarrow> 's) \<Rightarrow> wop \<Rightarrow> 's \<Rightarrow> 's" where
  "exec_op put wr wt fl op s =
     (case op of SetHeader h \<Rightarrow> put h s | WriteHeader c \<Rightarrow> wr c s | Write d \<Rightarrow> wt d s | Flush \<Rightarrow> fl s)"

definition run_ops ::
  "(header \<Rightarrow> 's \<Rightarrow> 's) \<Rightarrow> (nat \<Rightarrow> 's \<Rightarrow> 's) \<Rightarrow> (string \<Rightarrow> 's \<Rightarrow> 's) \<Rightarrow> ('s \<Rightarrow> 's) \<Rightarrow> wop list \<Rightarrow> 's \<Rightarrow> 's" where
  "run_ops put wr wt fl ops s = fold (exec_op put wr wt fl) ops s"

section \<open>The wrappers\<close>

text \<open>\<^verbatim>\<open>statusWriter\<close>: remembers the final status; \<open>iwr\<close>, \<open>iwt\<close>, \<open>ifl\<close> are the wrapped writer's operations.\<close>

record 's statusWriter =
  sw_status :: nat
  sw_wroteHeader :: bool
  sw_inner :: 's

definition newStatusWriter :: "'s \<Rightarrow> 's statusWriter" where
  "newStatusWriter w = \<lparr>sw_status = 200, sw_wroteHeader = False, sw_inner = w\<rparr>"

definition sw_WriteHeader :: "(nat \<Rightarrow> 's \<Rightarrow> 's) \<Rightarrow> nat \<Rightarrow> 's statusWriter \<Rightarrow> 's statusWriter" where
  "sw_WriteHeader iwr c w =
     (if 100 \<le> c \<and> c < 200 then w\<lparr>sw_inner := iwr c (sw_inner w)\<rparr>
      else if sw_wroteHeader w then w
      else w\<lparr>sw_status := c, sw_wroteHeader := True, sw_inner := iwr c (sw_inner w)\<rparr>)"

definition sw_Write ::
  "(nat \<Rightarrow> 's \<Rightarrow> 's) \<Rightarrow> (string \<Rightarrow> 's \<Rightarrow> 's) \<Rightarrow> string \<Rightarrow> 's statusWriter \<Rightarrow> 's statusWriter" where
  "sw_Write iwr iwt d w =
     (let w' = (if \<not> sw_wroteHeader w then sw_WriteHeader iwr 200 w else w)
      in w'\<lparr>sw_inner := iwt d (sw_inner w')\<rparr>)"

definition sw_Flush ::
  "(nat \<Rightarrow> 's \<Rightarrow> 's) \<Rightarrow> ('s \<Rightarrow> 's) \<Rightarrow> 's statusWriter \<Rightarrow> 's statusWriter" where
  "sw_Flush iwr ifl w =
     (let w' = (if \<not> sw_wroteHeader w then sw_WriteHeader iwr 200 w else w)
      in w'\<lparr>sw_inner := ifl (sw_inner w')\<rparr>)"

definition sw_put :: "(header \<Rightarrow> 's \<Rightarrow> 's) \<Rightarrow> header \<Rightarrow> 's statusWriter \<Rightarrow> 's statusWriter" where
  "sw_put iput h w = w\<lparr>sw_inner := iput h (sw_inner w)\<rparr>"

text \<open>\<^verbatim>\<open>timeoutWriter\<close>: a private header map, copied to the wrapped writer at each operation, and
  a switch that silences the handler once the deadline has passed.\<close>

record 's timeoutWriter =
  tw_header :: header
  tw_timedOut :: bool
  tw_wroteHeader :: bool
  tw_code :: nat
  tw_inner :: 's

datatype write_error = ErrHandlerTimeout

definition newTimeoutWriter :: "('s \<Rightarrow> header) \<Rightarrow> 's \<Rightarrow> 's timeoutWriter" where
  "newTimeoutWriter iget w =
     \<lparr>tw_header = iget w, tw_timedOut = False, tw_wroteHeader = False, tw_code = 0, tw_inner = w\<rparr>"

definition tw_syncHeader :: "(header \<Rightarrow> 's \<Rightarrow> 's) \<Rightarrow> 's timeoutWriter \<Rightarrow> 's timeoutWriter" where
  "tw_syncHeader iput tw = tw\<lparr>tw_inner := iput (tw_header tw) (tw_inner tw)\<rparr>"

definition tw_Write ::
  "(header \<Rightarrow> 's \<Rightarrow> 's) \<Rightarrow> (string \<Rightarrow> 's \<Rightarrow> 's) \<Rightarrow> string \<Rightarrow> 's timeoutWriter \<Rightarrow>
   's timeoutWriter \<times> (write_error + nat)" where
  "tw_Write iput iwt d tw =
     (if tw_timedOut tw then (tw, Inl ErrHandlerTimeout)
      else let tw' = (tw_syncHeader iput tw)\<lparr>tw_wroteHeader := True\<rparr>
           in (tw'\<lparr>tw_inner := iwt d (tw_inner tw')\<rparr>, Inr (length d)))"

definition tw_WriteHeader ::
  "(header \<Rightarrow> 's \<Rightarrow> 's) \<Rightarrow> (nat \<Rightarrow> 's \<Rightarrow> 's) \<Rightarrow> nat \<Rightarrow> 's timeoutWriter \<Rightarrow> 's timeoutWriter" where
  "tw_WriteHeader iput iwr c tw =
     (if 100 \<le> c \<and> c < 200 then
        (if tw_timedOut tw then tw
         else let tw' = tw_syncHeader iput tw in tw'\<lparr>tw_inner := iwr c (tw_inner tw')\<rparr>)
      else if tw_timedOut tw \<or> tw_wroteHeader tw then tw
      else let tw' = tw_syncHeader iput (tw\<lparr>tw_wroteHeader := True, tw_code := c\<rparr>)
           in tw'\<lparr>tw_inner := iwr c (tw_inner tw')\<rparr>)"

definition tw_Flush :: "(header \<Rightarrow> 's \<Rightarrow> 's) \<Rightarrow> ('s \<Rightarrow> 's) \<Rightarrow> 's timeoutWriter \<Rightarrow> 's timeoutWriter" where
  "tw_Flush iput ifl tw =
     (if tw_timedOut tw then tw
      else let tw' = (tw_syncHeader iput tw)\<lparr>tw_wroteHeader := True\<rparr>
           in tw'\<lparr>tw_inner := ifl (tw_inner tw')\<rparr>)"

definition tw_put :: "header \<Rightarrow> 's timeoutWriter \<Rightarrow> 's timeoutWriter" where
  "tw_put h tw = tw\<lparr>tw_header := h\<rparr>"

text \<open>\<^verbatim>\<open>statusRecorder\<close> of the access logger.\<close>

record 's statusRecorder =
  rec_status :: nat
  rec_size :: nat
  rec_inner :: 's

definition acquireStatusRecorder :: "'s \<Rightarrow> 's statusRecorder" where
  "acquireStatusRecorder w = \<lparr>rec_status = 200, rec_size = 0, rec_inner = w\<rparr>"

definition rec_WriteHeader :: "(nat \<Rightarrow> 's \<Rightarrow> 's) \<Rightarrow> nat \<Rightarrow> 's statusRecorder \<Rightarrow> 's statusRecorder" where
  "rec_WriteHeader iwr c r = r\<lparr>rec_status := c, rec_inner := iwr c (rec_inner r)\<rparr>"

definition rec_Write :: "(string \<Rightarrow> 's \<Rightarrow> 's) \<Rightarrow> string \<Rightarrow> 's statusRecorder \<Rightarrow> 's statusRecorder" where
  "rec_Write iwt d r = r\<lparr>rec_inner := iwt d (rec_inner r), rec_size := rec_size r + length d\<rparr>"

definition rec_Flush :: "('s \<Rightarrow> 's) \<Rightarrow> 's statusRecorder \<Rightarrow> 's statusRecorder" where
  "rec_Flush ifl r = r\<lparr>rec_inner := ifl (rec_inner r)\<rparr>"

definition rec_put :: "(header \<Rightarrow> 's \<Rightarrow> 's) \<Rightarrow> header \<Rightarrow> 's statusRecorder \<Rightarrow> 's statusRecorder" where
  "rec_put iput h r = r\<lparr>rec_inner := iput h (rec_inner r)\<rparr>"

section \<open>Lemmas inside the contract\<close>

locale response_writer =
  fixes get :: "'s \<Rightarrow> header"
    and put :: "header \<Rightarrow> 's \<Rightarrow> 's"
    and wr :: "nat \<Rightarrow> 's \<Rightarrow> 's"
    and wt :: "string \<Rightarrow> 's \<Rightarrow> 's"
    and fl :: "'s \<Rightarrow> 's"
    and commit :: "'s \<Rightarrow> (nat \<times> header) option"
    and body :: "'s \<Rightarrow> string"
    and inv :: "'s \<Rightarrow> bool"
  assumes inv_put: "inv s \<Longrightarrow> inv (put h s)"
    and inv_wr: "inv s \<Longrightarrow> valid_status c \<Longrightarrow> inv (wr c s)"
    and inv_wt: "inv s \<Longrightarrow> inv (wt d s)"
    and inv_fl: "inv s \<Longrightarrow> inv (fl s)"
    and get_put: "inv s \<Longrightarrow> get (put h s) = h"
    and get_wr: "inv s \<Longrightarrow> valid_status c \<Longrightarrow> get (wr c s) = get s"
    and get_wt: "inv s \<Longrightarrow> get (wt d s) = get s"
    and get_fl: "inv s \<Longrightarrow> get (fl s) = get s"
    and commit_put: "inv s \<Longrightarrow> commit (put h s) = commit s"
    and commit_wr: "inv s \<Longrightarrow> valid_status c \<Longrightarrow>
          commit (wr c s) = (case commit s of Some x \<Rightarrow> Some x | None \<Rightarrow> if informational c then None else Some (c, get s))"
    and commit_wt: "inv s \<Longrightarrow> commit (wt d s) = (case commit s of Some x \<Rightarrow> Some x | None \<Rightarrow> Some (200, get s))"
    and commit_fl: "inv s \<Longrightarrow> commit (fl s) = (case commit s of Some x \<Rightarrow> Some x | None \<Rightarrow> Some (200, get s))"
    and body_put: "inv s \<Longrightarrow> body (put h s) = body s"
    and body_wr: "inv s \<Longrightarrow> valid_status c \<Longrightarrow> body (wr c s) = body s"
    and body_wt: "inv s \<Longrightarrow> body (wt d s) = body s @ d"
    and body_fl: "inv s \<Longrightarrow> body (fl s) = body s"
begin

lemmas laws = inv_put inv_wr inv_wt inv_fl get_put get_wr get_wt get_fl
  commit_put commit_wr commit_wt commit_fl body_put body_wr body_wt body_fl

lemma run_correct:
  "inv s \<Longrightarrow> list_all valid_op ops \<Longrightarrow>
   commit (run_ops put wr wt fl ops s) =
     (case commit s of Some x \<Rightarrow> Some x | None \<Rightarrow> spec_commit (get s) ops) \<and>
   body (run_ops put wr wt fl ops s) = body s @ spec_body ops \<and> inv (run_ops put wr wt fl ops s)"
proof (induction ops arbitrary: s)
  case Nil
  then show ?case by (simp add: run_ops_def split: option.split)
next
  case (Cons op ops)
  have run: "run_ops put wr wt fl (op # ops) s = run_ops put wr wt fl ops (exec_op put wr wt fl op s)"
    by (simp add: run_ops_def)
  have i: "inv (exec_op put wr wt fl op s)"
    using Cons.prems by (cases op) (simp_all add: exec_op_def laws)
  have v: "list_all valid_op ops" using Cons.prems by simp
  note IH = Cons.IH [OF i v]
  show ?case unfolding run
    using IH Cons.prems by (cases op) (auto simp: exec_op_def laws split: option.splits)
qed

lemma status_wrapper:
  "response_writer (\<lambda>w. get (sw_inner w)) (sw_put put) (sw_WriteHeader wr) (sw_Write wr wt) (sw_Flush wr fl)
     (\<lambda>w. commit (sw_inner w)) (\<lambda>w. body (sw_inner w))
     (\<lambda>w. inv (sw_inner w) \<and>
          (if sw_wroteHeader w then \<exists>h. commit (sw_inner w) = Some (sw_status w, h)
           else commit (sw_inner w) = None \<and> sw_status w = 200))"
  by unfold_locales
    (auto simp: sw_put_def sw_WriteHeader_def sw_Write_def sw_Flush_def Let_def informational_def valid_status_def laws
      split: option.splits)

lemma timeout_wrapper:
  "response_writer tw_header tw_put (tw_WriteHeader put wr) (\<lambda>d tw. fst (tw_Write put wt d tw)) (tw_Flush put fl)
     (\<lambda>tw. commit (tw_inner tw)) (\<lambda>tw. body (tw_inner tw))
     (\<lambda>tw. inv (tw_inner tw) \<and> \<not> tw_timedOut tw \<and> (tw_wroteHeader tw \<longleftrightarrow> commit (tw_inner tw) \<noteq> None))"
  by unfold_locales
    (auto simp: tw_put_def tw_WriteHeader_def tw_Write_def tw_Flush_def tw_syncHeader_def Let_def
      informational_def valid_status_def laws split: option.splits)

lemma recorder_wrapper:
  "response_writer (\<lambda>w. get (rec_inner w)) (rec_put put) (rec_WriteHeader wr) (rec_Write wt) (rec_Flush fl)
     (\<lambda>w. commit (rec_inner w)) (\<lambda>w. body (rec_inner w)) (\<lambda>w. inv (rec_inner w))"
  by unfold_locales
    (auto simp: rec_put_def rec_WriteHeader_def rec_Write_def rec_Flush_def laws split: option.splits)

end

section \<open>The stacks the server builds\<close>

interpretation conn: response_writer bheader base_put base_WriteHeader base_Write base_Flush bcommit bbody "\<lambda>_. True"
  by unfold_locales
    (auto simp: base_put_def base_WriteHeader_def base_Write_def base_Flush_def Let_def informational_def valid_status_def
      split: option.splits)

interpretation counted: response_writer "\<lambda>w. bheader (sw_inner w)" "sw_put base_put" "sw_WriteHeader base_WriteHeader"
  "sw_Write base_WriteHeader base_Write" "sw_Flush base_WriteHeader base_Flush"
  "\<lambda>w. bcommit (sw_inner w)" "\<lambda>w. bbody (sw_inner w)"
  "\<lambda>w. True \<and> (if sw_wroteHeader w then \<exists>h. bcommit (sw_inner w) = Some (sw_status w, h)
               else bcommit (sw_inner w) = None \<and> sw_status w = 200)"
  by (rule conn.status_wrapper)

interpretation timed: response_writer tw_header tw_put "tw_WriteHeader (sw_put base_put) (sw_WriteHeader base_WriteHeader)"
  "\<lambda>d tw. fst (tw_Write (sw_put base_put) (sw_Write base_WriteHeader base_Write) d tw)"
  "tw_Flush (sw_put base_put) (sw_Flush base_WriteHeader base_Flush)"
  "\<lambda>tw. bcommit (sw_inner (tw_inner tw))" "\<lambda>tw. bbody (sw_inner (tw_inner tw))"
  "\<lambda>tw. (True \<and> (if sw_wroteHeader (tw_inner tw) then \<exists>h. bcommit (sw_inner (tw_inner tw)) = Some (sw_status (tw_inner tw), h)
                else bcommit (sw_inner (tw_inner tw)) = None \<and> sw_status (tw_inner tw) = 200)) \<and>
        \<not> tw_timedOut tw \<and> (tw_wroteHeader tw \<longleftrightarrow> bcommit (sw_inner (tw_inner tw)) \<noteq> None)"
  by (rule counted.timeout_wrapper)

text \<open>The handler's view in the server: a \<^verbatim>\<open>timeoutWriter\<close> over a \<^verbatim>\<open>statusWriter\<close> over the connection.\<close>

type_synonym server_writer = "base statusWriter timeoutWriter"

definition server_writer :: "base statusWriter \<Rightarrow> server_writer" where
  "server_writer w = newTimeoutWriter (\<lambda>w. bheader (sw_inner w)) w"

definition server_run :: "wop list \<Rightarrow> server_writer \<Rightarrow> server_writer" where
  "server_run =
     run_ops tw_put (tw_WriteHeader (sw_put base_put) (sw_WriteHeader base_WriteHeader))
       (\<lambda>d tw. fst (tw_Write (sw_put base_put) (sw_Write base_WriteHeader base_Write) d tw))
       (tw_Flush (sw_put base_put) (sw_Flush base_WriteHeader base_Flush))"

definition counted_run :: "wop list \<Rightarrow> base statusWriter \<Rightarrow> base statusWriter" where
  "counted_run =
     run_ops (sw_put base_put) (sw_WriteHeader base_WriteHeader)
       (sw_Write base_WriteHeader base_Write) (sw_Flush base_WriteHeader base_Flush)"

lemma server_run_correct:
  assumes "list_all valid_op ops" and "w = newStatusWriter b" and "bcommit b = None"
  shows "bcommit (sw_inner (tw_inner (server_run ops (server_writer w)))) = spec_commit (bheader b) ops"
    and "bbody (sw_inner (tw_inner (server_run ops (server_writer w)))) = bbody b @ spec_body ops"
    and "(if sw_wroteHeader (tw_inner (server_run ops (server_writer w)))
          then \<exists>h. spec_commit (bheader b) ops = Some (sw_status (tw_inner (server_run ops (server_writer w))), h)
          else spec_commit (bheader b) ops = None \<and> sw_status (tw_inner (server_run ops (server_writer w))) = 200)"
    and "\<not> tw_timedOut (server_run ops (server_writer w))"
    and "tw_wroteHeader (server_run ops (server_writer w)) \<longleftrightarrow> spec_commit (bheader b) ops \<noteq> None"
proof -
  have "\<not> tw_timedOut (server_writer w)" "\<not> tw_wroteHeader (server_writer w)"
    "bcommit (sw_inner (tw_inner (server_writer w))) = None" "\<not> sw_wroteHeader (tw_inner (server_writer w))"
    "sw_status (tw_inner (server_writer w)) = 200" "tw_header (server_writer w) = bheader b"
    "bbody (sw_inner (tw_inner (server_writer w))) = bbody b"
    using assms(2,3) by (simp_all add: server_writer_def newTimeoutWriter_def newStatusWriter_def)
  with timed.run_correct [of "server_writer w" ops] assms(1)
  show "bcommit (sw_inner (tw_inner (server_run ops (server_writer w)))) = spec_commit (bheader b) ops"
    and "bbody (sw_inner (tw_inner (server_run ops (server_writer w)))) = bbody b @ spec_body ops"
    and "(if sw_wroteHeader (tw_inner (server_run ops (server_writer w)))
          then \<exists>h. spec_commit (bheader b) ops = Some (sw_status (tw_inner (server_run ops (server_writer w))), h)
          else spec_commit (bheader b) ops = None \<and> sw_status (tw_inner (server_run ops (server_writer w))) = 200)"
    and "\<not> tw_timedOut (server_run ops (server_writer w))"
    and "tw_wroteHeader (server_run ops (server_writer w)) \<longleftrightarrow> spec_commit (bheader b) ops \<noteq> None"
    unfolding server_run_def by auto
qed

section \<open>The timeout middleware's race\<close>

text \<open>The error response written when the deadline passes first, as calls on the outer writer: the
  content type, the status (499 when the client went away, 504 otherwise) and the page.\<close>

definition timeout_code :: "bool \<Rightarrow> nat" where
  "timeout_code canceled = (if canceled then 499 else 504)"

definition error_ops :: "header \<Rightarrow> string \<Rightarrow> nat \<Rightarrow> string \<Rightarrow> wop list" where
  "error_ops h ctype code page =
     [SetHeader (hset ''Content-Type'' ctype h), WriteHeader code, Write page]"

text \<open>\<open>timeout_race\<close> is the schedule in which the handler goroutine has made the calls \<open>pre\<close> when
  \<^verbatim>\<open>ctx.Done()\<close> is selected and makes the calls \<open>post\<close> afterwards; the middleware holds the
  writer's mutex from setting \<^verbatim>\<open>timedOut\<close> until the error response is written.\<close>

definition timeout_race ::
  "bool \<Rightarrow> string \<Rightarrow> string \<Rightarrow> wop list \<Rightarrow> wop list \<Rightarrow> base statusWriter \<Rightarrow> base statusWriter" where
  "timeout_race canceled ctype page pre post w =
     (let tw1 = server_run pre (server_writer w);
          tw2 = tw1\<lparr>tw_timedOut := True\<rparr>;
          tw3 = (if \<not> tw_wroteHeader tw2
                 then tw2\<lparr>tw_inner := counted_run
                        (error_ops (bheader (sw_inner (tw_inner tw2))) ctype (timeout_code canceled) page) (tw_inner tw2)\<rparr>
                 else tw2)
      in tw_inner (server_run post tw3))"

lemma silenced_op:
  "tw_timedOut tw \<Longrightarrow>
   tw_inner (server_run [op] tw) = tw_inner tw \<and> tw_timedOut (server_run [op] tw)"
  by (cases op)
    (simp_all add: server_run_def run_ops_def exec_op_def tw_put_def tw_WriteHeader_def tw_Write_def tw_Flush_def)

lemma server_run_Cons: "server_run (op # ops) tw = server_run ops (server_run [op] tw)"
  by (simp add: server_run_def run_ops_def)

lemma silenced_run: "tw_timedOut tw \<Longrightarrow> tw_inner (server_run ops tw) = tw_inner tw"
proof (induction ops arbitrary: tw)
  case Nil
  then show ?case by (simp add: server_run_def run_ops_def)
next
  case (Cons op ops)
  then show ?case using silenced_op [of tw op] by (simp add: server_run_Cons [of op ops])
qed

lemma spec_commit_None_body: "spec_commit h ops = None \<Longrightarrow> spec_body ops = []"
  by (induction h ops rule: spec_commit.induct) (auto split: if_splits)

section \<open>Properties of the writers\<close>

text \<open>C3: For every sequence of handler calls (header changes, statuses, writes, flushes), what reaches the
  client through \<^verbatim>\<open>timeoutWriter\<close> and \<^verbatim>\<open>statusWriter\<close> is exactly the contract's result: the first
  final status with the headers set before it (200 at the first write or flush), and all
  the bytes in order; and the status the server counts for its statistics is the one committed.\<close>
theorem writer_stack_transparent:
  assumes "list_all valid_op ops"
  shows "let w = tw_inner (server_run ops (server_writer (newStatusWriter base_new)))
         in bcommit (sw_inner w) = spec_commit [] ops \<and> bbody (sw_inner w) = spec_body ops \<and>
            sw_status w = (case spec_commit [] ops of None \<Rightarrow> 200 | Some (c, h) \<Rightarrow> c)"
  using server_run_correct(1,2,3) [OF assms refl, of base_new]
  by (auto simp: base_new_def Let_def split: option.splits if_splits)

theorem writer_stack_transparent_witness:
  "let ops = [WriteHeader 103, SetHeader [(''X'', ''1'')], WriteHeader 404, WriteHeader 200, Write ''no''];
       w = tw_inner (server_run ops (server_writer (newStatusWriter base_new)))
   in bcommit (sw_inner w) = Some (404, [(''X'', ''1'')]) \<and> bbody (sw_inner w) = ''no'' \<and> sw_status w = 404"
  using writer_stack_transparent [of "[WriteHeader 103, SetHeader [(''X'', ''1'')], WriteHeader 404, WriteHeader 200, Write ''no'']"]
  by (simp add: Let_def informational_def valid_status_def)



text \<open>The access logger's recorder does not follow the contract: it keeps the last status a handler
  passes to it, informational or superfluous ones included, so the logged status differs
  from the one sent to the client.\<close>
theorem recorder_logs_wrong_status:
  "let r = run_ops (rec_put base_put) (rec_WriteHeader base_WriteHeader) (rec_Write base_Write) (rec_Flush base_Flush)
             [WriteHeader 404, Write ''gone'', WriteHeader 200] (acquireStatusRecorder base_new)
   in rec_status r = 200 \<and> bcommit (rec_inner r) = Some (404, [])"
  by code_simp

end
