(* ===== verification/Gzip.thy ===== *)
theory Gzip imports ResponseWriters begin

text \<open>
  The compressing writer of \<^verbatim>\<open>respond.go\<close>: it holds back the first 1400 bytes to decide
  whether to compress, and commits the status only then. \<open>gz_zipped\<close> is the plain text
  handed to the \<^verbatim>\<open>gzip.Writer\<close>, which a client gets back by decompressing;
  \<open>delivered\<close> is what a client reads in the end. \<open>detect\<close> is the standard library's
  \<^verbatim>\<open>http.DetectContentType\<close>. The pools of writers and buffers do not change what is sent.
\<close>

definition minGzipSize :: nat where "minGzipSize = 1400"

record gzipWriter =
  gz_inner :: base
  gz_active :: bool
  gz_zipped :: string
  gz_sniff :: string
  gz_status :: nat
  gz_wroteHeader :: bool
  gz_headerSent :: bool
  gz_skip :: bool

definition newGzip :: "base \<Rightarrow> gzipWriter" where
  "newGzip w = \<lparr>gz_inner = w, gz_active = False, gz_zipped = [], gz_sniff = [], gz_status = 200,
     gz_wroteHeader = False, gz_headerSent = False, gz_skip = False\<rparr>"

text \<open>The middleware's test: it wraps only clients that accept gzip and do not upgrade.\<close>

definition gzip_applies :: "header \<Rightarrow> bool" where
  "gzip_applies h =
     (\<not> (\<not> Contains (hget h ''Accept-Encoding'') ''gzip'' \<or> Contains (hget h ''Connection'') ''Upgrade''))"

definition gz_WriteHeader :: "nat \<Rightarrow> gzipWriter \<Rightarrow> gzipWriter" where
  "gz_WriteHeader c w =
     (if 100 \<le> c \<and> c < 200 then w\<lparr>gz_inner := base_WriteHeader c (gz_inner w)\<rparr>
      else if gz_wroteHeader w then w
      else w\<lparr>gz_status := c, gz_wroteHeader := True\<rparr>)"

definition gz_sendHeader :: "gzipWriter \<Rightarrow> gzipWriter" where
  "gz_sendHeader w =
     (if \<not> gz_headerSent w
      then w\<lparr>gz_inner := base_WriteHeader (gz_status w) (gz_inner w), gz_headerSent := True\<rparr> else w)"

definition gz_inner_write :: "string \<Rightarrow> gzipWriter \<Rightarrow> gzipWriter" where
  "gz_inner_write d w = w\<lparr>gz_inner := base_Write d (gz_inner w)\<rparr>"

definition shouldGzip :: "header \<Rightarrow> string \<Rightarrow> bool" where
  "shouldGzip h ct =
     (let ce = hget h ''Content-Encoding''; cc = ToLower (hget h ''Cache-Control'')
      in \<not> Contains ce ''gzip'' \<and> \<not> Contains cc ''no-transform'' \<and> \<not> Contains ct ''image/'' \<and>
         \<not> Contains ct ''zip'' \<and> \<not> Contains ct ''pdf'' \<and> \<not> Contains ct ''video/'')"

definition gz_flushBuffer :: "(string \<Rightarrow> string) \<Rightarrow> bool \<Rightarrow> gzipWriter \<Rightarrow> gzipWriter" where
  "gz_flushBuffer detect isClosing w0 =
     (let h0 = bheader (gz_inner w0);
          ct0 = hget h0 ''Content-Type'';
          ct = (if ct0 = [] then detect (gz_sniff w0) else ct0);
          h1 = (if ct0 = [] then hset ''Content-Type'' ct h0 else h0);
          w = w0\<lparr>gz_inner := base_put h1 (gz_inner w0)\<rparr>;
          should = (if isClosing \<and> length (gz_sniff w) < minGzipSize then False else shouldGzip h1 ct)
      in if should then
           (let h2 = hdel ''Content-Length'' (hset ''Content-Encoding'' ''gzip'' h1);
                w' = gz_sendHeader (w\<lparr>gz_inner := base_put h2 (gz_inner w)\<rparr>)
            in w'\<lparr>gz_active := True, gz_zipped := gz_zipped w' @ gz_sniff w', gz_sniff := []\<rparr>)
         else
           (let w' = gz_sendHeader (w\<lparr>gz_skip := True\<rparr>)
            in (gz_inner_write (gz_sniff w') w')\<lparr>gz_sniff := []\<rparr>))"

definition gz_Write :: "(string \<Rightarrow> string) \<Rightarrow> string \<Rightarrow> gzipWriter \<Rightarrow> gzipWriter" where
  "gz_Write detect d w0 =
     (let w = (if \<not> gz_wroteHeader w0 then w0\<lparr>gz_status := 200, gz_wroteHeader := True\<rparr> else w0)
      in if d = [] then w
         else if gz_active w then w\<lparr>gz_zipped := gz_zipped w @ d\<rparr>
         else if gz_skip w then gz_inner_write d w
         else let w' = w\<lparr>gz_sniff := gz_sniff w @ d\<rparr>
              in if length (gz_sniff w') \<ge> minGzipSize then gz_flushBuffer detect False w' else w')"

definition gz_DisableGzip :: "gzipWriter \<Rightarrow> gzipWriter" where
  "gz_DisableGzip w0 =
     (if gz_skip w0 \<or> gz_active w0 then w0
      else let w = w0\<lparr>gz_skip := True\<rparr>
           in if \<not> gz_headerSent w then
                gz_sendHeader (if \<not> gz_wroteHeader w then w\<lparr>gz_status := 200, gz_wroteHeader := True\<rparr> else w)
              else w)"

definition gz_Close :: "(string \<Rightarrow> string) \<Rightarrow> gzipWriter \<Rightarrow> gzipWriter" where
  "gz_Close detect w =
     (if gz_active w then w\<lparr>gz_active := False\<rparr>
      else if gz_skip w then w
      else if length (gz_sniff w) > 0 then gz_flushBuffer detect True w
      else gz_sendHeader w)"

definition gz_Flush :: "(string \<Rightarrow> string) \<Rightarrow> gzipWriter \<Rightarrow> gzipWriter" where
  "gz_Flush detect w =
     (let w' = (if \<not> gz_active w \<and> \<not> gz_skip w \<and> length (gz_sniff w) > 0 then gz_flushBuffer detect False w else w)
      in w'\<lparr>gz_inner := base_Flush (gz_inner w')\<rparr>)"

definition gz_put :: "header \<Rightarrow> gzipWriter \<Rightarrow> gzipWriter" where
  "gz_put h w = w\<lparr>gz_inner := base_put h (gz_inner w)\<rparr>"

definition gz_run :: "(string \<Rightarrow> string) \<Rightarrow> wop list \<Rightarrow> gzipWriter \<Rightarrow> gzipWriter" where
  "gz_run detect = run_ops gz_put gz_WriteHeader (gz_Write detect) (gz_Flush detect)"

text \<open>What the client has read once the response is complete.\<close>

definition delivered :: "gzipWriter \<Rightarrow> string" where
  "delivered w = bbody (gz_inner w) @ gz_zipped w"

section \<open>The invariant of the writer\<close>

text \<open>\<open>flush_ok\<close> holds of a run that flushes only once it has written some data.\<close>

fun flush_ok :: "bool \<Rightarrow> wop list \<Rightarrow> bool" where
  "flush_ok seen [] = True"
| "flush_ok seen (Flush # ops) = (seen \<and> flush_ok seen ops)"
| "flush_ok seen (Write d # ops) = flush_ok (seen \<or> d \<noteq> []) ops"
| "flush_ok seen (_ # ops) = flush_ok seen ops"

text \<open>\<open>gz_inv st acc seen w\<close>: the handler has fixed the final status \<open>st\<close> and written \<open>acc\<close> so far. Until
  the header is sent everything is in the sniff buffer; afterwards the buffer is empty and
  the mode is decided, and compressed data is announced as such.\<close>

definition gz_inv :: "nat option \<Rightarrow> string \<Rightarrow> bool \<Rightarrow> gzipWriter \<Rightarrow> bool" where
  "gz_inv st acc seen w \<longleftrightarrow>
     bbody (gz_inner w) @ gz_zipped w @ gz_sniff w = acc \<and> (seen \<longleftrightarrow> acc \<noteq> []) \<and> (seen \<longrightarrow> st \<noteq> None) \<and>
     gz_wroteHeader w = (st \<noteq> None) \<and> gz_status w = (case st of None \<Rightarrow> 200 | Some c \<Rightarrow> c) \<and>
     \<not> informational (gz_status w) \<and>
     (if gz_headerSent w
      then (\<exists>h. bcommit (gz_inner w) = Some (gz_status w, h) \<and>
               (gz_active w \<longrightarrow> hget h ''Content-Encoding'' = ''gzip'' \<and> hget h ''Content-Length'' = [])) \<and>
           gz_sniff w = [] \<and> st \<noteq> None \<and> (gz_active w \<noteq> gz_skip w) \<and>
           (if gz_active w then bbody (gz_inner w) = [] else gz_zipped w = [])
      else bcommit (gz_inner w) = None \<and> \<not> gz_active w \<and> \<not> gz_skip w \<and>
           bbody (gz_inner w) = [] \<and> gz_zipped w = [])"

lemma hget_hdel [simp]: "hget (hdel k h) k' = (if k' = k then [] else hget h k')"
  by (simp add: hget_def hdel_def)

lemmas gz_simps = base_put_def base_WriteHeader_def base_Write_def base_Flush_def Let_def

lemma gz_inv_new: "bcommit b = None \<Longrightarrow> bbody b = [] \<Longrightarrow> gz_inv None [] False (newGzip b)"
  by (simp add: gz_inv_def newGzip_def informational_def)

lemma gz_inv_flushBuffer:
  assumes "gz_inv (Some c) acc seen w" "\<not> gz_headerSent w"
  shows "gz_inv (Some c) acc seen (gz_flushBuffer detect cl w) \<and> gz_headerSent (gz_flushBuffer detect cl w)"
  using assms
  by (auto simp: gz_inv_def gz_flushBuffer_def gz_sendHeader_def gz_inner_write_def gz_simps)

lemma base_put_keeps [simp]: "bcommit (base_put h b) = bcommit b" "bbody (base_put h b) = bbody b"
  by (simp_all add: base_put_def)

lemma gz_inv_put: "gz_inv st acc seen w \<Longrightarrow> gz_inv st acc seen (gz_put h w)"
  by (cases "gz_headerSent w") (auto simp: gz_inv_def gz_put_def)

lemma gz_inv_WriteHeader:
  "gz_inv st acc seen w \<Longrightarrow> valid_status c \<Longrightarrow>
   gz_inv (case st of Some c0 \<Rightarrow> Some c0 | None \<Rightarrow> if informational c then None else Some c) acc seen (gz_WriteHeader c w)"
  by (auto simp: gz_inv_def gz_WriteHeader_def gz_simps informational_def valid_status_def split: option.splits)

lemma gz_inv_started:
  "gz_inv st acc seen w \<Longrightarrow>
   gz_inv (Some (case st of Some c \<Rightarrow> c | None \<Rightarrow> 200)) acc seen
     (if \<not> gz_wroteHeader w then w\<lparr>gz_status := 200, gz_wroteHeader := True\<rparr> else w)"
  by (auto simp: gz_inv_def informational_def split: option.splits)

lemma gz_inv_append:
  assumes "gz_inv (Some c) acc seen w" "d \<noteq> []" "\<not> gz_headerSent w"
  shows "gz_inv (Some c) (acc @ d) True (w\<lparr>gz_sniff := gz_sniff w @ d\<rparr>)"
  using assms by (auto simp: gz_inv_def)

lemma gz_inv_Write:
  assumes "gz_inv st acc seen w0"
  shows "gz_inv (Some (case st of Some c \<Rightarrow> c | None \<Rightarrow> 200)) (acc @ d) (seen \<or> d \<noteq> []) (gz_Write detect d w0)"
proof -
  define w where "w = (if \<not> gz_wroteHeader w0 then w0\<lparr>gz_status := 200, gz_wroteHeader := True\<rparr> else w0)"
  let ?c = "case st of Some c \<Rightarrow> c | None \<Rightarrow> 200"
  have w: "gz_inv (Some ?c) acc seen w" unfolding w_def by (rule gz_inv_started [OF assms])
  have eq: "gz_Write detect d w0 =
     (if d = [] then w
      else if gz_active w then w\<lparr>gz_zipped := gz_zipped w @ d\<rparr>
      else if gz_skip w then gz_inner_write d w
      else let w' = w\<lparr>gz_sniff := gz_sniff w @ d\<rparr>
           in if length (gz_sniff w') \<ge> minGzipSize then gz_flushBuffer detect False w' else w')"
    unfolding gz_Write_def w_def by (simp add: Let_def)
  consider "d = []" | "d \<noteq> []" "gz_headerSent w" | "d \<noteq> []" "\<not> gz_headerSent w" by blast
  then show ?thesis
  proof cases
    case 1
    with w eq show ?thesis by simp
  next
    case 2
    with w eq show ?thesis by (auto simp: gz_inv_def gz_inner_write_def gz_simps)
  next
    case 3
    have a: "gz_inv (Some ?c) (acc @ d) True (w\<lparr>gz_sniff := gz_sniff w @ d\<rparr>)"
      by (rule gz_inv_append [OF w 3])
    have m: "\<not> gz_active w" "\<not> gz_skip w" using w 3 by (simp_all add: gz_inv_def)
    show ?thesis unfolding eq
      using a m 3 gz_inv_flushBuffer [OF a] by (simp add: Let_def)
  qed
qed

lemma gz_inv_Flush:
  assumes "gz_inv st acc True w" "st \<noteq> None"
  shows "gz_inv st acc True (gz_Flush detect w)"
proof (cases "gz_headerSent w")
  case True
  with assms show ?thesis by (auto simp: gz_inv_def gz_Flush_def gz_simps)
next
  case False
  obtain c where c: "st = Some c" using assms(2) by auto
  have f: "gz_inv st acc True (gz_flushBuffer detect False w)" "gz_headerSent (gz_flushBuffer detect False w)"
    using gz_inv_flushBuffer [of c acc True w detect False] assms(1) c False by auto
  have "\<not> gz_active w \<and> \<not> gz_skip w \<and> length (gz_sniff w) > 0"
    using assms(1) False by (auto simp: gz_inv_def)
  then have "gz_Flush detect w =
      (gz_flushBuffer detect False w)\<lparr>gz_inner := base_Flush (gz_inner (gz_flushBuffer detect False w))\<rparr>"
    by (simp add: gz_Flush_def Let_def)
  moreover have "base_Flush (gz_inner (gz_flushBuffer detect False w)) = gz_inner (gz_flushBuffer detect False w)"
    using f by (auto simp: gz_inv_def base_Flush_def)
  ultimately show ?thesis using f(1) by simp
qed

text \<open>The status a run of calls fixes: the first final one, 200 at a write or flush.\<close>

fun first_status :: "wop list \<Rightarrow> nat option" where
  "first_status [] = None"
| "first_status (SetHeader h # ops) = first_status ops"
| "first_status (WriteHeader c # ops) = (if informational c then first_status ops else Some c)"
| "first_status (Write d # ops) = Some 200"
| "first_status (Flush # ops) = Some 200"

lemma first_status_spec: "first_status ops = map_option fst (spec_commit h ops)"
  by (induction h ops rule: spec_commit.induct) auto

definition spec_status :: "nat option \<Rightarrow> wop list \<Rightarrow> nat option" where
  "spec_status st ops = (case st of Some c \<Rightarrow> Some c | None \<Rightarrow> first_status ops)"

lemma gz_inv_run:
  "gz_inv st acc seen w \<Longrightarrow> (seen \<Longrightarrow> st \<noteq> None) \<Longrightarrow> list_all valid_op ops \<Longrightarrow> flush_ok seen ops \<Longrightarrow>
   \<exists>seen'. gz_inv (spec_status st ops) (acc @ spec_body ops) seen' (gz_run detect ops w)"
proof (induction ops arbitrary: st acc seen w)
  case Nil
  then show ?case by (auto simp: gz_run_def run_ops_def spec_status_def split: option.split)
next
  case (Cons op ops)
  have run: "gz_run detect (op # ops) w =
      gz_run detect ops (exec_op gz_put gz_WriteHeader (gz_Write detect) (gz_Flush detect) op w)"
    by (simp add: gz_run_def run_ops_def)
  show ?case
  proof (cases op)
    case (SetHeader h)
    have s: "spec_status st (op # ops) = spec_status st ops"
      using SetHeader by (simp add: spec_status_def split: option.split)
    show ?thesis unfolding run s
      using Cons.IH [OF gz_inv_put [OF Cons.prems(1), of h] Cons.prems(2)] Cons.prems SetHeader
      by (simp add: exec_op_def)
  next
    case (WriteHeader c)
    let ?st = "case st of Some c0 \<Rightarrow> Some c0 | None \<Rightarrow> if informational c then None else Some c"
    have s: "spec_status st (op # ops) = spec_status ?st ops"
      using WriteHeader by (simp add: spec_status_def split: option.split)
    have v: "valid_status c" using Cons.prems WriteHeader by simp
    have "seen \<Longrightarrow> ?st \<noteq> None" using Cons.prems(2) by auto
    then show ?thesis unfolding run s
      using Cons.IH [OF gz_inv_WriteHeader [OF Cons.prems(1) v]] Cons.prems WriteHeader
      by (simp add: exec_op_def)
  next
    case (Write d)
    let ?st = "Some (case st of Some c \<Rightarrow> c | None \<Rightarrow> 200)"
    have s: "spec_status st (op # ops) = spec_status ?st ops"
      using Write by (simp add: spec_status_def split: option.split)
    show ?thesis unfolding run s
      using Cons.IH [OF gz_inv_Write [OF Cons.prems(1), of d detect]] Cons.prems Write
      by (simp add: exec_op_def)
  next
    case Flush
    then have seen: "seen" "flush_ok seen ops" using Cons.prems by auto
    then obtain c where c: "st = Some c" using Cons.prems(2) by auto
    have s: "spec_status st (op # ops) = spec_status st ops" by (simp add: spec_status_def c)
    have i: "gz_inv st acc seen (gz_Flush detect w)"
      using gz_inv_Flush [of st acc w detect] Cons.prems(1) seen c by simp
    show ?thesis unfolding run s
      using Cons.IH [OF i Cons.prems(2)] Cons.prems seen Flush by (simp add: exec_op_def)
  qed
qed

lemma gz_Close_delivers:
  assumes "gz_inv st acc seen w"
  shows "delivered (gz_Close detect w) = acc \<and>
         (\<exists>h. bcommit (gz_inner (gz_Close detect w)) = Some (case st of None \<Rightarrow> 200 | Some c \<Rightarrow> c, h) \<and>
              (gz_zipped (gz_Close detect w) \<noteq> [] \<longrightarrow> hget h ''Content-Encoding'' = ''gzip'' \<and> hget h ''Content-Length'' = []))"
proof (cases "gz_headerSent w")
  case True
  with assms show ?thesis
    by (cases "gz_active w") (auto simp: gz_inv_def gz_Close_def delivered_def)
next
  case False
  then have m: "\<not> gz_active w" "\<not> gz_skip w" using assms by (simp_all add: gz_inv_def)
  show ?thesis
  proof (cases "gz_sniff w = []")
    case True
    with assms False m show ?thesis
      by (auto simp: gz_inv_def gz_Close_def delivered_def gz_sendHeader_def base_WriteHeader_def)
  next
    case ne: False
    then obtain c where c: "st = Some c"
      using assms False by (cases st) (auto simp: gz_inv_def)
    have f: "gz_inv (Some c) acc seen (gz_flushBuffer detect True w)" "gz_headerSent (gz_flushBuffer detect True w)"
      using gz_inv_flushBuffer [of c acc seen w detect True] assms False c by auto
    have "gz_Close detect w = gz_flushBuffer detect True w"
      using m ne by (simp add: gz_Close_def)
    then show ?thesis using f c
      by (cases "gz_active (gz_flushBuffer detect True w)") (auto simp: gz_inv_def delivered_def)
  qed
qed

section \<open>Properties of the compressing writer\<close>



text \<open>A handler that flushes before it has written any data loses its status: the writer holds the
  status back but passes the flush on, which commits 200.\<close>
theorem gzip_flush_loses_status:
  "map_option fst (bcommit (gz_inner (gz_Close detect (gz_run detect [WriteHeader 404, Flush] (newGzip base_new))))) = Some 200 \<and>
   first_status [WriteHeader 404, Flush] = Some 404"
  by (simp add: gz_run_def run_ops_def exec_op_def gz_WriteHeader_def gz_Flush_def gz_Close_def newGzip_def base_new_def
      gz_sendHeader_def base_Flush_def base_WriteHeader_def informational_def Let_def)

text \<open>Opening a stream after a small write drops what was written: \<^verbatim>\<open>DisableGzip\<close>, which
  \<^verbatim>\<open>NewStreamWithStatus\<close> calls, sends the header and turns compression off, but the
  bytes still in the sniff buffer are neither sent then nor when the writer is closed.\<close>
theorem gzip_disable_drops_data:
  assumes "0 < length d" and "length d < minGzipSize"
  shows "delivered (gz_Close detect (gz_DisableGzip (gz_Write detect d (newGzip base_new)))) = []"
  using assms
  by (simp add: gz_Write_def gz_DisableGzip_def gz_Close_def newGzip_def base_new_def gz_sendHeader_def
      base_WriteHeader_def delivered_def informational_def Let_def)

theorem gzip_disable_drops_data_witness:
  "delivered (gz_Close (\<lambda>_. ''text/html'') (gz_DisableGzip (gz_Write (\<lambda>_. ''text/html'') ''<html>'' (newGzip base_new)))) = []"
  by (rule gzip_disable_drops_data) (simp_all add: minGzipSize_def)

end
