(* ===== verification/Lifecycle.thy ===== *)
theory Lifecycle imports GoPrelude begin

text \<open>
  Work tracking and graceful shutdown (\<^verbatim>\<open>lifecycle.go\<close>, with \<^verbatim>\<open>RunAsync\<close> of \<^verbatim>\<open>cron.go\<close> as a client)
  and load shedding (\<^verbatim>\<open>loadshedding.go\<close> with the lease taken over by \<^verbatim>\<open>timeout.go\<close>), as step
  relations: one rule per atomic action of a goroutine, so every interleaving of
  requests, background tasks and the shutdown sequence is a run. \<open>active\<close> is a ghost field, the
  tasks between a successful \<^verbatim>\<open>beginWork\<close> and its \<^verbatim>\<open>Done\<close>.
\<close>

section \<open>Work tracking and shutdown\<close>

text \<open>Where the goroutine started by \<^verbatim>\<open>shutdown\<close> stands; the flag is whether \<^verbatim>\<open>srv.Shutdown\<close> failed.\<close>

datatype shutdown_pc = NotStarted | InServerShutdown | AwaitCron bool | AwaitWork bool | ClosingDeps bool | Finished bool

datatype shutdown_result = ShutdownErr bool | ContextErr

record lifecycle =
  stopping :: bool
  backgroundWg :: nat
  active :: "nat set"
  pc :: shutdown_pc
  cronDone :: bool
  ctxDone :: bool
  depsClosed :: bool
  returned :: "shutdown_result option"

definition lifecycle_init :: lifecycle where
  "lifecycle_init = \<lparr>stopping = False, backgroundWg = 0, active = {}, pc = NotStarted, cronDone = False,
     ctxDone = False, depsClosed = False, returned = None\<rparr>"

definition beginWork :: "lifecycle \<Rightarrow> bool \<times> lifecycle" where
  "beginWork s = (if stopping s then (False, s) else (True, s\<lparr>backgroundWg := backgroundWg s + 1\<rparr>))"

definition isStopping :: "lifecycle \<Rightarrow> bool" where
  "isStopping s = stopping s"

definition workDone :: "lifecycle \<Rightarrow> lifecycle" where
  "workDone s = s\<lparr>backgroundWg := backgroundWg s - 1\<rparr>"

inductive life_step :: "lifecycle \<Rightarrow> lifecycle \<Rightarrow> bool" where
  begin_work: "beginWork s = (True, s') \<Longrightarrow> i \<notin> active s \<Longrightarrow> life_step s (s'\<lparr>active := insert i (active s')\<rparr>)"
| refused: "beginWork s = (False, s') \<Longrightarrow> life_step s s'"
| finish_work: "i \<in> active s \<Longrightarrow> life_step s ((workDone s)\<lparr>active := active s - {i}\<rparr>)"
| call_shutdown: "pc s = NotStarted \<Longrightarrow> life_step s (s\<lparr>stopping := True, pc := InServerShutdown\<rparr>)"
| cron_stopped: "pc s \<noteq> NotStarted \<Longrightarrow> life_step s (s\<lparr>cronDone := True\<rparr>)"
| server_shut: "pc s = InServerShutdown \<Longrightarrow> life_step s (s\<lparr>pc := AwaitCron e\<rparr>)"
| cron_joined: "pc s = AwaitCron e \<Longrightarrow> cronDone s \<Longrightarrow> life_step s (s\<lparr>pc := AwaitWork e\<rparr>)"
| work_joined: "pc s = AwaitWork e \<Longrightarrow> backgroundWg s = 0 \<Longrightarrow> life_step s (s\<lparr>pc := ClosingDeps e\<rparr>)"
| close_deps: "pc s = ClosingDeps e \<Longrightarrow> life_step s (s\<lparr>depsClosed := True, pc := Finished e\<rparr>)"
| deadline: "pc s \<noteq> NotStarted \<Longrightarrow> life_step s (s\<lparr>ctxDone := True\<rparr>)"
| return_done: "pc s = Finished e \<Longrightarrow> returned s = None \<Longrightarrow> life_step s (s\<lparr>returned := Some (ShutdownErr e)\<rparr>)"
| return_ctx: "ctxDone s \<Longrightarrow> returned s = None \<Longrightarrow> life_step s (s\<lparr>returned := Some ContextErr\<rparr>)"

inductive life_reachable :: "lifecycle \<Rightarrow> bool" where
  life_start: "life_reachable lifecycle_init"
| life_next: "life_reachable s \<Longrightarrow> life_step s t \<Longrightarrow> life_reachable t"

inductive_cases life_stepE: "life_step s t"

text \<open>The phases in order; past \<open>AwaitWork\<close> the wait group has been joined.\<close>

fun joined :: "shutdown_pc \<Rightarrow> bool" where
  "joined (ClosingDeps e) = True"
| "joined (Finished e) = True"
| "joined _ = False"

fun past_cron :: "shutdown_pc \<Rightarrow> bool" where
  "past_cron (AwaitWork e) = True"
| "past_cron p = joined p"

definition life_inv :: "lifecycle \<Rightarrow> bool" where
  "life_inv s \<longleftrightarrow> finite (active s) \<and> card (active s) = backgroundWg s \<and>
     (stopping s \<longleftrightarrow> pc s \<noteq> NotStarted) \<and> (joined (pc s) \<longrightarrow> backgroundWg s = 0) \<and>
     (past_cron (pc s) \<longrightarrow> cronDone s) \<and> (depsClosed s \<longleftrightarrow> (\<exists>e. pc s = Finished e)) \<and>
     (\<forall>e. returned s = Some (ShutdownErr e) \<longrightarrow> pc s = Finished e)"

lemma life_inv_init: "life_inv lifecycle_init"
  by (simp add: life_inv_def lifecycle_init_def)

lemma life_step_inv: "life_step s t \<Longrightarrow> life_inv s \<Longrightarrow> life_inv t"
proof (induction rule: life_step.induct)
  case (finish_work i s)
  then have "card (active s) \<noteq> 0" by (auto simp: life_inv_def)
  with finish_work show ?case by (auto simp: life_inv_def workDone_def card_Diff_singleton)
qed (auto simp: life_inv_def beginWork_def split: if_splits)

lemma life_reachable_inv: "life_reachable s \<Longrightarrow> life_inv s"
  by (induction rule: life_reachable.induct) (auto intro: life_inv_init life_step_inv)

lemma drain_work:
  "finite A \<Longrightarrow> active s = A \<Longrightarrow> life_inv s \<Longrightarrow>
   \<exists>t. life_step\<^sup>*\<^sup>* s t \<and> active t = {} \<and> pc t = pc s \<and> life_inv t"
proof (induction A arbitrary: s rule: finite_induct)
  case (insert i A)
  let ?s = "(workDone s)\<lparr>active := active s - {i}\<rparr>"
  have st: "life_step s ?s" using insert.prems by (intro life_step.finish_work) auto
  have "active ?s = A" using insert.prems insert.hyps by auto
  from insert.IH [OF this life_step_inv [OF st insert.prems(2)]]
  obtain t where "life_step\<^sup>*\<^sup>* ?s t" "active t = {}" "pc t = pc ?s" "life_inv t" by blast
  with st show ?case by (auto simp: workDone_def intro: converse_rtranclp_into_rtranclp)
qed auto

lemma life_step_to: "life_step s t \<Longrightarrow> life_step\<^sup>*\<^sup>* t u \<Longrightarrow> life_step\<^sup>*\<^sup>* s u"
  by (rule converse_rtranclp_into_rtranclp)

text \<open>From each phase the shutdown can go on once the remaining work has ended.\<close>

lemma finish_from_closing: "pc s = ClosingDeps e \<Longrightarrow> \<exists>t. life_step\<^sup>*\<^sup>* s t \<and> depsClosed t"
  by (rule exI [of _ "s\<lparr>depsClosed := True, pc := Finished e\<rparr>"]) (auto intro: life_step.close_deps)

lemma finish_from_work: "pc s = AwaitWork e \<Longrightarrow> life_inv s \<Longrightarrow> \<exists>t. life_step\<^sup>*\<^sup>* s t \<and> depsClosed t"
proof -
  assume p: "pc s = AwaitWork e" and i: "life_inv s"
  have fin: "finite (active s)" using i by (simp add: life_inv_def)
  obtain t where t: "life_step\<^sup>*\<^sup>* s t" "active t = {}" "pc t = pc s" "life_inv t"
    using drain_work [OF fin refl i] by blast
  let ?u = "t\<lparr>pc := ClosingDeps e\<rparr>"
  have "life_step t ?u" using t p by (intro life_step.work_joined) (auto simp: life_inv_def)
  moreover have "\<exists>v. life_step\<^sup>*\<^sup>* ?u v \<and> depsClosed v" by (rule finish_from_closing) simp
  ultimately show ?thesis using t(1) life_step_to by (meson rtranclp_trans)
qed

lemma finish_from_cron: "pc s = AwaitCron e \<Longrightarrow> life_inv s \<Longrightarrow> \<exists>t. life_step\<^sup>*\<^sup>* s t \<and> depsClosed t"
proof -
  assume p: "pc s = AwaitCron e" and i: "life_inv s"
  let ?t = "s\<lparr>cronDone := True\<rparr>"
  let ?u = "?t\<lparr>pc := AwaitWork e\<rparr>"
  have st: "life_step s ?t" by (rule life_step.cron_stopped) (simp add: p)
  have tu: "life_step ?t ?u" by (rule life_step.cron_joined) (simp_all add: p)
  have "life_inv ?u" by (rule life_step_inv [OF tu life_step_inv [OF st i]])
  then have "\<exists>v. life_step\<^sup>*\<^sup>* ?u v \<and> depsClosed v" by (intro finish_from_work) simp_all
  with st tu life_step_to show ?thesis by blast
qed

lemma finish_from_any: "stopping s \<Longrightarrow> life_inv s \<Longrightarrow> \<exists>t. life_step\<^sup>*\<^sup>* s t \<and> depsClosed t"
proof (cases "pc s")
  case InServerShutdown
  assume i: "life_inv s"
  let ?t = "s\<lparr>pc := AwaitCron False\<rparr>"
  have st: "life_step s ?t" by (rule life_step.server_shut [OF InServerShutdown])
  have "\<exists>v. life_step\<^sup>*\<^sup>* ?t v \<and> depsClosed v"
    by (rule finish_from_cron [where e = False]) (simp_all add: life_step_inv [OF st i])
  with st life_step_to show ?thesis by blast
qed (auto simp: life_inv_def intro: finish_from_cron finish_from_work finish_from_closing)

section \<open>Load shedding\<close>

text \<open>
  \<open>sem\<close> is the number of tokens in the semaphore channel, \<open>refs\<close> the reference count of a request's
  lease. The request's own frame (\<open>frames\<close>) holds one reference; every handler goroutine that
  \<^verbatim>\<open>TimeoutMiddleware\<close> starts for it (\<open>routines\<close>) holds one more, so a handler that outlives
  its deadline keeps its slot. \<open>releases\<close> is a ghost counter.
\<close>

record shedder =
  limit :: nat
  sem :: nat
  refs :: "nat \<Rightarrow> int"
  seen :: "nat set"
  frames :: "nat set"
  routines :: "nat \<Rightarrow> nat"
  releases :: "nat \<Rightarrow> nat"

definition shedder_limit :: "int \<Rightarrow> nat" where
  "shedder_limit maxConcurrent = (if maxConcurrent \<le> 0 then 1000 else nat maxConcurrent)"

definition shedder_init :: "int \<Rightarrow> shedder" where
  "shedder_init maxConcurrent = \<lparr>limit = shedder_limit maxConcurrent, sem = 0, refs = (\<lambda>_. 0), seen = {},
     frames = {}, routines = (\<lambda>_. 0), releases = (\<lambda>_. 0)\<rparr>"

definition lease_done :: "nat \<Rightarrow> shedder \<Rightarrow> shedder" where
  "lease_done i s =
     (let s' = s\<lparr>refs := (refs s)(i := refs s i - 1)\<rparr>
      in if refs s' i = 0 then s'\<lparr>sem := sem s' - 1, releases := (releases s')(i := releases s' i + 1)\<rparr> else s')"

text \<open>The \<^verbatim>\<open>select\<close> of the middleware: a send on the channel when it has room, else the overload answer.\<close>

definition shed_admit :: "nat \<Rightarrow> shedder \<Rightarrow> shedder option" where
  "shed_admit i s =
     (if sem s < limit s
      then Some (s\<lparr>sem := sem s + 1, refs := (refs s)(i := 1), seen := insert i (seen s), frames := insert i (frames s)\<rparr>)
      else None)"

inductive shed_step :: "shedder \<Rightarrow> shedder \<Rightarrow> bool" where
  admit: "i \<notin> seen s \<Longrightarrow> shed_admit i s = Some s' \<Longrightarrow> shed_step s s'"
| overload: "shed_admit i s = None \<Longrightarrow> shed_step s s"
| spawn: "i \<in> frames s \<Longrightarrow>
     shed_step s (s\<lparr>refs := (refs s)(i := refs s i + 1), routines := (routines s)(i := routines s i + 1)\<rparr>)"
| routine_ends: "routines s i > 0 \<Longrightarrow>
     shed_step s (lease_done i (s\<lparr>routines := (routines s)(i := routines s i - 1)\<rparr>))"
| frame_ends: "i \<in> frames s \<Longrightarrow> shed_step s (lease_done i (s\<lparr>frames := frames s - {i}\<rparr>))"

inductive shed_reachable :: "int \<Rightarrow> shedder \<Rightarrow> bool" for n where
  shed_start: "shed_reachable n (shedder_init n)"
| shed_next: "shed_reachable n s \<Longrightarrow> shed_step s t \<Longrightarrow> shed_reachable n t"

definition busy :: "shedder \<Rightarrow> nat set" where
  "busy s = {i. i \<in> frames s \<or> routines s i > 0}"

definition shed_inv :: "shedder \<Rightarrow> bool" where
  "shed_inv s \<longleftrightarrow>
     finite (seen s) \<and> busy s \<subseteq> seen s \<and> sem s = card (busy s) \<and> sem s \<le> limit s \<and>
     (\<forall>i. refs s i = (if i \<in> frames s then 1 else 0) + int (routines s i)) \<and>
     (\<forall>i. releases s i = (if i \<in> seen s \<and> i \<notin> busy s then 1 else 0))"

lemma shed_inv_init: "shed_inv (shedder_init n)"
  by (simp add: shed_inv_def shedder_init_def busy_def)

lemma shed_inv_busy: "shed_inv s \<Longrightarrow> finite (busy s)"
  unfolding shed_inv_def by (blast intro: finite_subset)

lemma shed_inv_admit:
  assumes "shed_inv s" "i \<notin> seen s" "shed_admit i s = Some t"
  shows "shed_inv t"
proof -
  have t: "t = s\<lparr>sem := sem s + 1, refs := (refs s)(i := 1), seen := insert i (seen s), frames := insert i (frames s)\<rparr>"
    "sem s < limit s" using assms(3) by (simp_all add: shed_admit_def split: if_splits)
  have i: "i \<notin> busy s" "routines s i = 0" "i \<notin> frames s" using assms(1,2) by (auto simp: shed_inv_def busy_def)
  have b: "busy t = insert i (busy s)" by (auto simp: t busy_def)
  show ?thesis using assms(1,2) shed_inv_busy [OF assms(1)] i t(2)
    by (auto simp: shed_inv_def b) (auto simp: t)
qed

lemma busy_lease_done: "busy (lease_done i s) = busy s"
  by (simp add: lease_done_def Let_def busy_def)

lemma lease_done_fields:
  "frames (lease_done i s) = frames s" "routines (lease_done i s) = routines s" "seen (lease_done i s) = seen s"
  "limit (lease_done i s) = limit s" "refs (lease_done i s) = (refs s)(i := refs s i - 1)"
  "sem (lease_done i s) = (if refs s i = 1 then sem s - 1 else sem s)"
  "releases (lease_done i s) = (if refs s i = 1 then (releases s)(i := releases s i + 1) else releases s)"
  by (simp_all add: lease_done_def Let_def)

lemma shed_inv_done:
  assumes inv: "shed_inv s" and i: "i \<in> busy s"
    and F: "F - {i} = frames s - {i}" and R: "\<forall>j. j \<noteq> i \<longrightarrow> R j = routines s j"
    and ref: "refs s i - 1 = (if i \<in> F then 1 else 0) + int (R i)"
  shows "shed_inv (lease_done i (s\<lparr>frames := F, routines := R\<rparr>))" (is "shed_inv (lease_done i ?s)")
proof -
  have others: "j \<in> F \<longleftrightarrow> j \<in> frames s" if "j \<noteq> i" for j using F that by blast
  have busy_iff: "j \<in> busy ?s \<longleftrightarrow> (if j = i then refs s i \<noteq> 1 else j \<in> busy s)" for j
    using ref R others by (auto simp: busy_def split: if_splits)
  have b: "busy ?s = (if refs s i = 1 then busy s - {i} else busy s)"
  proof (rule set_eqI)
    show "j \<in> busy ?s \<longleftrightarrow> j \<in> (if refs s i = 1 then busy s - {i} else busy s)" for j
      unfolding busy_iff using i by simp
  qed
  have fin: "finite (busy s)" by (rule shed_inv_busy [OF inv])
  have lim: "sem s = card (busy s) \<and> sem s \<le> limit s" using inv by (simp add: shed_inv_def)
  then have c: "(if refs s i = 1 then sem s - 1 else sem s) = card (busy ?s) \<and> sem s - 1 \<le> limit s \<and> sem s \<le> limit s"
    using i by (simp add: b card_Diff_singleton) linarith
  have r: "((refs s)(i := refs s i - 1)) j = (if j \<in> F then 1 else 0) + int (R j)" for j
    using inv ref R others by (auto simp: shed_inv_def)
  have l: "(if refs s i = 1 then (releases s)(i := releases s i + 1) else releases s) j
            = (if j \<in> seen s \<and> j \<notin> busy ?s then 1 else 0)" for j
    using inv i by (auto simp: b shed_inv_def)
  have u: "finite (seen s) \<and> busy ?s \<subseteq> seen s" using inv by (auto simp: b shed_inv_def)
  have f: "refs ?s = refs s" "releases ?s = releases s" "sem ?s = sem s" "seen ?s = seen s" "limit ?s = limit s"
    "frames ?s = F" "routines ?s = R" by simp_all
  show ?thesis
    unfolding shed_inv_def busy_lease_done lease_done_fields f
  proof (intro conjI allI)
    show "((refs s)(i := refs s i - 1)) j = (if j \<in> F then 1 else 0) + int (R j)" for j by (rule r)
    show "(if refs s i = 1 then (releases s)(i := releases s i + 1) else releases s) j
            = (if j \<in> seen s \<and> j \<notin> busy ?s then 1 else 0)" for j by (rule l)
    show "(if refs s i = 1 then sem s - 1 else sem s) \<le> limit s" using c by presburger
  qed (use c u in simp_all)
qed

lemma shed_step_inv: "shed_step s t \<Longrightarrow> shed_inv s \<Longrightarrow> shed_inv t"
proof (induction rule: shed_step.induct)
  case (admit i s s')
  then show ?case by (blast intro: shed_inv_admit)
next
  case (spawn i s)
  then have "busy (s\<lparr>refs := (refs s)(i := refs s i + 1), routines := (routines s)(i := routines s i + 1)\<rparr>) = busy s"
    by (auto simp: busy_def)
  with spawn show ?case by (auto simp: shed_inv_def)
next
  case (routine_ends s i)
  then have "shed_inv (lease_done i (s\<lparr>frames := frames s, routines := (routines s)(i := routines s i - 1)\<rparr>))"
    by (intro shed_inv_done) (auto simp: busy_def shed_inv_def of_nat_diff)
  then show ?case by simp
next
  case (frame_ends i s)
  then have "shed_inv (lease_done i (s\<lparr>frames := frames s - {i}, routines := routines s\<rparr>))"
    by (intro shed_inv_done) (auto simp: busy_def shed_inv_def)
  then show ?case by simp
qed

lemma shed_reachable_inv: "shed_reachable n s \<Longrightarrow> shed_inv s"
  by (induction rule: shed_reachable.induct) (auto intro: shed_inv_init shed_step_inv)

lemma limit_constant: "shed_step s t \<Longrightarrow> limit t = limit s"
  by (induction rule: shed_step.induct) (auto simp: shed_admit_def lease_done_def Let_def split: if_splits)

lemma shed_reachable_limit: "shed_reachable n s \<Longrightarrow> limit s = shedder_limit n"
  by (induction rule: shed_reachable.induct) (auto simp: shedder_init_def limit_constant)

section \<open>Properties\<close>

text \<open>C6: Shutdown never closes the dependencies under running work: in every reachable state in which they
  are closed, the cron manager has stopped, no request or background task is running, and
  none can start any more; and a shutdown that returns its server's result has closed them.\<close>
theorem shutdown_closes_after_work:
  assumes "life_reachable s" and "depsClosed s \<or> returned s = Some (ShutdownErr e)"
  shows "active s = {} \<and> backgroundWg s = 0 \<and> cronDone s \<and> depsClosed s \<and> \<not> fst (beginWork s)"
  using life_reachable_inv [OF assms(1)] assms(2) by (auto simp: life_inv_def beginWork_def)

theorem shutdown_closes_after_work_witness:
  "\<exists>s. life_reachable s \<and> depsClosed s \<and> active s = {} \<and> \<not> fst (beginWork s)"
proof -
  have "life_inv (lifecycle_init\<lparr>stopping := True, pc := InServerShutdown\<rparr>)"
    by (rule life_step_inv [OF life_step.call_shutdown life_inv_init]) (simp add: lifecycle_init_def)
  then obtain t where t: "life_step\<^sup>*\<^sup>* (lifecycle_init\<lparr>stopping := True, pc := InServerShutdown\<rparr>) t" "depsClosed t"
    using finish_from_any [of "lifecycle_init\<lparr>stopping := True, pc := InServerShutdown\<rparr>"] by auto
  have r: "life_reachable (lifecycle_init\<lparr>stopping := True, pc := InServerShutdown\<rparr>)"
    by (rule life_reachable.life_next [OF life_reachable.life_start life_step.call_shutdown])
      (simp add: lifecycle_init_def)
  have "life_reachable t" using t(1) r
    by (induction rule: rtranclp_induct) (blast intro: life_reachable.life_next)+
  with t(2) shutdown_closes_after_work [of t] show ?thesis by blast
qed

text \<open>C7: Shutdown cannot get stuck: from every reachable state in which it has been called, whatever is
  still running, the system can go on to the state in which the dependencies are closed.\<close>
theorem shutdown_can_finish:
  assumes "life_reachable s" and "stopping s"
  shows "\<exists>t. life_step\<^sup>*\<^sup>* s t \<and> depsClosed t"
  using life_reachable_inv [OF assms(1)] assms(2) by (blast intro: finish_from_any)

theorem shutdown_can_finish_witness:
  "\<exists>t. life_step\<^sup>*\<^sup>* (lifecycle_init\<lparr>stopping := True, pc := InServerShutdown\<rparr>) t \<and> depsClosed t"
  by (rule shutdown_can_finish, rule life_reachable.life_next [OF life_reachable.life_start life_step.call_shutdown])
    (simp_all add: lifecycle_init_def)

text \<open>C8: Load shedding accounts for every slot: in every reachable state the semaphore holds exactly one
  token per request whose middleware frame or handler goroutine still runs, never more than the
  configured limit (1000 when none is configured), and a request's slot has been released
  exactly once when both have ended and not before.\<close>
theorem shedder_slots:
  assumes "shed_reachable n s"
  shows "sem s = card (busy s) \<and> sem s \<le> shedder_limit n \<and>
         (i \<in> seen s \<longrightarrow> releases s i = (if i \<in> busy s then 0 else 1))"
  using shed_reachable_inv [OF assms] shed_reachable_limit [OF assms] by (auto simp: shed_inv_def)

theorem shedder_slots_witness:
  "\<exists>s. shed_reachable 1 s \<and> busy s = {7} \<and> sem s = 1 \<and> sem s \<le> shedder_limit 1"
proof -
  let ?s = "(shedder_init 1)\<lparr>sem := 1, refs := (refs (shedder_init 1))(7 := 1), seen := {7}, frames := {7}\<rparr>"
  have "shed_step (shedder_init 1) ?s"
    by (rule shed_step.admit [of 7]) (simp_all add: shedder_init_def shed_admit_def shedder_limit_def)
  then have r: "shed_reachable 1 ?s" by (rule shed_reachable.shed_next [OF shed_reachable.shed_start])
  have "busy ?s = {7}" by (auto simp: busy_def shedder_init_def)
  with r shedder_slots [OF r] show ?thesis by (intro exI [of _ ?s]) simp
qed

end
