(* ===== verification/Http.thy ===== *)
theory Http imports Router ResponseWriters begin

text \<open>
  Requests, handlers and middlewares (\<^verbatim>\<open>error.go\<close>, \<^verbatim>\<open>header.go\<close>, \<^verbatim>\<open>requestid.go\<close>, \<^verbatim>\<open>prefix.go\<close>,
  \<^verbatim>\<open>redirect.go\<close>, \<^verbatim>\<open>security.go\<close>, \<^verbatim>\<open>protect.go\<close>, \<^verbatim>\<open>recovery.go\<close>). A handler is a function from the
  request and the state of the response writer it is given (the server's \<^verbatim>\<open>statusWriter\<close> over the
  connection) to the writer's new state and a flag telling whether it panicked. The body of
  the error page (a template) is a parameter of the environment; log lines and the error
  notifier are not modelled.
\<close>

section \<open>Requests and calls on the writer\<close>

record request =
  rMethod :: string
  rHost :: string
  rPath :: string
  rRawPath :: string
  rRawQuery :: string
  rURLLen :: int
  rHeaders :: header
  rContentLength :: int
  rTLS :: bool
  rRemoteAddr :: string
  rRequestID :: "string option"
  rParams :: "params option"

type_synonym rw = "base statusWriter"
type_synonym handler = "request \<Rightarrow> rw \<Rightarrow> rw \<times> bool"
type_synonym middleware = "handler \<Rightarrow> handler"

definition w_header :: "rw \<Rightarrow> header" where "w_header w = bheader (sw_inner w)"

definition w_set :: "string \<Rightarrow> string \<Rightarrow> rw \<Rightarrow> rw" where
  "w_set k v w = sw_put base_put (hset k v (w_header w)) w"

definition w_del :: "string \<Rightarrow> rw \<Rightarrow> rw" where
  "w_del k w = sw_put base_put (hdel k (w_header w)) w"

definition w_status :: "nat \<Rightarrow> rw \<Rightarrow> rw" where
  "w_status c w = sw_WriteHeader base_WriteHeader c w"

definition w_write :: "string \<Rightarrow> rw \<Rightarrow> rw" where
  "w_write d w = sw_Write base_WriteHeader base_Write d w"

text \<open>What reaches the client from a writer: the calls between two states of it.\<close>

definition calls :: "rw \<Rightarrow> rw \<Rightarrow> bool" where
  "calls w w' \<longleftrightarrow> (\<exists>ops. list_all valid_op ops \<and> w' = counted_run ops w)"

definition well_behaved :: "handler \<Rightarrow> bool" where
  "well_behaved h \<longleftrightarrow> (\<forall>r w. calls w (fst (h r w)))"

lemma counted_run_Nil: "counted_run [] w = w"
  by (simp add: counted_run_def run_ops_def)

lemma counted_run_append: "counted_run (a @ b) w = counted_run b (counted_run a w)"
  by (simp add: counted_run_def run_ops_def)

lemma calls_refl [intro, simp]: "calls w w"
  unfolding calls_def by (rule exI [of _ "[]"]) (simp add: counted_run_Nil)

lemma calls_trans: "calls u v \<Longrightarrow> calls v w \<Longrightarrow> calls u w"
  unfolding calls_def by (metis counted_run_append list_all_append)

lemma calls_op: "valid_op op \<Longrightarrow> calls w (counted_run [op] w)"
  unfolding calls_def by (rule exI [of _ "[op]"]) simp

lemma calls_put: "calls w (sw_put base_put h w)"
  using calls_op [of "SetHeader h" w] by (simp add: counted_run_def run_ops_def exec_op_def)

lemma calls_basic [intro, simp]:
  "calls w (w_set k v w)" "calls w (w_del k w)" "calls w (w_write d w)"
  "valid_status c \<Longrightarrow> calls w (w_status c w)"
  using calls_op [of "Write d" w] calls_op [of "WriteHeader c" w] calls_put
  by (simp_all add: w_set_def w_del_def w_write_def w_status_def counted_run_def run_ops_def exec_op_def)

lemma calls_step:
  "calls u w \<Longrightarrow> calls u (w_set k v w)" "calls u w \<Longrightarrow> calls u (w_del k w)"
  "calls u w \<Longrightarrow> calls u (w_write d w)" "valid_status c \<Longrightarrow> calls u w \<Longrightarrow> calls u (w_status c w)"
  by (blast intro: calls_trans calls_basic)+

text \<open>After any calls on a fresh writer, its status is the one the client received.\<close>

lemma calls_status:
  assumes "calls (newStatusWriter base_new) w"
  shows "sw_status w = (case bcommit (sw_inner w) of Some (c, h) \<Rightarrow> c | None \<Rightarrow> 200)"
proof -
  obtain ops where "list_all valid_op ops" and w: "w = counted_run ops (newStatusWriter base_new)"
    using assms by (auto simp: calls_def)
  then show ?thesis
    using counted.run_correct [of "newStatusWriter base_new" ops] unfolding counted_run_def
    by (auto simp: newStatusWriter_def base_new_def split: option.splits if_splits)
qed

section \<open>Error responses\<close>

definition status_text :: "nat \<Rightarrow> string" where
  "status_text c =
     (case map_of [(200, ''OK''), (204, ''No Content''), (301, ''Moved Permanently''), (302, ''Found''),
        (307, ''Temporary Redirect''), (400, ''Bad Request''), (401, ''Unauthorized''), (403, ''Forbidden''),
        (404, ''Not Found''), (405, ''Method Not Allowed''), (409, ''Conflict''), (413, ''Request Entity Too Large''),
        (414, ''Request URI Too Long''), (426, ''Upgrade Required''), (429, ''Too Many Requests''),
        (431, ''Request Header Fields Too Large''), (500, ''Internal Server Error''), (503, ''Service Unavailable''),
        (504, ''Gateway Timeout'')] c of Some t \<Rightarrow> t | None \<Rightarrow> [])"

definition http_Error :: "string \<Rightarrow> nat \<Rightarrow> rw \<Rightarrow> rw" where
  "http_Error msg code w =
     w_write (msg @ [CHR 0x0A])
       (w_status code (w_set ''X-Content-Type-Options'' ''nosniff''
         (w_set ''Content-Type'' ''text/plain; charset=utf-8'' (w_del ''Content-Length'' w))))"

text \<open>\<^verbatim>\<open>encoding/json\<close> on a string of ASCII characters, with the HTML escaping of its encoder.\<close>

definition json_char :: "char \<Rightarrow> string" where
  "json_char c =
     (if c = CHR 0x22 then [CHR 0x5C, CHR 0x22]
      else if c = CHR 0x5C then [CHR 0x5C, CHR 0x5C]
      else if c = CHR 0x08 then [CHR 0x5C, CHR ''b'']
      else if c = CHR 0x0C then [CHR 0x5C, CHR ''f'']
      else if c = CHR 0x0A then [CHR 0x5C, CHR ''n'']
      else if c = CHR 0x0D then [CHR 0x5C, CHR ''r'']
      else if c = CHR 0x09 then [CHR 0x5C, CHR ''t'']
      else if (of_char c :: nat) < 32 \<or> c \<in> {CHR ''<'', CHR ''>'', CHR ''&''}
        then [CHR 0x5C, CHR ''u'', CHR ''0'', CHR ''0'', hex_digit (of_char c div 16), hex_digit (of_char c mod 16)]
      else [c])"

definition json_string :: "string \<Rightarrow> string" where
  "json_string s = [CHR 0x22] @ concat (map json_char s) @ [CHR 0x22]"

definition error_json :: "nat \<Rightarrow> string \<Rightarrow> string \<Rightarrow> string" where
  "error_json code msg reqID =
     ''{'' @ json_string ''statusText'' @ '':'' @ json_string (status_text code) @ '','' @
     (if msg = [] then [] else json_string ''message'' @ '':'' @ json_string msg @ '','') @
     json_string ''statusCode'' @ '':'' @ Itoa (int code) @ '','' @
     json_string ''requestID'' @ '':'' @ json_string reqID @ ''}'' @ [CHR 0x0A]"

definition GetRequestID :: "request \<Rightarrow> string" where
  "GetRequestID r = (case rRequestID r of Some i \<Rightarrow> i | None \<Rightarrow> ''unknown-id'')"

definition RenderErrorJSON :: "request \<Rightarrow> nat \<Rightarrow> string \<Rightarrow> rw \<Rightarrow> rw" where
  "RenderErrorJSON r code msg w =
     w_write (error_json code msg (GetRequestID r))
       (w_status code (w_set ''Content-Type'' ''application/json; charset=utf-8'' w))"

record http_env =
  responseMode :: string
  errorTmpl :: "nat \<Rightarrow> string \<Rightarrow> string \<Rightarrow> string \<Rightarrow> string option"

definition RenderError :: "http_env \<Rightarrow> request \<Rightarrow> nat \<Rightarrow> string \<Rightarrow> rw \<Rightarrow> rw" where
  "RenderError e r code msg w =
     (if rMethod r \<noteq> ''GET'' then RenderErrorJSON r code msg w
      else let w' = w_status code (w_set ''Content-Type'' ''text/html; charset=utf-8'' w)
           in case errorTmpl e code (status_text code) msg (GetRequestID r) of
                None \<Rightarrow> http_Error (status_text code) code w'
              | Some page \<Rightarrow> w_write (Join (Fields page) '' '') w')"

definition rejectRequest :: "http_env \<Rightarrow> request \<Rightarrow> nat \<Rightarrow> string \<Rightarrow> rw \<Rightarrow> rw" where
  "rejectRequest e r code msg w =
     (if responseMode e = ''json'' then RenderErrorJSON r code msg w else RenderError e r code msg w)"

lemma calls_errors [intro]:
  "valid_status code \<Longrightarrow> calls w (http_Error msg code w)"
  "valid_status code \<Longrightarrow> calls w (RenderErrorJSON r code msg w)"
  "valid_status code \<Longrightarrow> calls w (RenderError e r code msg w)"
  "valid_status code \<Longrightarrow> calls w (rejectRequest e r code msg w)"
proof -
  show a: "valid_status code \<Longrightarrow> calls w (http_Error msg code w)" for msg w
    by (simp add: http_Error_def calls_step)
  show b: "valid_status code \<Longrightarrow> calls w (RenderErrorJSON r code msg w)"
    by (simp add: RenderErrorJSON_def calls_step)
  show c: "valid_status code \<Longrightarrow> calls w (RenderError e r code msg w)"
    using b by (auto simp: RenderError_def Let_def calls_step split: option.split intro!: calls_trans [OF _ a])
  show "valid_status code \<Longrightarrow> calls w (rejectRequest e r code msg w)"
    using b c by (simp add: rejectRequest_def)
qed

end
