(* ===== verification/Middleware.thy ===== *)
theory Middleware imports Http begin

text \<open>
  The middlewares that are functions of the request alone: header helpers (\<^verbatim>\<open>header.go\<close>,
  \<^verbatim>\<open>respond.go\<close>), request ids, API prefix (\<^verbatim>\<open>prefix.go\<close>), canonical redirects (\<^verbatim>\<open>redirect.go\<close>),
  security headers (\<^verbatim>\<open>security.go\<close>), the path, user-agent and browser filters (\<^verbatim>\<open>protect.go\<close>),
  panic recovery (\<^verbatim>\<open>recovery.go\<close>), and the cross-origin check with its per-origin cache
  (\<^verbatim>\<open>csrf.go\<close>). Each keeps handlers inside the writer's contract (\<open>well_behaved\<close>).
\<close>

section \<open>Headers\<close>

definition SetHeaders :: "header \<Rightarrow> rw \<Rightarrow> rw" where
  "SetHeaders hs w = fold (\<lambda>(k, v) w. if k = [] then w else w_set k v w) hs w"

definition MergeHeaders :: "header \<Rightarrow> rw \<Rightarrow> rw" where
  "MergeHeaders hs w = fold (\<lambda>(k, v) w. if map_of (w_header w) k = None then w_set k v w else w) hs w"

definition ResponseHeader :: "string \<Rightarrow> string \<Rightarrow> middleware" where
  "ResponseHeader name value next =
     (if name = [] then next else (\<lambda>r w. next r (w_set name value w)))"

text \<open>The identifier generator is a parameter.\<close>

definition RequestIDMiddleware :: "string \<Rightarrow> middleware" where
  "RequestIDMiddleware newID next = (\<lambda>r w. next (r\<lparr>rRequestID := Some newID\<rparr>) (w_set ''X-Request-ID'' newID w))"

record SecurityOptions =
  FrameOptions :: string
  CSP :: string
  ReferrerPolicy :: string
  HSTSMaxAge :: int
  HSTSIncludeSub :: bool
  HSTSPreload :: bool
  XSSProtection :: bool
  ContentTypeNoSniff :: bool

definition DefaultSecurityOptions :: SecurityOptions where
  "DefaultSecurityOptions =
     \<lparr>FrameOptions = ''DENY'', CSP = [], ReferrerPolicy = ''strict-origin-when-cross-origin'',
      HSTSMaxAge = 31536000, HSTSIncludeSub = True, HSTSPreload = False, XSSProtection = True,
      ContentTypeNoSniff = True\<rparr>"

definition hsts_value :: "SecurityOptions \<Rightarrow> string" where
  "hsts_value o1 = ''max-age='' @ Itoa (HSTSMaxAge o1) @
     (if HSTSIncludeSub o1 then ''; includeSubDomains'' else []) @ (if HSTSPreload o1 then ''; preload'' else [])"

definition set_if :: "bool \<Rightarrow> string \<Rightarrow> string \<Rightarrow> rw \<Rightarrow> rw" where
  "set_if b k v w = (if b then w_set k v w else w)"

definition SecurityMiddleware :: "SecurityOptions \<Rightarrow> middleware" where
  "SecurityMiddleware o1 next = (\<lambda>r w. next r
     (set_if (ReferrerPolicy o1 \<noteq> []) ''Referrer-Policy'' (ReferrerPolicy o1)
     (set_if (CSP o1 \<noteq> []) ''Content-Security-Policy'' (CSP o1)
     (set_if (FrameOptions o1 \<noteq> []) ''X-Frame-Options'' (FrameOptions o1)
     (set_if (ContentTypeNoSniff o1) ''X-Content-Type-Options'' ''nosniff''
     (set_if (XSSProtection o1) ''X-XSS-Protection'' ''1; mode=block''
     (set_if (HSTSMaxAge o1 > 0) ''Strict-Transport-Security'' (hsts_value o1) w)))))))"

section \<open>API prefix\<close>

definition normalizeAPIPrefix :: "string \<Rightarrow> string" where
  "normalizeAPIPrefix prefix0 =
     (let prefix1 = TrimSpace prefix0
      in if prefix1 = [] \<or> prefix1 = ''/'' then []
         else TrimSuffix (if \<not> HasPrefix prefix1 ''/'' then CHR ''/'' # prefix1 else prefix1) ''/'')"

definition APIPrefixMiddleware :: "string \<Rightarrow> middleware" where
  "APIPrefixMiddleware cfgPrefix next =
     (let p = normalizeAPIPrefix cfgPrefix
      in if p = [] then next
         else (\<lambda>r w. next
           (if rPath r = p then r\<lparr>rPath := ''/'', rRawPath := (if rRawPath r \<noteq> [] then ''/'' else rRawPath r)\<rparr>
            else if HasPrefix (rPath r) (p @ ''/'') then
              r\<lparr>rPath := TrimPrefix (rPath r) p,
                rRawPath := (if rRawPath r \<noteq> [] then TrimPrefix (rRawPath r) p else rRawPath r)\<rparr>
            else r) w))"

text \<open>\<^verbatim>\<open>http.StripPrefix\<close> as the server wraps its router with it.\<close>

definition StripPrefix :: "string \<Rightarrow> middleware" where
  "StripPrefix p next = (\<lambda>r w.
     let path' = TrimPrefix (rPath r) p; raw' = TrimPrefix (rRawPath r) p
     in if length path' < length (rPath r) \<and> (rRawPath r = [] \<or> length raw' < length (rRawPath r))
        then next (r\<lparr>rPath := path', rRawPath := raw'\<rparr>) w
        else (http_Error ''404 page not found'' 404 w, False))"

section \<open>Canonical redirects\<close>

definition http_Redirect :: "string \<Rightarrow> nat \<Rightarrow> rw \<Rightarrow> rw" where
  "http_Redirect url code w = w_status code (w_set ''Location'' url w)"

definition request_scheme :: "request \<Rightarrow> string" where
  "request_scheme r =
     (if rTLS r then ''https''
      else let fp = hget (rHeaders r) ''X-Forwarded-Proto''
           in if fp \<noteq> [] then ToLower (TrimSpace (hd (Split (CHR '','') fp))) else ''http'')"

definition is_local_host :: "string \<Rightarrow> bool" where
  "is_local_host host \<longleftrightarrow> host = ''localhost'' \<or> host = ''127.0.0.1'' \<or> HasPrefix host ''localhost:'' \<or> HasPrefix host ''127.0.0.1:''"

text \<open>The new scheme, host and path when any of the three rules applies.\<close>

definition redirect_parts :: "request \<Rightarrow> (string \<times> string \<times> string) option" where
  "redirect_parts r =
     (let host = rHost r; scheme = request_scheme r; p = rPath r;
          www = CutPrefix host ''www.'';
          newHost = (case www of Some h \<Rightarrow> h | None \<Rightarrow> host);
          slash = (length p > 1 \<and> HasSuffix p ''/'' \<and> \<not> HasPrefix p ''/assets/'');
          newPath = (if slash then TrimSuffix p ''/'' else p);
          secure = (scheme = ''http'' \<and> \<not> is_local_host host);
          newScheme = (if secure then ''https'' else scheme)
      in if www \<noteq> None \<or> slash \<or> secure then Some (newScheme, newHost, newPath) else None)"

definition RedirectMiddleware :: middleware where
  "RedirectMiddleware next = (\<lambda>r w.
     case redirect_parts r of
       Some (scheme, host, path) \<Rightarrow>
         (http_Redirect (scheme @ ''://'' @ host @ path @ (if rRawQuery r \<noteq> [] then ''?'' @ rRawQuery r else [])) 301 w, False)
     | None \<Rightarrow> next r w)"

definition Redirect :: "http_env \<Rightarrow> request \<Rightarrow> nat \<Rightarrow> string \<Rightarrow> rw \<Rightarrow> rw" where
  "Redirect e r code location w =
     (if location = [] then rejectRequest e r 500 (status_text 500 @ '': empty redirect location'') w
      else http_Redirect (if HasPrefix location ''/'' \<and> rRawQuery r \<noteq> [] \<and> code = 307
                          then location @ ''?'' @ rRawQuery r else location) code w)"

section \<open>Filters\<close>

text \<open>A regular expression of the form literal, one class per character, matched anywhere.\<close>

fun matches_at :: "(char \<Rightarrow> bool) list \<Rightarrow> string \<Rightarrow> bool" where
  "matches_at [] s = True"
| "matches_at (P # Ps) [] = False"
| "matches_at (P # Ps) (c # s) = (P c \<and> matches_at Ps s)"

fun matches_in :: "(char \<Rightarrow> bool) list \<Rightarrow> string \<Rightarrow> bool" where
  "matches_in Ps [] = matches_at Ps []"
| "matches_in Ps (c # s) = (matches_at Ps (c # s) \<or> matches_in Ps s)"

definition lit :: "string \<Rightarrow> (char \<Rightarrow> bool) list" where "lit s = map (=) s"
definition between :: "char \<Rightarrow> char \<Rightarrow> char \<Rightarrow> bool" where
  "between a b c \<longleftrightarrow> (of_char a :: nat) \<le> of_char c \<and> (of_char c :: nat) \<le> of_char b"

definition outdatedPatterns :: "(char \<Rightarrow> bool) list list" where
  "outdatedPatterns =
    [lit ''MSIE '' @ [between (CHR ''1'') (CHR ''9'')] @ lit ''.'',
     lit ''Firefox/'' @ [between (CHR ''1'') (CHR ''4''), between (CHR ''0'') (CHR ''9'')] @ lit ''.'',
     lit ''Chrome/'' @ [between (CHR ''1'') (CHR ''4''), between (CHR ''0'') (CHR ''9'')] @ lit ''.'',
     lit ''Safari/'' @ [between (CHR ''1'') (CHR ''5'')] @ lit ''.'',
     lit ''Opera/'' @ [between (CHR ''1'') (CHR ''9'')] @ lit ''.'',
     lit ''Android '' @ [between (CHR ''1'') (CHR ''4'')] @ lit ''.'',
     lit ''iPhone OS '' @ [between (CHR ''1'') (CHR ''8'')] @ lit ''_'']"

definition OutdatedBrowserMiddleware :: middleware where
  "OutdatedBrowserMiddleware next = (\<lambda>r w.
     let ua = hget (rHeaders r) ''User-Agent''
     in if ua = [] then next r w
        else if \<exists>p\<in>set outdatedPatterns. matches_in p ua
        then (w_write ''Your browser is outdated. Please upgrade to a modern browser.''
                (w_status 426 (w_set ''Upgrade'' ''modern browser''
                  (w_set ''Content-Type'' ''text/plain; charset=utf-8'' w))), False)
        else next r w)"

definition maliciousAgents :: "string list" where
  "maliciousAgents = [''python-requests'', ''go-http-client'', ''curl'', ''wget'', ''perl'', ''nmap'', ''sqlmap'',
     ''wpscan'', ''nikto'', ''masscan'', ''zgrab'', ''acunetix'', ''netsparker'', ''burp'', ''ahrefsbot'',
     ''semrushbot'', ''mj12bot'', ''dotbot'', ''headlesschrome'', ''phantomjs'', ''scrapy'']"

definition MaliciousRequestMiddleware :: "http_env \<Rightarrow> middleware" where
  "MaliciousRequestMiddleware e next = (\<lambda>r w.
     let ua = hget (rHeaders r) ''User-Agent''
     in if ua = [] then (RenderError e r 403 ''Forbidden: A User-Agent header is required.'' w, False)
        else if \<exists>p\<in>set maliciousAgents. Contains (ToLower ua) p
        then (RenderError e r 403 ''Forbidden: Your request has been blocked.'' w, False)
        else next r w)"

definition blockedPaths :: "string list" where
  "blockedPaths = [''wp-login.php'', ''wp-admin'', ''wp-content'', ''wp-includes'', ''xmlrpc.php'', ''phpmyadmin'',
     ''/telescope/'', ''/swagger/'', ''/swagger-ui.html'', ''/actuator/env'', ''pma'', ''adminer'', ''admin.php'',
     ''login.php'', ''index.php'', ''config.php'', ''setup.php'', ''install.php'', ''installer.php'', ''eval-stdin.php'',
     ''.env'', ''.git'', ''.git/config'', ''.gitignore'', ''.svn'', ''.hg'', ''.aws'', ''.aws/credentials'', ''.docker'',
     ''docker-compose.yml'', ''docker-compose.yaml'', ''dockerfile'', ''.npmrc'', ''.yarnrc'', ''.ssh'', ''id_rsa'',
     ''id_dsa'', ''.aws/credentials'', ''/etc/passwd'', ''/etc/shadow'', ''/proc/self/environ'', ''/proc/version'',
     ''/.well-known/'', ''.log'', ''.log'', ''.bak'', ''.old'', ''.backup'', ''.sql'', ''.sqlite'', ''.db'', ''.tar'',
     ''.rar'', ''.7z'', ''eval-stdin.php'', ''shell.php'', ''cmd.php'', ''upload.php'', ''backdoor'', ''cgi-bin'',
     ''.htaccess'', ''.htpasswd'', ''..'', ''%2e%2e'']"

definition blockedExtensions :: "string list" where
  "blockedExtensions = [''.php'', ''.php5'', ''.phtml'', ''.phar'', ''.asp'', ''.aspx'', ''.ascx'', ''.asmx'', ''.ashx'',
     ''.jsp'', ''.jspx'', ''.do'', ''.action'', ''.cgi'', ''.pl'', ''.py'', ''.fcgi'', ''.rb'', ''.rhtml'', ''.bak'',
     ''.old'', ''.backup'', ''.sql'', ''.sqlite'', ''.db'', ''.tar'', ''.zip'', ''.rar'', ''.7z'', ''.sh'', ''.exe'', ''.dll'']"

definition path_blocked :: "string \<Rightarrow> bool" where
  "path_blocked path = (let p = ToLower path
     in list_ex (\<lambda>b. Contains p b) blockedPaths \<or> list_ex (\<lambda>x. HasSuffix p x) blockedExtensions)"

definition BlockMaliciousPathsMiddleware :: "http_env \<Rightarrow> middleware" where
  "BlockMaliciousPathsMiddleware e next = (\<lambda>r w.
     if path_blocked (rPath r) then (RenderError e r 404 (status_text 404) w, False) else next r w)"

text \<open>Recovery: the error hooks and the error handler run on the writer as the panic left it.\<close>

definition RecoveryMiddleware :: "(request \<Rightarrow> rw \<Rightarrow> rw) list \<Rightarrow> handler option \<Rightarrow> middleware" where
  "RecoveryMiddleware errorHooks errorHandler next = (\<lambda>r w.
     case next r w of (w1, panicked) \<Rightarrow>
       if \<not> panicked then (w1, False)
       else (let w2 = fold (\<lambda>h. h r) errorHooks w1
             in case errorHandler of Some h \<Rightarrow> h r w2
                | None \<Rightarrow> (http_Error (status_text 500) 500 w2, False)))"

section \<open>Cross-origin protection\<close>

text \<open>\<open>parse\<close> is \<^verbatim>\<open>url.Parse\<close> followed by \<^verbatim>\<open>Scheme\<close>, \<^verbatim>\<open>Hostname()\<close> and \<^verbatim>\<open>Host\<close>; \<open>None\<close> is its error.\<close>

type_synonym url_parser = "string \<Rightarrow> (string \<times> string \<times> string) option"

record wildcardOrigin =
  wo_scheme :: string
  wo_pattern :: string

definition wo_match :: "url_parser \<Rightarrow> wildcardOrigin \<Rightarrow> string \<Rightarrow> bool" where
  "wo_match parse wo origin =
     (case parse origin of None \<Rightarrow> False
      | Some (scheme, hostname, _) \<Rightarrow>
          if scheme \<noteq> wo_scheme wo then False
          else hostname = wo_pattern wo \<or> HasSuffix hostname (''.'' @ wo_pattern wo))"

definition normalizeWildcardOrigin :: "string \<Rightarrow> wildcardOrigin" where
  "normalizeWildcardOrigin o0 =
     (let o1 = TrimSpace o0
      in case CutPrefix o1 ''http://'' of
           Some rest \<Rightarrow> \<lparr>wo_scheme = ''http'', wo_pattern = TrimPrefix rest ''*.''\<rparr>
         | None \<Rightarrow> (case CutPrefix o1 ''https://'' of
             Some rest \<Rightarrow> \<lparr>wo_scheme = ''https'', wo_pattern = TrimPrefix rest ''*.''\<rparr>
           | None \<Rightarrow> \<lparr>wo_scheme = ''https'', wo_pattern = TrimPrefix o1 ''*.''\<rparr>))"

lemma wo_match_iff:
  "wo_match parse rule origin \<longleftrightarrow>
     (\<exists>scheme hostname host. parse origin = Some (scheme, hostname, host) \<and> scheme = wo_scheme rule \<and>
        (hostname = wo_pattern rule \<or> (\<exists>sub. hostname = sub @ ''.'' @ wo_pattern rule)))"
  by (cases "parse origin") (auto simp: wo_match_def HasSuffix_iff split: if_splits)

record csrf_config =
  useAllOrigins :: bool
  wildcardList :: "wildcardOrigin list"
  exactOrigins :: "string list"

definition csrf_config_of :: "string \<Rightarrow> csrf_config" where
  "csrf_config_of env =
     (if env = [] then \<lparr>useAllOrigins = False, wildcardList = [], exactOrigins = []\<rparr>
      else if TrimSpace env = ''*'' then \<lparr>useAllOrigins = True, wildcardList = [], exactOrigins = []\<rparr>
      else (let os = filter (\<lambda>x. x \<noteq> []) (map TrimSpace (Split (CHR '','') env))
            in \<lparr>useAllOrigins = False,
                wildcardList = map normalizeWildcardOrigin (filter (\<lambda>x. CHR ''*'' \<in> set x) os),
                exactOrigins = filter (\<lambda>x. CHR ''*'' \<notin> set x) os\<rparr>))"

text \<open>\<^verbatim>\<open>http.CrossOriginProtection\<close>: safe methods pass; then the fetch metadata, then the host of the
  origin decides, a trusted origin being exempt.\<close>

definition cop_check :: "url_parser \<Rightarrow> string list \<Rightarrow> request \<Rightarrow> bool" where
  "cop_check parse trusted r =
     (let site = hget (rHeaders r) ''Sec-Fetch-Site''; origin = hget (rHeaders r) ''Origin''
      in if rMethod r \<in> {''GET'', ''HEAD'', ''OPTIONS''} then True
         else if site = ''same-origin'' \<or> site = ''none'' then True
         else if site \<noteq> [] then origin \<in> set trusted
         else if origin = [] then True
         else (case parse origin of Some (_, _, host) \<Rightarrow> host = rHost r | None \<Rightarrow> False) \<or> origin \<in> set trusted)"

definition cop_handler :: "url_parser \<Rightarrow> string list \<Rightarrow> middleware" where
  "cop_handler parse trusted next = (\<lambda>r w.
     if cop_check parse trusted r then next r w else (w_write ''CSRF check failed'' (w_status 400 w), False))"

type_synonym origin_cache = "(string \<times> bool) list"

definition CSRFMiddleware ::
  "url_parser \<Rightarrow> csrf_config \<Rightarrow> handler \<Rightarrow> request \<Rightarrow> rw \<times> origin_cache \<Rightarrow> (rw \<times> bool) \<times> origin_cache" where
  "CSRFMiddleware parse cfg next r wc =
     (let (w, cache) = wc; cop = cop_handler parse (exactOrigins cfg) next; origin = hget (rHeaders r) ''Origin''
      in if useAllOrigins cfg then
           (let w' = w_set ''Access-Control-Allow-Origin'' ''*'' w
            in (if rMethod r \<noteq> ''OPTIONS'' then next r w' else (w', False), cache))
         else if origin = [] then (cop r w, cache)
         else (case map_of cache origin of
             Some True \<Rightarrow> (next r w, cache)
           | Some False \<Rightarrow> (cop r w, cache)
           | None \<Rightarrow>
               if list_ex (\<lambda>rule. wo_match parse rule origin) (wildcardList cfg) then (next r w, AList.update origin True cache)
               else if origin \<in> set (exactOrigins cfg) then (next r w, AList.update origin True cache)
               else (cop r w, AList.update origin False cache)))"

text \<open>The decision without a cache, and the cache's invariant.\<close>

definition origin_trusted :: "url_parser \<Rightarrow> csrf_config \<Rightarrow> string \<Rightarrow> bool" where
  "origin_trusted parse cfg origin \<longleftrightarrow>
     list_ex (\<lambda>rule. wo_match parse rule origin) (wildcardList cfg) \<or> origin \<in> set (exactOrigins cfg)"

definition csrf_plain :: "url_parser \<Rightarrow> csrf_config \<Rightarrow> middleware" where
  "csrf_plain parse cfg next = (\<lambda>r w.
     let origin = hget (rHeaders r) ''Origin''
     in if useAllOrigins cfg then
          (if rMethod r \<noteq> ''OPTIONS'' then next r (w_set ''Access-Control-Allow-Origin'' ''*'' w)
           else (w_set ''Access-Control-Allow-Origin'' ''*'' w, False))
        else if origin \<noteq> [] \<and> origin_trusted parse cfg origin then next r w
        else cop_handler parse (exactOrigins cfg) next r w)"

definition cache_agrees :: "url_parser \<Rightarrow> csrf_config \<Rightarrow> origin_cache \<Rightarrow> bool" where
  "cache_agrees parse cfg cache \<longleftrightarrow>
     (\<forall>origin b. map_of cache origin = Some b \<longrightarrow> b = origin_trusted parse cfg origin)"

lemma csrf_step:
  assumes "cache_agrees parse cfg cache"
  shows "fst (CSRFMiddleware parse cfg next r (w, cache)) = csrf_plain parse cfg next r w"
    and "cache_agrees parse cfg (snd (CSRFMiddleware parse cfg next r (w, cache)))"
  using assms
  by (auto simp: CSRFMiddleware_def csrf_plain_def Let_def cache_agrees_def origin_trusted_def split: option.split bool.split)

text \<open>A sequence of requests served one after the other, each on its own writer.\<close>

fun csrf_serve :: "url_parser \<Rightarrow> csrf_config \<Rightarrow> handler \<Rightarrow> (request \<times> rw) list \<Rightarrow> origin_cache \<Rightarrow> (rw \<times> bool) list" where
  "csrf_serve parse cfg next [] cache = []"
| "csrf_serve parse cfg next ((r, w) # rs) cache =
     (let (out, cache') = CSRFMiddleware parse cfg next r (w, cache)
      in out # csrf_serve parse cfg next rs cache')"

lemma csrf_serve_plain:
  "cache_agrees parse cfg cache \<Longrightarrow>
   csrf_serve parse cfg next rs cache = map (\<lambda>(r, w). csrf_plain parse cfg next r w) rs"
proof (induction rs arbitrary: cache)
  case (Cons rw rs)
  obtain r w where rw: "rw = (r, w)" by (cases rw)
  obtain out cache' where c: "CSRFMiddleware parse cfg next r (w, cache) = (out, cache')"
    by (cases "CSRFMiddleware parse cfg next r (w, cache)")
  from csrf_step [OF Cons.prems, of "next" r w] c Cons.IH [of cache'] show ?case by (simp add: rw)
qed simp

section \<open>Middlewares keep the writer's contract\<close>

definition keeps_contract :: "middleware \<Rightarrow> bool" where
  "keeps_contract m \<longleftrightarrow> (\<forall>h. well_behaved h \<longrightarrow> well_behaved (m h))"

lemma keeps_contractI:
  "(\<And>h r w. well_behaved h \<Longrightarrow> calls w (fst (m h r w))) \<Longrightarrow> keeps_contract m"
  by (simp add: keeps_contract_def well_behaved_def)

lemma well_behavedD: "well_behaved h \<Longrightarrow> calls u w \<Longrightarrow> calls u (fst (h r w))"
  unfolding well_behaved_def by (blast intro: calls_trans)

lemma calls_set_if: "calls u w \<Longrightarrow> calls u (set_if b k v w)"
  by (simp add: set_if_def calls_step)

lemma valid_codes [simp]: "valid_status 301" "valid_status 400" "valid_status 403" "valid_status 404" "valid_status 426"
  "valid_status 500" "valid_status 503" "valid_status 204" "valid_status 401" "valid_status 429" "valid_status 413"
  "valid_status 414" "valid_status 431" "valid_status 405" "valid_status 200"
  by (simp_all add: valid_status_def)

lemma calls_fold: "(\<And>h w. h \<in> set hs \<Longrightarrow> calls w (h r w)) \<Longrightarrow> calls u w \<Longrightarrow> calls u (fold (\<lambda>h. h r) hs w)"
proof (induction hs arbitrary: w)
  case (Cons a hs)
  have "calls u (a r w)" by (rule calls_trans [OF Cons.prems(2)], rule Cons.prems(1)) simp
  with Cons show ?case by simp
qed simp

lemma keeps_headers:
  "keeps_contract (ResponseHeader k v)" "keeps_contract (RequestIDMiddleware i)" "keeps_contract (SecurityMiddleware o1)"
  by (rule keeps_contractI, simp add: ResponseHeader_def RequestIDMiddleware_def SecurityMiddleware_def
      well_behavedD calls_step calls_set_if)+

lemma keeps_prefix: "keeps_contract (APIPrefixMiddleware p)" "keeps_contract (StripPrefix p)"
  by (rule keeps_contractI, auto simp: APIPrefixMiddleware_def StripPrefix_def Let_def intro: well_behavedD)+

lemma keeps_filters:
  "keeps_contract RedirectMiddleware" "keeps_contract OutdatedBrowserMiddleware"
  "keeps_contract (MaliciousRequestMiddleware e)" "keeps_contract (BlockMaliciousPathsMiddleware e)"
  "keeps_contract (cop_handler parse trusted)"
  by (rule keeps_contractI, auto simp: RedirectMiddleware_def OutdatedBrowserMiddleware_def MaliciousRequestMiddleware_def
      BlockMaliciousPathsMiddleware_def cop_handler_def http_Redirect_def Let_def calls_step
      split: option.split intro: well_behavedD)+

lemma keeps_csrf: "keeps_contract (csrf_plain parse cfg)"
proof (rule keeps_contractI)
  fix h r w assume h: "well_behaved h"
  then have "calls w (fst (cop_handler parse (exactOrigins cfg) h r w))"
    using keeps_filters(5) [of parse "exactOrigins cfg"] by (auto simp: keeps_contract_def intro: well_behavedD)
  with h show "calls w (fst (csrf_plain parse cfg h r w))"
    by (auto simp: csrf_plain_def Let_def calls_step intro: well_behavedD)
qed

lemma keeps_recovery:
  assumes "\<And>h r w. h \<in> set hooks \<Longrightarrow> calls w (h r w)" and "\<And>h. eh = Some h \<Longrightarrow> well_behaved h"
  shows "keeps_contract (RecoveryMiddleware hooks eh)"
proof (rule keeps_contractI)
  fix h r w assume h: "well_behaved h"
  obtain w1 p where hw: "h r w = (w1, p)" by (cases "h r w")
  have "calls w w1" using well_behavedD [OF h calls_refl [of w], of r] hw by simp
  then have f: "calls w (fold (\<lambda>h. h r) hooks w1)" using assms(1) by (blast intro: calls_fold)
  then have "calls w (http_Error t 500 (fold (\<lambda>h. h r) hooks w1))" for t
    by (rule calls_trans) (rule calls_errors(1), simp)
  with \<open>calls w w1\<close> f assms(2) show "calls w (fst (RecoveryMiddleware hooks eh h r w))"
    by (auto simp: RecoveryMiddleware_def hw Let_def split: option.split intro: well_behavedD)
qed

lemma keeps_chain: "list_all keeps_contract ms \<Longrightarrow> well_behaved h \<Longrightarrow> well_behaved (chain h ms)"
  by (induction ms) (simp_all add: chain_def keeps_contract_def)

section \<open>Redirect chains\<close>

text \<open>The request a client makes when it follows a redirect of the server: the URL's scheme decides
  whether it arrives over TLS; there is no proxy in between.\<close>

definition follow :: "request \<Rightarrow> request option" where
  "follow r = (case redirect_parts r of None \<Rightarrow> None
               | Some (scheme, host, path) \<Rightarrow> Some (r\<lparr>rHost := host, rPath := path, rTLS := (scheme = ''https'')\<rparr>))"

text \<open>Following at most \<open>n\<close> redirects; \<open>Some\<close> is the first request that is not redirected.\<close>

fun follow_all :: "nat \<Rightarrow> request \<Rightarrow> request option" where
  "follow_all 0 r = (if redirect_parts r = None then Some r else None)"
| "follow_all (Suc n) r = (case follow r of None \<Rightarrow> Some r | Some r' \<Rightarrow> follow_all n r')"

definition redirect_measure :: "request \<Rightarrow> nat" where
  "redirect_measure r = length (rHost r) + length (rPath r) + (if rTLS r then 0 else 1)"

lemma TrimSuffix_slash: "HasSuffix p ''/'' \<Longrightarrow> length (TrimSuffix p ''/'') = length p - 1"
  by (auto simp: TrimSuffix_def HasSuffix_def)

lemma CutPrefix_less: "CutPrefix s p = Some t \<Longrightarrow> p \<noteq> [] \<Longrightarrow> length t < length s"
  by (cases s) (auto simp: CutPrefix_def HasPrefix_def split: if_splits)

lemma follow_decreases:
  assumes "follow r = Some r'" and "hget (rHeaders r) ''X-Forwarded-Proto'' = []"
  shows "redirect_measure r' < redirect_measure r" and "rHeaders r' = rHeaders r"
proof -
  obtain sch h p where rp: "redirect_parts r = Some (sch, h, p)"
    and r': "r' = r\<lparr>rHost := h, rPath := p, rTLS := (sch = ''https'')\<rparr>"
    using assms(1) by (auto simp: follow_def split: option.splits)
  have scheme: "request_scheme r = (if rTLS r then ''https'' else ''http'')"
    using assms(2) by (simp add: request_scheme_def Let_def)
  have "sch = (if rTLS r then ''https'' else if is_local_host (rHost r) then ''http'' else ''https'')"
    using rp by (auto simp: redirect_parts_def Let_def scheme split: if_splits)
  moreover have "length h \<le> length (rHost r) \<and> length p \<le> length (rPath r) \<and>
      (length h < length (rHost r) \<or> length p < length (rPath r) \<or> (\<not> rTLS r \<and> sch = ''https''))"
  proof (cases "CutPrefix (rHost r) ''www.''")
    case None
    then show ?thesis using rp
      by (auto simp: redirect_parts_def Let_def TrimSuffix_slash scheme split: if_splits)
  next
    case (Some h0)
    have "length h0 < length (rHost r)" by (rule CutPrefix_less [OF Some]) simp
    then show ?thesis using rp Some
      by (auto simp: redirect_parts_def Let_def TrimSuffix_slash scheme split: if_splits)
  qed
  ultimately show "redirect_measure r' < redirect_measure r" by (auto simp: redirect_measure_def r')
  show "rHeaders r' = rHeaders r" by (simp add: r')
qed

lemma follow_all_enough:
  "redirect_measure r \<le> n \<Longrightarrow> hget (rHeaders r) ''X-Forwarded-Proto'' = [] \<Longrightarrow>
   \<exists>r'. follow_all n r = Some r' \<and> redirect_parts r' = None"
proof (induction n arbitrary: r)
  case 0
  have "follow r = None"
  proof (rule ccontr)
    assume "follow r \<noteq> None"
    then obtain r' where "follow r = Some r'" by blast
    from follow_decreases(1) [OF this "0.prems"(2)] "0.prems"(1) show False by simp
  qed
  then show ?case by (auto simp: follow_def split: option.splits)
next
  case (Suc n)
  show ?case
  proof (cases "follow r")
    case None
    then show ?thesis by (auto simp: follow_def split: option.splits)
  next
    case (Some r')
    from follow_decreases [OF Some Suc.prems(2)] Suc.prems have "redirect_measure r' \<le> n"
      "hget (rHeaders r') ''X-Forwarded-Proto'' = []" by auto
    from Suc.IH [OF this] show ?thesis by (simp add: Some)
  qed
qed

section \<open>Properties\<close>

text \<open>C12: The redirects to the canonical address never loop: from every request that reaches the server
  without a forwarding proxy, following them ends, after at most one more redirect than the
  host and the path have characters, at a request that is served: its host has no
  \<^verbatim>\<open>www.\<close>, its path no trailing slash (but for assets and the root), and it came over TLS unless
  the host is local.\<close>
theorem redirects_end:
  assumes "hget (rHeaders r) ''X-Forwarded-Proto'' = []"
  shows "\<exists>r'. follow_all (length (rHost r) + length (rPath r) + 1) r = Some r' \<and>
              \<not> HasPrefix (rHost r') ''www.'' \<and>
              \<not> (length (rPath r') > 1 \<and> HasSuffix (rPath r') ''/'' \<and> \<not> HasPrefix (rPath r') ''/assets/'') \<and>
              \<not> (request_scheme r' = ''http'' \<and> \<not> is_local_host (rHost r'))"
proof -
  have "redirect_measure r \<le> length (rHost r) + length (rPath r) + 1" by (simp add: redirect_measure_def)
  from follow_all_enough [OF this assms] show ?thesis
    by (auto simp: redirect_parts_def Let_def CutPrefix_def split: if_splits)
qed

theorem redirects_end_witness:
  "let r = \<lparr>rMethod = ''GET'', rHost = ''www.a.b'', rPath = ''/x//'', rRawPath = [], rRawQuery = [], rURLLen = 4, rHeaders = [],
            rContentLength = 0, rTLS = False, rRemoteAddr = [], rRequestID = None, rParams = None\<rparr>
   in \<exists>r'. follow_all (length (rHost r) + length (rPath r) + 1) r = Some r' \<and> \<not> HasPrefix (rHost r') ''www.''"
proof -
  let ?r = "\<lparr>rMethod = ''GET'', rHost = ''www.a.b'', rPath = ''/x//'', rRawPath = [], rRawQuery = [], rURLLen = 4, rHeaders = [],
     rContentLength = 0, rTLS = False, rRemoteAddr = [], rRequestID = None, rParams = None\<rparr>"
  have "hget (rHeaders ?r) ''X-Forwarded-Proto'' = []" by (simp add: hget_def)
  from redirects_end [OF this] show ?thesis unfolding Let_def by blast
qed


text \<open>The API prefix is stripped without regard to path segments: with the prefix \<^verbatim>\<open>/api\<close> a request
  for \<^verbatim>\<open>/apiusers\<close> is served as \<^verbatim>\<open>users\<close>, which the router takes for \<^verbatim>\<open>/users\<close>, whereas the prefix
  middleware leaves such a path alone.\<close>
theorem prefix_not_on_segment_boundary:
  "let r = \<lparr>rMethod = ''GET'', rHost = ''h'', rPath = ''/apiusers'', rRawPath = [], rRawQuery = [], rURLLen = 9, rHeaders = [],
            rContentLength = 0, rTLS = False, rRemoteAddr = [], rRequestID = None, rParams = None\<rparr>;
       show_path = (\<lambda>r w. (w_write (cleanPath (rPath r)) w, False))
   in bbody (sw_inner (fst (StripPrefix (normalizeAPIPrefix ''api'') show_path r (newStatusWriter base_new)))) = ''/users'' \<and>
      bbody (sw_inner (fst (APIPrefixMiddleware ''api'' show_path r (newStatusWriter base_new)))) = ''/apiusers''"
  by code_simp

end
