(* ===== verification/Pipeline.thy ===== *)
theory Pipeline imports Middleware Lifecycle begin

text \<open>
  The request pipeline (\<^verbatim>\<open>server.go\<close>, \<^verbatim>\<open>hooks.go\<close>, \<^verbatim>\<open>maintenance.go\<close>): maintenance mode with its
  cached file check, work tracking, the guards on the request, hooks, the compiled middleware
  chain, and the statistics; the start-up hooks and their order; the connection limit of
  \<^verbatim>\<open>newConnStateCallback\<close> as a step relation.
\<close>

section \<open>Hooks\<close>

record 'f hookEntry =
  hook_fn :: 'f
  hook_priority :: int

definition RegisterHookWithPriority :: "int \<Rightarrow> 'f \<Rightarrow> 'f hookEntry list \<Rightarrow> 'f hookEntry list" where
  "RegisterHookWithPriority p h hooks = hooks @ [\<lparr>hook_fn = h, hook_priority = p\<rparr>]"

definition RegisterHook :: "'f \<Rightarrow> 'f hookEntry list \<Rightarrow> 'f hookEntry list" where
  "RegisterHook h hooks = hooks @ [\<lparr>hook_fn = h, hook_priority = 50\<rparr>]"

text \<open>\<^verbatim>\<open>ApplyHooks\<close> sorts stably by priority, runs the hooks on the server and empties the table.\<close>

definition ApplyHooks :: "('s \<Rightarrow> 's) hookEntry list \<Rightarrow> 's \<Rightarrow> 's \<times> ('s \<Rightarrow> 's) hookEntry list" where
  "ApplyHooks hooks s = (fold (\<lambda>h. hook_fn h) (sort_key hook_priority hooks) s, [])"

type_synonym hook = "request \<Rightarrow> rw \<Rightarrow> rw"

definition applyHooks :: "hook list \<Rightarrow> request \<Rightarrow> rw \<Rightarrow> rw" where
  "applyHooks hs r w = fold (\<lambda>h. h r) hs w"

section \<open>Maintenance mode\<close>

datatype file_status = StatError | StatDir | StatFile

record maintenanceMode =
  mm_fallback :: bool
  mm_file :: string
  mm_interval :: int
  mm_bypassToken :: string
  mm_lastCheck :: int
  mm_enabledValue :: bool

definition newMaintenanceModeAt :: "bool \<Rightarrow> int \<Rightarrow> string \<Rightarrow> string \<Rightarrow> maintenanceMode" where
  "newMaintenanceModeAt cfgMode cfgInterval cfgToken path =
     \<lparr>mm_fallback = cfgMode, mm_file = path,
      mm_interval = (if cfgInterval \<le> 0 then 5 * 1000000000 else cfgInterval),
      mm_bypassToken = cfgToken, mm_lastCheck = 0, mm_enabledValue = cfgMode\<rparr>"

text \<open>\<open>now\<close> is the clock in nanoseconds, \<open>stat\<close> what \<^verbatim>\<open>os.Stat\<close> answers at that time. The second
  check under the mutex repeats the first one, so a single request performs this step.\<close>

definition maintenance_enabled :: "int \<Rightarrow> file_status \<Rightarrow> maintenanceMode \<Rightarrow> bool \<times> maintenanceMode" where
  "maintenance_enabled now stat m =
     (if mm_fallback m \<or> mm_file m = [] then (mm_fallback m, m)
      else if mm_lastCheck m \<noteq> 0 \<and> now - mm_lastCheck m < mm_interval m then (mm_enabledValue m, m)
      else let v = (case stat of StatError \<Rightarrow> mm_fallback m | StatDir \<Rightarrow> False | StatFile \<Rightarrow> True)
           in (v, m\<lparr>mm_enabledValue := v, mm_lastCheck := now\<rparr>))"

definition maintenance_allows :: "maintenanceMode \<Rightarrow> request \<Rightarrow> bool" where
  "maintenance_allows m r =
     (if mm_bypassToken m = [] then False
      else let presented = hget (rHeaders r) ''X-Goserver-Maintenance-Token''
           in length presented = length (mm_bypassToken m) \<and> presented = mm_bypassToken m)"

text \<open>The page is a parameter (a constant of the source).\<close>

definition serveMaintenance :: "string \<Rightarrow> request \<Rightarrow> rw \<Rightarrow> rw" where
  "serveMaintenance page r w =
     (let w' = w_status 503 (w_set ''Content-Type'' ''text/html; charset=utf-8''
                 (w_set ''Retry-After'' ''300'' (w_set ''Cache-Control'' ''no-store, max-age=0'' w)))
      in if rMethod r \<noteq> ''HEAD'' then w_write page w' else w')"

section \<open>The handler of the server\<close>

record config =
  APIPrefix :: string
  MaxURLLength :: int
  MaxHeaders :: int
  MaxBodySize :: int
  MaxConnections :: int

record ServerStats =
  ActiveConnections :: int
  TotalRequests :: int
  Errors4xx :: int
  Errors5xx :: int

record server =
  stats :: ServerStats
  life :: lifecycle
  maintenance :: maintenanceMode
  beforeHooks :: "hook list"
  afterHooks :: "hook list"

definition isRequestMethod :: "string \<Rightarrow> bool" where
  "isRequestMethod m \<longleftrightarrow>
     m \<in> {''GET'', ''HEAD'', ''POST'', ''PUT'', ''DELETE'', ''CONNECT'', ''OPTIONS'', ''TRACE'', ''PATCH''}"

text \<open>The guards of the handler in the order of the code: the first that fails gives the answer.\<close>

definition first_guard :: "config \<Rightarrow> request \<Rightarrow> (nat \<times> string) option" where
  "first_guard cfg r =
     (if rURLLen r > MaxURLLength cfg then Some (414, ''URL too long'')
      else if int (length (rHeaders r)) > MaxHeaders cfg then Some (431, ''Too many headers'')
      else if \<not> isRequestMethod (rMethod r) then Some (405, status_text 405)
      else if MaxBodySize cfg > 0 \<and> rContentLength r > MaxBodySize cfg then Some (413, ''Request body too large'')
      else None)"

definition compileMiddlewareChain :: "middleware list \<Rightarrow> handler \<Rightarrow> handler" where
  "compileMiddlewareChain mws final = fold (\<lambda>m h. m h) (rev mws) final"

text \<open>The deferred counting of the response's status class.\<close>

definition count_status :: "nat \<Rightarrow> ServerStats \<Rightarrow> ServerStats" where
  "count_status c st =
     (if c \<ge> 400 \<and> c < 500 then st\<lparr>Errors4xx := Errors4xx st + 1\<rparr>
      else if c \<ge> 500 then st\<lparr>Errors5xx := Errors5xx st + 1\<rparr> else st)"

text \<open>A handler that has been admitted, on its status writer: the guards, then the hooks around the
  chain; after a panic the after-hooks are skipped.\<close>

definition admitted :: "config \<Rightarrow> http_env \<Rightarrow> hook list \<Rightarrow> hook list \<Rightarrow> handler \<Rightarrow> request \<Rightarrow> rw \<Rightarrow> rw \<times> bool" where
  "admitted cfg e before after h r w =
     (case first_guard cfg r of
        Some (code, msg) \<Rightarrow> (rejectRequest e r code msg w, False)
      | None \<Rightarrow> (case h r (applyHooks before r w) of
            (w', panicked) \<Rightarrow> if panicked then (w', True) else (applyHooks after r w', False)))"

text \<open>The whole handler on the connection's writer. Maintenance and shutdown answers are written to
  the connection directly, before anything is counted. The result is the response, whether
  the request panicked, and the server after the deferred calls.\<close>

definition on_connection :: "(rw \<Rightarrow> rw) \<Rightarrow> base \<Rightarrow> base" where
  "on_connection f b = sw_inner (f (newStatusWriter b))"

definition buildHandler ::
  "config \<Rightarrow> http_env \<Rightarrow> string \<Rightarrow> middleware list \<Rightarrow> handler \<Rightarrow> int \<Rightarrow> file_status \<Rightarrow> request \<Rightarrow> base \<Rightarrow> server \<Rightarrow>
   (base \<times> bool) \<times> server" where
  "buildHandler cfg e page mws router now stat r conn s =
     (let p = normalizeAPIPrefix (APIPrefix cfg);
          compiled = compileMiddlewareChain mws (if p \<noteq> [] then StripPrefix p router else router);
          (on, m') = maintenance_enabled now stat (maintenance s);
          s1 = s\<lparr>maintenance := m'\<rparr>
      in if on \<and> \<not> maintenance_allows m' r then ((on_connection (serveMaintenance page r) conn, False), s1)
         else (case beginWork (life s1) of
             (False, l) \<Rightarrow> ((on_connection (http_Error ''Server shutting down'' 503) conn, False), s1\<lparr>life := l\<rparr>)
           | (True, l) \<Rightarrow>
               (let s2 = s1\<lparr>life := l, stats := (stats s1)\<lparr>TotalRequests := TotalRequests (stats s1) + 1\<rparr>\<rparr>;
                    (w, panicked) = admitted cfg e (beforeHooks s2) (afterHooks s2) compiled r (newStatusWriter conn);
                    s3 = s2\<lparr>stats := count_status (sw_status w) (stats s2)\<rparr>
                in ((sw_inner w, panicked), s3\<lparr>life := workDone (life s3)\<rparr>))))"

section \<open>Connection limit\<close>

datatype conn_state = StateNew | StateActive | StateIdle | StateHijacked | StateClosed

text \<open>The callback on its counter: the new counter and whether the connection is closed at once.\<close>

definition connState :: "int \<Rightarrow> conn_state \<Rightarrow> int \<Rightarrow> int \<times> bool" where
  "connState maxConn cs n =
     (case cs of
        StateNew \<Rightarrow> (let current = n + 1 in if current > maxConn then (current - 1, True) else (current, False))
      | StateActive \<Rightarrow> (n, False)
      | StateIdle \<Rightarrow> (n, False)
      | StateHijacked \<Rightarrow> (n - 1, False)
      | StateClosed \<Rightarrow> (n - 1, False))"

record conn_world =
  cw_count :: int
  cw_open :: "nat set"
  cw_rejected :: "nat set"
  cw_drift :: nat

definition conn_init :: conn_world where
  "conn_init = \<lparr>cw_count = 0, cw_open = {}, cw_rejected = {}, cw_drift = 0\<rparr>"

text \<open>What \<^verbatim>\<open>net/http\<close> reports: a new connection once; active and idle while it is served; hijacked
  or closed once at the end. A connection that the callback closes in \<^verbatim>\<open>StateNew\<close> fails its first
  read and is then reported closed like any other. \<open>cw_drift\<close> counts those reports.\<close>

inductive conn_step :: "int \<Rightarrow> conn_world \<Rightarrow> conn_world \<Rightarrow> bool" for maxConn where
  accepted: "c \<notin> cw_open s \<union> cw_rejected s \<Longrightarrow> connState maxConn StateNew (cw_count s) = (n, False) \<Longrightarrow>
     conn_step maxConn s (s\<lparr>cw_count := n, cw_open := insert c (cw_open s)\<rparr>)"
| rejected: "c \<notin> cw_open s \<union> cw_rejected s \<Longrightarrow> connState maxConn StateNew (cw_count s) = (n, True) \<Longrightarrow>
     conn_step maxConn s (s\<lparr>cw_count := n, cw_rejected := insert c (cw_rejected s)\<rparr>)"
| served: "c \<in> cw_open s \<Longrightarrow> cs = StateActive \<or> cs = StateIdle \<Longrightarrow> connState maxConn cs (cw_count s) = (n, b) \<Longrightarrow>
     conn_step maxConn s (s\<lparr>cw_count := n\<rparr>)"
| ended: "c \<in> cw_open s \<Longrightarrow> cs = StateHijacked \<or> cs = StateClosed \<Longrightarrow> connState maxConn cs (cw_count s) = (n, b) \<Longrightarrow>
     conn_step maxConn s (s\<lparr>cw_count := n, cw_open := cw_open s - {c}\<rparr>)"
| rejected_closed: "c \<in> cw_rejected s \<Longrightarrow> connState maxConn StateClosed (cw_count s) = (n, b) \<Longrightarrow>
     conn_step maxConn s (s\<lparr>cw_count := n, cw_rejected := cw_rejected s - {c}, cw_drift := cw_drift s + 1\<rparr>)"

inductive conn_reachable :: "int \<Rightarrow> conn_world \<Rightarrow> bool" for maxConn where
  conn_start: "conn_reachable maxConn conn_init"
| conn_next: "conn_reachable maxConn s \<Longrightarrow> conn_step maxConn s t \<Longrightarrow> conn_reachable maxConn t"

definition conn_inv :: "int \<Rightarrow> conn_world \<Rightarrow> bool" where
  "conn_inv maxConn s \<longleftrightarrow> finite (cw_open s) \<and>
     int (card (cw_open s)) = cw_count s + int (cw_drift s) \<and> cw_count s \<le> max 0 maxConn"

lemma conn_step_inv: "conn_step maxConn s t \<Longrightarrow> conn_inv maxConn s \<Longrightarrow> conn_inv maxConn t"
proof (induction rule: conn_step.induct)
  case (ended c s cs n b)
  then have "card (cw_open s) > 0" by (auto simp: conn_inv_def card_gt_0_iff)
  with ended show ?case by (auto simp: conn_inv_def connState_def card_Diff_singleton)
qed (auto simp: conn_inv_def connState_def Let_def split: if_splits)

lemma conn_inv_init: "conn_inv maxConn conn_init"
  by (simp add: conn_inv_def conn_init_def)

lemma conn_reachable_inv: "conn_reachable maxConn s \<Longrightarrow> conn_inv maxConn s"
  by (induction rule: conn_reachable.induct) (auto intro: conn_step_inv conn_inv_init)

section \<open>Lemmas on the handler\<close>

definition good_hooks :: "hook list \<Rightarrow> bool" where
  "good_hooks hs \<longleftrightarrow> (\<forall>h\<in>set hs. \<forall>r w. calls w (h r w))"

definition committed_status :: "base \<Rightarrow> nat" where
  "committed_status b = (case bcommit b of Some (c, h) \<Rightarrow> c | None \<Rightarrow> 200)"

lemma calls_applyHooks: "good_hooks hs \<Longrightarrow> calls u w \<Longrightarrow> calls u (applyHooks hs r w)"
  unfolding applyHooks_def good_hooks_def by (rule calls_fold) auto

lemma compile_contract:
  "list_all keeps_contract mws \<Longrightarrow> well_behaved h \<Longrightarrow> well_behaved (compileMiddlewareChain mws h)"
  unfolding compileMiddlewareChain_def
  by (induction mws) (auto simp: keeps_contract_def)

lemma first_guard_valid: "first_guard cfg r = Some (code, msg) \<Longrightarrow> valid_status code"
  by (auto simp: first_guard_def split: if_splits)

lemma calls_admitted:
  assumes "good_hooks before" "good_hooks after" "well_behaved h"
  shows "calls w (fst (admitted cfg e before after h r w))"
proof (cases "first_guard cfg r")
  case None
  obtain w' p where h: "h r (applyHooks before r w) = (w', p)" by (cases "h r (applyHooks before r w)")
  have "calls w (applyHooks before r w)" by (rule calls_applyHooks [OF assms(1) calls_refl])
  from well_behavedD [OF assms(3) this, of r] have "calls w w'" by (simp add: h)
  then show ?thesis using assms(2) by (auto simp: admitted_def None h intro: calls_applyHooks)
qed (auto simp: admitted_def dest!: first_guard_valid intro: calls_errors(4))

lemma direct_answers:
  "committed_status (on_connection (serveMaintenance page r) base_new) = 503"
  "committed_status (on_connection (http_Error msg 503) base_new) = 503"
  by (simp_all add: committed_status_def on_connection_def serveMaintenance_def http_Error_def w_status_def w_write_def
      w_set_def w_del_def sw_WriteHeader_def sw_Write_def sw_put_def base_WriteHeader_def base_Write_def base_Flush_def
      base_put_def base_new_def newStatusWriter_def informational_def Let_def)

lemma count_status_fields:
  "TotalRequests (count_status c st) = TotalRequests st"
  "Errors4xx (count_status c st) = Errors4xx st + (if 400 \<le> c \<and> c < 500 then 1 else 0)"
  "Errors5xx (count_status c st) = Errors5xx st + (if 500 \<le> c then 1 else 0)"
  by (simp_all add: count_status_def)

lemma beginWork_cases:
  "beginWork l = (if stopping l then (False, l) else (True, l\<lparr>backgroundWg := backgroundWg l + 1\<rparr>))"
  by (simp add: beginWork_def)

text \<open>The admitted case, with the response and the counters spelled out.\<close>

definition request_admitted :: "int \<Rightarrow> file_status \<Rightarrow> request \<Rightarrow> server \<Rightarrow> bool" where
  "request_admitted now stat r s \<longleftrightarrow>
     \<not> (fst (maintenance_enabled now stat (maintenance s)) \<and> \<not> maintenance_allows (maintenance s) r) \<and>
     \<not> stopping (life s)"

lemma maintenance_enabled_allows:
  "maintenance_enabled now stat m = (on, m') \<Longrightarrow> maintenance_allows m' r = maintenance_allows m r"
  by (auto simp: maintenance_enabled_def maintenance_allows_def Let_def split: if_splits)

definition the_chain :: "config \<Rightarrow> middleware list \<Rightarrow> handler \<Rightarrow> handler" where
  "the_chain cfg mws router =
     compileMiddlewareChain mws (if normalizeAPIPrefix (APIPrefix cfg) \<noteq> [] then StripPrefix (normalizeAPIPrefix (APIPrefix cfg)) router else router)"

lemma buildHandler_admitted:
  assumes "request_admitted now stat r s"
  shows "fst (fst (buildHandler cfg e page mws router now stat r conn s)) =
           sw_inner (fst (admitted cfg e (beforeHooks s) (afterHooks s) (the_chain cfg mws router) r (newStatusWriter conn)))"
    and "stats (snd (buildHandler cfg e page mws router now stat r conn s)) =
           count_status (sw_status (fst (admitted cfg e (beforeHooks s) (afterHooks s) (the_chain cfg mws router) r (newStatusWriter conn))))
             ((stats s)\<lparr>TotalRequests := TotalRequests (stats s) + 1\<rparr>)"
    and "life (snd (buildHandler cfg e page mws router now stat r conn s)) = life s"
proof -
  obtain on m' where me: "maintenance_enabled now stat (maintenance s) = (on, m')"
    by (cases "maintenance_enabled now stat (maintenance s)")
  note facts = buildHandler_def Let_def request_admitted_def beginWork_cases me maintenance_enabled_allows [OF me]
  show "fst (fst (buildHandler cfg e page mws router now stat r conn s)) =
           sw_inner (fst (admitted cfg e (beforeHooks s) (afterHooks s) (the_chain cfg mws router) r (newStatusWriter conn)))"
    and "stats (snd (buildHandler cfg e page mws router now stat r conn s)) =
           count_status (sw_status (fst (admitted cfg e (beforeHooks s) (afterHooks s) (the_chain cfg mws router) r (newStatusWriter conn))))
             ((stats s)\<lparr>TotalRequests := TotalRequests (stats s) + 1\<rparr>)"
    and "life (snd (buildHandler cfg e page mws router now stat r conn s)) = life s"
    using assms by (auto simp: facts the_chain_def workDone_def split_beta)
qed

lemma buildHandler_refused:
  assumes "\<not> request_admitted now stat r s"
  shows "committed_status (fst (fst (buildHandler cfg e page mws router now stat r base_new s))) = 503"
    and "stats (snd (buildHandler cfg e page mws router now stat r base_new s)) = stats s"
    and "life (snd (buildHandler cfg e page mws router now stat r base_new s)) = life s"
proof -
  obtain on m' where me: "maintenance_enabled now stat (maintenance s) = (on, m')"
    by (cases "maintenance_enabled now stat (maintenance s)")
  note facts = buildHandler_def Let_def request_admitted_def beginWork_cases me maintenance_enabled_allows [OF me]
  show "committed_status (fst (fst (buildHandler cfg e page mws router now stat r base_new s))) = 503"
    and "stats (snd (buildHandler cfg e page mws router now stat r base_new s)) = stats s"
    and "life (snd (buildHandler cfg e page mws router now stat r base_new s)) = life s"
    using assms by (auto simp: facts direct_answers split_beta)
qed

section \<open>Properties\<close>

text \<open>C10: The server's statistics count what clients received: a request refused by maintenance mode or by
  shutdown is answered 503 and changes no counter; every other request adds one to the total
  and one to exactly the error counter of the status class that was committed on the
  connection, whatever the middlewares, hooks and handler do with the response writer; and
  the work counter is back where it was.\<close>
theorem stats_count_responses:
  assumes "well_behaved router" and "list_all keeps_contract mws"
    and "good_hooks (beforeHooks s)" and "good_hooks (afterHooks s)"
  shows "let ((b, panicked), s') = buildHandler cfg e page mws router now stat r base_new s;
             one = (\<lambda>c. if request_admitted now stat r s \<and> c then 1 else 0); code = committed_status b
         in TotalRequests (stats s') = TotalRequests (stats s) + one True \<and>
            Errors4xx (stats s') = Errors4xx (stats s) + one (400 \<le> code \<and> code < 500) \<and>
            Errors5xx (stats s') = Errors5xx (stats s) + one (500 \<le> code) \<and>
            life s' = life s \<and> (request_admitted now stat r s \<or> code = 503)"
proof (cases "request_admitted now stat r s")
  case True
  have "well_behaved (the_chain cfg mws router)"
    unfolding the_chain_def using assms(1,2) keeps_prefix(2) by (auto simp: keeps_contract_def intro!: compile_contract)
  note c = calls_status [OF calls_admitted [OF assms(3,4) this], of cfg e r]
  show ?thesis using buildHandler_admitted [OF True, of cfg e page mws router base_new] True c
    by (auto simp: Let_def count_status_fields committed_status_def split: prod.splits option.splits)
next
  case False
  with buildHandler_refused [OF False, of cfg e page mws router] show ?thesis
    by (auto simp: Let_def split: prod.splits)
qed

definition sample_request :: request where
  "sample_request = \<lparr>rMethod = ''GET'', rHost = ''h'', rPath = ''/x'', rRawPath = [], rRawQuery = [], rURLLen = 2, rHeaders = [],
     rContentLength = 0, rTLS = False, rRemoteAddr = [], rRequestID = None, rParams = None\<rparr>"

definition sample_server :: server where
  "sample_server = \<lparr>stats = \<lparr>ActiveConnections = 0, TotalRequests = 7, Errors4xx = 1, Errors5xx = 0\<rparr>, life = lifecycle_init,
     maintenance = newMaintenanceModeAt False 0 [] ''/srv/maintenance'', beforeHooks = [], afterHooks = []\<rparr>"

definition sample_config :: config where
  "sample_config = \<lparr>APIPrefix = [], MaxURLLength = 100, MaxHeaders = 10, MaxBodySize = 0, MaxConnections = 1\<rparr>"

definition sample_env :: http_env where
  "sample_env = \<lparr>responseMode = ''html'', errorTmpl = (\<lambda>c t m i. Some t)\<rparr>"

definition not_found_handler :: handler where
  "not_found_handler r w = (w_status 200 (http_Error ''404 page not found'' 404 w), False)"

lemma not_found_handler_well: "well_behaved not_found_handler"
  unfolding well_behaved_def not_found_handler_def
  by (auto intro!: calls_step(4) calls_errors(1))

theorem stats_count_responses_witness:
  "let ((b, panicked), s') = buildHandler sample_config sample_env [] [RedirectMiddleware] not_found_handler
         1000 StatError (sample_request\<lparr>rTLS := True\<rparr>) base_new sample_server
   in Errors4xx (stats s') = 2 \<and> TotalRequests (stats s') = 8"
proof -
  have a: "request_admitted 1000 StatError (sample_request\<lparr>rTLS := True\<rparr>) sample_server" by code_simp
  have c: "committed_status (fst (fst (buildHandler sample_config sample_env [] [RedirectMiddleware] not_found_handler
         1000 StatError (sample_request\<lparr>rTLS := True\<rparr>) base_new sample_server))) = 404" by code_simp
  have t: "stats sample_server = \<lparr>ActiveConnections = 0, TotalRequests = 7, Errors4xx = 1, Errors5xx = 0\<rparr>"
    by (simp add: sample_server_def)
  have h: "good_hooks (beforeHooks sample_server)" "good_hooks (afterHooks sample_server)"
    by (simp_all add: good_hooks_def sample_server_def)
  show ?thesis
    using stats_count_responses [OF not_found_handler_well, of "[RedirectMiddleware]", OF _ h, of sample_config sample_env "[]"
        1000 StatError "sample_request\<lparr>rTLS := True\<rparr>"] keeps_filters(1) a c t
    by (auto simp: Let_def split: prod.splits)
qed

text \<open>The guards come before the application: when the URL is too long, the request has too many
  headers, an unknown method or too large an announced body, the response is 414, 431, 405
  or 413 in this order of precedence, and it is the same whatever the middlewares, the
  hooks and the handler are.\<close>
theorem guards_before_application:
  assumes "request_admitted now stat r s" and "first_guard cfg r = Some (code, msg)"
  shows "committed_status (fst (fst (buildHandler cfg e page mws router now stat r base_new s))) = code \<and>
         fst (buildHandler cfg e page mws router now stat r base_new s) =
         fst (buildHandler cfg e page mws' router' now stat r base_new (s\<lparr>beforeHooks := bh, afterHooks := ah\<rparr>)) \<and>
         code = (if rURLLen r > MaxURLLength cfg then 414
                 else if int (length (rHeaders r)) > MaxHeaders cfg then 431
                 else if \<not> isRequestMethod (rMethod r) then 405 else 413)"
proof -
  have adm: "request_admitted now stat r (s\<lparr>beforeHooks := bh, afterHooks := ah\<rparr>)"
    using assms(1) by (simp add: request_admitted_def)
  have ans: "buildHandler cfg e page m h now stat r base_new t =
      ((sw_inner (rejectRequest e r code msg (newStatusWriter base_new)), False), snd (buildHandler cfg e page m h now stat r base_new t))"
    if "request_admitted now stat r t" for m h t
    using that assms(2)
    by (cases "maintenance_enabled now stat (maintenance t)")
      (auto simp: buildHandler_def Let_def request_admitted_def beginWork_cases admitted_def maintenance_enabled_allows)
  have "calls (newStatusWriter base_new) (rejectRequest e r code msg (newStatusWriter base_new))"
    by (rule calls_errors(4) [OF first_guard_valid [OF assms(2)]])
  moreover have "sw_status (rejectRequest e r code msg (newStatusWriter base_new)) = code"
    using assms(2)
    by (auto simp: first_guard_def rejectRequest_def RenderErrorJSON_def RenderError_def http_Error_def w_status_def w_write_def
        w_set_def w_del_def sw_WriteHeader_def sw_Write_def sw_put_def newStatusWriter_def Let_def
        split: if_splits option.splits)
  ultimately have "committed_status (sw_inner (rejectRequest e r code msg (newStatusWriter base_new))) = code"
    using calls_status by (fastforce simp: committed_status_def)
  then show ?thesis using ans [OF assms(1)] ans [OF adm] assms(2)
    by (auto simp: first_guard_def split: if_splits) (metis fst_conv)+
qed

theorem guards_before_application_witness:
  "committed_status (fst (fst (buildHandler sample_config sample_env [] [] not_found_handler 1000 StatError
     (sample_request\<lparr>rMethod := ''BREW''\<rparr>) base_new sample_server))) = 405"
  using guards_before_application [of 1000 StatError "sample_request\<lparr>rMethod := ''BREW''\<rparr>" sample_server sample_config 405
      "status_text 405" sample_env "[]" "[]" not_found_handler]
  by (simp add: request_admitted_def sample_server_def sample_request_def sample_config_def first_guard_def isRequestMethod_def
      maintenance_enabled_def newMaintenanceModeAt_def lifecycle_init_def)

text \<open>The answers of the maintenance check at a sequence of times, over a file system in which \<open>stat t\<close>
  is what the check would find at time \<open>t\<close>.\<close>

fun maintenance_run :: "(int \<Rightarrow> file_status) \<Rightarrow> int list \<Rightarrow> maintenanceMode \<Rightarrow> bool list" where
  "maintenance_run stat [] m = []"
| "maintenance_run stat (t # ts) m =
     (let (on, m') = maintenance_enabled t (stat t) m in on # maintenance_run stat ts m')"

definition maintenance_truth :: "file_status \<Rightarrow> bool" where
  "maintenance_truth st \<longleftrightarrow> st = StatFile"

lemma maintenance_run_fresh:
  assumes "\<not> mm_fallback m" "mm_file m \<noteq> []" "sorted (start # ts)" "0 < start" "mm_lastCheck m \<le> start"
    and "mm_lastCheck m \<noteq> 0 \<longrightarrow> mm_enabledValue m = maintenance_truth (stat (mm_lastCheck m))" "0 < mm_interval m"
  shows "list_all2 (\<lambda>t on. \<exists>t'. t - mm_interval m < t' \<and> t' \<le> t \<and> on = maintenance_truth (stat t')) ts (maintenance_run stat ts m)"
  using assms
proof (induction ts arbitrary: m start)
  case (Cons t ts)
  obtain on m' where me: "maintenance_enabled t (stat t) m = (on, m')" by (cases "maintenance_enabled t (stat t) m")
  have m': "\<not> mm_fallback m'" "mm_file m' \<noteq> []" "mm_interval m' = mm_interval m" "mm_lastCheck m' \<le> t"
    "mm_lastCheck m' \<noteq> 0" "mm_enabledValue m' = maintenance_truth (stat (mm_lastCheck m'))"
    "on = maintenance_truth (stat (mm_lastCheck m'))" "t - mm_interval m < mm_lastCheck m'"
    using me Cons.prems
    by (auto simp: maintenance_enabled_def maintenance_truth_def Let_def split: if_splits file_status.splits)
  have "sorted (t # ts)" "0 < t" "0 < mm_interval m'" using Cons.prems m'(3) by auto
  from Cons.IH [OF m'(1,2) this(1,2) m'(4) _ this(3)] m'(3,6)
  have "list_all2 (\<lambda>t on. \<exists>t'. t - mm_interval m < t' \<and> t' \<le> t \<and> on = maintenance_truth (stat t')) ts (maintenance_run stat ts m')"
    by simp
  with m' show ?case by (auto simp: me)
qed simp

text \<open>The maintenance switch is never stale for longer than the check interval: whenever it is checked,
  over any sequence of requests in time order, the answer is what the file system said at
  some moment within the last interval (5 seconds when none is configured).\<close>
theorem maintenance_fresh:
  assumes "sorted ts" and "list_all (\<lambda>t. 0 < t) ts" and "path \<noteq> []"
  shows "list_all2 (\<lambda>t on. \<exists>t'. t - (if interval \<le> 0 then 5 * 1000000000 else interval) < t' \<and> t' \<le> t \<and> on = (stat t' = StatFile))
           ts (maintenance_run stat ts (newMaintenanceModeAt False interval token path))"
proof (cases ts)
  case (Cons t ts')
  let ?m = "newMaintenanceModeAt False interval token path"
  have "list_all2 (\<lambda>t on. \<exists>t'. t - mm_interval ?m < t' \<and> t' \<le> t \<and> on = maintenance_truth (stat t')) ts (maintenance_run stat ts ?m)"
    using assms Cons by (intro maintenance_run_fresh [where start = t]) (auto simp: newMaintenanceModeAt_def)
  then show ?thesis by (simp add: maintenance_truth_def newMaintenanceModeAt_def)
qed simp

theorem maintenance_fresh_witness:
  "list_all2 (\<lambda>t on. \<exists>t'. t - 10 < t' \<and> t' \<le> t \<and> on = (t' \<ge> (5::int)))
     [1, 6, 12] (maintenance_run (\<lambda>t. if t \<ge> 5 then StatFile else StatError) [1, 6, 12] (newMaintenanceModeAt False 10 [] ''m''))"
proof -
  have e: "((if 5 \<le> t then StatFile else StatError) = StatFile) \<longleftrightarrow> 5 \<le> t" for t :: int by simp
  have "sorted [1, 6, 12 :: int]" "list_all (\<lambda>t. 0 < t) [1, 6, 12 :: int]" "''m'' \<noteq> []" by simp_all
  from maintenance_fresh [OF this, where interval = 10 and token = "[]"
      and stat = "\<lambda>t. if t \<ge> 5 then StatFile else StatError", unfolded e]
  show ?thesis by (simp del: maintenance_run.simps)
qed

text \<open>The connection limit does not hold: in every reachable state the open connections exceed the
  server's counter by the number of refused connections that have been closed, because a refused
  connection is taken off the counter twice; so with a limit of one, a second client can
  be admitted while the first is still connected.\<close>
theorem connection_limit_drifts:
  "(\<forall>s. conn_reachable maxConn s \<longrightarrow> int (card (cw_open s)) = cw_count s + int (cw_drift s)) \<and>
   (\<exists>s. conn_reachable 1 s \<and> card (cw_open s) = 2)"
proof
  show "\<forall>s. conn_reachable maxConn s \<longrightarrow> int (card (cw_open s)) = cw_count s + int (cw_drift s)"
    using conn_reachable_inv by (auto simp: conn_inv_def)
  have "conn_reachable 1 (conn_init\<lparr>cw_count := 1, cw_open := {0}\<rparr>)"
    using conn_next [OF conn_start conn_step.accepted [of 0 conn_init 1 1]] by (simp add: conn_init_def connState_def)
  from conn_next [OF this conn_step.rejected [of 1 _ 1 1]]
  have "conn_reachable 1 (conn_init\<lparr>cw_count := 1, cw_open := {0}, cw_rejected := {1}\<rparr>)"
    by (simp add: conn_init_def connState_def)
  from conn_next [OF this conn_step.rejected_closed [of 1 _ 1 0 False]]
  have "conn_reachable 1 (conn_init\<lparr>cw_count := 0, cw_open := {0}, cw_rejected := {}, cw_drift := 1\<rparr>)"
    by (simp add: conn_init_def connState_def)
  from conn_next [OF this conn_step.accepted [of 2 _ 1 1]]
  have "conn_reachable 1 (conn_init\<lparr>cw_count := 1, cw_open := {2, 0}, cw_rejected := {}, cw_drift := 1\<rparr>)"
    by (simp add: conn_init_def connState_def)
  then show "\<exists>s. conn_reachable 1 s \<and> card (cw_open s) = 2" by (intro exI conjI) (assumption, simp)
qed

theorem connection_limit_drifts_witness:
  "int (card (cw_open conn_init)) = cw_count conn_init + int (cw_drift conn_init)"
  using connection_limit_drifts [of 1] conn_start [of 1] by blast

end
