(* ===== verification/Session.thy ===== *)
theory Session imports GoPrelude begin

text \<open>
  Sessions (\<^verbatim>\<open>session.go\<close>, \<^verbatim>\<open>redis/session.go\<close>): the in-memory storage over an LRU cache, the Redis
  storage over a client that is a parameter, and the functions the application calls on a
  session sid, which rely only on the storage interface (locale \<open>session_store\<close>). Times are
  in nanoseconds; the storage's clock is an argument of each operation. A session is an
  association list from names to values of any type.
\<close>

type_synonym 'v session = "(string \<times> 'v) list"

section \<open>The in-memory storage\<close>

record 'v memItem =
  Data :: "'v session"
  ExpiresAt :: int

type_synonym 'v memStore = "(string \<times> 'v memItem) list"

definition mem_Get :: "int \<Rightarrow> string \<Rightarrow> 'v memStore \<Rightarrow> 'v session option \<times> 'v memStore" where
  "mem_Get now sid s =
     (case map_of s sid of
        None \<Rightarrow> (None, s)
      | Some item \<Rightarrow> if now > ExpiresAt item then (None, AList.delete sid s) else (Some (Data item), s))"

definition mem_Set :: "string list \<Rightarrow> int \<Rightarrow> int \<Rightarrow> string \<Rightarrow> 'v session \<Rightarrow> 'v memStore \<Rightarrow> 'v memStore" where
  "mem_Set ev ttl now sid data s = lru_add ev sid \<lparr>Data = data, ExpiresAt = now + ttl\<rparr> s"

definition mem_Delete :: "string \<Rightarrow> 'v memStore \<Rightarrow> 'v memStore" where
  "mem_Delete sid s = AList.delete sid s"

text \<open>The two generating operations. The function under \<^verbatim>\<open>singleflight\<close> runs at once, as it does for the
  first of concurrent callers; the lock is released while \<open>generate\<close> runs, so it may change the store.\<close>

definition mem_GetOrSetSession ::
  "string list \<Rightarrow> int \<Rightarrow> int \<Rightarrow> string \<Rightarrow> 'v session \<Rightarrow> 'v memStore \<Rightarrow> 'v session \<times> 'v memStore" where
  "mem_GetOrSetSession ev ttl now sid newData s =
     (case mem_Get now sid s of
        (Some val, s1) \<Rightarrow> (val, s1)
      | (None, s1) \<Rightarrow> (case mem_Get now sid s1 of
            (Some val, s2) \<Rightarrow> (val, s2)
          | (None, s2) \<Rightarrow> (newData, mem_Set ev ttl now sid newData s2)))"

definition mem_GetOrSet ::
  "string list \<Rightarrow> int \<Rightarrow> int \<Rightarrow> string \<Rightarrow> string \<Rightarrow> ('v memStore \<Rightarrow> ('e + 'v) \<times> 'v memStore) \<Rightarrow> 'v memStore \<Rightarrow>
   ('e + 'v) \<times> 'v memStore" where
  "mem_GetOrSet ev ttl now sid key generate s =
     (case (case map_of s sid of None \<Rightarrow> None | Some item \<Rightarrow> map_of (Data item) key) of
        Some val \<Rightarrow> (Inr val, s)
      | None \<Rightarrow>
          (let (sessionData, s1) =
             (case map_of s sid of
                None \<Rightarrow> ([], s)
              | Some item \<Rightarrow> if now > ExpiresAt item then ([], AList.delete sid s) else (Data item, s))
           in case map_of sessionData key of
                Some val \<Rightarrow> (Inr val, s1)
              | None \<Rightarrow>
                  (case generate s1 of
                     (Inl e, s2) \<Rightarrow> (Inl e, s2)
                   | (Inr v, s2) \<Rightarrow>
                       (Inr v, case map_of s2 sid of
                          Some item \<Rightarrow> AList.update sid (item\<lparr>Data := AList.update key v (Data item)\<rparr>) s2
                        | None \<Rightarrow> lru_add ev sid \<lparr>Data = [(key, v)], ExpiresAt = now + ttl\<rparr> s2))))"

section \<open>The Redis storage\<close>

text \<open>The client's commands at a time are the parameters \<open>rget\<close>, \<open>rset\<close>, \<open>rdel\<close> (with the error of a
  failed command), JSON's encoder and decoder \<open>enc\<close>, \<open>dec\<close>.\<close>

definition redisSessionPrefix :: string where "redisSessionPrefix = ''session:''"

definition redis_Get ::
  "(int \<Rightarrow> string \<Rightarrow> 'r \<Rightarrow> 'e + string) \<Rightarrow> (string \<Rightarrow> 'v session option) \<Rightarrow> int \<Rightarrow> string \<Rightarrow> 'r \<Rightarrow> 'v session option" where
  "redis_Get rget dec now sid s =
     (case rget now (redisSessionPrefix @ sid) s of Inl e \<Rightarrow> None | Inr val \<Rightarrow> dec val)"

definition redis_Set ::
  "(int \<Rightarrow> string \<Rightarrow> string \<Rightarrow> int \<Rightarrow> 'r \<Rightarrow> 'e option \<times> 'r) \<Rightarrow> ('v session \<Rightarrow> 'e + string) \<Rightarrow> int \<Rightarrow> int \<Rightarrow> string \<Rightarrow>
   'v session \<Rightarrow> 'r \<Rightarrow> 'e option \<times> 'r" where
  "redis_Set rset enc ttl now sid data s =
     (case enc data of Inl e \<Rightarrow> (Some e, s) | Inr bytes \<Rightarrow> rset now (redisSessionPrefix @ sid) bytes ttl s)"

definition redis_Delete :: "(string \<Rightarrow> 'r \<Rightarrow> 'r) \<Rightarrow> string \<Rightarrow> 'r \<Rightarrow> 'r" where
  "redis_Delete rdel sid s = rdel (redisSessionPrefix @ sid) s"

definition redis_expiration :: "int \<Rightarrow> int" where
  "redis_expiration cfg = (if cfg = 0 then 12 * 3600 * 1000000000 else cfg)"

definition redis_GetOrSetSession where
  "redis_GetOrSetSession rget rset enc dec ttl now sid newData s =
     (case redis_Get rget dec now sid s of
        Some val \<Rightarrow> (Inr val, s)
      | None \<Rightarrow> (case redis_Set rset enc ttl now sid newData s of
            (Some e, s1) \<Rightarrow> (Inl e, s1)
          | (None, s1) \<Rightarrow> (Inr newData, s1)))"

definition redis_GetOrSet where
  "redis_GetOrSet rget rset enc dec ttl now sid key generate s =
     (let current = redis_Get rget dec now sid s
      in case (case current of None \<Rightarrow> None | Some d \<Rightarrow> map_of d key) of
           Some val \<Rightarrow> (Inr val, s)
         | None \<Rightarrow> (case generate s of
               (Inl e, s1) \<Rightarrow> (Inl e, s1)
             | (Inr v, s1) \<Rightarrow>
                 (case redis_Set rset enc ttl now sid (AList.update key v (case current of None \<Rightarrow> [] | Some d \<Rightarrow> d)) s1 of
                    (Some e, s2) \<Rightarrow> (Inl e, s2)
                  | (None, s2) \<Rightarrow> (Inr v, s2))))"

section \<open>The application's functions on a session sid\<close>

definition SetSessionValue where
  "SetSessionValue get put now sid name v s =
     (case get now sid s of (d, s1) \<Rightarrow> put now sid (AList.update name v (case d of None \<Rightarrow> [] | Some data \<Rightarrow> data)) s1)"

definition GetSessionValue where
  "GetSessionValue get now sid name s =
     (case get now sid s of (d, s1) \<Rightarrow> (case d of None \<Rightarrow> None | Some data \<Rightarrow> map_of data name, s1))"

definition GetAllSessionValues where
  "GetAllSessionValues get now sid s =
     (case get now sid s of (d, s1) \<Rightarrow> (case d of None \<Rightarrow> [] | Some data \<Rightarrow> data, s1))"

definition Destroy where
  "Destroy del sid s = del sid s"

text \<open>The storage interface: what a client may assume of \<^verbatim>\<open>Get\<close>, \<^verbatim>\<open>Set\<close> and \<^verbatim>\<open>Delete\<close>. \<open>view t s id\<close> is the
  session that a lookup at time \<open>t\<close> finds. A storage may forget other sessions when it adds one.\<close>

locale session_store =
  fixes get :: "int \<Rightarrow> string \<Rightarrow> 's \<Rightarrow> 'v session option \<times> 's"
    and put :: "int \<Rightarrow> string \<Rightarrow> 'v session \<Rightarrow> 's \<Rightarrow> 's"
    and del :: "string \<Rightarrow> 's \<Rightarrow> 's"
    and view :: "int \<Rightarrow> 's \<Rightarrow> string \<Rightarrow> 'v session option"
    and ttl :: int
  assumes get_view: "fst (get t sid s) = view t s sid"
    and get_keeps: "t \<le> t' \<Longrightarrow> view t' (snd (get t sid s)) j = view t' s j"
    and set_view: "t \<le> t' \<Longrightarrow> view t' (put t sid d s) sid = (if t' \<le> t + ttl then Some d else None)"
    and set_other: "j \<noteq> sid \<Longrightarrow> view t' (put t sid d s) j = None \<or> view t' (put t sid d s) j = view t' s j"
    and del_view: "view t (del sid s) j = (if j = sid then None else view t s j)"
begin

lemma set_then_get:
  assumes "t \<le> t'"
  shows "fst (GetSessionValue get t' sid name' (SetSessionValue get put t sid name v s)) =
         (if t' > t + ttl then None
          else if name' = name then Some v else fst (GetSessionValue get t sid name' s))"
proof -
  obtain d s1 where g: "get t sid s = (d, s1)" by (cases "get t sid s")
  let ?d = "AList.update name v (case d of None \<Rightarrow> [] | Some data \<Rightarrow> data)"
  have "fst (GetSessionValue get t' sid name' (SetSessionValue get put t sid name v s)) =
        (case view t' (put t sid ?d s1) sid of None \<Rightarrow> None | Some data \<Rightarrow> map_of data name')"
    by (simp add: GetSessionValue_def SetSessionValue_def g split_beta get_view)
  also have "\<dots> = (if t' > t + ttl then None else map_of ?d name')" using set_view [OF assms] by simp
  finally show ?thesis by (auto simp: GetSessionValue_def g split: option.splits)
qed

lemma set_keeps_others:
  "j \<noteq> sid \<Longrightarrow> t \<le> t' \<Longrightarrow>
   view t' (SetSessionValue get put t sid name v s) j \<in> {None, view t' s j}"
proof -
  assume "j \<noteq> sid" "t \<le> t'"
  obtain d s1 where g: "get t sid s = (d, s1)" by (cases "get t sid s")
  have "view t' s1 j = view t' s j" using get_keeps [OF \<open>t \<le> t'\<close>, of sid s j] g by simp
  moreover have "view t' (put t sid dd s1) j = None \<or> view t' (put t sid dd s1) j = view t' s1 j" for dd
    by (rule set_other [OF \<open>j \<noteq> sid\<close>])
  ultimately show ?thesis by (simp add: SetSessionValue_def g)
qed

lemma destroyed: "fst (GetSessionValue get t sid name (Destroy del sid s)) = None"
  by (simp add: GetSessionValue_def Destroy_def split_beta get_view del_view)

end

section \<open>The in-memory storage provides the interface\<close>

definition mem_view :: "int \<Rightarrow> 'v memStore \<Rightarrow> string \<Rightarrow> 'v session option" where
  "mem_view t s sid = (case map_of s sid of None \<Rightarrow> None | Some item \<Rightarrow> if t > ExpiresAt item then None else Some (Data item))"

interpretation memory: session_store mem_Get "mem_Set ev ttl" mem_Delete mem_view ttl for ev ttl
  by unfold_locales
    (auto simp: mem_Get_def mem_Set_def mem_Delete_def mem_view_def map_of_lru_add split: option.splits)

section \<open>Properties\<close>

text \<open>A session stored in memory behaves like a map with an expiry: after setting a name at time \<open>t\<close>, a
  lookup at \<open>t'\<close> gives the value, every other name of the session is as it was at \<open>t\<close>, and
  nothing is found after the expiry; other sessions are unchanged or evicted; and a
  destroyed session has no values.\<close>
theorem session_values:
  assumes "t \<le> t'"
  shows "fst (GetSessionValue mem_Get t' sid name' (SetSessionValue mem_Get (mem_Set ev ttl) t sid name v s)) =
           (if t' > t + ttl then None else if name' = name then Some v else fst (GetSessionValue mem_Get t sid name' s)) \<and>
         (sid' \<noteq> sid \<longrightarrow>
           mem_view t' (SetSessionValue mem_Get (mem_Set ev ttl) t sid name v s) sid' \<in> {None, mem_view t' s sid'}) \<and>
         fst (GetSessionValue mem_Get t' sid name' (Destroy mem_Delete sid s)) = None"
  using memory.set_then_get [OF assms, of sid name' ev ttl name v s]
    memory.set_keeps_others [OF _ assms, of sid' sid ev ttl name v s] memory.destroyed [of t' sid name' s] by blast

theorem session_values_witness:
  "fst (GetSessionValue mem_Get 5 ''a'' ''user'' (SetSessionValue mem_Get (mem_Set [] 10) 1 ''a'' ''user'' (7::nat) [])) = Some 7"
  using session_values [of 1 5 "''a''" "''user''" "[]" 10 "''user''" "7::nat" "[]"] by simp

text \<open>The generating lookup of the in-memory storage gives out values of expired sessions: it returns a
  value that \<^verbatim>\<open>Get\<close> no longer finds, without generating a new one.\<close>
theorem getorset_returns_expired:
  "let s = mem_Set [] 10 0 ''a'' [(''user'', ''alice'')] []
   in fst (mem_Get 99 ''a'' s) = None \<and>
      fst (mem_GetOrSet [] 10 99 ''a'' ''user'' (\<lambda>s. (Inr ''nobody'', s)) s) = (Inr ''alice'' :: string + string)"
  by code_simp

end
