(* ===== verification/Cache.thy ===== *)
theory Cache imports GoPrelude begin

text \<open>
  The caches (\<^verbatim>\<open>cache.go\<close>, \<^verbatim>\<open>redis/cache.go\<close>): the two-level cache of memory and disk and its
  operations, the Redis cache over a client that is a parameter, and the typed \<^verbatim>\<open>Fetch\<close>
  functions, which rely only on the store's interface (locale \<open>cache_store\<close>). Times are in
  nanoseconds and every operation takes the clock it reads. The disk is keyed by the key
  itself: the file name is its SHA-256 digest, taken as free of collisions. A file's time is
  the time of the write. A generator is given by the result it would return.
\<close>

record cacheItem =
  Value :: string
  Expiration :: int

record hybrid =
  memoryCache :: "(string \<times> cacheItem) list"
  disk :: "(string \<times> (string \<times> int)) list"
  useDisk :: bool
  revalidating :: "string list"

definition NewCache :: "string \<Rightarrow> hybrid" where
  "NewCache dataDir = \<lparr>memoryCache = [], disk = [], useDisk = (dataDir \<noteq> []), revalidating = []\<rparr>"

datatype cache_error = GenFailed | EmptyData | RedisFailed string

definition memoryAdd :: "string list \<Rightarrow> string \<Rightarrow> cacheItem \<Rightarrow> hybrid \<Rightarrow> hybrid" where
  "memoryAdd ev k item c = c\<lparr>memoryCache := lru_add ev k item (memoryCache c)\<rparr>"

definition memoryRemove :: "string \<Rightarrow> hybrid \<Rightarrow> hybrid" where
  "memoryRemove k c = c\<lparr>memoryCache := AList.delete k (memoryCache c)\<rparr>"

text \<open>\<open>wrote\<close> tells whether writing and renaming the file succeeded.\<close>

definition save :: "string list \<Rightarrow> bool \<Rightarrow> int \<Rightarrow> string \<Rightarrow> string \<Rightarrow> int \<Rightarrow> hybrid \<Rightarrow> hybrid" where
  "save ev wrote now k data maxAge c =
     (let c1 = memoryAdd ev k \<lparr>Value = data, Expiration = now + maxAge\<rparr> c
      in if useDisk c1 \<and> wrote then c1\<lparr>disk := AList.update k (data, now) (disk c1)\<rparr> else c1)"

text \<open>The function under \<^verbatim>\<open>singleflight\<close> of the two lookups. The result's flag tells whether the
  generator ran; \<open>forget\<close> is the removal of the expired item, which only \<^verbatim>\<open>GetOrSet\<close> does.\<close>

definition generate_and_save ::
  "string list \<Rightarrow> bool \<Rightarrow> int \<Rightarrow> string \<Rightarrow> int \<Rightarrow> bool \<Rightarrow> cache_error + string \<Rightarrow> hybrid \<Rightarrow> (cache_error + string) \<times> hybrid" where
  "generate_and_save ev wrote now k maxAge forget gen c =
     (case map_of (memoryCache c) k of
        Some item \<Rightarrow> if now \<le> Expiration item then (Inr (Value item), c)
                     else (case gen of Inl e \<Rightarrow> (Inl e, if forget then memoryRemove k c else c)
                           | Inr data \<Rightarrow> (if data = [] then (Inl EmptyData, if forget then memoryRemove k c else c)
                                          else (Inr data, save ev wrote now k data maxAge (if forget then memoryRemove k c else c))))
      | None \<Rightarrow> (case gen of Inl e \<Rightarrow> (Inl e, c)
                 | Inr data \<Rightarrow> if data = [] then (Inl EmptyData, c) else (Inr data, save ev wrote now k data maxAge c)))"

definition GetOrSet ::
  "string list \<Rightarrow> bool \<Rightarrow> int \<Rightarrow> string \<Rightarrow> int \<Rightarrow> cache_error + string \<Rightarrow> hybrid \<Rightarrow> (cache_error + string) \<times> hybrid" where
  "GetOrSet ev wrote now k maxAge gen c0 =
     (case map_of (memoryCache c0) k of
        Some item \<Rightarrow>
          if now \<le> Expiration item then (Inr (Value item), c0)
          else (let c = memoryRemove k c0
                in case (if useDisk c then map_of (disk c) k else None) of
                     Some (data, mtime) \<Rightarrow>
                       if now \<le> mtime + maxAge then (Inr data, memoryAdd ev k \<lparr>Value = data, Expiration = mtime + maxAge\<rparr> c)
                       else generate_and_save ev wrote now k maxAge True gen c
                   | None \<Rightarrow> generate_and_save ev wrote now k maxAge True gen c)
      | None \<Rightarrow>
          (case (if useDisk c0 then map_of (disk c0) k else None) of
             Some (data, mtime) \<Rightarrow>
               if now \<le> mtime + maxAge then (Inr data, memoryAdd ev k \<lparr>Value = data, Expiration = mtime + maxAge\<rparr> c0)
               else generate_and_save ev wrote now k maxAge True gen c0
           | None \<Rightarrow> generate_and_save ev wrote now k maxAge True gen c0))"

text \<open>Stale-while-revalidate: a stale value is returned and a background update is started unless one is
  running for the key.\<close>

definition triggerRevalidate :: "string \<Rightarrow> hybrid \<Rightarrow> hybrid" where
  "triggerRevalidate k c = (if k \<in> set (revalidating c) then c else c\<lparr>revalidating := k # revalidating c\<rparr>)"

definition GetOrSetSWR ::
  "string list \<Rightarrow> bool \<Rightarrow> int \<Rightarrow> string \<Rightarrow> int \<Rightarrow> cache_error + string \<Rightarrow> hybrid \<Rightarrow> (cache_error + string) \<times> hybrid" where
  "GetOrSetSWR ev wrote now k maxAge gen c =
     (case map_of (memoryCache c) k of
        Some item \<Rightarrow> (Inr (Value item), if now \<le> Expiration item then c else triggerRevalidate k c)
      | None \<Rightarrow>
          (case (if useDisk c then map_of (disk c) k else None) of
             Some (data, mtime) \<Rightarrow>
               (let c1 = memoryAdd ev k \<lparr>Value = data, Expiration = mtime + maxAge\<rparr> c
                in (Inr data, if now \<le> mtime + maxAge then c1 else triggerRevalidate k c1))
           | None \<Rightarrow> generate_and_save ev wrote now k maxAge False gen c))"

text \<open>What a call of \<^verbatim>\<open>group.Do\<close> hands to every caller that joined it: the background update answers with
  an untyped nil when it succeeds.\<close>

datatype flight_result = FlightBytes string | FlightNil | FlightErr cache_error

definition revalidate ::
  "string list \<Rightarrow> bool \<Rightarrow> int \<Rightarrow> string \<Rightarrow> int \<Rightarrow> cache_error + string \<Rightarrow> hybrid \<Rightarrow> flight_result \<times> hybrid" where
  "revalidate ev wrote now k maxAge gen c0 =
     (let (res, c) = (case gen of
            Inl e \<Rightarrow> (FlightErr e, c0)
          | Inr data \<Rightarrow> (FlightNil, if length data > 0 then save ev wrote now k data maxAge c0 else c0))
      in (res, c\<lparr>revalidating := removeAll k (revalidating c)\<rparr>))"

text \<open>A foreground caller's use of the result, \<^verbatim>\<open>v.([]byte)\<close>; \<open>None\<close> is a panic.\<close>

definition use_flight :: "flight_result \<Rightarrow> (cache_error + string) option" where
  "use_flight r = (case r of FlightErr e \<Rightarrow> Some (Inl e) | FlightBytes b \<Rightarrow> Some (Inr b) | FlightNil \<Rightarrow> None)"

definition Get :: "int \<Rightarrow> string \<Rightarrow> hybrid \<Rightarrow> string option" where
  "Get now k c =
     (case (case map_of (memoryCache c) k of Some item \<Rightarrow> if now \<le> Expiration item then Some (Value item) else None
            | None \<Rightarrow> None) of
        Some v \<Rightarrow> Some v
      | None \<Rightarrow> if useDisk c then map_option fst (map_of (disk c) k) else None)"

definition Set :: "string list \<Rightarrow> bool \<Rightarrow> int \<Rightarrow> string \<Rightarrow> string \<Rightarrow> int \<Rightarrow> hybrid \<Rightarrow> hybrid" where
  "Set ev wrote now k data ttl c = save ev wrote now k data ttl c"

text \<open>The two clean-up loops: expired items of memory; files older than two weeks.\<close>

definition cleanup_memory :: "int \<Rightarrow> hybrid \<Rightarrow> hybrid" where
  "cleanup_memory now c = c\<lparr>memoryCache := filter (\<lambda>(k, item). \<not> now > Expiration item) (memoryCache c)\<rparr>"

definition cleanup_disk :: "int \<Rightarrow> hybrid \<Rightarrow> hybrid" where
  "cleanup_disk now c = c\<lparr>disk := filter (\<lambda>(k, data, mtime). \<not> now - mtime > 14 * 24 * 3600 * 1000000000) (disk c)\<rparr>"

section \<open>The Redis cache\<close>

definition redis_get :: "(int \<Rightarrow> string \<Rightarrow> 'r \<Rightarrow> string + string option) \<Rightarrow> int \<Rightarrow> string \<Rightarrow> 'r \<Rightarrow> cache_error + string option" where
  "redis_get rget now k s = (case rget now k s of Inl e \<Rightarrow> Inl (RedisFailed e) | Inr v \<Rightarrow> Inr v)"

definition RedisCache_GetOrSet where
  "RedisCache_GetOrSet rget rset now k maxAge gen s =
     (case redis_get rget now k s of
        Inl e \<Rightarrow> (Inl e, s)
      | Inr (Some val) \<Rightarrow> (Inr val, s)
      | Inr None \<Rightarrow> (case redis_get rget now k s of
            Inl e \<Rightarrow> (Inl e, s)
          | Inr (Some val) \<Rightarrow> (Inr val, s)
          | Inr None \<Rightarrow> (case gen of
                Inl e \<Rightarrow> (Inl e, s)
              | Inr data \<Rightarrow>
                  if length data > 0
                  then (case rset now k data maxAge s of (Some e, s1) \<Rightarrow> (Inl (RedisFailed e), s1) | (None, s1) \<Rightarrow> (Inr data, s1))
                  else (Inr data, s))))"

definition RedisCache_Get where
  "RedisCache_Get rget now k s = (case rget now k s of Inl e \<Rightarrow> None | Inr v \<Rightarrow> v)"

section \<open>Typed access\<close>

text \<open>\<open>enc\<close> and \<open>dec\<close> are the conversions of \<^verbatim>\<open>Fetch\<close>: the identity for byte slices and strings, JSON otherwise.\<close>

datatype 'e fetch_error = FromStore 'e | UnmarshalError

definition Fetch where
  "Fetch getOrSet enc dec now k maxAge gen s =
     (case getOrSet now k maxAge (case gen of Inl e \<Rightarrow> Inl e | Inr v \<Rightarrow> enc v) s of
        (Inl e, s1) \<Rightarrow> (Inl (FromStore e), s1)
      | (Inr bytes, s1) \<Rightarrow> ((case dec bytes of None \<Rightarrow> Inl UnmarshalError | Some v \<Rightarrow> Inr v), s1))"

text \<open>The interface: a lookup gives a value held under the key or the generated one, and only the
  generated one is added, under its key. \<open>held s k\<close> is the set of values a lookup may find.\<close>

locale cache_store =
  fixes getOrSet :: "int \<Rightarrow> string \<Rightarrow> int \<Rightarrow> 'e + string \<Rightarrow> 's \<Rightarrow> ('e + string) \<times> 's"
    and held :: "'s \<Rightarrow> string \<Rightarrow> string set"
  assumes result: "getOrSet now k maxAge gen s = (Inr v, s') \<Longrightarrow> v \<in> held s k \<or> gen = Inr v"
    and grows: "getOrSet now k maxAge gen s = (r, s') \<Longrightarrow>
                held s' j \<subseteq> held s j \<union> (if j = k then {v. gen = Inr v} else {})"
begin

text \<open>If every value held decodes to something in \<open>P\<close> and the generator gives something in \<open>P\<close>, so does \<^verbatim>\<open>Fetch\<close>.\<close>

lemma fetch_typed:
  assumes "\<forall>b\<in>held s k. \<exists>v\<in>P. dec b = Some v" and "\<And>v b. enc v = Inr b \<Longrightarrow> v \<in> P \<Longrightarrow> dec b = Some v"
    and "\<And>v. gen = Inr v \<Longrightarrow> v \<in> P"
    and f: "Fetch getOrSet enc dec now k maxAge gen s = (r, s')"
  shows "(\<forall>v. r = Inr v \<longrightarrow> v \<in> P) \<and> r \<noteq> Inl UnmarshalError \<and> (\<forall>b\<in>held s' k. \<exists>v\<in>P. dec b = Some v)"
proof -
  let ?g = "case gen of Inl e \<Rightarrow> Inl e | Inr v \<Rightarrow> enc v"
  have g: "\<exists>v\<in>P. dec b = Some v" if "?g = Inr b" for b
    using that assms(2,3) by (auto split: sum.splits)
  obtain q where q: "getOrSet now k maxAge ?g s = (q, s')"
    and r: "r = (case q of Inl e \<Rightarrow> Inl (FromStore e) | Inr b \<Rightarrow> (case dec b of None \<Rightarrow> Inl UnmarshalError | Some v \<Rightarrow> Inr v))"
    using f by (auto simp: Fetch_def split: prod.splits sum.splits)
  have "\<forall>b\<in>held s' k. \<exists>v\<in>P. dec b = Some v"
    using grows [OF q, of k] assms(1) g by fastforce
  moreover have "\<exists>v\<in>P. dec b = Some v" if "q = Inr b" for b
    using result [OF q [unfolded that]] assms(1) g by blast
  ultimately show ?thesis using r by (force split: sum.splits option.splits)
qed

end

section \<open>The two-level cache provides the interface\<close>

definition hybrid_held :: "hybrid \<Rightarrow> string \<Rightarrow> string set" where
  "hybrid_held c k = {v. \<exists>e. map_of (memoryCache c) k = Some \<lparr>Value = v, Expiration = e\<rparr>} \<union>
                     {v. \<exists>t. map_of (disk c) k = Some (v, t)}"

lemma held_memoryAdd:
  "x \<in> hybrid_held (memoryAdd ev k \<lparr>Value = v, Expiration = e\<rparr> c) j \<Longrightarrow> x \<in> hybrid_held c j \<or> (j = k \<and> x = v)"
  by (auto simp: hybrid_held_def memoryAdd_def map_of_lru_add split: if_splits)

lemma held_memoryRemove: "x \<in> hybrid_held (memoryRemove k c) j \<Longrightarrow> x \<in> hybrid_held c j"
  by (auto simp: hybrid_held_def memoryRemove_def split: if_splits)

lemma held_save: "x \<in> hybrid_held (save ev wrote now k v a c) j \<Longrightarrow> x \<in> hybrid_held c j \<or> (j = k \<and> x = v)"
  by (auto simp: hybrid_held_def save_def memoryAdd_def map_of_lru_add Let_def split: if_splits)

lemma held_trigger: "hybrid_held (triggerRevalidate k c) j = hybrid_held c j"
  by (simp add: hybrid_held_def triggerRevalidate_def)

lemma held_memory: "map_of (memoryCache c) k = Some item \<Longrightarrow> Value item \<in> hybrid_held c k"
  by (cases item) (auto simp: hybrid_held_def)

lemma held_disk: "(if useDisk c then map_of (disk c) k else None) = Some (v, t) \<Longrightarrow> v \<in> hybrid_held c k"
  by (auto simp: hybrid_held_def split: if_splits)

text \<open>The shape of every lookup's outcome: a held value or the generated one, and the new cache holds
  nothing else.\<close>

definition lookup_ok :: "hybrid \<Rightarrow> string \<Rightarrow> cache_error + string \<Rightarrow> (cache_error + string) \<times> hybrid \<Rightarrow> bool" where
  "lookup_ok c k gen rc \<longleftrightarrow>
     (\<forall>v. fst rc = Inr v \<longrightarrow> v \<in> hybrid_held c k \<or> gen = Inr v) \<and>
     (\<forall>j x. x \<in> hybrid_held (snd rc) j \<longrightarrow> x \<in> hybrid_held c j \<or> (j = k \<and> gen = Inr x))"

lemma generate_ok: "lookup_ok c k gen (generate_and_save ev wrote now k a f gen c)"
proof (cases "map_of (memoryCache c) k")
  case None
  then show ?thesis
    by (auto simp: lookup_ok_def generate_and_save_def dest!: held_save split: sum.split)
next
  case (Some item)
  then show ?thesis using held_memory [OF Some]
    by (auto simp: lookup_ok_def generate_and_save_def dest!: held_save dest: held_memoryRemove split: sum.split)
qed

lemma lookup_ok_weaken:
  "lookup_ok c' k gen rc \<Longrightarrow> (\<And>j x. x \<in> hybrid_held c' j \<Longrightarrow> x \<in> hybrid_held c j) \<Longrightarrow> lookup_ok c k gen rc"
  unfolding lookup_ok_def by blast

lemma lookup_ok_disk:
  assumes "v \<in> hybrid_held c k"
  shows "lookup_ok c k gen (Inr v, memoryAdd ev k \<lparr>Value = v, Expiration = e\<rparr> c)"
  using assms by (auto simp: lookup_ok_def dest!: held_memoryAdd)

lemma GetOrSet_ok: "lookup_ok c k gen (GetOrSet ev wrote now k a gen c)"
proof -
  have disk_or_gen: "lookup_ok c k gen
      (case (if useDisk c1 then map_of (disk c1) k else None) of
         Some (data, mtime) \<Rightarrow>
           if now \<le> mtime + a then (Inr data, memoryAdd ev k \<lparr>Value = data, Expiration = mtime + a\<rparr> c1)
           else generate_and_save ev wrote now k a True gen c1
       | None \<Rightarrow> generate_and_save ev wrote now k a True gen c1)"
    if "\<And>j x. x \<in> hybrid_held c1 j \<Longrightarrow> x \<in> hybrid_held c j" for c1
  proof (rule lookup_ok_weaken [OF _ that])
    show "lookup_ok c1 k gen
      (case (if useDisk c1 then map_of (disk c1) k else None) of
         Some (data, mtime) \<Rightarrow>
           if now \<le> mtime + a then (Inr data, memoryAdd ev k \<lparr>Value = data, Expiration = mtime + a\<rparr> c1)
           else generate_and_save ev wrote now k a True gen c1
       | None \<Rightarrow> generate_and_save ev wrote now k a True gen c1)"
      using held_disk [of c1 k] by (auto intro: generate_ok lookup_ok_disk split: option.split)
  qed
  show ?thesis
  proof (cases "map_of (memoryCache c) k")
    case None
    then show ?thesis using disk_or_gen [of c] by (simp add: GetOrSet_def)
  next
    case (Some item)
    show ?thesis
    proof (cases "now \<le> Expiration item")
      case True
      then show ?thesis using Some held_memory [OF Some] by (auto simp: GetOrSet_def lookup_ok_def)
    next
      case False
      then show ?thesis using Some disk_or_gen [of "memoryRemove k c"] held_memoryRemove
        by (simp add: GetOrSet_def Let_def)
    qed
  qed
qed

lemma GetOrSetSWR_ok: "lookup_ok c k gen (GetOrSetSWR ev wrote now k a gen c)"
proof (cases "map_of (memoryCache c) k")
  case None
  show ?thesis
  proof (cases "if useDisk c then map_of (disk c) k else None")
    case None': None
    then show ?thesis using None generate_ok by (simp add: GetOrSetSWR_def split: if_splits)
  next
    case (Some dm)
    obtain d m where dm: "dm = (d, m)" by (cases dm)
    have "d \<in> hybrid_held c k" by (rule held_disk [OF Some [unfolded dm]])
    from lookup_ok_disk [OF this] show ?thesis
      using None Some dm by (simp add: GetOrSetSWR_def Let_def lookup_ok_def held_trigger)
  qed
next
  case (Some item)
  then show ?thesis using held_memory [OF Some] by (auto simp: GetOrSetSWR_def lookup_ok_def held_trigger)
qed

interpretation plain: cache_store "GetOrSet ev wrote" hybrid_held for ev wrote
proof unfold_locales
  fix now k maxAge gen s v s' r j
  show "GetOrSet ev wrote now k maxAge gen s = (Inr v, s') \<Longrightarrow> v \<in> hybrid_held s k \<or> gen = Inr v"
    using GetOrSet_ok [of s k gen ev wrote now maxAge] by (auto simp: lookup_ok_def)
  show "GetOrSet ev wrote now k maxAge gen s = (r, s') \<Longrightarrow>
        hybrid_held s' j \<subseteq> hybrid_held s j \<union> (if j = k then {v. gen = Inr v} else {})"
    using GetOrSet_ok [of s k gen ev wrote now maxAge] by (auto simp: lookup_ok_def)
qed

interpretation swr: cache_store "GetOrSetSWR ev wrote" hybrid_held for ev wrote
proof unfold_locales
  fix now k maxAge gen s v s' r j
  show "GetOrSetSWR ev wrote now k maxAge gen s = (Inr v, s') \<Longrightarrow> v \<in> hybrid_held s k \<or> gen = Inr v"
    using GetOrSetSWR_ok [of s k gen ev wrote now maxAge] by (auto simp: lookup_ok_def)
  show "GetOrSetSWR ev wrote now k maxAge gen s = (r, s') \<Longrightarrow>
        hybrid_held s' j \<subseteq> hybrid_held s j \<union> (if j = k then {v. gen = Inr v} else {})"
    using GetOrSetSWR_ok [of s k gen ev wrote now maxAge] by (auto simp: lookup_ok_def)
qed

section \<open>Where values come from, and how old they are\<close>

text \<open>\<open>src k v t\<close>: the value \<open>v\<close> was generated or set for \<open>k\<close> at time \<open>t\<close>; \<open>age k\<close>: the lifetime used for \<open>k\<close>.\<close>

definition fresh_inv :: "(string \<Rightarrow> int) \<Rightarrow> (string \<Rightarrow> string \<Rightarrow> int \<Rightarrow> bool) \<Rightarrow> hybrid \<Rightarrow> bool" where
  "fresh_inv age src c \<longleftrightarrow>
     (\<forall>k item. map_of (memoryCache c) k = Some item \<longrightarrow> (\<exists>t. src k (Value item) t \<and> Expiration item = t + age k)) \<and>
     (\<forall>k v t. map_of (disk c) k = Some (v, t) \<longrightarrow> src k v t)"

lemma fresh_add:
  "fresh_inv age src c \<Longrightarrow> src k v t \<Longrightarrow> fresh_inv age src (memoryAdd ev k \<lparr>Value = v, Expiration = t + age k\<rparr> c)"
  by (auto simp: fresh_inv_def memoryAdd_def map_of_lru_add)

lemma fresh_remove: "fresh_inv age src c \<Longrightarrow> fresh_inv age src (memoryRemove k c)"
  by (auto simp: fresh_inv_def memoryRemove_def split: if_splits)

lemma fresh_save: "fresh_inv age src c \<Longrightarrow> src k v now \<Longrightarrow> fresh_inv age src (save ev wrote now k v (age k) c)"
  using fresh_add [of age src c k v now ev] by (auto simp: save_def Let_def fresh_inv_def memoryAdd_def split: if_splits)

lemma fresh_trigger: "fresh_inv age src c \<Longrightarrow> fresh_inv age src (triggerRevalidate k c)"
  by (simp add: fresh_inv_def triggerRevalidate_def)

text \<open>The two levels are maps: no key occurs twice.\<close>

definition keys_ok :: "hybrid \<Rightarrow> bool" where
  "keys_ok c \<longleftrightarrow> distinct (map fst (memoryCache c)) \<and> distinct (map fst (disk c))"

lemma distinct_filter_fst: "distinct (map fst m) \<Longrightarrow> distinct (map fst (filter P m))"
  by (rule distinct_map_filter)

lemma map_of_filter_Some: "distinct (map fst m) \<Longrightarrow> map_of (filter P m) k = Some v \<Longrightarrow> map_of m k = Some v"
  by (simp add: map_of_eq_Some_iff distinct_filter_fst)

lemma keys_steps:
  "keys_ok c \<Longrightarrow> keys_ok (memoryAdd ev k item c)" "keys_ok c \<Longrightarrow> keys_ok (memoryRemove k c)"
  "keys_ok c \<Longrightarrow> keys_ok (save ev wrote now k v a c)" "keys_ok c \<Longrightarrow> keys_ok (triggerRevalidate k c)"
  "keys_ok c \<Longrightarrow> keys_ok (cleanup_memory now c)" "keys_ok c \<Longrightarrow> keys_ok (cleanup_disk now c)"
  by (simp_all add: keys_ok_def memoryAdd_def memoryRemove_def save_def triggerRevalidate_def cleanup_memory_def
      cleanup_disk_def lru_add_def Let_def distinct_filter_fst distinct_update distinct_delete)

definition cache_inv :: "(string \<Rightarrow> int) \<Rightarrow> (string \<Rightarrow> string \<Rightarrow> int \<Rightarrow> bool) \<Rightarrow> hybrid \<Rightarrow> bool" where
  "cache_inv age src c \<longleftrightarrow> fresh_inv age src c \<and> keys_ok c"

lemma inv_steps:
  "cache_inv age src c \<Longrightarrow> src k v t \<Longrightarrow> cache_inv age src (memoryAdd ev k \<lparr>Value = v, Expiration = t + age k\<rparr> c)"
  "cache_inv age src c \<Longrightarrow> cache_inv age src (memoryRemove k c)"
  "cache_inv age src c \<Longrightarrow> src k v now \<Longrightarrow> cache_inv age src (save ev wrote now k v (age k) c)"
  "cache_inv age src c \<Longrightarrow> cache_inv age src (triggerRevalidate k c)"
  by (simp_all add: cache_inv_def fresh_add fresh_remove fresh_save fresh_trigger keys_steps)

lemma inv_cleanup:
  assumes "cache_inv age src c"
  shows "cache_inv age src (cleanup_memory now c)" "cache_inv age src (cleanup_disk now c)"
proof -
  have d: "distinct (map fst (memoryCache c))" "distinct (map fst (disk c))" using assms by (simp_all add: cache_inv_def keys_ok_def)
  have i: "fresh_inv age src c" "keys_ok c" using assms by (simp_all add: cache_inv_def)
  have "fresh_inv age src (cleanup_memory now c)" unfolding fresh_inv_def
    using i(1) map_of_filter_Some [OF d(1)] unfolding fresh_inv_def cleanup_memory_def by fastforce
  moreover have "fresh_inv age src (cleanup_disk now c)" unfolding fresh_inv_def
    using i(1) map_of_filter_Some [OF d(2)] unfolding fresh_inv_def cleanup_disk_def by fastforce
  ultimately show "cache_inv age src (cleanup_memory now c)" "cache_inv age src (cleanup_disk now c)"
    using i(2) by (simp_all add: cache_inv_def keys_steps)
qed

lemma inv_disk: "cache_inv age src c \<Longrightarrow> (if useDisk c then map_of (disk c) k else None) = Some (v, t) \<Longrightarrow> src k v t"
  by (auto simp: cache_inv_def fresh_inv_def split: if_splits)

lemma inv_memory: "cache_inv age src c \<Longrightarrow> map_of (memoryCache c) k = Some item \<Longrightarrow> \<exists>t. src k (Value item) t \<and> Expiration item = t + age k"
  by (auto simp: cache_inv_def fresh_inv_def)

text \<open>A result that is generated now or young enough.\<close>

definition fresh_result where
  "fresh_result age src now k gen r \<longleftrightarrow>
     (\<forall>v. r = Inr v \<longrightarrow> gen = Inr v \<or> (\<exists>t. src k v t \<and> now \<le> t + age k))"

lemma generate_fresh:
  assumes "cache_inv age src c" and "\<And>v. gen = Inr v \<Longrightarrow> src k v now"
  shows "cache_inv age src (snd (generate_and_save ev wrote now k (age k) f gen c)) \<and>
         fresh_result age src now k gen (fst (generate_and_save ev wrote now k (age k) f gen c))"
proof (cases "map_of (memoryCache c) k")
  case None
  then show ?thesis using assms
    by (auto simp: generate_and_save_def fresh_result_def inv_steps split: sum.split)
next
  case (Some item)
  with inv_memory [OF assms(1) Some] show ?thesis using assms
    by (auto simp: generate_and_save_def fresh_result_def inv_steps split: sum.split)
qed

lemma GetOrSet_fresh:
  assumes "cache_inv age src c" and "\<And>v. gen = Inr v \<Longrightarrow> src k v now"
  shows "cache_inv age src (snd (GetOrSet ev wrote now k (age k) gen c)) \<and>
         fresh_result age src now k gen (fst (GetOrSet ev wrote now k (age k) gen c))"
proof -
  let ?rest = "\<lambda>c. case (if useDisk c then map_of (disk c) k else None) of
      Some (data, mtime) \<Rightarrow>
        if now \<le> mtime + age k then (Inr data, memoryAdd ev k \<lparr>Value = data, Expiration = mtime + age k\<rparr> c)
        else generate_and_save ev wrote now k (age k) True gen c
    | None \<Rightarrow> generate_and_save ev wrote now k (age k) True gen c"
  have rest: "cache_inv age src (snd (?rest c1)) \<and> fresh_result age src now k gen (fst (?rest c1))" if i: "cache_inv age src c1" for c1
  proof (cases "if useDisk c1 then map_of (disk c1) k else None")
    case None
    show ?thesis unfolding None option.case by (rule generate_fresh [OF i assms(2)])
  next
    case (Some dm)
    obtain d m where dm: "dm = (d, m)" by (cases dm)
    have "src k d m" by (rule inv_disk [OF i Some [unfolded dm]])
    with inv_steps(1) [OF i this] generate_fresh [OF i assms(2)] show ?thesis
      unfolding Some dm by (auto simp: fresh_result_def)
  qed
  show ?thesis
  proof (cases "map_of (memoryCache c) k")
    case None
    then show ?thesis using rest [OF assms(1)] by (simp add: GetOrSet_def)
  next
    case (Some item)
    show ?thesis
    proof (cases "now \<le> Expiration item")
      case True
      then show ?thesis using Some inv_memory [OF assms(1) Some] assms(1) by (auto simp: GetOrSet_def fresh_result_def)
    next
      case False
      then show ?thesis using Some rest [OF inv_steps(2) [OF assms(1)]] by (simp add: GetOrSet_def Let_def)
    qed
  qed
qed

lemma GetOrSetSWR_inv:
  assumes "cache_inv age src c" and "\<And>v. gen = Inr v \<Longrightarrow> src k v now"
  shows "cache_inv age src (snd (GetOrSetSWR ev wrote now k (age k) gen c))"
proof (cases "map_of (memoryCache c) k")
  case None
  show ?thesis
  proof (cases "if useDisk c then map_of (disk c) k else None")
    case None': None
    then show ?thesis using None generate_fresh [OF assms] by (simp add: GetOrSetSWR_def split: if_splits)
  next
    case (Some dm)
    obtain d m where dm: "dm = (d, m)" by (cases dm)
    have "src k d m" by (rule inv_disk [OF assms(1) Some [unfolded dm]])
    from inv_steps(1) [OF assms(1) this] show ?thesis
      using None Some dm by (simp add: GetOrSetSWR_def Let_def inv_steps)
  qed
next
  case (Some item)
  then show ?thesis using assms(1) by (simp add: GetOrSetSWR_def inv_steps)
qed

lemma revalidate_inv:
  "cache_inv age src c \<Longrightarrow> (\<And>v. gen = Inr v \<Longrightarrow> src k v now) \<Longrightarrow> cache_inv age src (snd (revalidate ev wrote now k (age k) gen c))"
  using inv_steps(3) [of age src c k _ now ev wrote]
  by (auto simp: revalidate_def Let_def cache_inv_def fresh_inv_def keys_ok_def split: sum.split)

section \<open>Histories\<close>

datatype cache_cmd =
  Lookup string "cache_error + string" | LookupSWR string "cache_error + string" | Store string string
| Revalidate string "cache_error + string" | CleanMemory | CleanDisk

type_synonym event = "int \<times> string list \<times> bool \<times> cache_cmd"

fun cache_step :: "(string \<Rightarrow> int) \<Rightarrow> event \<Rightarrow> hybrid \<Rightarrow> hybrid" where
  "cache_step age (now, ev, wrote, Lookup k gen) c = snd (GetOrSet ev wrote now k (age k) gen c)"
| "cache_step age (now, ev, wrote, LookupSWR k gen) c = snd (GetOrSetSWR ev wrote now k (age k) gen c)"
| "cache_step age (now, ev, wrote, Store k v) c = Set ev wrote now k v (age k) c"
| "cache_step age (now, ev, wrote, Revalidate k gen) c = snd (revalidate ev wrote now k (age k) gen c)"
| "cache_step age (now, ev, wrote, CleanMemory) c = cleanup_memory now c"
| "cache_step age (now, ev, wrote, CleanDisk) c = cleanup_disk now c"

fun produces :: "event \<Rightarrow> string \<Rightarrow> string \<Rightarrow> int \<Rightarrow> bool" where
  "produces (now, ev, wrote, Lookup k gen) k' v t = (k' = k \<and> gen = Inr v \<and> t = now)"
| "produces (now, ev, wrote, LookupSWR k gen) k' v t = (k' = k \<and> gen = Inr v \<and> t = now)"
| "produces (now, ev, wrote, Store k d) k' v t = (k' = k \<and> v = d \<and> t = now)"
| "produces (now, ev, wrote, Revalidate k gen) k' v t = (k' = k \<and> gen = Inr v \<and> t = now)"
| "produces (now, ev, wrote, _) k' v t = False"

lemma cache_step_inv:
  assumes "cache_inv age src c" and "\<And>k v t. produces e k v t \<Longrightarrow> src k v t"
  shows "cache_inv age src (cache_step age e c)"
proof -
  obtain now ev wrote cmd where e: "e = (now, ev, wrote, cmd)" by (cases e)
  show ?thesis using assms
    by (cases cmd)
      (simp_all add: e GetOrSet_fresh GetOrSetSWR_inv revalidate_inv Set_def inv_steps inv_cleanup)
qed

lemma history_inv:
  "cache_inv age src c \<Longrightarrow> (\<And>e k v t. e \<in> set es \<Longrightarrow> produces e k v t \<Longrightarrow> src k v t) \<Longrightarrow> cache_inv age src (fold (cache_step age) es c)"
proof (induction es arbitrary: c)
  case (Cons e es)
  have "cache_inv age src (cache_step age e c)" using Cons.prems(2) [of e] by (intro cache_step_inv [OF Cons.prems(1)]) simp
  then have "cache_inv age src (fold (cache_step age) es (cache_step age e c))"
    by (rule Cons.IH) (blast intro: Cons.prems(2) list.set_intros(2))
  then show ?case by simp
qed simp

section \<open>Properties\<close>

text \<open>C13: The cache never serves another key's value or one that is too old: after any history of lookups,
  stale-while-revalidate lookups, stores, background updates, evictions and clean-ups, in memory
  and on disk, in which each key is used with one lifetime, a value that \<^verbatim>\<open>GetOrSet\<close> returns
  without generating it was produced for that key at a time within its lifetime.\<close>
theorem cache_fresh:
  assumes "fst (GetOrSet ev wrote now k (age k) gen (fold (cache_step age) es (NewCache dir))) = Inr v"
  shows "gen = Inr v \<or> (\<exists>e t. e \<in> set es \<and> produces e k v t \<and> now \<le> t + age k)"
proof -
  let ?src = "\<lambda>k' v' t. (\<exists>e\<in>set es. produces e k' v' t) \<or> (k' = k \<and> gen = Inr v' \<and> t = now)"
  have "cache_inv age ?src (NewCache dir)" by (simp add: cache_inv_def fresh_inv_def keys_ok_def NewCache_def)
  then have "cache_inv age ?src (fold (cache_step age) es (NewCache dir))" by (rule history_inv) blast
  from GetOrSet_fresh [OF this, of gen k now ev wrote] assms show ?thesis
    by (auto simp: fresh_result_def)
qed

theorem cache_fresh_witness:
  "\<exists>e t. e \<in> set [(0, [], True, Store ''k'' ''v''), (5, [''k''], True, Lookup ''j'' (Inr ''w''))] \<and>
         produces e ''k'' ''v'' t \<and> 9 \<le> t + 10"
proof -
  have "fst (GetOrSet [] True 9 ''k'' 10 (Inl GenFailed) (fold (cache_step (\<lambda>_. 10))
          [(0, [], True, Store ''k'' ''v''), (5, [''k''], True, Lookup ''j'' (Inr ''w''))] (NewCache ''dir''))) = Inr ''v''"
    by code_simp
  from cache_fresh [where age = "\<lambda>_. 10", OF this] show ?thesis by simp
qed

text \<open>A background update that succeeds answers its flight with an untyped nil, so a foreground lookup
  that joins it panics in its type assertion: here a stale value is served and its update
  started, and a second lookup, which finds nothing fresh, gets to the flight.\<close>
theorem joined_revalidation_panics:
  "let c1 = Set [] True 0 ''k'' ''old'' 10 (NewCache []);
       (r, c2) = GetOrSetSWR [] True 20 ''k'' 10 (Inr ''new'') c1
   in r = Inr ''old'' \<and> revalidating c2 = [''k''] \<and>
      fst (GetOrSet [] True 21 ''k'' 10 (Inl GenFailed) c2) = Inl GenFailed \<and>
      use_flight (fst (revalidate [] True 21 ''k'' 10 (Inr ''new'') c2)) = None"
  by code_simp

text \<open>\<^verbatim>\<open>Get\<close> disregards the lifetime of values on disk: it finds a value at any time after it was set.\<close>
theorem get_disregards_lifetime:
  "Get now ''k'' (Set [] True 0 ''k'' ''v'' ttl (NewCache ''dir'')) = Some ''v''"
  by (simp add: Get_def Set_def save_def NewCache_def memoryAdd_def lru_add_def Let_def)

end
