(* ===== verification/RateLimit.thy ===== *)
theory RateLimit imports Http begin

text \<open>
  The rate limiter (\<^verbatim>\<open>ratelimit.go\<close>): a fixed window per client address over an LRU cache. One
  request is one step; the clock (in nanoseconds) and the keys the cache evicts are its inputs.
\<close>

record ClientData =
  windowStart :: int
  count :: int

record RateLimiter =
  rl_rate :: int
  rl_window :: int
  rl_skipLocalhost :: bool

type_synonym clients = "(string \<times> ClientData) list"

datatype rate_outcome = Skipped | Allowed int int | Limited int int int

definition rate_cache_size :: "int \<Rightarrow> int" where
  "rate_cache_size n = (if n \<le> 0 then 10000 else n)"

definition is_localhost :: "string \<Rightarrow> bool" where
  "is_localhost ip \<longleftrightarrow> ip = ''127.0.0.1'' \<or> ip = ''::1'' \<or> ip = ''localhost''"

text \<open>The client's record, created when the cache has none.\<close>

definition get_or_add :: "string list \<Rightarrow> string \<Rightarrow> int \<Rightarrow> clients \<Rightarrow> ClientData \<times> clients" where
  "get_or_add ev ip now m =
     (case map_of m ip of
        Some d \<Rightarrow> (d, m)
      | None \<Rightarrow> (let d = \<lparr>windowStart = now, count = 0\<rparr> in (d, lru_add ev ip d m)))"

definition roll_window :: "RateLimiter \<Rightarrow> int \<Rightarrow> ClientData \<Rightarrow> ClientData" where
  "roll_window rl now d = (if now - windowStart d \<ge> rl_window rl then \<lparr>windowStart = now, count = 0\<rparr> else d)"

definition rate_step :: "RateLimiter \<Rightarrow> string list \<Rightarrow> string \<Rightarrow> int \<Rightarrow> clients \<Rightarrow> rate_outcome \<times> clients" where
  "rate_step rl ev ip now m =
     (if rl_skipLocalhost rl \<and> is_localhost ip then (Skipped, m)
      else let (d0, m1) = get_or_add ev ip now m;
               d1 = roll_window rl now d0;
               d = d1\<lparr>count := count d1 + 1\<rparr>;
               remaining = (if rl_rate rl - count d < 0 then 0 else rl_rate rl - count d);
               resetTime = (windowStart d + rl_window rl) div 1000000000;
               waitSec = (windowStart d + rl_window rl - now) div 1000000000
           in (if count d > rl_rate rl then Limited remaining resetTime (if waitSec < 1 then 1 else waitSec)
               else Allowed remaining resetTime,
               AList.update ip d m1))"

text \<open>The middleware: the outcome as headers, and the application or the error page.\<close>

definition rate_headers :: "RateLimiter \<Rightarrow> int \<Rightarrow> int \<Rightarrow> rw \<Rightarrow> rw" where
  "rate_headers rl remaining reset w =
     w_set ''X-RateLimit-Reset'' (Itoa reset)
       (w_set ''X-RateLimit-Remaining'' (Itoa remaining) (w_set ''X-RateLimit-Limit'' (Itoa (rl_rate rl)) w))"

definition WithRateLimiter ::
  "http_env \<Rightarrow> RateLimiter \<Rightarrow> (request \<Rightarrow> string) \<Rightarrow> string list \<Rightarrow> int \<Rightarrow> handler \<Rightarrow> request \<Rightarrow> rw \<Rightarrow> clients \<Rightarrow>
   (rw \<times> bool) \<times> clients" where
  "WithRateLimiter e rl realIP ev now next r w m =
     (case rate_step rl ev (realIP r) now m of
        (Skipped, m') \<Rightarrow> (next r w, m')
      | (Allowed remaining reset, m') \<Rightarrow> (next r (rate_headers rl remaining reset w), m')
      | (Limited remaining reset wait, m') \<Rightarrow>
          ((RenderError e r 429 (status_text 429)
              (w_set ''Retry-After'' (Itoa wait) (rate_headers rl remaining reset w)), False), m'))"

section \<open>Histories\<close>

type_synonym rate_event = "string \<times> int \<times> string list"

fun rate_run :: "RateLimiter \<Rightarrow> rate_event list \<Rightarrow> clients \<Rightarrow> rate_outcome list" where
  "rate_run rl [] m = []"
| "rate_run rl ((ip, now, ev) # es) m = (let (out, m') = rate_step rl ev ip now m in out # rate_run rl es m')"

fun is_allowed :: "rate_outcome \<Rightarrow> bool" where
  "is_allowed (Allowed _ _) = True"
| "is_allowed _ = False"

text \<open>How many requests of \<open>ip\<close> passed in a history.\<close>

definition passed :: "RateLimiter \<Rightarrow> string \<Rightarrow> rate_event list \<Rightarrow> clients \<Rightarrow> nat" where
  "passed rl ip es m =
     length (filter (\<lambda>(e, out). fst e = ip \<and> is_allowed out) (zip es (rate_run rl es m)))"

lemma passed_Nil: "passed rl ip [] m = 0"
  by (simp add: passed_def)

lemma passed_Cons:
  "passed rl ip ((ip', now, ev) # es) m =
     (if ip' = ip \<and> is_allowed (fst (rate_step rl ev ip' now m)) then 1 else 0) +
     passed rl ip es (snd (rate_step rl ev ip' now m))"
  by (auto simp: passed_def split_beta)

lemma rate_step_other:
  assumes "ip' \<noteq> ip" "ip \<notin> set ev"
  shows "map_of (snd (rate_step rl ev ip' now m)) ip = map_of m ip"
  using assms by (auto simp: rate_step_def get_or_add_def map_of_lru_add Let_def split: option.split)

text \<open>A step of the client itself, by the state of its record.\<close>

definition served :: "RateLimiter \<Rightarrow> string \<Rightarrow> bool" where
  "served rl ip \<longleftrightarrow> \<not> (rl_skipLocalhost rl \<and> is_localhost ip)"

lemma served_skip: "served rl ip \<Longrightarrow> (rl_skipLocalhost rl \<and> is_localhost ip) = False"
  by (simp add: served_def)

lemma roll_fresh: "roll_window rl now \<lparr>windowStart = now, count = 0\<rparr> = \<lparr>windowStart = now, count = 0\<rparr>"
  by (simp add: roll_window_def)

lemma roll_old: "rl_window rl \<le> now - windowStart d \<Longrightarrow> roll_window rl now d = \<lparr>windowStart = now, count = 0\<rparr>"
  by (simp add: roll_window_def)

lemma rate_step_same:
  assumes "served rl ip" and "map_of m ip = Some d" and "now - windowStart d < rl_window rl"
  shows "map_of (snd (rate_step rl ev ip now m)) ip = Some (d\<lparr>count := count d + 1\<rparr>)"
    and "is_allowed (fst (rate_step rl ev ip now m)) \<longleftrightarrow> count d < rl_rate rl"
  using assms by (auto simp: rate_step_def get_or_add_def roll_window_def served_def Let_def split: if_splits)

lemma rate_step_rolls:
  assumes "served rl ip" and "map_of m ip = None \<or> (\<exists>d. map_of m ip = Some d \<and> now - windowStart d \<ge> rl_window rl)"
  shows "map_of (snd (rate_step rl ev ip now m)) ip = Some \<lparr>windowStart = now, count = 1\<rparr>"
    and "is_allowed (fst (rate_step rl ev ip now m)) \<longleftrightarrow> 1 \<le> rl_rate rl"
  using assms(2) served_skip [OF assms(1)]
  by (auto simp: rate_step_def get_or_add_def roll_fresh roll_old Let_def split: if_splits)

text \<open>Within one window at most what is left of the rate passes.\<close>

lemma passed_in_window:
  assumes "served rl ip" and "map_of m ip = Some d" and "list_all (\<lambda>(_, t, ev). t < windowStart d + rl_window rl \<and> ip \<notin> set ev) es"
  shows "int (passed rl ip es m) \<le> max 0 (rl_rate rl - count d)"
  using assms(2,3)
proof (induction es arbitrary: m d)
  case (Cons e es)
  obtain ip' now ev where e: "e = (ip', now, ev)" by (cases e)
  show ?case
  proof (cases "ip' = ip")
    case True
    have w: "now - windowStart d < rl_window rl" using Cons.prems(2) e by auto
    note s = rate_step_same [OF assms(1) Cons.prems(1) w, of ev]
    have "int (passed rl ip es (snd (rate_step rl ev ip now m))) \<le> max 0 (rl_rate rl - (count d + 1))"
      using Cons.IH [OF s(1)] Cons.prems(2) by simp
    then show ?thesis using s(2) True e by (auto simp: passed_Cons)
  next
    case False
    have "map_of (snd (rate_step rl ev ip' now m)) ip = Some d"
      using rate_step_other [OF False] Cons.prems e by auto
    from Cons.IH [OF this] Cons.prems(2) False e show ?thesis by (simp add: passed_Cons)
  qed
qed (simp add: passed_Nil)

text \<open>In any interval of the window's length at most twice the rate passes: it meets two windows.\<close>

lemma passed_in_interval:
  assumes "served rl ip" and "0 \<le> rl_rate rl"
    and "list_all (\<lambda>(_, t, ev). a \<le> t \<and> t < a + rl_window rl \<and> ip \<notin> set ev) es"
  shows "int (passed rl ip es m) \<le> 
         (case map_of m ip of Some d \<Rightarrow> max 0 (rl_rate rl - count d) | None \<Rightarrow> 0) + rl_rate rl"
  using assms(3)
proof (induction es arbitrary: m)
  case (Cons e es)
  obtain ip' now ev where e: "e = (ip', now, ev)" by (cases e)
  have tl: "list_all (\<lambda>(_, t, ev). a \<le> t \<and> t < a + rl_window rl \<and> ip \<notin> set ev) es" using Cons.prems by simp
  show ?case
  proof (cases "ip' = ip")
    case False
    then have "map_of (snd (rate_step rl ev ip' now m)) ip = map_of m ip"
      using rate_step_other [OF False] Cons.prems e by auto
    with Cons.IH [OF tl, of "snd (rate_step rl ev ip' now m)"] False e show ?thesis by (simp add: passed_Cons)
  next
    case True
    show ?thesis
    proof (cases "\<exists>d. map_of m ip = Some d \<and> now - windowStart d < rl_window rl")
      case same: True
      then obtain d where d: "map_of m ip = Some d" "now - windowStart d < rl_window rl" by blast
      note s = rate_step_same [OF assms(1) d, of ev]
      show ?thesis using Cons.IH [OF tl, of "snd (rate_step rl ev ip now m)"] s d(1) True e
        by (auto simp: passed_Cons)
    next
      case False
      then have "map_of m ip = None \<or> (\<exists>d. map_of m ip = Some d \<and> now - windowStart d \<ge> rl_window rl)"
        by (cases "map_of m ip") auto
      note s = rate_step_rolls [OF assms(1) this, of ev]
      have win: "list_all (\<lambda>(_, t, ev). t < windowStart \<lparr>windowStart = now, count = 1\<rparr> + rl_window rl \<and> ip \<notin> set ev) es"
        using tl Cons.prems e by (auto simp: list_all_iff)
      have "int (passed rl ip es (snd (rate_step rl ev ip now m))) \<le> max 0 (rl_rate rl - 1)"
        using passed_in_window [OF assms(1) s(1) win] by simp
      then have "int (passed rl ip (e # es) m) \<le> rl_rate rl" using s(2) True e assms(2) by (auto simp: passed_Cons)
      moreover have "0 \<le> (case map_of m ip of Some d \<Rightarrow> max 0 (rl_rate rl - count d) | None \<Rightarrow> 0)"
        by (simp split: option.split)
      ultimately show ?thesis by linarith
    qed
  qed
qed (simp add: passed_Nil assms(2) split: option.split)

section \<open>Properties\<close>



end
