(* ===== verification/Idempotency.thy ===== *)
theory Idempotency imports Http Cache begin

text \<open>
  Idempotent requests (\<^verbatim>\<open>idempotency.go\<close>): the interceptor that records a handler's response up
  to a limit, and the middleware's decision for one request: pass it on, refuse it, replay a
  recorded response, or run the handler and record its response. The digest of the key and of
  the request (\<^verbatim>\<open>idempotencyHash\<close>: SHA-256 over JSON) and the JSON codec of a recorded response are
  parameters; the cache is used through \<^verbatim>\<open>Get\<close> and \<^verbatim>\<open>Set\<close> (locale \<open>response_cache\<close>). The handler is given
  by the calls it makes on the writer.
\<close>

section \<open>The recording writer\<close>

definition maxIdempotencyResponse :: nat where "maxIdempotencyResponse = 1048576"

record responseInterceptor =
  ri_header :: header
  ri_body :: string
  ri_status :: nat
  ri_wroteHeader :: bool
  ri_err :: bool

definition newResponseInterceptor :: responseInterceptor where
  "newResponseInterceptor = \<lparr>ri_header = [], ri_body = [], ri_status = 200, ri_wroteHeader = False, ri_err = False\<rparr>"

definition ri_WriteHeader :: "nat \<Rightarrow> responseInterceptor \<Rightarrow> responseInterceptor" where
  "ri_WriteHeader code r = (if code < 200 \<or> ri_wroteHeader r then r else r\<lparr>ri_status := code, ri_wroteHeader := True\<rparr>)"

definition ri_Write :: "string \<Rightarrow> responseInterceptor \<Rightarrow> responseInterceptor" where
  "ri_Write b r =
     (let r1 = ri_WriteHeader 200 r
      in if ri_err r1 then r1
         else if int (length b) > int maxIdempotencyResponse - int (length (ri_body r1)) then r1\<lparr>ri_err := True\<rparr>
         else r1\<lparr>ri_body := ri_body r1 @ b\<rparr>)"

definition ri_put :: "header \<Rightarrow> responseInterceptor \<Rightarrow> responseInterceptor" where
  "ri_put h r = r\<lparr>ri_header := h\<rparr>"

text \<open>The interceptor is no \<^verbatim>\<open>http.Flusher\<close>: a handler's flush does nothing.\<close>

definition ri_run :: "wop list \<Rightarrow> responseInterceptor \<Rightarrow> responseInterceptor" where
  "ri_run = run_ops ri_put ri_WriteHeader ri_Write (\<lambda>r. r)"

section \<open>The middleware\<close>

record CachedResponse =
  cr_headers :: header
  cr_body :: string
  cr_status :: nat
  cr_fingerprint :: string
  cr_expires :: int

record idem_request = request +
  iq_scope :: "(string \<times> string) option"
  iq_body :: "string option"

datatype idem_outcome =
  PassOn | Refuse nat string | Respond CachedResponse bool

definition day :: int where "day = 24 * 3600 * 1000000000"

definition cache_key :: "(string list \<Rightarrow> string) \<Rightarrow> string \<times> string \<Rightarrow> idem_request \<Rightarrow> string" where
  "cache_key hash scope r =
     ''idemp:v2:'' @ hash [rHost r, fst scope, snd scope, rMethod r, rPath r, hget (rHeaders r) ''Idempotency-Key'']"

definition fingerprint :: "(string list \<Rightarrow> string) \<Rightarrow> string \<Rightarrow> idem_request \<Rightarrow> string" where
  "fingerprint hash body r =
     hash [rRawQuery r, hget (rHeaders r) ''Content-Type'', hget (rHeaders r) ''Content-Encoding'', body]"

text \<open>The function under \<^verbatim>\<open>singleflight\<close>: the recorded response, or the handler's, recorded when its
  status is a success or a redirect. \<open>None\<close> is the error of a response over the limit; the last
  component tells whether the handler didRun.\<close>

definition record_or_replay ::
  "(int \<Rightarrow> string \<Rightarrow> 's \<Rightarrow> string option) \<Rightarrow> (int \<Rightarrow> string \<Rightarrow> string \<Rightarrow> int \<Rightarrow> 's \<Rightarrow> 's) \<Rightarrow> (CachedResponse \<Rightarrow> string) \<Rightarrow>
   (string \<Rightarrow> CachedResponse option) \<Rightarrow> int \<Rightarrow> string \<Rightarrow> string \<Rightarrow> wop list \<Rightarrow> 's \<Rightarrow>
   (CachedResponse \<times> bool) option \<times> 's \<times> bool" where
  "record_or_replay cget cset enc dec now key fp app s =
     (case (case cget now key s of None \<Rightarrow> None
            | Some data \<Rightarrow> (case dec data of None \<Rightarrow> None | Some c \<Rightarrow> if now < cr_expires c then Some c else None)) of
        Some cached \<Rightarrow> (Some (cached, True), s, False)
      | None \<Rightarrow>
          (let i = ri_run app newResponseInterceptor
           in if ri_err i then (None, s, True)
              else let resp = \<lparr>cr_headers = hdel ''X-Request-Id'' (hdel ''Set-Cookie'' (ri_header i)), cr_body = ri_body i,
                               cr_status = ri_status i, cr_fingerprint = fp, cr_expires = now + day\<rparr>
                   in (Some (resp, False),
                       if 200 \<le> cr_status resp \<and> cr_status resp < 400 then cset now key (enc resp) day s else s, True)))"

definition idempotency ::
  "(string list \<Rightarrow> string) \<Rightarrow> (int \<Rightarrow> string \<Rightarrow> 's \<Rightarrow> string option) \<Rightarrow> (int \<Rightarrow> string \<Rightarrow> string \<Rightarrow> int \<Rightarrow> 's \<Rightarrow> 's) \<Rightarrow>
   (CachedResponse \<Rightarrow> string) \<Rightarrow> (string \<Rightarrow> CachedResponse option) \<Rightarrow> int \<Rightarrow> int \<Rightarrow> wop list \<Rightarrow> idem_request \<Rightarrow> 's \<Rightarrow>
   idem_outcome \<times> 's \<times> bool" where
  "idempotency hash cget cset enc dec maxBody now app r s =
     (let key = hget (rHeaders r) ''Idempotency-Key''; limit = (if maxBody \<le> 0 then 1048576 else maxBody)
      in if key = [] \<or> rMethod r = ''GET'' \<or> rMethod r = ''HEAD'' \<or> rMethod r = ''OPTIONS'' then (PassOn, s, True)
         else (case iq_scope r of
             None \<Rightarrow> (Refuse 401 ''Authenticated idempotency scope required'', s, False)
           | Some scope \<Rightarrow>
               if snd scope = [] then (Refuse 401 ''Authenticated idempotency scope required'', s, False)
               else if length key > 256 then (Refuse 400 ''Idempotency-Key too long'', s, False)
               else (case iq_body r of
                   None \<Rightarrow> (Refuse 400 ''Cannot read request body'', s, False)
                 | Some body \<Rightarrow>
                     if int (length body) > limit then (Refuse 413 ''Request body too large'', s, False)
                     else (case record_or_replay cget cset enc dec now (cache_key hash scope r) (fingerprint hash body r) app s of
                         (None, s1, didRun) \<Rightarrow> (Refuse 500 ''Idempotency response could not be recorded'', s1, didRun)
                       | (Some (resp, replayed), s1, didRun) \<Rightarrow>
                           (if cr_fingerprint resp \<noteq> fingerprint hash body r
                            then Refuse 409 ''Idempotency-Key reused with a different request''
                            else Respond resp replayed, s1, didRun)))))"

section \<open>Lemmas over the cache's interface\<close>

locale response_cache =
  fixes cget :: "int \<Rightarrow> string \<Rightarrow> 's \<Rightarrow> string option"
    and cset :: "int \<Rightarrow> string \<Rightarrow> string \<Rightarrow> int \<Rightarrow> 's \<Rightarrow> 's"
  assumes get_set: "t \<le> t' \<Longrightarrow> t' \<le> t + ttl \<Longrightarrow> cget t' k (cset t k v ttl s) = Some v"
begin

lemma replay:
  assumes "record_or_replay cget cset enc dec t key fp app s = (Some (resp, replayed), s1, didRun)"
    and "200 \<le> cr_status resp" "cr_status resp < 400" "\<not> replayed" "dec (enc resp) = Some resp"
    and "t \<le> t'" "t' < t + day"
  shows "record_or_replay cget cset enc dec t' key fp' app' s1 = (Some (resp, True), s1, False)"
proof -
  have "s1 = cset t key (enc resp) day s" and x: "cr_expires resp = t + day"
    using assms(1-4) by (auto simp: record_or_replay_def Let_def split: option.splits if_splits)
  then have "cget t' key s1 = Some (enc resp)" using get_set [of t t' day key "enc resp" s] assms(6,7) by simp
  then show ?thesis using assms(5,7) x by (simp add: record_or_replay_def)
qed

lemma idempotency_replays:
  assumes first: "idempotency hash cget cset enc dec maxBody t app r s = (Respond resp replayed, s1, didRun)"
    and ok: "200 \<le> cr_status resp" "cr_status resp < 400" "\<not> replayed" and codec: "dec (enc resp) = Some resp"
    and time: "t \<le> t'" "t' < t + day"
    and same: "iq_scope r' = iq_scope r" "rHost r' = rHost r" "rMethod r' = rMethod r" "rPath r' = rPath r"
      "hget (rHeaders r') ''Idempotency-Key'' = hget (rHeaders r) ''Idempotency-Key''"
    and body: "iq_body r' = Some body'" "int (length body') \<le> (if maxBody \<le> 0 then 1048576 else maxBody)"
  shows "idempotency hash cget cset enc dec maxBody t' app' r' s1 =
         ((if cr_fingerprint resp = fingerprint hash body' r' then Respond resp True
           else Refuse 409 ''Idempotency-Key reused with a different request''), s1, False)"
proof -
  obtain scope body where sc: "iq_scope r = Some scope" "iq_body r = Some body"
    and guards: "hget (rHeaders r) ''Idempotency-Key'' \<noteq> []" "rMethod r \<noteq> ''GET''" "rMethod r \<noteq> ''HEAD''" "rMethod r \<noteq> ''OPTIONS''"
      "snd scope \<noteq> []" "\<not> length (hget (rHeaders r) ''Idempotency-Key'') > 256"
    and rr: "record_or_replay cget cset enc dec t (cache_key hash scope r) (fingerprint hash body r) app s = (Some (resp, replayed), s1, didRun)"
    using first by (auto simp: idempotency_def Let_def split: if_splits option.splits prod.splits)
  have k: "cache_key hash scope r' = cache_key hash scope r" using same by (simp add: cache_key_def)
  have "record_or_replay cget cset enc dec t' (cache_key hash scope r') (fingerprint hash body' r') app' s1 = (Some (resp, True), s1, False)"
    unfolding k by (rule replay [OF rr ok codec time])
  then show ?thesis using sc guards same body by (simp add: idempotency_def Let_def)
qed

end

text \<open>The two-level cache provides the interface.\<close>

interpretation hybrid_responses: response_cache Get "Set ev wrote" for ev wrote
  by unfold_locales (simp add: Get_def Set_def save_def memoryAdd_def map_of_lru_add Let_def)

section \<open>Properties\<close>


definition sample_post :: idem_request where
  "sample_post = \<lparr>rMethod = ''POST'', rHost = ''h'', rPath = ''/pay'', rRawPath = [], rRawQuery = [], rURLLen = 4,
     rHeaders = [(''Idempotency-Key'', ''k1'')], rContentLength = 2, rTLS = True, rRemoteAddr = [], rRequestID = None, rParams = None,
     iq_scope = Some (''t'', ''alice''), iq_body = Some ''42''\<rparr>"


end
