(* ===== verification/Client.thy ===== *)
theory Client imports GoPrelude "HOL-Library.Word" begin

text \<open>
  The HTTP client (\<^verbatim>\<open>client.go\<close>): the address check of the guarded dialer with its DNS cache, the
  circuit breaker per host, the proxy in use, the back-off, and the retry loop of \<^verbatim>\<open>Do\<close>. The
  network is a parameter of the loop: what each attempt gives, when the caller's context is
  cancelled, the clock, and the proxies the application hands out.
\<close>

section \<open>Addresses\<close>

text \<open>An address is its list of bytes, 4 or 16, as in \<^verbatim>\<open>net.IP\<close>; an IPv4 address in IPv6 form is taken for IPv4.\<close>

type_synonym ip = "nat list"

definition To4 :: "ip \<Rightarrow> ip option" where
  "To4 i = (if length i = 4 then Some i
            else if length i = 16 \<and> take 10 i = replicate 10 0 \<and> i ! 10 = 255 \<and> i ! 11 = 255 then Some (drop 12 i)
            else None)"

definition IsLoopback :: "ip \<Rightarrow> bool" where
  "IsLoopback i = (case To4 i of Some q \<Rightarrow> q ! 0 = 127 | None \<Rightarrow> i = replicate 15 0 @ [1])"

definition IsPrivate :: "ip \<Rightarrow> bool" where
  "IsPrivate i = (case To4 i of
     Some q \<Rightarrow> q ! 0 = 10 \<or> (q ! 0 = 172 \<and> q ! 1 div 16 = 1) \<or> (q ! 0 = 192 \<and> q ! 1 = 168)
   | None \<Rightarrow> length i = 16 \<and> i ! 0 div 2 = 126)"

definition IsLinkLocalUnicast :: "ip \<Rightarrow> bool" where
  "IsLinkLocalUnicast i = (case To4 i of
     Some q \<Rightarrow> q ! 0 = 169 \<and> q ! 1 = 254
   | None \<Rightarrow> length i = 16 \<and> i ! 0 = 254 \<and> i ! 1 div 64 = 2)"

definition IsUnspecified :: "ip \<Rightarrow> bool" where
  "IsUnspecified i = (case To4 i of Some q \<Rightarrow> q = [0, 0, 0, 0] | None \<Rightarrow> i = replicate 16 0)"

definition IsMulticast :: "ip \<Rightarrow> bool" where
  "IsMulticast i = (case To4 i of Some q \<Rightarrow> q ! 0 div 16 = 14 | None \<Rightarrow> length i = 16 \<and> i ! 0 = 255)"

definition isSafeIP :: "ip option \<Rightarrow> bool" where
  "isSafeIP oi = (case oi of None \<Rightarrow> False | Some i \<Rightarrow>
     if IsLoopback i \<or> IsPrivate i \<or> IsLinkLocalUnicast i then False
     else if IsUnspecified i then False
     else if IsMulticast i then False
     else True)"

section \<open>The guarded dialer\<close>

record dnsCacheEntry =
  dns_timestamp :: int
  dns_ips :: "ip list"

datatype dial_result = DialTo ip | ResolveFailed | SSRFViolation | DialPanic

definition dnsCacheTTL :: int where "dnsCacheTTL = 5 * 60 * 1000000000"

text \<open>\<open>host\<close> is the part before the port; \<open>resolve\<close> is the resolver's answer at this time. The last component
  is the round-robin counter, a 64-bit word.\<close>

definition safeDialContext ::
  "int \<Rightarrow> string \<Rightarrow> ip list option \<Rightarrow> (string \<times> dnsCacheEntry) list \<Rightarrow> 64 word \<Rightarrow>
   dial_result \<times> (string \<times> dnsCacheEntry) list \<times> 64 word" where
  "safeDialContext now host resolve cache counter =
     (let cached = (case map_of cache host of
            Some e \<Rightarrow> if now - dns_timestamp e < dnsCacheTTL then Some (dns_ips e) else None | None \<Rightarrow> None)
      in case (case cached of Some ips \<Rightarrow> Some (ips, cache)
               | None \<Rightarrow> (case resolve of None \<Rightarrow> None
                   | Some ips \<Rightarrow> Some (ips, AList.update host \<lparr>dns_timestamp = now, dns_ips = ips\<rparr> cache))) of
           None \<Rightarrow> (ResolveFailed, cache, counter)
         | Some (ips, cache') \<Rightarrow>
             if list_ex (\<lambda>i. \<not> isSafeIP (Some i)) ips then (SSRFViolation, cache', counter)
             else (let counter' = counter + 1
                   in (if ips = [] then DialPanic else DialTo (ips ! (unat counter' mod length ips)), cache', counter')))"

section \<open>The circuit breaker\<close>

text \<open>State 0 is closed, 1 open, 2 half open.\<close>

record CircuitBreaker =
  cb_lastFailure :: "string option"
  cb_lastAttempt :: int
  cb_state :: int
  cb_failures :: int
  cb_MaxFailures :: int
  cb_ResetTimeout :: int

definition new_breaker :: "int \<Rightarrow> int \<Rightarrow> CircuitBreaker" where
  "new_breaker maxFailures resetTimeout =
     \<lparr>cb_lastFailure = None, cb_lastAttempt = 0, cb_state = 0, cb_failures = 0,
      cb_MaxFailures = maxFailures, cb_ResetTimeout = resetTimeout\<rparr>"

definition allowRequest :: "int \<Rightarrow> CircuitBreaker \<Rightarrow> bool \<times> CircuitBreaker" where
  "allowRequest now cb =
     (if cb_state cb = 0 then (True, cb)
      else if cb_state cb = 1 then
        (if now - cb_lastAttempt cb > cb_ResetTimeout cb then (True, cb\<lparr>cb_state := 2, cb_failures := 0\<rparr>)
         else (False, cb))
      else (True, cb))"

definition cb_success :: "CircuitBreaker \<Rightarrow> CircuitBreaker" where
  "cb_success cb = cb\<lparr>cb_lastFailure := None, cb_failures := 0, cb_state := 0\<rparr>"

definition cb_failure :: "int \<Rightarrow> string \<Rightarrow> CircuitBreaker \<Rightarrow> CircuitBreaker" where
  "cb_failure now cause cb =
     (let cb1 = cb\<lparr>cb_lastFailure := Some cause, cb_lastAttempt := now, cb_failures := cb_failures cb + 1\<rparr>
      in if cb_state cb1 = 2 \<or> cb_failures cb1 \<ge> cb_MaxFailures cb1 then cb1\<lparr>cb_state := 1\<rparr> else cb1)"

section \<open>Back-off\<close>

text \<open>The delay before the jitter, on 64-bit signed words as in Go.\<close>

definition backoff_delay :: "nat \<Rightarrow> 64 word \<Rightarrow> 64 word \<Rightarrow> 64 word" where
  "backoff_delay attempt baseDelay maxDelay =
     (let a = (if attempt > 62 then 62 else attempt);
          backoff = baseDelay * push_bit a 1
      in if sint backoff > sint maxDelay \<or> sint backoff < 0 then maxDelay else backoff)"

definition RandomDelay :: "int \<Rightarrow> int \<Rightarrow> int \<Rightarrow> int" where
  "RandomDelay rnd mn mx = (if mx \<le> mn then mn else mn + rnd mod (mx - mn))"

section \<open>Proxies\<close>

record proxy_state =
  ProxyURL :: "string option"
  hasProxyFunc :: bool
  currentProxy :: "string option"

definition getProxy :: "string option \<Rightarrow> proxy_state \<Rightarrow> string option \<times> proxy_state" where
  "getProxy fresh p =
     (if ProxyURL p \<noteq> None then (ProxyURL p, p)
      else if hasProxyFunc p then
        (let p' = (if currentProxy p = None then p\<lparr>currentProxy := fresh\<rparr> else p) in (currentProxy p', p'))
      else (None, p))"

definition rotateProxy :: "string option \<Rightarrow> proxy_state \<Rightarrow> proxy_state" where
  "rotateProxy fresh p = (if hasProxyFunc p then p\<lparr>currentProxy := fresh\<rparr> else p)"

definition shouldBypassProxy :: "(string \<Rightarrow> ip option) \<Rightarrow> string \<Rightarrow> bool" where
  "shouldBypassProxy parseIP host0 =
     (let host = ToLower (hd (Split (CHR '':'') host0))
      in if host = ''localhost'' \<or> host = ''docker.internal'' \<or> HasSuffix host ''.local'' then True
         else (case parseIP host of Some i \<Rightarrow> IsLoopback i \<or> IsPrivate i | None \<Rightarrow> False))"

section \<open>The retry loop\<close>

text \<open>The world of one call: for attempt \<open>n\<close>, whether the context is cancelled when the attempt starts, while it
  runs or while the client waits after it; the result of the exchange; the clock before and
  after it; the proxy function's answers; and whether the body can be recreated.\<close>

record world =
  ctxStart :: "nat \<Rightarrow> bool"
  ctxAfter :: "nat \<Rightarrow> bool"
  ctxWait :: "nat \<Rightarrow> bool"
  exchange :: "nat \<Rightarrow> string + nat"
  clockBefore :: "nat \<Rightarrow> int"
  clockAfter :: "nat \<Rightarrow> int"
  nextProxy :: "nat \<Rightarrow> string option"
  recreateBody :: "nat \<Rightarrow> bool"

datatype do_result = DoResponse nat nat | DoError string | DoOpen | DoCancelled | DoBodyError

text \<open>\<open>sent\<close> counts the exchanges made; \<open>received\<close> and \<open>closed\<close> list the attempts whose response was received
  and whose response body was closed, oldest first; \<open>badProxies\<close> the calls of \<^verbatim>\<open>OnProxyError\<close>.\<close>

record client_state =
  breaker :: "CircuitBreaker option"
  proxies :: proxy_state
  sent :: nat
  received :: "nat list"
  closed :: "nat list"
  badProxies :: "string list"

definition close_last :: "(nat \<times> nat) option \<Rightarrow> client_state \<Rightarrow> client_state" where
  "close_last lr s = (case lr of None \<Rightarrow> s | Some (n, c) \<Rightarrow> s\<lparr>closed := closed s @ [n]\<rparr>)"

definition allow :: "int \<Rightarrow> client_state \<Rightarrow> bool \<times> client_state" where
  "allow now s = (case breaker s of None \<Rightarrow> (True, s)
     | Some cb \<Rightarrow> (case allowRequest now cb of (ok, cb') \<Rightarrow> (ok, s\<lparr>breaker := Some cb'\<rparr>)))"

text \<open>After a failed exchange: the breaker, the callback for the proxy, and the next proxy.\<close>

definition note_failure :: "int \<Rightarrow> string \<Rightarrow> string option \<Rightarrow> string option \<Rightarrow> client_state \<Rightarrow> client_state" where
  "note_failure now cause used fresh s =
     s\<lparr>breaker := map_option (cb_failure now cause) (breaker s),
       badProxies := badProxies s @ (case used of None \<Rightarrow> [] | Some p \<Rightarrow> [p]),
       proxies := rotateProxy fresh (proxies s)\<rparr>"

definition breaker_open :: "client_state \<Rightarrow> bool" where
  "breaker_open s = (case breaker s of None \<Rightarrow> False | Some cb \<Rightarrow> cb_state cb = 1)"

definition final_status :: "bool \<Rightarrow> nat \<Rightarrow> bool" where
  "final_status proxyFunc status \<longleftrightarrow> status < 500 \<and> status \<noteq> 429 \<and> (\<not> (status = 401 \<or> status = 403) \<or> \<not> proxyFunc)"

fun do_loop ::
  "world \<Rightarrow> bool \<Rightarrow> bool \<Rightarrow> nat \<Rightarrow> nat \<Rightarrow> (nat \<times> nat) option \<Rightarrow> string option \<Rightarrow> client_state \<Rightarrow> do_result \<times> client_state" where
  "do_loop w canReplay hasBody retriesLeft n lastResponse lastError s0 =
     (if ctxStart w n then (DoCancelled, close_last lastResponse s0)
      else let (ok, s1) = allow (clockBefore w n) s0
           in if \<not> ok then
                (case lastResponse of Some (i, c) \<Rightarrow> (DoResponse i c, s1)
                 | None \<Rightarrow> (case lastError of Some e \<Rightarrow> (DoError e, s1) | None \<Rightarrow> (DoOpen, s1)))
              else let s2 = close_last lastResponse s1;
                       (p, ps) = getProxy (nextProxy w n) (proxies s2);
                       s3 = s2\<lparr>proxies := ps\<rparr>
                   in if n > 0 \<and> hasBody \<and> \<not> recreateBody w n then (DoBodyError, s3)
                      else let s4 = s3\<lparr>sent := sent s3 + 1\<rparr>
                           in case exchange w n of
                                Inl e \<Rightarrow>
                                  if ctxAfter w n then (DoCancelled, s4)
                                  else let s5 = note_failure (clockAfter w n) e p (nextProxy w n) s4
                                       in (case retriesLeft of
                                             0 \<Rightarrow> (DoError e, s5)
                                           | Suc r \<Rightarrow> if \<not> canReplay \<or> breaker_open s5 then (DoError e, s5)
                                                      else if ctxWait w n then (DoCancelled, s5)
                                                      else do_loop w canReplay hasBody r (Suc n) None (Some e) s5)
                              | Inr status \<Rightarrow>
                                  if final_status (hasProxyFunc (proxies s4)) status
                                  then (DoResponse n status, s4\<lparr>breaker := map_option cb_success (breaker s4), received := received s4 @ [n]\<rparr>)
                                  else let s5 = note_failure (clockAfter w n) (''HTTP '' @ Itoa (int status)) p (nextProxy w n)
                                                  (s4\<lparr>received := received s4 @ [n]\<rparr>)
                                       in (case retriesLeft of
                                             0 \<Rightarrow> (DoResponse n status, s5)
                                           | Suc r \<Rightarrow> if \<not> canReplay \<or> breaker_open s5 then (DoResponse n status, s5)
                                                      else if ctxWait w n then (DoCancelled, close_last (Some (n, status)) s5)
                                                      else do_loop w canReplay hasBody r (Suc n) (Some (n, status)) None s5))"

declare do_loop.simps [simp del]

definition Do :: "world \<Rightarrow> bool \<Rightarrow> bool \<Rightarrow> int \<Rightarrow> client_state \<Rightarrow> do_result \<times> client_state" where
  "Do w canReplay hasBody maxRetries s = do_loop w canReplay hasBody (nat maxRetries) 0 None None s"

section \<open>Lemmas on the loop\<close>

definition returned :: "do_result \<Rightarrow> nat list" where
  "returned r = (case r of DoResponse i c \<Rightarrow> [i] | _ \<Rightarrow> [])"

lemma allow_fields: "sent (snd (allow t s)) = sent s" "received (snd (allow t s)) = received s" "closed (snd (allow t s)) = closed s"
  by (simp_all add: allow_def split_beta split: option.split)

lemma close_last_fields: "sent (close_last lr s) = sent s" "received (close_last lr s) = received s"
  "closed (close_last lr s) = closed s @ (case lr of None \<Rightarrow> [] | Some (i, c) \<Rightarrow> [i])"
  by (simp_all add: close_last_def split: option.split)

lemma note_failure_fields: "sent (note_failure t e p q s) = sent s" "received (note_failure t e p q s) = received s"
  "closed (note_failure t e p q s) = closed s"
  by (simp_all add: note_failure_def)

text \<open>The outcomes of one round: it ends, or it goes on with one retry less.\<close>

lemma do_loop_accounts:
  assumes "received s = closed s @ (case lr of None \<Rightarrow> [] | Some (i, c) \<Rightarrow> [i])" and "lr \<noteq> None \<longrightarrow> canReplay"
  shows "(case do_loop w canReplay hasBody k n lr le s of (r, s') \<Rightarrow>
            sent s' \<le> sent s + (if canReplay then k else 0) + 1 \<and> received s' = closed s' @ returned r)"
  using assms
proof (induction k arbitrary: n lr le s)
  case 0
  then show ?case
    by (subst do_loop.simps)
      (auto simp: Let_def split_beta returned_def allow_fields close_last_fields note_failure_fields
        split: option.splits sum.splits)
next
  case (Suc k)
  obtain ok s1 where al: "allow (clockBefore w n) s = (ok, s1)" by (cases "allow (clockBefore w n) s")
  have s1: "sent s1 = sent s" "received s1 = received s" "closed s1 = closed s"
    using allow_fields [of "clockBefore w n" s] al by simp_all
  obtain p ps where gp: "getProxy (nextProxy w n) (proxies (close_last lr s1)) = (p, ps)"
    by (cases "getProxy (nextProxy w n) (proxies (close_last lr s1))")
  let ?s4 = "(close_last lr s1)\<lparr>proxies := ps, sent := sent (close_last lr s1) + 1\<rparr>"
  have s4: "sent ?s4 = sent s + 1" "received ?s4 = closed ?s4"
    using s1 Suc.prems by (simp_all add: close_last_fields)
  show ?case
  proof (cases "exchange w n")
    case (Inl e)
    let ?s5 = "note_failure (clockAfter w n) e p (nextProxy w n) ?s4"
    have IH: "canReplay \<Longrightarrow> case do_loop w canReplay hasBody k (Suc n) None (Some e) ?s5 of (r, s') \<Rightarrow>
            sent s' \<le> sent ?s5 + (if canReplay then k else 0) + 1 \<and> received s' = closed s' @ returned r"
      by (rule Suc.IH) (use s4 in \<open>simp_all add: note_failure_fields\<close>)
    then show ?thesis using Suc.prems s1 s4
      by (subst do_loop.simps)
        (auto simp: Let_def al gp Inl returned_def close_last_fields note_failure_fields split: option.splits prod.splits)
  next
    case (Inr c)
    let ?s5 = "note_failure (clockAfter w n) (''HTTP '' @ Itoa (int c)) p (nextProxy w n) (?s4\<lparr>received := received ?s4 @ [n]\<rparr>)"
    have IH: "canReplay \<Longrightarrow> case do_loop w canReplay hasBody k (Suc n) (Some (n, c)) None ?s5 of (r, s') \<Rightarrow>
            sent s' \<le> sent ?s5 + (if canReplay then k else 0) + 1 \<and> received s' = closed s' @ returned r"
      by (rule Suc.IH) (use s4 in \<open>simp_all add: note_failure_fields\<close>)
    then show ?thesis using Suc.prems s1 s4
      by (subst do_loop.simps)
        (auto simp: Let_def al gp Inr returned_def close_last_fields note_failure_fields split: option.splits prod.splits)
  qed
qed

section \<open>Lemmas on the breaker and the back-off\<close>

lemma failures_count:
  assumes "cb_state cb = 0"
  shows "int (length fs) + cb_failures cb < cb_MaxFailures cb \<Longrightarrow>
         cb_state (fold (\<lambda>(t, e). cb_failure t e) fs cb) = 0 \<and>
         cb_failures (fold (\<lambda>(t, e). cb_failure t e) fs cb) = cb_failures cb + int (length fs)"
  using assms
proof (induction fs arbitrary: cb)
  case (Cons f fs)
  obtain t e where f: "f = (t, e)" by (cases f)
  have "cb_state (cb_failure t e cb) = 0" "cb_failures (cb_failure t e cb) = cb_failures cb + 1"
    "cb_MaxFailures (cb_failure t e cb) = cb_MaxFailures cb"
    using Cons.prems by (simp_all add: cb_failure_def Let_def)
  with Cons.IH [of "cb_failure t e cb"] Cons.prems show ?case by (simp add: f)
qed simp

lemma breaker_constant: "cb_MaxFailures (fold (\<lambda>(t, e). cb_failure t e) fs cb) = cb_MaxFailures cb \<and>
  cb_ResetTimeout (fold (\<lambda>(t, e). cb_failure t e) fs cb) = cb_ResetTimeout cb \<and>
  cb_failures (fold (\<lambda>(t, e). cb_failure t e) fs cb) = cb_failures cb + int (length fs)"
  by (induction fs arbitrary: cb) (auto simp: cb_failure_def Let_def split: prod.splits)

lemma breaker_last: "fs \<noteq> [] \<Longrightarrow> cb_lastAttempt (fold (\<lambda>(t, e). cb_failure t e) fs cb) = fst (last fs)"
  by (induction fs rule: rev_induct) (auto simp: cb_failure_def Let_def split: prod.splits)

lemma breaker_opens:
  assumes "cb_MaxFailures cb \<le> cb_failures cb + int (length fs)" "fs \<noteq> []"
  shows "cb_state (fold (\<lambda>(t, e). cb_failure t e) fs cb) = 1"
proof -
  obtain gs t e where fs: "fs = gs @ [(t, e)]" using assms(2) by (metis prod.exhaust rev_exhaust)
  have "cb_failures (fold (\<lambda>(t, e). cb_failure t e) gs cb) + 1 \<ge> cb_MaxFailures cb"
    using breaker_constant [of gs cb] assms(1) by (simp add: fs)
  then show ?thesis using breaker_constant [of gs cb] by (simp add: fs cb_failure_def Let_def)
qed

lemma sint_scaled:
  fixes b :: "64 word"
  assumes "0 \<le> sint b" "sint b * 2 ^ a < 2 ^ 63"
  shows "sint (b * push_bit a 1) = sint b * 2 ^ a"
proof -
  have "b * push_bit a 1 = word_of_int (sint b) * word_of_int (2 ^ a)"
    by (simp add: push_bit_eq_mult)
  also have "\<dots> = word_of_int (sint b * 2 ^ a)" by (rule wi_hom_mult)
  finally have eq: "b * push_bit a 1 = word_of_int (sint b * 2 ^ a)" .
  have "sint (b * push_bit a 1) = signed_take_bit 63 (sint b * 2 ^ a)"
    unfolding eq by (subst sint_sbintrunc') simp
  also have "\<dots> = sint b * 2 ^ a"
  proof (rule signed_take_bit_int_eq_self)
    have "0 \<le> sint b * 2 ^ a" using assms(1) by simp
    moreover have "- (2 ^ 63 :: int) \<le> 0" by simp
    ultimately show "- (2 ^ 63) \<le> sint b * 2 ^ a" by (rule order_trans [rotated])
  qed (rule assms(2))
  finally show ?thesis .
qed

section \<open>Properties\<close>

text \<open>C16: A call of the client ends within its retries and leaks no response: it makes at most one exchange
  more than the configured retries, and only one when the body cannot be sent again; and every
  response it received has been closed, once each, but the one it returns.\<close>
theorem do_bounded_and_closes:
  assumes "received s = closed s"
  shows "case Do w canReplay hasBody maxRetries s of (r, s') \<Rightarrow>
           int (sent s') \<le> int (sent s) + (if canReplay \<and> 0 \<le> maxRetries then maxRetries else 0) + 1 \<and>
           received s' = closed s' @ returned r"
  using do_loop_accounts [where s = s and lr = None and canReplay = canReplay and w = w and hasBody = hasBody
      and k = "nat maxRetries" and n = 0 and le = None] assms
  by (auto simp: Do_def split: if_splits prod.splits)

definition sample_world :: world where
  "sample_world = \<lparr>ctxStart = (\<lambda>_. False), ctxAfter = (\<lambda>_. False), ctxWait = (\<lambda>_. False),
     exchange = (\<lambda>n. if n = 0 then Inr 503 else if n = 1 then Inl ''reset'' else Inr 200), clockBefore = int, clockAfter = int,
     nextProxy = (\<lambda>_. None), recreateBody = (\<lambda>_. True)\<rparr>"

definition sample_client :: client_state where
  "sample_client = \<lparr>breaker = Some (new_breaker 5 100), proxies = \<lparr>ProxyURL = None, hasProxyFunc = False, currentProxy = None\<rparr>,
     sent = 0, received = [], closed = [], badProxies = []\<rparr>"

theorem do_bounded_and_closes_witness:
  "sent (snd (Do sample_world True False 2 sample_client)) \<le> 3 \<and>
   received (snd (Do sample_world True False 2 sample_client)) =
     closed (snd (Do sample_world True False 2 sample_client)) @ returned (fst (Do sample_world True False 2 sample_client))"
  using do_bounded_and_closes [of sample_client True 2 sample_world False]
  by (auto simp: sample_client_def split: prod.splits)

text \<open>C17: The circuit breaker: starting closed with no failures, fewer than the configured number of
  consecutive failures leave it closed; at that number it is open and refuses every request until
  the reset time has passed since the last failure; the next request is then let through and
  its failure opens the breaker again at once, while a success closes it with a clean count.\<close>
theorem breaker_protocol:
  assumes "cb_state cb = 0" and "cb_failures cb = 0" and "fs \<noteq> []"
  shows "let b = fold (\<lambda>(t, e). cb_failure t e) fs cb; t0 = fst (last fs)
         in (int (length fs) < cb_MaxFailures cb \<longrightarrow> allowRequest t b = (True, b)) \<and>
            (cb_MaxFailures cb \<le> int (length fs) \<longrightarrow>
               (t \<le> t0 + cb_ResetTimeout cb \<longrightarrow> allowRequest t b = (False, b)) \<and>
               (t0 + cb_ResetTimeout cb < t \<longrightarrow>
                  fst (allowRequest t b) \<and> cb_state (cb_failure t' e (snd (allowRequest t b))) = 1 \<and>
                  cb_state (cb_success (snd (allowRequest t b))) = 0 \<and> cb_failures (cb_success (snd (allowRequest t b))) = 0))"
proof -
  let ?b = "fold (\<lambda>(t, e). cb_failure t e) fs cb"
  have c: "cb_ResetTimeout ?b = cb_ResetTimeout cb" "cb_lastAttempt ?b = fst (last fs)"
    using breaker_constant [of fs cb] breaker_last [OF assms(3)] by simp_all
  have low: "int (length fs) < cb_MaxFailures cb \<Longrightarrow> cb_state ?b = 0" using failures_count [OF assms(1), of fs] assms(2) by simp
  have high: "cb_MaxFailures cb \<le> int (length fs) \<Longrightarrow> cb_state ?b = 1" using breaker_opens [OF _ assms(3)] assms(2) by simp
  show ?thesis
    using low high c by (auto simp: Let_def allowRequest_def cb_failure_def cb_success_def)
qed

theorem breaker_protocol_witness:
  "allowRequest 20 (fold (\<lambda>(t, e). cb_failure t e) [(1, ''a''), (9, ''b'')] (new_breaker 2 50)) =
     (False, fold (\<lambda>(t, e). cb_failure t e) [(1, ''a''), (9, ''b'')] (new_breaker 2 50))"
  using breaker_protocol [of "new_breaker 2 50" "[(1, ''a''), (9, ''b'')]" 20]
  by (simp add: new_breaker_def Let_def)



text \<open>The back-off doubles up to its maximum as long as the product fits into 63 bits, and not beyond: with
  the default delays the fifty-sixth retry would wait no time at all, the product having
  wrapped around to zero.\<close>
theorem backoff_doubles:
  assumes "0 \<le> sint b" and "attempt \<le> 62" and "sint b * 2 ^ attempt < 2 ^ 63"
  shows "sint (backoff_delay attempt b m) = min (sint b * 2 ^ attempt) (sint m) \<and>
         backoff_delay 55 200000000 2000000000 = 0"
proof -
  define p where "p = sint b * 2 ^ attempt"
  have "sint (b * push_bit attempt 1) = p" unfolding p_def by (rule sint_scaled [OF assms(1,3)])
  moreover have "0 \<le> p" unfolding p_def using assms(1) by simp
  ultimately have "sint (backoff_delay attempt b m) = min p (sint m)"
    using assms(2) unfolding backoff_delay_def Let_def by (simp only: not_less [symmetric] if_False split: if_split) (simp add: min_def)
  then have "sint (backoff_delay attempt b m) = min (sint b * 2 ^ attempt) (sint m)" by (simp add: p_def)
  moreover have "backoff_delay 55 200000000 2000000000 = 0" by code_simp
  ultimately show ?thesis by blast
qed

theorem backoff_doubles_witness:
  "sint (backoff_delay 3 200000000 2000000000) = 1600000000"
  using backoff_doubles [of 200000000 3 2000000000] by simp

end
