(* ===== verification/Hub.thy ===== *)
theory Hub imports Main begin

text \<open>
  The WebSocket hub (\<^verbatim>\<open>websocket.go\<close>) as a step relation: one rule per section of code that runs
  under the hub's or a channel's lock, so that every interleaving of clients that register,
  unregister and broadcast is a run. Channels are heap objects with identities of their own:
  the hub maps a name to the current channel object, a client keeps the object it registered
  with. The buffered \<open>send\<close> channel of a client is its queue; \<open>bad\<close> records a send on a closed one.
\<close>

definition sendBufferSize :: nat where "sendBufferSize = 256"

text \<open>Where a client's reader stands: connected, with the channel of \<^verbatim>\<open>getOrCreateChannel\<close>, registered, and the
  two parts of \<^verbatim>\<open>Unregister\<close>; \<open>Gone\<close> is after \<^verbatim>\<open>close(client.send)\<close>, \<open>Left\<close> a client that never registered.\<close>

datatype client_pc = Connected | Joining nat | Registered nat | Removing nat | Closing | Gone | Left

record hub =
  channels :: "string \<Rightarrow> nat option"
  channel_name :: "nat \<Rightarrow> string"
  subscribers :: "nat \<Rightarrow> nat set"
  next_channel :: nat
  client :: "nat \<Rightarrow> client_pc"
  queue :: "nat \<Rightarrow> string list"
  bad :: bool

definition NewWebSocketHub :: hub where
  "NewWebSocketHub = \<lparr>channels = (\<lambda>_. None), channel_name = (\<lambda>_. []), subscribers = (\<lambda>_. {}), next_channel = 0,
     client = (\<lambda>_. Connected), queue = (\<lambda>_. []), bad = False\<rparr>"

text \<open>\<^verbatim>\<open>getOrCreateChannel\<close>: the second lookup under the write lock makes it one step.\<close>

definition getOrCreateChannel :: "string \<Rightarrow> hub \<Rightarrow> nat \<times> hub" where
  "getOrCreateChannel name h =
     (case channels h name of
        Some c \<Rightarrow> (c, h)
      | None \<Rightarrow> (let c = next_channel h
                 in (c, h\<lparr>channels := (channels h)(name := Some c), channel_name := (channel_name h)(c := name),
                          subscribers := (subscribers h)(c := {}), next_channel := c + 1\<rparr>)))"

definition set_client :: "nat \<Rightarrow> client_pc \<Rightarrow> hub \<Rightarrow> hub" where
  "set_client i p h = h\<lparr>client := (client h)(i := p)\<rparr>"

definition subscribe :: "nat \<Rightarrow> nat \<Rightarrow> hub \<Rightarrow> hub" where
  "subscribe i c h = h\<lparr>subscribers := (subscribers h)(c := insert i (subscribers h c))\<rparr>"

text \<open>The first part of \<^verbatim>\<open>Unregister\<close>, under the channel's lock, and the second, under both locks.\<close>

definition unsubscribe :: "nat \<Rightarrow> nat \<Rightarrow> hub \<Rightarrow> bool \<times> hub" where
  "unsubscribe i c h =
     (let subs = subscribers h c - {i} in (subs = {}, h\<lparr>subscribers := (subscribers h)(c := subs)\<rparr>))"

definition drop_channel :: "nat \<Rightarrow> hub \<Rightarrow> hub" where
  "drop_channel c h = (if subscribers h c = {} then h\<lparr>channels := (channels h)(channel_name h c := None)\<rparr> else h)"

text \<open>The delivery loop under the channel's read lock: a send that would block is dropped.\<close>

definition deliver :: "nat \<Rightarrow> string \<Rightarrow> hub \<Rightarrow> hub" where
  "deliver c m h =
     h\<lparr>queue := (\<lambda>i. if i \<in> subscribers h c \<and> length (queue h i) < sendBufferSize then queue h i @ [m] else queue h i),
       bad := (bad h \<or> (\<exists>i\<in>subscribers h c. client h i = Gone))\<rparr>"

definition broadcastLocalOnly :: "string \<Rightarrow> string \<Rightarrow> hub \<Rightarrow> hub" where
  "broadcastLocalOnly name m h = (case channels h name of None \<Rightarrow> h | Some c \<Rightarrow> deliver c m h)"

text \<open>A broker message is ignored when it came from this server.\<close>

definition on_broker_message :: "string \<Rightarrow> string \<Rightarrow> string \<Rightarrow> string \<Rightarrow> hub \<Rightarrow> hub" where
  "on_broker_message serverID sid name payload h = (if sid = serverID then h else broadcastLocalOnly name payload h)"

text \<open>\<open>deliver_found\<close> is the second half of a broadcast whose lookup found the channel some time before.\<close>

inductive hub_step :: "hub \<Rightarrow> hub \<Rightarrow> bool" where
  leave: "client h i = Connected \<Longrightarrow> hub_step h (set_client i Left h)"
| join: "client h i = Connected \<Longrightarrow> getOrCreateChannel name h = (c, h') \<Longrightarrow> hub_step h (set_client i (Joining c) h')"
| register: "client h i = Joining c \<Longrightarrow> hub_step h (set_client i (Registered c) (subscribe i c h))"
| unregister: "client h i = Registered c \<Longrightarrow> unsubscribe i c h = (e, h') \<Longrightarrow>
     hub_step h (set_client i (if e then Removing c else Closing) h')"
| remove: "client h i = Removing c \<Longrightarrow> hub_step h (set_client i Closing (drop_channel c h))"
| close_send: "client h i = Closing \<Longrightarrow> hub_step h (set_client i Gone h)"
| broadcast: "hub_step h (broadcastLocalOnly name m h)"
| deliver_found: "c < next_channel h \<Longrightarrow> hub_step h (deliver c m h)"
| flush_one: "queue h i = m # ms \<Longrightarrow> hub_step h (h\<lparr>queue := (queue h)(i := ms)\<rparr>)"

inductive hub_reachable :: "hub \<Rightarrow> bool" where
  hub_start: "hub_reachable NewWebSocketHub"
| hub_next: "hub_reachable h \<Longrightarrow> hub_step h h' \<Longrightarrow> hub_reachable h'"

section \<open>The invariant\<close>

definition hub_inv :: "hub \<Rightarrow> bool" where
  "hub_inv h \<longleftrightarrow>
     (\<forall>i c. i \<in> subscribers h c \<longleftrightarrow> client h i = Registered c) \<and>
     (\<forall>i c. client h i = Joining c \<or> client h i = Registered c \<or> client h i = Removing c \<longrightarrow> c < next_channel h) \<and>
     (\<forall>n c. channels h n = Some c \<longrightarrow> c < next_channel h \<and> channel_name h c = n) \<and>
     (\<forall>i. length (queue h i) \<le> sendBufferSize) \<and> \<not> bad h"

lemma hub_inv_init: "hub_inv NewWebSocketHub"
  by (simp add: hub_inv_def NewWebSocketHub_def)

lemma deliver_inv: "hub_inv h \<Longrightarrow> hub_inv (deliver c m h)"
  by (auto simp: hub_inv_def deliver_def)

lemma getOrCreate_inv:
  assumes "hub_inv h" "getOrCreateChannel name h = (c, h')"
  shows "hub_inv h' \<and> client h' = client h \<and> c < next_channel h' \<and> channels h' name = Some c"
proof (cases "channels h name")
  case None
  have "subscribers h (next_channel h) = {}"
    using assms(1) unfolding hub_inv_def by (metis all_not_in_conv less_irrefl)
  then have e: "(subscribers h)(next_channel h := {}) = subscribers h" by (simp add: fun_upd_idem)
  have h': "h' = h\<lparr>channels := (channels h)(name := Some (next_channel h)), channel_name := (channel_name h)(next_channel h := name),
      subscribers := subscribers h, next_channel := next_channel h + 1\<rparr>" "c = next_channel h"
    using assms(2) None by (auto simp: getOrCreateChannel_def Let_def e)
  show ?thesis using assms(1) unfolding hub_inv_def h' by (auto simp: less_SucI split: if_splits)
next
  case (Some d)
  then show ?thesis using assms by (auto simp: getOrCreateChannel_def hub_inv_def)
qed

lemma hub_step_inv: "hub_step h h' \<Longrightarrow> hub_inv h \<Longrightarrow> hub_inv h'"
proof (induction rule: hub_step.induct)
  case (join h i name c h')
  from getOrCreate_inv [OF join.prems join.hyps(2)] join.hyps(1) show ?case
    by (auto simp: hub_inv_def set_client_def)
next
  case (broadcast h name m)
  then show ?case by (auto simp: broadcastLocalOnly_def intro: deliver_inv split: option.split)
next
  case (deliver_found c h m)
  then show ?case by (simp add: deliver_inv)
next
  case (flush_one h i m ms)
  have "length ms \<le> sendBufferSize" using flush_one by (metis Suc_leD hub_inv_def length_Cons)
  with flush_one show ?case by (simp add: hub_inv_def)
qed (auto simp: hub_inv_def set_client_def subscribe_def unsubscribe_def drop_channel_def Let_def)

lemma hub_reachable_inv: "hub_reachable h \<Longrightarrow> hub_inv h"
  by (induction rule: hub_reachable.induct) (auto intro: hub_inv_init hub_step_inv)

section \<open>Properties\<close>

text \<open>C19: The hub is safe under every interleaving: a channel's subscribers are exactly the clients
  registered with it, so no message is ever sent on a closed client; no client's buffer exceeds
  its 256 messages; and a broadcast to a name appends the message once to the queue of
  every subscriber of the name's channel with room, and changes no other queue.\<close>
theorem hub_safe:
  assumes "hub_reachable h"
  shows "\<not> bad h \<and> (\<forall>i c. i \<in> subscribers h c \<longleftrightarrow> client h i = Registered c) \<and>
         length (queue h i) \<le> 256 \<and>
         queue (broadcastLocalOnly name m h) i =
           (if channels h name \<noteq> None \<and> client h i = Registered (the (channels h name)) \<and> length (queue h i) < 256
            then queue h i @ [m] else queue h i)"
  using hub_reachable_inv [OF assms]
  by (auto simp: hub_inv_def broadcastLocalOnly_def deliver_def sendBufferSize_def split: option.split)

definition joined_hub :: "hub" where
  "joined_hub = set_client 0 (Joining 0) (snd (getOrCreateChannel ''news'' NewWebSocketHub))"

definition one_client :: "hub" where
  "one_client = set_client 0 (Registered 0) (subscribe 0 0 joined_hub)"

lemma one_client_reachable: "hub_reachable one_client"
proof -
  have "hub_step NewWebSocketHub joined_hub" unfolding joined_hub_def
    by (rule hub_step.join) (simp_all add: NewWebSocketHub_def getOrCreateChannel_def Let_def)
  moreover have "hub_step joined_hub one_client" unfolding one_client_def
    by (rule hub_step.register) (simp add: joined_hub_def set_client_def)
  ultimately show ?thesis by (blast intro: hub_reachable.intros)
qed

theorem hub_safe_witness:
  "queue (broadcastLocalOnly ''news'' ''hi'' one_client) 0 = [''hi'']"
  using hub_safe [OF one_client_reachable, of 0 "''news''" "''hi''"]
  by (simp add: one_client_def joined_hub_def set_client_def subscribe_def getOrCreateChannel_def NewWebSocketHub_def Let_def)

text \<open>A client that joins while the last subscriber leaves can be cut off: there is a run that leaves a
  registered client whose channel's name is no longer in the hub, so broadcasts to the name
  never reach it.\<close>
theorem join_races_with_leave:
  "\<exists>h. hub_reachable h \<and> client h 1 = Registered 0 \<and> channel_name h 0 = ''news'' \<and> channels h ''news'' = None \<and>
       broadcastLocalOnly ''news'' ''hi'' h = h"
proof -
  let ?a = "set_client 1 (Joining 0) one_client"
  have "hub_step one_client ?a"
    by (rule hub_step.join [where name = "''news''"])
      (simp_all add: one_client_def joined_hub_def set_client_def subscribe_def getOrCreateChannel_def NewWebSocketHub_def Let_def)
  with one_client_reachable have a: "hub_reachable ?a" by (rule hub_next)
  let ?b = "set_client 0 (Removing 0) (snd (unsubscribe 0 0 ?a))"
  have "unsubscribe 0 0 ?a = (True, snd (unsubscribe 0 0 ?a))"
    by (simp add: unsubscribe_def one_client_def joined_hub_def set_client_def subscribe_def getOrCreateChannel_def
        NewWebSocketHub_def Let_def)
  then have "hub_step ?a ?b"
    using hub_step.unregister [of ?a 0 0 True "snd (unsubscribe 0 0 ?a)"]
    by (simp add: one_client_def set_client_def)
  with a have b: "hub_reachable ?b" by (rule hub_next)
  let ?c = "set_client 0 Closing (drop_channel 0 ?b)"
  have "hub_step ?b ?c" by (rule hub_step.remove) (simp add: set_client_def)
  with b have c: "hub_reachable ?c" by (rule hub_next)
  let ?d = "set_client 1 (Registered 0) (subscribe 1 0 ?c)"
  have "hub_step ?c ?d"
    by (rule hub_step.register)
      (simp add: set_client_def drop_channel_def unsubscribe_def Let_def)
  with c have d: "hub_reachable ?d" by (rule hub_next)
  have "client ?d 1 = Registered 0 \<and> channel_name ?d 0 = ''news'' \<and> channels ?d ''news'' = None"
    by (simp add: one_client_def joined_hub_def set_client_def subscribe_def getOrCreateChannel_def NewWebSocketHub_def
        drop_channel_def unsubscribe_def Let_def)
  with d show ?thesis by (intro exI [of _ ?d]) (simp add: broadcastLocalOnly_def)
qed

end
