(* ===== verification/Tokens.thy ===== *)
theory Tokens imports GoPrelude begin

text \<open>
  Signed and encrypted values: JSON web tokens (\<^verbatim>\<open>jwt.go\<close>), WebSocket tokens (\<^verbatim>\<open>wstoken.go\<close>), the
  encryption of strings (\<^verbatim>\<open>crypt.go\<close>) and the session cookie that uses it (\<^verbatim>\<open>cookie.go\<close>). Base64 is
  defined here; HMAC-SHA-256, AES-GCM, SHA-256 and the JSON codec of the payload are parameters.
  Strings are byte strings; clocks are in nanoseconds, expiry times in seconds.
\<close>

section \<open>Base64\<close>

definition std_alphabet :: string where
  "std_alphabet = ''ABCDEFGHIJKLMNOPQRSTUVWXYZabcdefghijklmnopqrstuvwxyz0123456789+/''"

definition url_alphabet :: string where
  "url_alphabet = ''ABCDEFGHIJKLMNOPQRSTUVWXYZabcdefghijklmnopqrstuvwxyz0123456789-_''"

text \<open>Bytes in groups of three as four numbers below 64, and back.\<close>

fun enc6 :: "nat list \<Rightarrow> nat list" where
  "enc6 [] = []"
| "enc6 [a] = [a div 4, (a mod 4) * 16]"
| "enc6 [a, b] = [a div 4, (a mod 4) * 16 + b div 16, (b mod 16) * 4]"
| "enc6 (a # b # c # rest) = [a div 4, (a mod 4) * 16 + b div 16, (b mod 16) * 4 + c div 64, c mod 64] @ enc6 rest"

fun dec6 :: "nat list \<Rightarrow> nat list option" where
  "dec6 [] = Some []"
| "dec6 [a] = None"
| "dec6 [a, b] = Some [a * 4 + b div 16]"
| "dec6 [a, b, c] = Some [a * 4 + b div 16, (b mod 16) * 16 + c div 4]"
| "dec6 (a # b # c # d # rest) =
     map_option (\<lambda>r. [a * 4 + b div 16, (b mod 16) * 16 + c div 4, (c mod 4) * 64 + d] @ r) (dec6 rest)"

fun index_of :: "char \<Rightarrow> string \<Rightarrow> nat option" where
  "index_of c [] = None"
| "index_of c (x # xs) = (if x = c then Some 0 else map_option Suc (index_of c xs))"

fun map_opt :: "('a \<Rightarrow> 'b option) \<Rightarrow> 'a list \<Rightarrow> 'b list option" where
  "map_opt f [] = Some []"
| "map_opt f (x # xs) = (case f x of None \<Rightarrow> None | Some y \<Rightarrow> map_option ((#) y) (map_opt f xs))"

definition b64_encode_raw :: "string \<Rightarrow> string \<Rightarrow> string" where
  "b64_encode_raw alpha s = map (\<lambda>n. alpha ! n) (enc6 (map of_char s))"

definition b64_encode :: "string \<Rightarrow> string \<Rightarrow> string" where
  "b64_encode alpha s = b64_encode_raw alpha s @ replicate ((3 - length s mod 3) mod 3) (CHR ''='')"

text \<open>The decoder skips line breaks.\<close>

definition b64_decode_raw :: "string \<Rightarrow> string \<Rightarrow> string option" where
  "b64_decode_raw alpha s =
     (case map_opt (\<lambda>c. index_of c alpha) (filter (\<lambda>c. c \<noteq> CHR 0x0A \<and> c \<noteq> CHR 0x0D) s) of
        None \<Rightarrow> None | Some ns \<Rightarrow> map_option (map char_of) (dec6 ns))"

definition b64_decode :: "string \<Rightarrow> string \<Rightarrow> string option" where
  "b64_decode alpha s =
     (let t = filter (\<lambda>c. c \<noteq> CHR 0x0A \<and> c \<noteq> CHR 0x0D) s
      in if length t mod 4 \<noteq> 0 then None
         else b64_decode_raw alpha (if HasSuffix t ''=='' then take (length t - 2) t
                                    else if HasSuffix t ''='' then take (length t - 1) t else t))"

lemma low_part: "r < m \<Longrightarrow> (k * m + r) div m = (k :: nat)" "r < m \<Longrightarrow> (k * m + r) mod m = r"
  by simp_all

lemma group_bytes:
  assumes "a < (256::nat)" "b < 256" "c < 256"
  shows "a div 4 * 4 + (a mod 4 * 16 + b div 16) div 16 = a"
    and "(a mod 4 * 16 + b div 16) mod 16 * 16 + (b mod 16 * 4 + c div 64) div 4 = b"
    and "(b mod 16 * 4 + c div 64) mod 4 * 64 + c mod 64 = c"
    and "a div 4 < 64" "a mod 4 * 16 + b div 16 < 64" "b mod 16 * 4 + c div 64 < 64"
proof -
  have r: "b div 16 < 16" "c div 64 < 4" using assms by simp_all
  show "a div 4 * 4 + (a mod 4 * 16 + b div 16) div 16 = a" unfolding low_part(1) [OF r(1)] by simp
  show "(a mod 4 * 16 + b div 16) mod 16 * 16 + (b mod 16 * 4 + c div 64) div 4 = b"
    unfolding low_part(2) [OF r(1)] low_part(1) [OF r(2)] by simp
  show "(b mod 16 * 4 + c div 64) mod 4 * 64 + c mod 64 = c" unfolding low_part(2) [OF r(2)] by simp
  have "a mod 4 \<le> 3" "b mod 16 \<le> 15" by simp_all
  then show "a div 4 < 64" "a mod 4 * 16 + b div 16 < 64" "b mod 16 * 4 + c div 64 < 64" using r assms by linarith+
qed

lemma dec6_enc6: "list_all (\<lambda>n. n < 256) bs \<Longrightarrow> dec6 (enc6 bs) = Some bs"
proof (induction bs rule: enc6.induct)
  case (2 a)
  then show ?case using group_bytes(1) [of a 0 0] by simp
next
  case (3 a b)
  then show ?case using group_bytes(1,2) [of a b 0] by simp
next
  case (4 a b c rest)
  then show ?case using group_bytes(1-3) [of a b c] by simp
qed simp

lemma enc6_less: "list_all (\<lambda>n. n < 256) bs \<Longrightarrow> list_all (\<lambda>n. n < 64) (enc6 bs)"
proof (induction bs rule: enc6.induct)
  case (2 a)
  then show ?case using group_bytes(4,5) [of a 0 0] by simp
next
  case (3 a b)
  then show ?case using group_bytes(4-6) [of a b 0] by simp
next
  case (4 a b c rest)
  then show ?case using group_bytes(4-6) [of a b c] by simp
qed simp

definition good_alphabet :: "string \<Rightarrow> bool" where
  "good_alphabet alpha \<longleftrightarrow> length alpha = 64 \<and> list_all (\<lambda>n. index_of (alpha ! n) alpha = Some n) [0..<64] \<and>
     CHR 0x0A \<notin> set alpha \<and> CHR 0x0D \<notin> set alpha \<and> CHR ''.'' \<notin> set alpha \<and> CHR ''='' \<notin> set alpha"

lemma good_alphabets: "good_alphabet std_alphabet" "good_alphabet url_alphabet"
  by code_simp+

lemma map_opt_index:
  "good_alphabet alpha \<Longrightarrow> list_all (\<lambda>n. n < 64) ns \<Longrightarrow> map_opt (\<lambda>c. index_of c alpha) (map (\<lambda>n. alpha ! n) ns) = Some ns"
  by (induction ns) (auto simp: good_alphabet_def list_all_iff)

lemma bytes_less: "list_all (\<lambda>n. n < 256) (map (of_char :: char \<Rightarrow> nat) s)"
  by (simp add: list_all_iff)

lemma b64_chars:
  assumes "good_alphabet alpha" "c \<in> set (b64_encode_raw alpha s)"
  shows "c \<in> set alpha"
proof -
  obtain n where "n \<in> set (enc6 (map of_char s))" "c = alpha ! n" using assms(2) by (auto simp: b64_encode_raw_def)
  then have "n < 64" using enc6_less [OF bytes_less [of s]] by (auto simp: list_all_iff)
  with \<open>c = alpha ! n\<close> assms(1) show ?thesis by (auto simp: good_alphabet_def)
qed

lemma b64_no_breaks:
  assumes "good_alphabet alpha"
  shows "filter (\<lambda>c. c \<noteq> CHR 0x0A \<and> c \<noteq> CHR 0x0D) (b64_encode_raw alpha s) = b64_encode_raw alpha s"
  using b64_chars [OF assms, of _ s] assms by (auto simp: filter_id_conv good_alphabet_def)

lemma b64_decode_encode_raw:
  assumes "good_alphabet alpha"
  shows "b64_decode_raw alpha (b64_encode_raw alpha s) = Some s"
proof -
  have "map_opt (\<lambda>c. index_of c alpha) (b64_encode_raw alpha s) = Some (enc6 (map of_char s))"
    unfolding b64_encode_raw_def by (rule map_opt_index [OF assms enc6_less [OF bytes_less]])
  moreover have "map char_of (map (of_char :: char \<Rightarrow> nat) s) = s" by (simp add: map_idI)
  ultimately show ?thesis
    by (simp only: b64_decode_raw_def b64_no_breaks [OF assms] dec6_enc6 [OF bytes_less] option.case option.map)
qed

lemma good_no_dot: "good_alphabet alpha \<Longrightarrow> CHR ''.'' \<notin> set alpha"
  unfolding good_alphabet_def by (elim conjE) assumption

lemma b64_no_dot: "good_alphabet alpha \<Longrightarrow> CHR ''.'' \<notin> set (b64_encode_raw alpha s)"
  using b64_chars good_no_dot by blast

lemma b64_no_dot_padded: "good_alphabet alpha \<Longrightarrow> CHR ''.'' \<notin> set (b64_encode alpha s)"
  using b64_no_dot [of alpha s] by (auto simp: b64_encode_def)

section \<open>JSON web tokens\<close>

definition jwtHeaderHS256 :: string where "jwtHeaderHS256 = ''eyJhbGciOiJIUzI1NiIsInR5cCI6IkpXVCJ9''"

datatype 'e token_error = ErrTokenMalformed | ErrTokenSignature | ErrTokenExpired | ErrPayload 'e

text \<open>\<open>mac\<close> is HMAC-SHA-256 of a message under a secret; \<open>enc\<close>, \<open>dec\<close> the JSON codec of payload and expiry.\<close>

definition jwt_sign :: "(string \<Rightarrow> string \<Rightarrow> string) \<Rightarrow> string \<Rightarrow> string \<Rightarrow> string" where
  "jwt_sign mac secret data = b64_encode_raw url_alphabet (mac secret data)"

definition GenerateToken ::
  "(string \<Rightarrow> string \<Rightarrow> string) \<Rightarrow> ('d \<times> int \<Rightarrow> 'e + string) \<Rightarrow> string \<Rightarrow> int \<Rightarrow> 'd \<Rightarrow> int \<Rightarrow> 'e + string" where
  "GenerateToken mac enc secret now data ttl =
     (case enc (data, (now + ttl) div 1000000000) of
        Inl e \<Rightarrow> Inl e
      | Inr payloadBytes \<Rightarrow>
          (let unsigned = jwtHeaderHS256 @ ''.'' @ b64_encode_raw url_alphabet payloadBytes
           in Inr (unsigned @ ''.'' @ jwt_sign mac secret unsigned)))"

definition ValidateToken ::
  "(string \<Rightarrow> string \<Rightarrow> string) \<Rightarrow> (string \<Rightarrow> 'e + 'd \<times> int) \<Rightarrow> string \<Rightarrow> int \<Rightarrow> string \<Rightarrow> 'e token_error + 'd" where
  "ValidateToken mac dec secret now tokenString =
     (let parts = Split (CHR ''.'') tokenString
      in if length parts \<noteq> 3 then Inl ErrTokenMalformed
         else let unsigned = parts ! 0 @ ''.'' @ parts ! 1
              in if parts ! 2 \<noteq> jwt_sign mac secret unsigned then Inl ErrTokenSignature
                 else (case b64_decode_raw url_alphabet (parts ! 1) of
                     None \<Rightarrow> Inl ErrTokenMalformed
                   | Some payloadBytes \<Rightarrow>
                       (case dec payloadBytes of
                          Inl e \<Rightarrow> Inl (ErrPayload e)
                        | Inr (data, exp) \<Rightarrow> if now div 1000000000 > exp then Inl ErrTokenExpired else Inr data)))"

section \<open>WebSocket tokens\<close>

datatype ws_error = InvalidFormat | InvalidSignature | InvalidTimestamp | TokenExpired | MissingToken

definition ws_sign :: "(string \<Rightarrow> string \<Rightarrow> string) \<Rightarrow> string \<Rightarrow> string \<Rightarrow> string" where
  "ws_sign mac secret payload = b64_encode url_alphabet (mac secret payload)"

definition GenerateWSToken :: "(string \<Rightarrow> string \<Rightarrow> string) \<Rightarrow> string \<Rightarrow> int \<Rightarrow> int \<Rightarrow> string" where
  "GenerateWSToken mac secret now duration =
     (let payload = Itoa ((now + duration) div 1000000000) in payload @ ''.'' @ ws_sign mac secret payload)"

definition ValidateWSToken :: "(string \<Rightarrow> string \<Rightarrow> string) \<Rightarrow> string \<Rightarrow> int \<Rightarrow> string \<Rightarrow> ws_error option" where
  "ValidateWSToken mac secret now tokenString =
     (let parts = Split (CHR ''.'') tokenString
      in if length parts \<noteq> 2 then Some InvalidFormat
         else if parts ! 1 \<noteq> ws_sign mac secret (parts ! 0) then Some InvalidSignature
         else (case ParseInt64 (parts ! 0) of
             None \<Rightarrow> Some InvalidTimestamp
           | Some exp \<Rightarrow> if now div 1000000000 > exp then Some TokenExpired else None))"

definition authenticateWsRequest :: "(string \<Rightarrow> string \<Rightarrow> string) \<Rightarrow> string \<Rightarrow> int \<Rightarrow> string \<Rightarrow> ws_error option" where
  "authenticateWsRequest mac secret now token =
     (if token = [] then Some MissingToken else ValidateWSToken mac secret now token)"

section \<open>Encrypted strings and the session cookie\<close>

text \<open>\<open>digest\<close> is SHA-256, \<open>seal\<close> and \<open>unseal\<close> AES-GCM under a key and a nonce of 12 bytes, \<open>nonce\<close> the random bytes.\<close>

definition EncryptString ::
  "(string \<Rightarrow> string) \<Rightarrow> (string \<Rightarrow> string \<Rightarrow> string \<Rightarrow> string) \<Rightarrow> string \<Rightarrow> string \<Rightarrow> string \<Rightarrow> string" where
  "EncryptString digest seal nonce plain passphrase =
     b64_encode_raw std_alphabet (nonce @ seal (digest passphrase) nonce plain)"

definition DecryptString ::
  "(string \<Rightarrow> string) \<Rightarrow> (string \<Rightarrow> string \<Rightarrow> string \<Rightarrow> string option) \<Rightarrow> string \<Rightarrow> string \<Rightarrow> string option" where
  "DecryptString digest unseal encoded passphrase =
     (case (case b64_decode_raw std_alphabet encoded of Some d \<Rightarrow> Some d | None \<Rightarrow> b64_decode std_alphabet encoded) of
        None \<Rightarrow> None
      | Some data \<Rightarrow>
          if length data < 12 then None
          else unseal (digest passphrase) (take 12 data) (drop 12 data))"

definition cookie_value :: "(string \<Rightarrow> string \<Rightarrow> string) \<Rightarrow> string \<Rightarrow> string \<Rightarrow> string \<Rightarrow> string" where
  "cookie_value encrypt sessionKey name val = (if name = ''session_id'' then encrypt val sessionKey else val)"

datatype cookie_error = ErrCookieNotFound | ErrSessionInvalid

definition GetCookie ::
  "(string \<Rightarrow> string \<Rightarrow> string option) \<Rightarrow> string \<Rightarrow> (string \<times> string) list \<Rightarrow> string \<Rightarrow> cookie_error + string" where
  "GetCookie decrypt sessionKey cookies name =
     (case map_of cookies name of
        None \<Rightarrow> Inl ErrCookieNotFound
      | Some v \<Rightarrow> if name = ''session_id'' then (case decrypt v sessionKey of None \<Rightarrow> Inl ErrSessionInvalid | Some d \<Rightarrow> Inr d)
                  else Inr v)"

lemma decrypt_encrypt:
  assumes "length nonce = 12" and "\<And>k n p. unseal k n (seal k n p) = Some p"
  shows "DecryptString digest unseal (EncryptString digest seal nonce plain passphrase) passphrase = Some plain"
  using assms by (simp add: DecryptString_def EncryptString_def b64_decode_encode_raw [OF good_alphabets(1)])

section \<open>Properties\<close>

lemma jwt_header_no_dot: "CHR ''.'' \<notin> set jwtHeaderHS256"
  by code_simp

lemma split3: "CHR ''.'' \<notin> set a \<Longrightarrow> CHR ''.'' \<notin> set b \<Longrightarrow> CHR ''.'' \<notin> set c \<Longrightarrow>
   Split (CHR ''.'') ((a @ ''.'' @ b) @ ''.'' @ c) = [a, b, c]"
  using Split_append_sep [of "CHR ''.''" a "b @ ''.'' @ c"] Split_append_sep [of "CHR ''.''" b c] by simp

text \<open>C20: Tokens round-trip and nothing else passes: a generated token is accepted, with the data it was made
  for, exactly until its expiry second has passed, and from then on refused as expired; and a token
  is accepted only if its third part is the signature, under the secret, of its first two.\<close>
theorem jwt_roundtrip:
  assumes "GenerateToken mac enc secret now data ttl = Inr tok"
    and "\<And>p b. enc p = Inr b \<Longrightarrow> dec b = Inr p"
  shows "ValidateToken mac dec secret now' tok =
           (if now' div 1000000000 \<le> (now + ttl) div 1000000000 then Inr data else Inl ErrTokenExpired) \<and>
         (\<forall>t d. ValidateToken mac dec secret now' t = Inr d \<longrightarrow>
            (\<exists>h p. Split (CHR ''.'') t = [h, p, jwt_sign mac secret (h @ ''.'' @ p)]))"
proof
  let ?exp = "(now + ttl) div 1000000000"
  obtain b where b: "enc (data, ?exp) = Inr b"
    and tok: "tok = (jwtHeaderHS256 @ ''.'' @ b64_encode_raw url_alphabet b) @ ''.'' @
                jwt_sign mac secret (jwtHeaderHS256 @ ''.'' @ b64_encode_raw url_alphabet b)"
    using assms(1) by (auto simp: GenerateToken_def Let_def split: sum.splits)
  have nd: "CHR ''.'' \<notin> set (b64_encode_raw url_alphabet x)" for x by (rule b64_no_dot [OF good_alphabets(2)])
  have s: "Split (CHR ''.'') tok = [jwtHeaderHS256, b64_encode_raw url_alphabet b,
      jwt_sign mac secret (jwtHeaderHS256 @ ''.'' @ b64_encode_raw url_alphabet b)]"
    unfolding tok by (rule split3 [OF jwt_header_no_dot nd]) (simp add: jwt_sign_def nd)
  show "ValidateToken mac dec secret now' tok = (if now' div 1000000000 \<le> ?exp then Inr data else Inl ErrTokenExpired)"
    by (simp add: ValidateToken_def s Let_def b64_decode_encode_raw [OF good_alphabets(2)] assms(2) [OF b])
  show "\<forall>t d. ValidateToken mac dec secret now' t = Inr d \<longrightarrow>
            (\<exists>h p. Split (CHR ''.'') t = [h, p, jwt_sign mac secret (h @ ''.'' @ p)])"
  proof (intro allI impI)
    fix t d assume v: "ValidateToken mac dec secret now' t = Inr d"
    obtain x y z where xyz: "Split (CHR ''.'') t = [x, y, z]"
      using v by (auto simp: ValidateToken_def Let_def length_Suc_conv numeral_3_eq_3 split: if_splits)
    with v show "\<exists>h p. Split (CHR ''.'') t = [h, p, jwt_sign mac secret (h @ ''.'' @ p)]"
      by (auto simp: ValidateToken_def Let_def split: if_splits)
  qed
qed

theorem jwt_roundtrip_witness:
  "ValidateToken (\<lambda>k m. rev m @ k) (\<lambda>b. if b = ''p'' then Inr (''alice'', 61) else Inl ()) ''key'' 5000000000
     (the (case GenerateToken (\<lambda>k m. rev m @ k) (\<lambda>p. if p = (''alice'', 61) then Inr ''p'' else Inl ()) ''key'' 1000000000 ''alice'' 60000000000
             of Inr t \<Rightarrow> Some t | Inl e \<Rightarrow> None)) = Inr ''alice''"
proof -
  let ?enc = "\<lambda>p. if p = (''alice'', 61 :: int) then Inr ''p'' else Inl ()"
  obtain t where t: "GenerateToken (\<lambda>k m. rev m @ k) ?enc ''key'' 1000000000 ''alice'' 60000000000 = Inr t"
    by (simp add: GenerateToken_def Let_def)
  have "(\<lambda>b. if b = ''p'' then Inr (''alice'', 61) else Inl ()) b = Inr p" if "?enc p = Inr b" for p b
    using that by (auto split: if_splits)
  from jwt_roundtrip [OF t this, where now' = 5000000000]
  have "ValidateToken (\<lambda>k m. rev m @ k) (\<lambda>b. if b = ''p'' then Inr (''alice'', 61) else Inl ()) ''key'' 5000000000 t = Inr ''alice''"
    by simp
  then show ?thesis by (simp add: t)
qed

text \<open>A WebSocket token is accepted until its expiry second has passed and refused afterwards, for every
  lifetime whose expiry is a 64-bit time after 1970; a token passes only if it is a payload and
  that payload's signature under the secret.\<close>
theorem ws_token_roundtrip:
  assumes "0 \<le> (now + duration) div 1000000000" and "(now + duration) div 1000000000 < 2 ^ 63"
  shows "authenticateWsRequest mac secret now' (GenerateWSToken mac secret now duration) =
           (if now' div 1000000000 \<le> (now + duration) div 1000000000 then None else Some TokenExpired) \<and>
         (\<forall>t. authenticateWsRequest mac secret now' t = None \<longrightarrow> (\<exists>p. Split (CHR ''.'') t = [p, ws_sign mac secret p]))"
proof
  let ?e = "(now + duration) div 1000000000"
  have "CHR ''.'' \<notin> set (Itoa ?e)" using assms(1) Itoa_nat_digits by (fastforce simp: Itoa_def is_digit_def)
  moreover have "CHR ''.'' \<notin> set (ws_sign mac secret (Itoa ?e))"
    unfolding ws_sign_def by (rule b64_no_dot_padded [OF good_alphabets(2)])
  ultimately have s: "Split (CHR ''.'') (GenerateWSToken mac secret now duration) = [Itoa ?e, ws_sign mac secret (Itoa ?e)]"
    by (simp add: GenerateWSToken_def Let_def Split_append_sep)
  have ne: "GenerateWSToken mac secret now duration \<noteq> []" by (simp add: GenerateWSToken_def Let_def)
  show "authenticateWsRequest mac secret now' (GenerateWSToken mac secret now duration) =
           (if now' div 1000000000 \<le> ?e then None else Some TokenExpired)"
    by (simp add: authenticateWsRequest_def ne ValidateWSToken_def s Let_def ParseInt64_Itoa [OF assms])
  show "\<forall>t. authenticateWsRequest mac secret now' t = None \<longrightarrow> (\<exists>p. Split (CHR ''.'') t = [p, ws_sign mac secret p])"
  proof (intro allI impI)
    fix t assume v: "authenticateWsRequest mac secret now' t = None"
    obtain x y where xy: "Split (CHR ''.'') t = [x, y]"
      using v by (auto simp: authenticateWsRequest_def ValidateWSToken_def Let_def length_Suc_conv numeral_2_eq_2 split: if_splits)
    with v show "\<exists>p. Split (CHR ''.'') t = [p, ws_sign mac secret p]"
      by (auto simp: authenticateWsRequest_def ValidateWSToken_def Let_def split: if_splits)
  qed
qed

theorem ws_token_roundtrip_witness:
  "authenticateWsRequest (\<lambda>k m. k @ m) ''key'' 5000000000 (GenerateWSToken (\<lambda>k m. k @ m) ''key'' 1000000000 60000000000) = None"
  using ws_token_roundtrip [of 1000000000 60000000000 "\<lambda>k m. k @ m" "''key''" 5000000000] by simp

text \<open>The session cookie round-trips: a session id that \<^verbatim>\<open>SetCookie\<close> encrypts is what \<^verbatim>\<open>GetCookie\<close> returns, for
  every nonce of 12 bytes, and other cookies are passed as they are; a session cookie that does
  not decrypt is an error.\<close>
theorem session_cookie_roundtrip:
  assumes "length nonce = 12" and "\<And>k n p. unseal k n (seal k n p) = Some p"
  shows "GetCookie (DecryptString digest unseal) key
           [(name, cookie_value (EncryptString digest seal nonce) key name val)] name = Inr val \<and>
         GetCookie (DecryptString digest unseal) key [(''session_id'', ''=garbage'')] ''session_id'' = Inl ErrSessionInvalid"
proof -
  have "b64_decode_raw std_alphabet ''=garbage'' = None" "b64_decode std_alphabet ''=garbage'' = None" by code_simp+
  then have "DecryptString digest unseal ''=garbage'' key = None" by (simp add: DecryptString_def)
  then show ?thesis using decrypt_encrypt [of nonce unseal seal digest, OF assms] by (simp add: GetCookie_def cookie_value_def)
qed

theorem session_cookie_roundtrip_witness:
  "GetCookie (DecryptString rev (\<lambda>k n c. Some (rev c))) ''key''
     [(''session_id'', cookie_value (EncryptString rev (\<lambda>k n p. rev p) ''0123456789ab'') ''key'' ''session_id'' ''id-1'')] ''session_id'' = Inr ''id-1''"
  using session_cookie_roundtrip [of "''0123456789ab''" "\<lambda>k n c. Some (rev c)" "\<lambda>k n p. rev p" rev "''key''" "''session_id''" "''id-1''"]
  by simp

end
