(* ===== verification/HtmlDom.thy ===== *)
theory HtmlDom imports GoPrelude begin

text \<open>
  The HTML tree of \<^verbatim>\<open>htmlparser.go\<close>. A document is the tree that \<^verbatim>\<open>golang.org/x/net/html\<close> keeps with
  parent and sibling links; an \<^verbatim>\<open>HTMLElement\<close> is a position in it, the list of child indices from the
  root, so two elements are the same node when their positions are equal and an element without
  parent has the position \<open>[]\<close>. A position outside the document stands for a nil element. The
  parser, the renderer and the tokenizer are that library's and are parameters. Selector
  queries are proved equal to a filter of the document in document order.
\<close>

section \<open>Nodes and positions\<close>

datatype node_type = TextNode | DocumentNode | ElementNode | CommentNode | DoctypeNode

datatype node = Node (ntype: node_type) (ndata: string) (nattr: "(string \<times> string) list") (nchildren: "node list")

type_synonym pos = "nat list"

fun node_at :: "node \<Rightarrow> pos \<Rightarrow> node option" where
  "node_at n [] = Some n"
| "node_at (Node t d a cs) (i # p) = (if i < length cs then node_at (cs ! i) p else None)"

fun update_at :: "(node \<Rightarrow> node) \<Rightarrow> node \<Rightarrow> pos \<Rightarrow> node" where
  "update_at f n [] = f n"
| "update_at f (Node t d a cs) (i # p) =
     (if i < length cs then Node t d a (cs[i := update_at f (cs ! i) p]) else Node t d a cs)"

definition with_attr :: "(string \<times> string) list \<Rightarrow> node \<Rightarrow> node" where
  "with_attr a n = Node (ntype n) (ndata n) a (nchildren n)"

definition with_children :: "node list \<Rightarrow> node \<Rightarrow> node" where
  "with_children cs n = Node (ntype n) (ndata n) (nattr n) cs"

text \<open>All positions of a tree in document order, relative to its root.\<close>

fun positions :: "node \<Rightarrow> pos list" where
  "positions (Node t d a cs) = [] # concat (map (\<lambda>(i, ps). map ((#) i) ps) (enumerate 0 (map positions cs)))"

section \<open>Attributes and text\<close>

fun attr_value :: "(string \<times> string) list \<Rightarrow> string \<Rightarrow> string" where
  "attr_value [] name = []"
| "attr_value ((k, v) # as) name = (if k = name then v else attr_value as name)"

definition getAttr :: "node \<Rightarrow> string \<Rightarrow> string" where
  "getAttr n key = attr_value (nattr n) key"

definition GetAttribute :: "node \<Rightarrow> pos \<Rightarrow> string \<Rightarrow> string" where
  "GetAttribute doc e name = (case node_at doc e of None \<Rightarrow> [] | Some n \<Rightarrow> attr_value (nattr n) name)"

fun set_attr :: "string \<Rightarrow> string \<Rightarrow> (string \<times> string) list \<Rightarrow> (string \<times> string) list" where
  "set_attr name v [] = [(name, v)]"
| "set_attr name v ((k, x) # as) = (if k = name then (k, v) # as else (k, x) # set_attr name v as)"

definition SetAttribute :: "node \<Rightarrow> pos \<Rightarrow> string \<Rightarrow> string \<Rightarrow> node" where
  "SetAttribute doc e name v = update_at (\<lambda>n. with_attr (set_attr name v (nattr n)) n) doc e"

definition RemoveAttribute :: "node \<Rightarrow> pos \<Rightarrow> string \<Rightarrow> node" where
  "RemoveAttribute doc e name =
     update_at (\<lambda>n. with_attr (filter (\<lambda>kv. fst kv \<noteq> name) (nattr n)) n) doc e"

fun text_of :: "node \<Rightarrow> string" where
  "text_of (Node t d a cs) = (if t = TextNode then d else []) @ concat (map text_of cs)"

definition TextContent :: "node \<Rightarrow> pos \<Rightarrow> string" where
  "TextContent doc e = (case node_at doc e of None \<Rightarrow> [] | Some n \<Rightarrow> TrimSpace (text_of n))"

section \<open>Changing the tree\<close>

definition insert_child :: "nat \<Rightarrow> node \<Rightarrow> node \<Rightarrow> node" where
  "insert_child i c n = with_children (take i (nchildren n) @ c # drop i (nchildren n)) n"

definition append_child :: "node \<Rightarrow> node \<Rightarrow> node" where
  "append_child c n = with_children (nchildren n @ [c]) n"

text \<open>The child is an element of its own tree, given as tree and position. The library's insertions
  panic (\<open>None\<close>) when it is attached to a parent.\<close>

definition AppendChild :: "node \<Rightarrow> pos \<Rightarrow> (node \<times> pos) option \<Rightarrow> node option" where
  "AppendChild doc e child =
     (case (node_at doc e, child) of
        (Some _, Some (c, cp)) \<Rightarrow> if cp \<noteq> [] then None else Some (update_at (append_child c) doc e)
      | _ \<Rightarrow> Some doc)"

definition Remove :: "node \<Rightarrow> pos \<Rightarrow> node" where
  "Remove doc e =
     (if e \<noteq> [] \<and> node_at doc e \<noteq> None
      then update_at (\<lambda>n. with_children (take (last e) (nchildren n) @ drop (Suc (last e)) (nchildren n)) n) doc (butlast e)
      else doc)"

datatype dom_error =
  ErrNoParent | ErrNilChild | ErrNilElement | ErrParse string | ErrInvalidPosition string

definition InsertBefore :: "node \<Rightarrow> pos \<Rightarrow> (node \<times> pos) option \<Rightarrow> (dom_error + node) option" where
  "InsertBefore doc e child =
     (if node_at doc e = None \<or> e = [] then Some (Inl ErrNoParent)
      else case child of None \<Rightarrow> Some (Inl ErrNilChild)
           | Some (c, cp) \<Rightarrow> if cp \<noteq> [] then None
                            else Some (Inr (update_at (insert_child (last e) c) doc (butlast e))))"

definition has_next_sibling :: "node \<Rightarrow> pos \<Rightarrow> bool" where
  "has_next_sibling doc e = (case node_at doc (butlast e) of None \<Rightarrow> False | Some n \<Rightarrow> Suc (last e) < length (nchildren n))"

definition InsertAfter :: "node \<Rightarrow> pos \<Rightarrow> (node \<times> pos) option \<Rightarrow> (dom_error + node) option" where
  "InsertAfter doc e child =
     (if node_at doc e = None \<or> e = [] then Some (Inl ErrNoParent)
      else case child of None \<Rightarrow> Some (Inl ErrNilChild)
           | Some (c, cp) \<Rightarrow> if cp \<noteq> [] then None
               else if \<not> has_next_sibling doc e then Some (Inr (update_at (append_child c) doc (butlast e)))
               else Some (Inr (update_at (insert_child (Suc (last e)) c) doc (butlast e))))"

text \<open>\<open>parse\<close> is the library's fragment parser. The old children are gone even when it fails.\<close>

definition SetInnerHTML :: "(string \<Rightarrow> string + node list) \<Rightarrow> node \<Rightarrow> pos \<Rightarrow> string \<Rightarrow> dom_error option \<times> node" where
  "SetInnerHTML parse doc e html =
     (if node_at doc e = None then (Some ErrNilElement, doc)
      else let emptied = update_at (with_children []) doc e
           in case parse html of
                Inl err \<Rightarrow> (Some (ErrParse err), emptied)
              | Inr ns \<Rightarrow> (None, fold (\<lambda>c d. update_at (append_child c) d e) ns emptied))"

text \<open>One turn of the loop of \<^verbatim>\<open>InsertHTML\<close>: the document and the element's position in it afterwards.\<close>

definition insert_html_step :: "string \<Rightarrow> node \<Rightarrow> node \<Rightarrow> pos \<Rightarrow> dom_error + node \<times> pos" where
  "insert_html_step position child doc e =
     (if position = ''beforebegin'' then
        (if e = [] then Inl ErrNoParent
         else Inr (update_at (insert_child (last e) child) doc (butlast e), butlast e @ [Suc (last e)]))
      else if position = ''afterbegin'' then
        Inr (update_at (\<lambda>n. if nchildren n \<noteq> [] then insert_child 0 child n else append_child child n) doc e, e)
      else if position = ''beforeend'' then Inr (update_at (append_child child) doc e, e)
      else if position = ''afterend'' then
        (if e = [] then Inl ErrNoParent
         else if has_next_sibling doc e then Inr (update_at (insert_child (Suc (last e)) child) doc (butlast e), e)
         else Inr (update_at (append_child child) doc (butlast e), e))
      else Inl (ErrInvalidPosition position))"

fun insert_html_loop :: "string \<Rightarrow> node list \<Rightarrow> node \<Rightarrow> pos \<Rightarrow> dom_error option \<times> node" where
  "insert_html_loop position [] doc e = (None, doc)"
| "insert_html_loop position (c # cs) doc e =
     (case insert_html_step position c doc e of
        Inl err \<Rightarrow> (Some err, doc)
      | Inr (doc', e') \<Rightarrow> insert_html_loop position cs doc' e')"

definition InsertHTML :: "(string \<Rightarrow> string + node list) \<Rightarrow> node \<Rightarrow> pos \<Rightarrow> string \<Rightarrow> string \<Rightarrow> dom_error option \<times> node" where
  "InsertHTML parse doc e position html =
     (if node_at doc e = None then (Some ErrNilElement, doc)
      else case parse html of
             Inl err \<Rightarrow> (Some (ErrParse err), doc)
           | Inr ns \<Rightarrow> insert_html_loop (ToLower position) ns doc e)"

section \<open>Selectors\<close>

record selectorRule =
  sr_tag :: string
  sr_id :: string
  sr_classes :: "string list"

datatype sel_mode = ModeTag | ModeId | ModeClass

definition commit :: "sel_mode \<Rightarrow> string \<Rightarrow> selectorRule \<Rightarrow> selectorRule" where
  "commit mode val r =
     (if val = [] then r
      else case mode of ModeTag \<Rightarrow> r\<lparr>sr_tag := val\<rparr> | ModeId \<Rightarrow> r\<lparr>sr_id := val\<rparr>
           | ModeClass \<Rightarrow> r\<lparr>sr_classes := sr_classes r @ [val]\<rparr>)"

fun parse_selector_loop :: "string \<Rightarrow> sel_mode \<Rightarrow> string \<Rightarrow> selectorRule \<Rightarrow> selectorRule" where
  "parse_selector_loop [] mode current r = commit mode current r"
| "parse_selector_loop (c # s) mode current r =
     (if c = CHR ''#'' then parse_selector_loop s ModeId [] (commit mode current r)
      else if c = CHR ''.'' then parse_selector_loop s ModeClass [] (commit mode current r)
      else parse_selector_loop s mode (current @ [c]) r)"

definition parseSelector :: "string \<Rightarrow> selectorRule" where
  "parseSelector s = parse_selector_loop s ModeTag [] \<lparr>sr_tag = [], sr_id = [], sr_classes = []\<rparr>"

definition matches :: "selectorRule \<Rightarrow> node \<Rightarrow> bool" where
  "matches r n =
     (if ntype n \<noteq> ElementNode then False
      else if sr_tag r \<noteq> [] \<and> ndata n \<noteq> sr_tag r then False
      else if sr_id r \<noteq> [] \<and> getAttr n ''id'' \<noteq> sr_id r then False
      else if sr_classes r \<noteq> [] then list_all (\<lambda>c. c \<in> set (Fields (getAttr n ''class''))) (sr_classes r)
      else True)"

text \<open>The inner recursion of \<^verbatim>\<open>findDescendants\<close> below the root, collecting positions relative to it.\<close>

fun collect :: "selectorRule \<Rightarrow> pos \<Rightarrow> node \<Rightarrow> pos list" where
  "collect rule here (Node t d a cs) =
     (if here \<noteq> [] \<and> matches rule (Node t d a cs) then [here] else []) @
     concat (map (\<lambda>(i, f). f (here @ [i])) (enumerate 0 (map (\<lambda>c h. collect rule h c) cs)))"

definition findDescendants :: "node \<Rightarrow> selectorRule \<Rightarrow> pos \<Rightarrow> pos list" where
  "findDescendants doc rule root =
     (case node_at doc root of None \<Rightarrow> [] | Some n \<Rightarrow> map ((@) root) (collect rule [] n))"

fun add_unseen :: "pos list \<Rightarrow> pos list \<Rightarrow> pos list" where
  "add_unseen [] acc = acc"
| "add_unseen (p # ps) acc = add_unseen ps (if p \<in> set acc then acc else acc @ [p])"

fun query_loop :: "node \<Rightarrow> string list \<Rightarrow> pos list \<Rightarrow> pos list" where
  "query_loop doc [] roots = roots"
| "query_loop doc (part # parts) roots =
     (let rule = parseSelector part;
          nextRoots = fold (\<lambda>root acc. add_unseen (findDescendants doc rule root) acc) roots []
      in if nextRoots = [] then [] else query_loop doc parts nextRoots)"

definition QuerySelectorAll :: "node \<Rightarrow> pos \<Rightarrow> string \<Rightarrow> pos list" where
  "QuerySelectorAll doc e selector =
     (if node_at doc e = None then []
      else let parts = Fields selector in if parts = [] then [] else query_loop doc parts [e])"

definition QuerySelector :: "node \<Rightarrow> pos \<Rightarrow> string \<Rightarrow> pos option" where
  "QuerySelector doc e selector = (case QuerySelectorAll doc e selector of [] \<Rightarrow> None | p # _ \<Rightarrow> Some p)"

text \<open>\<^verbatim>\<open>traverse\<close> with a callback that stops at the first node it accepts.\<close>

fun traverse :: "(node \<Rightarrow> bool) \<Rightarrow> node \<Rightarrow> pos option" and
    traverse_list :: "(node \<Rightarrow> bool) \<Rightarrow> nat \<Rightarrow> node list \<Rightarrow> pos option" where
  "traverse cb (Node t d a cs) = (if cb (Node t d a cs) then Some [] else traverse_list cb 0 cs)"
| "traverse_list cb i [] = None"
| "traverse_list cb i (c # cs) =
     (case traverse cb c of Some p \<Rightarrow> Some (i # p) | None \<Rightarrow> traverse_list cb (Suc i) cs)"

definition GetElementById :: "node \<Rightarrow> pos \<Rightarrow> string \<Rightarrow> pos option" where
  "GetElementById doc e ident =
     (case node_at doc e of None \<Rightarrow> None
      | Some n \<Rightarrow> map_option ((@) e) (traverse (\<lambda>n. list_ex (\<lambda>(k, v). k = ''id'' \<and> v = ident) (nattr n)) n))"


section \<open>Soft 404 pages and status checks\<close>

text \<open>\<open>Tok\<close> lists what the library's tokenizer yields for the first 256 KiB of the body.\<close>

datatype html_token = StartTag string | TextToken string | OtherToken

record Soft404Rules =
  sf_Contains :: "string list"
  sf_Exact :: "string list"

fun title_text :: "html_token list \<Rightarrow> string" where
  "title_text (TextToken d # ts) = d @ title_text ts"
| "title_text _ = []"

definition title_soft404 :: "Soft404Rules \<Rightarrow> string \<Rightarrow> bool" where
  "title_soft404 rules rawTitle =
     (let titleLower = ToLower (TrimSpace rawTitle); word = (\<lambda>w. TrimSpace (ToLower w))
      in list_ex (\<lambda>w. word w \<noteq> [] \<and> titleLower = word w) (sf_Exact rules) \<or>
         list_ex (\<lambda>w. word w \<noteq> [] \<and> Contains titleLower (word w)) (sf_Contains rules))"

fun scan_soft404 :: "Soft404Rules \<Rightarrow> html_token list \<Rightarrow> bool" where
  "scan_soft404 rules [] = False"
| "scan_soft404 rules (StartTag d # ts) =
     (if d = ''title'' then title_soft404 rules (title_text ts)
      else if d = ''body'' then False else scan_soft404 rules ts)"
| "scan_soft404 rules (_ # ts) = scan_soft404 rules ts"

definition CheckSoft404 :: "(nat \<times> html_token list) option \<Rightarrow> Soft404Rules \<Rightarrow> bool" where
  "CheckSoft404 resp rules =
     (case resp of None \<Rightarrow> False | Some (status, toks) \<Rightarrow> status = 404 \<or> scan_soft404 rules toks)"

text \<open>A HEAD request, and a ranged GET when the server does not allow it.\<close>

definition CheckStatus :: "string + nat \<Rightarrow> string + nat \<Rightarrow> string + nat" where
  "CheckStatus headResp getResp =
     (case headResp of Inl e \<Rightarrow> Inl e
      | Inr status \<Rightarrow>
          if status \<noteq> 405 then Inr status
          else (case getResp of Inl e \<Rightarrow> Inl e | Inr s \<Rightarrow> Inr (if s = 206 then 200 else s)))"

section \<open>Keeping the first occurrences\<close>

fun uniq :: "'a set \<Rightarrow> 'a list \<Rightarrow> 'a list" where
  "uniq seen [] = []"
| "uniq seen (x # xs) = (if x \<in> seen then uniq seen xs else x # uniq (insert x seen) xs)"

lemma add_unseen_uniq: "add_unseen ps acc = acc @ uniq (set acc) ps"
  by (induction ps arbitrary: acc) auto

lemma fold_add_unseen:
  "fold (\<lambda>r acc. add_unseen (F r) acc) roots acc = add_unseen (concat (map F roots)) acc"
proof (induction roots arbitrary: acc)
  case (Cons r rs)
  have "add_unseen (xs @ ys) a = add_unseen ys (add_unseen xs a)" for xs ys a
    by (induction xs arbitrary: a) auto
  with Cons show ?case by simp
qed simp

lemma uniq_append: "uniq seen (xs @ ys) = uniq seen xs @ uniq (seen \<union> set xs) ys"
  by (induction xs arbitrary: seen) (auto simp: insert_absorb)

lemma uniq_subset: "set xs \<subseteq> seen \<Longrightarrow> uniq seen xs = []"
  by (induction xs) auto

lemma uniq_cong: "seen \<inter> set xs = seen' \<inter> set xs \<Longrightarrow> uniq seen xs = uniq seen' xs"
proof (induction xs arbitrary: seen seen')
  case (Cons x xs)
  have "x \<in> seen \<longleftrightarrow> x \<in> seen'" using Cons.prems by auto
  moreover have "uniq seen xs = uniq seen' xs" using Cons.prems by (intro Cons.IH) auto
  moreover have "uniq (insert x seen) xs = uniq (insert x seen') xs" using Cons.prems by (intro Cons.IH) auto
  ultimately show ?case by simp
qed simp

lemma uniq_distinct: "distinct xs \<Longrightarrow> seen \<inter> set xs = {} \<Longrightarrow> uniq seen xs = xs"
  by (induction xs arbitrary: seen) auto

lemma uniq_map_inj: "inj f \<Longrightarrow> uniq (f ` seen) (map f xs) = map f (uniq seen xs)"
proof (induction xs arbitrary: seen)
  case (Cons x xs)
  have "f x \<in> f ` seen \<longleftrightarrow> x \<in> seen" using Cons.prems by (auto dest: injD)
  moreover have "insert (f x) (f ` seen) = f ` insert x seen" by simp
  ultimately show ?case using Cons by (auto simp del: image_insert)
qed simp

section \<open>Children in order\<close>

fun kids :: "nat \<Rightarrow> (nat \<Rightarrow> 'c \<Rightarrow> pos list) \<Rightarrow> 'c list \<Rightarrow> pos list" where
  "kids k f [] = []"
| "kids k f (c # cs) = map ((#) k) (f k c) @ kids (Suc k) f cs"

lemma kids_enumerate: "concat (map (\<lambda>(i, ps). map ((#) i) ps) (enumerate k (map f cs))) = kids k (\<lambda>_. f) cs"
  by (induction cs arbitrary: k) auto

lemma positions_Node: "positions (Node t d a cs) = [] # kids 0 (\<lambda>_. positions) cs"
  by (simp add: kids_enumerate)

lemma kids_cong:
  "(\<And>j. j < length cs \<Longrightarrow> f (k + j) (cs ! j) = g (k + j) (cs ! j)) \<Longrightarrow> kids k f cs = kids k g cs"
proof (induction cs arbitrary: k)
  case (Cons c cs)
  have "f k c = g k c" using Cons.prems [of 0] by simp
  moreover have "kids (Suc k) f cs = kids (Suc k) g cs"
    using Cons.prems [of "Suc _"] by (intro Cons.IH) auto
  ultimately show ?case by simp
qed simp

lemma filter_kids:
  "(\<And>j p. j < length cs \<Longrightarrow> P ((k + j) # p) \<longleftrightarrow> Q (cs ! j) (k + j) p) \<Longrightarrow>
   filter P (kids k f cs) = kids k (\<lambda>i c. filter (Q c i) (f i c)) cs"
proof (induction cs arbitrary: k)
  case (Cons c cs)
  have "filter P (map ((#) k) (f k c)) = map ((#) k) (filter (Q c k) (f k c))"
    using Cons.prems [of 0] by (simp add: filter_map o_def)
  moreover have "filter P (kids (Suc k) f cs) = kids (Suc k) (\<lambda>i c. filter (Q c i) (f i c)) cs"
    using Cons.prems [of "Suc _"] by (intro Cons.IH) auto
  ultimately show ?case by simp
qed simp

lemma concat_map_kids:
  "(\<And>j q. j < length cs \<Longrightarrow> g ((k + j) # q) = map ((#) (k + j)) (h (cs ! j) (k + j) q)) \<Longrightarrow>
   concat (map g (kids k f cs)) = kids k (\<lambda>i c. concat (map (h c i) (f i c))) cs"
proof (induction cs arbitrary: k)
  case (Cons c cs)
  have "concat (map g (map ((#) k) (f k c))) = map ((#) k) (concat (map (h c k) (f k c)))"
    using Cons.prems [of 0] by (simp add: map_concat o_def)
  moreover have "concat (map g (kids (Suc k) f cs)) = kids (Suc k) (\<lambda>i c. concat (map (h c i) (f i c))) cs"
    using Cons.prems [of "Suc _"] by (intro Cons.IH) auto
  ultimately show ?case by simp
qed simp

lemma kids_head: "p \<in> set (kids k f cs) \<Longrightarrow> \<exists>i q. p = i # q \<and> k \<le> i \<and> i < k + length cs \<and> q \<in> set (f i (cs ! (i - k)))"
proof (induction cs arbitrary: k)
  case (Cons c cs)
  show ?case
  proof (cases "p \<in> set (kids (Suc k) f cs)")
    case True
    from Cons.IH [OF this] obtain i q where
      i: "p = i # q" "Suc k \<le> i" "i < Suc k + length cs" "q \<in> set (f i (cs ! (i - Suc k)))" by blast
    from i(2) obtain m where "i = Suc k + m" using le_Suc_ex by blast
    then have "(c # cs) ! (i - k) = cs ! (i - Suc k)" by simp
    with i show ?thesis by auto
  next
    case False
    with Cons.prems show ?thesis by auto
  qed
qed simp

lemma kids_member: "i < length cs \<Longrightarrow> p \<in> set (f (k + i) (cs ! i)) \<Longrightarrow> (k + i) # p \<in> set (kids k f cs)"
proof (induction cs arbitrary: k i)
  case (Cons c cs)
  from Cons.IH [of "i - 1" "Suc k"] Cons.prems show ?case by (cases i) auto
qed simp

lemma uniq_kids: "uniq {} (kids k f cs) = kids k (\<lambda>i c. uniq {} (f i c)) cs"
proof (induction cs arbitrary: k)
  case (Cons c cs)
  have "uniq {} (map ((#) k) (f k c)) = map ((#) k) (uniq {} (f k c))"
    using uniq_map_inj [of "(#) k" "{}" "f k c"] by (simp add: inj_def)
  moreover have "uniq (set (map ((#) k) (f k c))) (kids (Suc k) f cs) = uniq {} (kids (Suc k) f cs)"
    by (rule uniq_cong) (auto dest: kids_head)
  ultimately show ?case using Cons by (simp add: uniq_append)
qed simp

lemma map_kids: "map ((@) (here :: pos)) (kids k f cs) =
  concat (map (\<lambda>(i, g). g (here @ [i])) (enumerate k (map (\<lambda>c h. map ((@) h) (F c)) cs)))"
  if "\<And>i c. f i c = F c" for f :: "nat \<Rightarrow> 'c \<Rightarrow> pos list"
  by (induction cs arbitrary: k) (auto simp: that o_def)


section \<open>What a selector selects\<close>

text \<open>The reference: a position is selected by a list of rules, innermost first, when its node matches the
  first rule and a proper ancestor within the queried tree is selected by the others, the
  outermost ancestor being the queried node itself.\<close>

definition matches_at :: "node \<Rightarrow> selectorRule \<Rightarrow> pos \<Rightarrow> bool" where
  "matches_at n r p = (case node_at n p of None \<Rightarrow> False | Some m \<Rightarrow> matches r m)"

fun selects :: "node \<Rightarrow> selectorRule list \<Rightarrow> pos \<Rightarrow> bool" where
  "selects n [] p = (p = [])"
| "selects n (r # rs) p = (matches_at n r p \<and> list_ex (\<lambda>k. selects n rs (take k p)) [0..<length p])"

definition below :: "selectorRule \<Rightarrow> node \<Rightarrow> pos list" where
  "below rule n = filter (\<lambda>p. p \<noteq> [] \<and> matches_at n rule p) (positions n)"

lemma node_at_append: "node_at n p = Some m \<Longrightarrow> node_at n (p @ q) = node_at m q"
  by (induction n p rule: node_at.induct) (auto split: if_splits)

lemma positions_node_at: "p \<in> set (positions n) \<Longrightarrow> \<exists>m. node_at n p = Some m"
proof (induction p arbitrary: n)
  case (Cons i p)
  obtain t d a cs where n: "n = Node t d a cs" by (cases n)
  from Cons.prems kids_head [of "i # p" 0 "\<lambda>_. positions" cs]
  have "i < length cs \<and> p \<in> set (positions (cs ! i))" unfolding n positions_Node by auto
  with Cons.IH n show ?case by simp
qed simp

lemma matches_at_Cons: "i < length cs \<Longrightarrow> matches_at (Node t d a cs) r (i # p) = matches_at (cs ! i) r p"
  by (simp add: matches_at_def)

lemma collect_positions:
  "collect rule here n = map ((@) here) (filter (\<lambda>p. here @ p \<noteq> [] \<and> matches_at n rule p) (positions n))"
proof (induction n arbitrary: here)
  case (Node t d a cs)
  let ?n = "Node t d a cs"
  have "filter (\<lambda>p. here @ p \<noteq> [] \<and> matches_at ?n rule p) (kids 0 (\<lambda>_. positions) cs) =
        kids 0 (\<lambda>_ c. filter (\<lambda>p. matches_at c rule p) (positions c)) cs"
    by (rule filter_kids) (simp add: matches_at_def)
  moreover have "map ((@) here) (kids 0 (\<lambda>_ c. filter (\<lambda>p. matches_at c rule p) (positions c)) cs) =
      concat (map (\<lambda>(i, g). g (here @ [i]))
        (enumerate 0 (map (\<lambda>c h. map ((@) h) (filter (\<lambda>p. matches_at c rule p) (positions c))) cs)))"
    by (rule map_kids) simp
  moreover have "map (\<lambda>(i, g). g (here @ [i])) (enumerate k (map (\<lambda>c h. collect rule h c) cs')) =
      map (\<lambda>(i, g). g (here @ [i]))
        (enumerate k (map (\<lambda>c h. map ((@) h) (filter (\<lambda>p. matches_at c rule p) (positions c))) cs'))"
    if "set cs' \<subseteq> set cs" for cs' k
    using that Node.IH by (induction cs' arbitrary: k) auto
  moreover have "map ((@) here) (filter (\<lambda>p. here @ p \<noteq> [] \<and> matches_at ?n rule p) ([] # ps)) =
      (if here \<noteq> [] \<and> matches rule ?n then [here] else []) @
      map ((@) here) (filter (\<lambda>p. here @ p \<noteq> [] \<and> matches_at ?n rule p) ps)" for ps
    by (simp add: matches_at_def)
  ultimately show ?case unfolding positions_Node collect.simps by (simp only: order_refl)
qed

lemma findDescendants_below:
  "node_at doc root = Some n \<Longrightarrow> findDescendants doc rule root = map ((@) root) (below rule n)"
  by (simp add: findDescendants_def collect_positions below_def)

definition sub_below :: "selectorRule \<Rightarrow> node \<Rightarrow> pos \<Rightarrow> pos list" where
  "sub_below rule n q = (case node_at n q of None \<Rightarrow> [] | Some m \<Rightarrow> map ((@) q) (below rule m))"

lemma positions_extend:
  "q \<in> set (positions n) \<Longrightarrow> node_at n q = Some m \<Longrightarrow> p \<in> set (positions m) \<Longrightarrow> q @ p \<in> set (positions n)"
proof (induction q arbitrary: n)
  case (Cons i q)
  obtain t d a cs where n: "n = Node t d a cs" by (cases n)
  from Cons.prems(1) kids_head [of "i # q" 0 "\<lambda>_. positions" cs]
  have i: "i < length cs" "q \<in> set (positions (cs ! i))" unfolding n positions_Node by auto
  with Cons n have "q @ p \<in> set (positions (cs ! i))" by simp
  from kids_member [OF i(1), of _ "\<lambda>_. positions" 0] this show ?case unfolding n positions_Node by simp
qed simp

lemma sub_below_subset:
  assumes "q \<in> set (positions n)"
  shows "set (sub_below rule n q) \<subseteq> set (below rule n)"
proof -
  obtain m where m: "node_at n q = Some m" using positions_node_at [OF assms] by blast
  show ?thesis
    using positions_extend [OF assms m] node_at_append [OF m]
    by (auto simp: sub_below_def below_def matches_at_def m)
qed

lemma distinct_kids: "(\<And>i c. c \<in> set cs \<Longrightarrow> distinct (f i c)) \<Longrightarrow> distinct (kids k f cs)"
  by (induction cs arbitrary: k) (auto simp: distinct_map inj_on_def dest: kids_head)

lemma distinct_positions: "distinct (positions n)"
proof (induction n)
  case (Node t d a cs)
  have "distinct (kids 0 (\<lambda>_. positions) cs)" by (rule distinct_kids) (rule Node)
  then show ?case unfolding positions_Node by (auto dest: kids_head)
qed

lemma prefix_positions: "p \<in> set (positions n) \<Longrightarrow> take k p \<in> set (positions n)"
proof (induction p arbitrary: n k)
  case (Cons i p)
  obtain t d a cs where n: "n = Node t d a cs" by (cases n)
  from Cons.prems kids_head [of "i # p" 0 "\<lambda>_. positions" cs]
  have i: "i < length cs" "p \<in> set (positions (cs ! i))" unfolding n positions_Node by auto
  from kids_member [OF i(1), of "take (k - 1) p" "\<lambda>_. positions" 0] Cons.IH [OF i(2)]
  show ?case unfolding n positions_Node by (cases k) auto
qed simp

text \<open>One step of the query: the descendants of the selected nodes, each kept once, are the matching
  positions with a selected proper ancestor, in document order.\<close>

lemma query_step:
  "uniq {} (concat (map (sub_below rule n) (filter S (positions n)))) =
   filter (\<lambda>p. matches_at n rule p \<and> list_ex (\<lambda>k. S (take k p)) [0..<length p]) (positions n)"
proof (induction n arbitrary: S)
  case (Node t d a cs)
  let ?n = "Node t d a cs" let ?R = "\<lambda>n S p. matches_at n rule p \<and> list_ex (\<lambda>k. S (take k p)) [0..<length p]"
  show ?case
  proof (cases "S []")
    case True
    let ?rest = "concat (map (sub_below rule ?n) (filter S (kids 0 (\<lambda>_. positions) cs)))"
    have "set ?rest \<subseteq> set (below rule ?n)"
      using sub_below_subset [of _ ?n rule] unfolding positions_Node by fastforce
    moreover have "uniq {} (below rule ?n) = below rule ?n"
      by (rule uniq_distinct) (simp_all add: below_def distinct_positions del: positions.simps)
    ultimately have "uniq {} (below rule ?n @ ?rest) = below rule ?n"
      by (simp add: uniq_append uniq_subset)
    moreover have "concat (map (sub_below rule ?n) (filter S (positions ?n))) = below rule ?n @ ?rest"
      unfolding positions_Node using True by (simp add: sub_below_def map_idI)
    moreover have "filter (?R ?n S) (positions ?n) = below rule ?n" unfolding below_def
      by (rule filter_cong) (use True in \<open>force simp: list_ex_iff\<close>)+
    ultimately show ?thesis by simp
  next
    case False
    have "filter S (positions ?n) = kids 0 (\<lambda>i c. filter (\<lambda>p. S (i # p)) (positions c)) cs"
      unfolding positions_Node using False by (simp add: filter_kids [where Q = "\<lambda>c i p. S (i # p)"])
    moreover have "concat (map (sub_below rule ?n) (kids 0 (\<lambda>i c. filter (\<lambda>p. S (i # p)) (positions c)) cs)) =
        kids 0 (\<lambda>i c. concat (map (sub_below rule c) (filter (\<lambda>p. S (i # p)) (positions c)))) cs"
      by (rule concat_map_kids) (auto simp: sub_below_def split: option.splits)
    moreover have "kids 0 (\<lambda>i c. uniq {} (concat (map (sub_below rule c) (filter (\<lambda>p. S (i # p)) (positions c))))) cs =
        kids 0 (\<lambda>i c. filter (?R c (\<lambda>p. S (i # p))) (positions c)) cs"
      by (rule kids_cong) (simp add: Node.IH)
    moreover have "list_ex (\<lambda>k. S (take k (i # p))) [0..<length (i # p)] \<longleftrightarrow>
        list_ex (\<lambda>k. S (i # take k p)) [0..<length p]" for i p
    proof -
      have "(\<exists>k<Suc (length p). S (take k (i # p))) \<longleftrightarrow> (\<exists>k<length p. S (i # take k p))"
        using False by (auto simp: less_Suc_eq_0_disj)
      then show ?thesis by (simp add: list_ex_iff Bex_def del: upt_Suc)
    qed
    then have "filter (?R ?n S) (kids 0 (\<lambda>_. positions) cs) =
        kids 0 (\<lambda>i c. filter (?R c (\<lambda>p. S (i # p))) (positions c)) cs"
      by (intro filter_kids) (simp add: matches_at_def)
    moreover have "\<not> ?R ?n S []" by simp
    ultimately show ?thesis unfolding positions_Node by (simp add: uniq_kids)
  qed
qed


lemma find_in_subtree:
  assumes "node_at doc e = Some n" and "q \<in> set (positions n)"
  shows "findDescendants doc rule (e @ q) = map ((@) e) (sub_below rule n q)"
proof -
  obtain m where "node_at n q = Some m" using positions_node_at [OF assms(2)] by blast
  then show ?thesis using node_at_append [OF assms(1), of q] findDescendants_below [of doc "e @ q" m rule]
    by (simp add: sub_below_def)
qed

lemma query_loop_selects:
  assumes "node_at doc e = Some n"
  shows "query_loop doc parts (map ((@) e) (filter (selects n rs) (positions n))) =
         map ((@) e) (filter (selects n (rev (map parseSelector parts) @ rs)) (positions n))"
proof (induction parts arbitrary: rs)
  case (Cons part parts)
  let ?r = "parseSelector part" and ?cur = "filter (selects n rs) (positions n)"
  have "concat (map (findDescendants doc ?r) (map ((@) e) ?cur)) = concat (map (\<lambda>q. map ((@) e) (sub_below ?r n q)) ?cur)"
    unfolding map_map o_def by (rule arg_cong [of _ _ concat], rule map_cong) (auto intro: find_in_subtree [OF assms])
  also have "\<dots> = map ((@) e) (concat (map (sub_below ?r n) ?cur))" by (simp add: map_concat o_def)
  finally have "fold (\<lambda>root acc. add_unseen (findDescendants doc ?r root) acc) (map ((@) e) ?cur) [] =
      uniq {} (map ((@) e) (concat (map (sub_below ?r n) ?cur)))"
    unfolding fold_add_unseen by (simp add: add_unseen_uniq)
  also have "\<dots> = map ((@) e) (uniq {} (concat (map (sub_below ?r n) ?cur)))"
    using uniq_map_inj [of "(@) e" "{}"] by (simp add: inj_def)
  also have "\<dots> = map ((@) e) (filter (selects n (?r # rs)) (positions n))"
    unfolding query_step by (rule arg_cong [of _ _ "map ((@) e)"], rule filter_cong) simp_all
  finally have step: "fold (\<lambda>root acc. add_unseen (findDescendants doc ?r root) acc) (map ((@) e) ?cur) [] =
      map ((@) e) (filter (selects n (?r # rs)) (positions n))" .
  have "selects n (xs @ rs') p \<Longrightarrow> list_ex (selects n rs') (map (\<lambda>k. take k p) [0..<Suc (length p)])" for xs rs' p
  proof (induction xs arbitrary: p)
    case (Cons x xs)
    then obtain k where "k < length p" "selects n (xs @ rs') (take k p)" by (auto simp: list_ex_iff)
    with Cons.IH [of "take k p"] show ?case by (auto simp: list_ex_iff min_def split: if_splits)
  qed (auto simp: list_ex_iff)
  then have "filter (selects n (?r # rs)) (positions n) = [] \<Longrightarrow>
      filter (selects n (xs @ ?r # rs)) (positions n) = []" for xs
    using prefix_positions [of _ n] by (fastforce simp: filter_empty_conv list_ex_iff)
  with step Cons.IH [of "?r # rs"] show ?case by (auto simp: Let_def simp del: selects.simps)
qed simp


section \<open>Insertions\<close>

lemma update_at_cong: "node_at doc p = Some m \<Longrightarrow> f m = g m \<Longrightarrow> update_at f doc p = update_at g doc p"
  by (induction doc p rule: node_at.induct) (auto split: if_splits)

lemma node_at_update: "node_at doc p = Some m \<Longrightarrow> node_at (update_at f doc p) p = Some (f m)"
  by (induction doc p rule: node_at.induct) (auto split: if_splits)

lemma update_at_twice: "update_at f (update_at g doc p) p = update_at (\<lambda>n. f (g n)) doc p"
  by (induction "\<lambda>n. f (g n)" doc p rule: update_at.induct) auto

lemma with_children_simps [simp]:
  "nchildren (with_children cs n) = cs" "with_children cs (with_children ds n) = with_children cs n"
  "with_children (nchildren n) n = n"
  by (simp_all add: with_children_def)

lemma update_at_id: "update_at (\<lambda>n. n) doc p = doc"
  by (induction "\<lambda>n :: node. n" doc p rule: update_at.induct) auto

lemma insert_beforebegin:
  "node_at doc pp = Some m \<Longrightarrow> i \<le> length (nchildren m) \<Longrightarrow>
   insert_html_loop ''beforebegin'' ns doc (pp @ [i]) =
     (None, update_at (\<lambda>m. with_children (take i (nchildren m) @ ns @ drop i (nchildren m)) m) doc pp)"
proof (induction ns arbitrary: doc m i)
  case Nil
  then show ?case by (simp add: update_at_id)
next
  case (Cons c ns)
  let ?d = "update_at (insert_child i c) doc pp"
  have "insert_html_loop ''beforebegin'' ns ?d (pp @ [Suc i]) =
      (None, update_at (\<lambda>m. with_children (take (Suc i) (nchildren m) @ ns @ drop (Suc i) (nchildren m)) m) ?d pp)"
    using Cons.prems by (intro Cons.IH [OF node_at_update]) (auto simp: insert_child_def)
  then show ?case using Cons.prems
    by (auto simp: insert_html_step_def update_at_twice insert_child_def intro!: update_at_cong)
qed

lemma insert_afterend:
  "node_at doc pp = Some m \<Longrightarrow> i < length (nchildren m) \<Longrightarrow>
   insert_html_loop ''afterend'' ns doc (pp @ [i]) =
     (None, update_at (\<lambda>m. with_children (take (Suc i) (nchildren m) @ rev ns @ drop (Suc i) (nchildren m)) m) doc pp)"
proof (induction ns arbitrary: doc m)
  case Nil
  then show ?case by (simp add: update_at_id)
next
  case (Cons c ns)
  let ?d = "update_at (insert_child (Suc i) c) doc pp"
  have "insert_html_loop ''afterend'' ns ?d (pp @ [i]) =
      (None, update_at (\<lambda>m. with_children (take (Suc i) (nchildren m) @ rev ns @ drop (Suc i) (nchildren m)) m) ?d pp)"
    using Cons.prems by (intro Cons.IH [OF node_at_update]) (auto simp: insert_child_def)
  moreover have "update_at (append_child c) doc pp = ?d" if "\<not> Suc i < length (nchildren m)"
    using Cons.prems that by (intro update_at_cong) (auto simp: append_child_def insert_child_def)
  ultimately show ?case using Cons.prems
    by (auto simp: insert_html_step_def has_next_sibling_def update_at_twice insert_child_def intro!: update_at_cong)
qed

lemma insert_afterbegin:
  "insert_html_loop ''afterbegin'' ns doc e = (None, update_at (\<lambda>m. with_children (rev ns @ nchildren m) m) doc e)"
proof (induction ns arbitrary: doc)
  case (Cons c ns)
  have "(\<lambda>m. if nchildren m \<noteq> [] then insert_child 0 c m else append_child c m) =
        (\<lambda>m. with_children (c # nchildren m) m)"
    by (auto simp: insert_child_def append_child_def)
  with Cons show ?case by (simp add: insert_html_step_def update_at_twice)
qed (simp add: update_at_id)

lemma insert_beforeend:
  "insert_html_loop ''beforeend'' ns doc e = (None, update_at (\<lambda>m. with_children (nchildren m @ ns) m) doc e)"
  by (induction ns arbitrary: doc) (simp_all add: update_at_id insert_html_step_def update_at_twice append_child_def)

section \<open>Properties\<close>

text \<open>C21: A selector query returns, each once and in document order, exactly the elements below the
  queried one that match the last compound selector and have, in this order, proper
  ancestors within the queried subtree that match the others; so the optimised traversal
  (search from each hit, with a set of nodes seen) equals a filter of the document.\<close>
theorem query_selects:
  "QuerySelectorAll doc e selector =
     (case node_at doc e of None \<Rightarrow> []
      | Some n \<Rightarrow> if Fields selector = [] then []
          else map ((@) e) (filter (selects n (rev (map parseSelector (Fields selector)))) (positions n)))"
proof (cases "node_at doc e")
  case (Some n)
  obtain t d a cs where n: "n = Node t d a cs" by (cases n)
  have "filter (selects n []) (positions n) = [[]]"
    unfolding n positions_Node by (auto simp: filter_empty_conv dest: kids_head)
  with query_loop_selects [OF Some, of "Fields selector" "[]"] Some show ?thesis
    by (simp add: QuerySelectorAll_def Let_def)
qed (simp add: QuerySelectorAll_def)

text \<open>Inserting parsed markup keeps the order of its nodes before an element and at the end of its
  children, but reverses it after an element and at the beginning of its children: the loop
  inserts each node at the same place, in front of the ones before it.\<close>
theorem insert_html_order:
  assumes "node_at doc (pp @ [i]) = Some n" and "parse html = Inr ns"
  shows "InsertHTML parse doc (pp @ [i]) ''beforebegin'' html =
           (None, update_at (\<lambda>m. with_children (take i (nchildren m) @ ns @ drop i (nchildren m)) m) doc pp) \<and>
         InsertHTML parse doc (pp @ [i]) ''beforeend'' html =
           (None, update_at (\<lambda>m. with_children (nchildren m @ ns) m) doc (pp @ [i])) \<and>
         InsertHTML parse doc (pp @ [i]) ''afterbegin'' html =
           (None, update_at (\<lambda>m. with_children (rev ns @ nchildren m) m) doc (pp @ [i])) \<and>
         InsertHTML parse doc (pp @ [i]) ''afterend'' html =
           (None, update_at (\<lambda>m. with_children (take (Suc i) (nchildren m) @ rev ns @ drop (Suc i) (nchildren m)) m) doc pp)"
proof -
  have "\<exists>m. node_at doc pp = Some m \<and> i < length (nchildren m)"
    using assms(1)
  proof (induction pp arbitrary: doc)
    case Nil
    then show ?case by (cases doc) (auto split: if_splits)
  next
    case (Cons j pp)
    then show ?case by (cases doc) (auto split: if_splits)
  qed
  then obtain m where m: "node_at doc pp = Some m" "i < length (nchildren m)" by blast
  have low: "ToLower ''beforebegin'' = ''beforebegin''" "ToLower ''beforeend'' = ''beforeend''"
    "ToLower ''afterbegin'' = ''afterbegin''" "ToLower ''afterend'' = ''afterend''"
    by code_simp+
  show ?thesis
    using assms m insert_beforebegin [OF m(1) less_imp_le [OF m(2)]] insert_afterend [OF m]
    by (simp add: InsertHTML_def low insert_afterbegin insert_beforeend)
qed

theorem insert_html_order_witness:
  "let t = (\<lambda>s. Node TextNode s [] []); el = (\<lambda>cs. Node ElementNode ''p'' [] cs)
   in InsertHTML (\<lambda>_. Inr [t ''1'', t ''2'']) (el [el [t ''x'']]) [0] ''afterbegin'' ''12'' =
        (None, el [el [t ''2'', t ''1'', t ''x'']])"
proof -
  have "node_at (Node ElementNode ''p'' [] [Node ElementNode ''p'' [] [Node TextNode ''x'' [] []]]) ([] @ [0]) =
      Some (Node ElementNode ''p'' [] [Node TextNode ''x'' [] []])" by simp
  from insert_html_order [OF this, of "\<lambda>_. Inr [Node TextNode ''1'' [] [], Node TextNode ''2'' [] []]" "''12''"]
  show ?thesis by (simp add: Let_def with_children_def)
qed

end
