(* ===== verification/Streams.thy ===== *)
theory Streams imports Http Gzip begin

text \<open>
  Streaming responses (\<^verbatim>\<open>stream.go\<close>) over any response writer, given by its operations
  (\<open>writer_ops\<close>): opening a stream, JSON arrays written item by item, newline-delimited JSON and
  server-sent events. The laws a writer must keep for the stream's bytes to arrive are the
  locale \<open>stream_sink\<close>, interpreted on the server's writer and on the compressing one once a
  stream has switched compression off. The JSON encoder is a parameter. \<open>closed\<close> is what
  \<^verbatim>\<open>IsClosed\<close> answers at the call: whether the request's context is done.
\<close>

section \<open>Writers and streams\<close>

record 's writer_ops =
  op_header :: "'s \<Rightarrow> header"
  op_put :: "header \<Rightarrow> 's \<Rightarrow> 's"
  op_status :: "nat \<Rightarrow> 's \<Rightarrow> 's"
  op_write :: "string \<Rightarrow> 's \<Rightarrow> 's \<times> string option"
  op_flusher :: "('s \<Rightarrow> 's) option"
  op_disabler :: "('s \<Rightarrow> 's) option"

record 's stream =
  st_writer :: 's
  arrayStarted :: bool
  arrayFirstWritten :: bool

datatype stream_error = ErrContext | ErrWrite string | ErrMarshal string | ErrNoFlusher

definition op_set :: "'s writer_ops \<Rightarrow> string \<Rightarrow> string \<Rightarrow> 's \<Rightarrow> 's" where
  "op_set ops k v w = op_put ops (hset k v (op_header ops w)) w"

definition op_flush :: "'s writer_ops \<Rightarrow> 's \<Rightarrow> 's" where
  "op_flush ops w = (case op_flusher ops of None \<Rightarrow> w | Some f \<Rightarrow> f w)"

definition NewStreamWithStatus :: "'s writer_ops \<Rightarrow> string \<Rightarrow> nat \<Rightarrow> 's \<Rightarrow> stream_error + 's stream" where
  "NewStreamWithStatus ops contentType statusCode w0 =
     (let w1 = (if contentType \<noteq> [] then op_set ops ''Content-Type'' contentType w0 else w0);
          w2 = op_set ops ''X-Accel-Buffering'' ''no'' (op_set ops ''X-Content-Type-Options'' ''nosniff''
                 (op_set ops ''Connection'' ''keep-alive'' (op_set ops ''Cache-Control'' ''no-cache, no-transform'' w1)));
          w3 = op_status ops statusCode w2;
          w4 = (case op_disabler ops of None \<Rightarrow> w3 | Some dg \<Rightarrow> dg w3)
      in case op_flusher ops of None \<Rightarrow> Inl ErrNoFlusher
         | Some f \<Rightarrow> Inr \<lparr>st_writer = f w4, arrayStarted = False, arrayFirstWritten = False\<rparr>)"

definition NewStream :: "'s writer_ops \<Rightarrow> string \<Rightarrow> 's \<Rightarrow> stream_error + 's stream" where
  "NewStream ops contentType w = NewStreamWithStatus ops contentType 200 w"

text \<open>The end of every operation: the bytes in one write, then a flush when it succeeded.\<close>

definition put_bytes :: "'s writer_ops \<Rightarrow> string \<Rightarrow> 's stream \<Rightarrow> 's stream \<times> stream_error option" where
  "put_bytes ops p s =
     (case op_write ops p (st_writer s) of
        (w, None) \<Rightarrow> (s\<lparr>st_writer := op_flush ops w\<rparr>, None)
      | (w, Some e) \<Rightarrow> (s\<lparr>st_writer := w\<rparr>, Some (ErrWrite e)))"

definition stream_Write :: "'s writer_ops \<Rightarrow> bool \<Rightarrow> string \<Rightarrow> 's stream \<Rightarrow> 's stream \<times> stream_error option" where
  "stream_Write ops closed p s = (if closed then (s, Some ErrContext) else put_bytes ops p s)"

definition WriteJSON ::
  "'s writer_ops \<Rightarrow> ('v \<Rightarrow> string + string) \<Rightarrow> bool \<Rightarrow> 'v \<Rightarrow> 's stream \<Rightarrow> 's stream \<times> stream_error option" where
  "WriteJSON ops encode closed v s =
     (if closed then (s, Some ErrContext)
      else case encode v of Inl e \<Rightarrow> (s, Some (ErrMarshal e)) | Inr j \<Rightarrow> put_bytes ops j s)"

definition WriteNDJSON ::
  "'s writer_ops \<Rightarrow> ('v \<Rightarrow> string + string) \<Rightarrow> bool \<Rightarrow> 'v \<Rightarrow> 's stream \<Rightarrow> 's stream \<times> stream_error option" where
  "WriteNDJSON ops marshal closed v s =
     (if closed then (s, Some ErrContext)
      else case marshal v of Inl e \<Rightarrow> (s, Some (ErrMarshal e)) | Inr j \<Rightarrow> put_bytes ops (j @ [CHR 0x0A]) s)"

definition StartJSONArray :: "'s writer_ops \<Rightarrow> bool \<Rightarrow> 's stream \<Rightarrow> 's stream \<times> stream_error option" where
  "StartJSONArray ops closed s =
     (case stream_Write ops closed ''['' s of
        (s', Some e) \<Rightarrow> (s', Some e)
      | (s', None) \<Rightarrow> (s'\<lparr>arrayStarted := True, arrayFirstWritten := False\<rparr>, None))"

definition WriteJSONArrayItem ::
  "'s writer_ops \<Rightarrow> ('v \<Rightarrow> string + string) \<Rightarrow> bool \<Rightarrow> 'v \<Rightarrow> 's stream \<Rightarrow> 's stream \<times> stream_error option" where
  "WriteJSONArrayItem ops marshal closed v s =
     (if closed then (s, Some ErrContext)
      else case marshal v of
        Inl e \<Rightarrow> (s, Some (ErrMarshal e))
      | Inr j \<Rightarrow>
          (let (lead, s') =
             (if \<not> arrayStarted s then (''['', s\<lparr>arrayStarted := True, arrayFirstWritten := True\<rparr>)
              else if \<not> arrayFirstWritten s then ([], s\<lparr>arrayFirstWritten := True\<rparr>)
              else ('','', s))
           in put_bytes ops (lead @ j) s'))"

definition EndJSONArray :: "'s writer_ops \<Rightarrow> bool \<Rightarrow> 's stream \<Rightarrow> 's stream \<times> stream_error option" where
  "EndJSONArray ops closed s =
     (if \<not> arrayStarted s then stream_Write ops closed ''[]'' s
      else case stream_Write ops closed '']'' s of
        (s', e) \<Rightarrow> (s'\<lparr>arrayStarted := False, arrayFirstWritten := False\<rparr>, e))"

section \<open>Server-sent events\<close>

datatype 'v sse_data = NoData | SText string | SValue 'v

record 'v SSEEvent =
  sse_ID :: string
  sse_Event :: string
  sse_Data :: "'v sse_data"
  sse_Retry :: int

definition sse_data_lines :: "('v \<Rightarrow> string + string) \<Rightarrow> 'v sse_data \<Rightarrow> stream_error + string list" where
  "sse_data_lines marshal d =
     (case d of NoData \<Rightarrow> Inr []
      | SText t \<Rightarrow> Inr (map (\<lambda>line. ''data: '' @ line) (Split (CHR 0x0A) t))
      | SValue v \<Rightarrow> (case marshal v of Inl e \<Rightarrow> Inl (ErrMarshal e) | Inr j \<Rightarrow> Inr [''data: '' @ j]))"

definition sse_lines :: "('v \<Rightarrow> string + string) \<Rightarrow> 'v SSEEvent \<Rightarrow> stream_error + string list" where
  "sse_lines marshal e =
     (case sse_data_lines marshal (sse_Data e) of
        Inl err \<Rightarrow> Inl err
      | Inr ds \<Rightarrow> Inr ((if sse_ID e \<noteq> [] then [''id: '' @ sse_ID e] else []) @
                     (if sse_Event e \<noteq> [] then [''event: '' @ sse_Event e] else []) @
                     (if sse_Retry e > 0 then [''retry: '' @ Itoa (sse_Retry e)] else []) @ ds @ [[]]))"

definition terminate_lines :: "string list \<Rightarrow> string" where
  "terminate_lines ls = concat (map (\<lambda>l. l @ [CHR 0x0A]) ls)"

definition WriteSSEEvent ::
  "'s writer_ops \<Rightarrow> ('v \<Rightarrow> string + string) \<Rightarrow> bool \<Rightarrow> 'v SSEEvent \<Rightarrow> 's stream \<Rightarrow> 's stream \<times> stream_error option" where
  "WriteSSEEvent ops marshal closed e s =
     (if closed then (s, Some ErrContext)
      else case sse_lines marshal e of
        Inl err \<Rightarrow> (s, Some err)
      | Inr ls \<Rightarrow> put_bytes ops (terminate_lines ls) s)"

text \<open>What a client makes of the bytes, after the specification of event streams: lines end at a line
  feed, a carriage return or both; a blank line dispatches the data lines collected; the last
  id is kept from event to event.\<close>

fun lines_of :: "string \<Rightarrow> string \<Rightarrow> string list" where
  "lines_of cur [] = []"
| "lines_of cur (c # s) =
     (if c = CHR 0x0A then cur # lines_of [] s
      else if c = CHR 0x0D then
        cur # (case s of [] \<Rightarrow> [] | d # s' \<Rightarrow> if d = CHR 0x0A then lines_of [] s' else lines_of [] s)
      else lines_of (cur @ [c]) s)"

definition field_of :: "string \<Rightarrow> string \<times> string" where
  "field_of l =
     (let f = takeWhile (\<lambda>c. c \<noteq> CHR '':'') l; rest = drop (Suc (length f)) l
      in (f, if HasPrefix rest '' '' then tl rest else rest))"

record sse_client =
  last_id :: string
  ev_type :: string
  ev_data :: "string list"

fun sse_read :: "string list \<Rightarrow> sse_client \<Rightarrow> (string \<times> string \<times> string) list" where
  "sse_read [] st = []"
| "sse_read (l # ls) st =
     (if l = [] then
        (if ev_data st = [] then [] else [(last_id st, if ev_type st = [] then ''message'' else ev_type st, Join (ev_data st) [CHR 0x0A])]) @
        sse_read ls (st\<lparr>ev_type := [], ev_data := []\<rparr>)
      else let (f, v) = field_of l
           in sse_read ls (if f = ''id'' then st\<lparr>last_id := v\<rparr>
                           else if f = ''event'' then st\<lparr>ev_type := v\<rparr>
                           else if f = ''data'' then st\<lparr>ev_data := ev_data st @ [v]\<rparr> else st))"

definition sse_parse :: "string \<Rightarrow> (string \<times> string \<times> string) list" where
  "sse_parse bytes = sse_read (lines_of [] bytes) \<lparr>last_id = [], ev_type = [], ev_data = []\<rparr>"


section \<open>What arrives through a lawful writer\<close>

fun write_items ::
  "'s writer_ops \<Rightarrow> ('v \<Rightarrow> string + string) \<Rightarrow> (bool \<times> 'v) list \<Rightarrow> 's stream \<Rightarrow> 's stream" where
  "write_items ops marshal [] s = s"
| "write_items ops marshal ((cl, v) # xs) s = write_items ops marshal xs (fst (WriteJSONArrayItem ops marshal cl v s))"

fun write_events ::
  "'s writer_ops \<Rightarrow> ('v \<Rightarrow> string + string) \<Rightarrow> (bool \<times> 'v SSEEvent) list \<Rightarrow> 's stream \<Rightarrow> 's stream" where
  "write_events ops marshal [] s = s"
| "write_events ops marshal ((cl, e) # es) s = write_events ops marshal es (fst (WriteSSEEvent ops marshal cl e s))"

text \<open>The items and events that a stream accepts: not after the context is done, and encodable.\<close>

definition accepted_items :: "('v \<Rightarrow> string + string) \<Rightarrow> (bool \<times> 'v) list \<Rightarrow> string list" where
  "accepted_items marshal xs = concat (map (\<lambda>(cl, v). if cl then [] else case marshal v of Inl _ \<Rightarrow> [] | Inr j \<Rightarrow> [j]) xs)"

definition accepted_lines :: "('v \<Rightarrow> string + string) \<Rightarrow> (bool \<times> 'v SSEEvent) list \<Rightarrow> string list" where
  "accepted_lines marshal es =
     concat (map (\<lambda>(cl, e). if cl then [] else case sse_lines marshal e of Inl _ \<Rightarrow> [] | Inr ls \<Rightarrow> ls) es)"

lemma Join_comma: "Join (j # js) sep = j @ concat (map ((@) sep) js)"
  by (induction js arbitrary: j) auto

locale stream_sink =
  fixes ops :: "'s writer_ops" and ok :: "'s \<Rightarrow> bool" and out :: "'s \<Rightarrow> string"
  assumes written: "ok w \<Longrightarrow> snd (op_write ops d w) = None \<and> ok (fst (op_write ops d w)) \<and> out (fst (op_write ops d w)) = out w @ d"
    and flushed: "ok w \<Longrightarrow> ok (op_flush ops w) \<and> out (op_flush ops w) = out w"
begin

definition good :: "'s stream \<Rightarrow> bool" where "good s = ok (st_writer s)"

definition sent :: "'s stream \<Rightarrow> string" where "sent s = out (st_writer s)"

lemma put_bytes_sent:
  assumes "good s"
  shows "snd (put_bytes ops p s) = None" "good (fst (put_bytes ops p s))" "sent (fst (put_bytes ops p s)) = sent s @ p"
    "arrayStarted (fst (put_bytes ops p s)) = arrayStarted s" "arrayFirstWritten (fst (put_bytes ops p s)) = arrayFirstWritten s"
  using assms written [of "st_writer s" p] flushed [of "fst (op_write ops p (st_writer s))"]
  by (auto simp: put_bytes_def good_def sent_def split: prod.splits option.splits)

lemma write_item_sent:
  fixes marshal :: "'v \<Rightarrow> string + string" and cl :: bool and v :: 'v
  assumes "good s"
  defines "t \<equiv> fst (WriteJSONArrayItem ops marshal cl v s)"
  shows "good t"
    and "sent t = sent s @ (if cl then [] else case marshal v of Inl _ \<Rightarrow> [] | Inr j \<Rightarrow>
      (if \<not> arrayStarted s then ''['' else if \<not> arrayFirstWritten s then [] else '','') @ j)"
    and "arrayStarted t = (arrayStarted s \<or> accepted_items marshal [(cl, v)] \<noteq> [])"
    and "arrayFirstWritten t = (arrayFirstWritten s \<or> accepted_items marshal [(cl, v)] \<noteq> [])"
proof -
  have g: "good (s\<lparr>arrayStarted := a, arrayFirstWritten := b\<rparr>)" "good (s\<lparr>arrayFirstWritten := b\<rparr>)" for a b
    using assms by (simp_all add: good_def)
  have e: "sent (s\<lparr>arrayStarted := a, arrayFirstWritten := b\<rparr>) = sent s" "sent (s\<lparr>arrayFirstWritten := b\<rparr>) = sent s" for a b
    by (simp_all add: sent_def)
  note p = put_bytes_sent [OF assms(1)] put_bytes_sent [OF g(1)] put_bytes_sent [OF g(2)]
  show "good t" "sent t = sent s @ (if cl then [] else case marshal v of Inl _ \<Rightarrow> [] | Inr j \<Rightarrow>
      (if \<not> arrayStarted s then ''['' else if \<not> arrayFirstWritten s then [] else '','') @ j)"
    "arrayStarted t = (arrayStarted s \<or> accepted_items marshal [(cl, v)] \<noteq> [])"
    "arrayFirstWritten t = (arrayFirstWritten s \<or> accepted_items marshal [(cl, v)] \<noteq> [])"
    using assms(1) unfolding t_def by (auto simp: WriteJSONArrayItem_def accepted_items_def p e split: sum.splits)
qed

lemma items_after_first:
  assumes "good s" "arrayStarted s" "arrayFirstWritten s"
  shows "good (write_items ops marshal xs s)" "arrayStarted (write_items ops marshal xs s)"
    "sent (write_items ops marshal xs s) = sent s @ concat (map ((@) '','') (accepted_items marshal xs))"
proof -
  have "good (write_items ops marshal xs s) \<and> arrayStarted (write_items ops marshal xs s) \<and>
    sent (write_items ops marshal xs s) = sent s @ concat (map ((@) '','') (accepted_items marshal xs))"
    using assms
  proof (induction xs arbitrary: s)
    case (Cons x xs)
    obtain cl v where x: "x = (cl, v)" by (cases x)
    note t = write_item_sent [OF Cons.prems(1), of marshal cl v]
    from Cons.IH [OF t(1)] t(2-4) Cons.prems x show ?case
      by (auto simp: accepted_items_def split: sum.splits)
  qed (simp add: accepted_items_def)
  then show "good (write_items ops marshal xs s)" "arrayStarted (write_items ops marshal xs s)"
    "sent (write_items ops marshal xs s) = sent s @ concat (map ((@) '','') (accepted_items marshal xs))" by auto
qed

lemma items_sent:
  fixes marshal :: "'v \<Rightarrow> string + string" and xs :: "(bool \<times> 'v) list"
  assumes "good s" "\<not> arrayFirstWritten s"
  defines "js \<equiv> accepted_items marshal xs" and "t \<equiv> write_items ops marshal xs s"
  shows "good t \<and> arrayStarted t = (arrayStarted s \<or> js \<noteq> []) \<and>
    sent t = sent s @ (if \<not> arrayStarted s \<and> js \<noteq> [] then ''['' else []) @ Join js '',''"
  using assms(1,2) unfolding js_def t_def
proof (induction xs arbitrary: s)
  case (Cons x xs)
  obtain cl v where x: "x = (cl, v)" by (cases x)
  note t = write_item_sent [OF Cons.prems(1), of marshal cl v]
  have split: "accepted_items marshal (x # xs) = accepted_items marshal [(cl, v)] @ accepted_items marshal xs"
    by (simp add: accepted_items_def x)
  show ?case
  proof (cases "accepted_items marshal [(cl, v)]")
    case Nil
    then have "sent (fst (WriteJSONArrayItem ops marshal cl v s)) = sent s"
      using t(2) by (auto simp: accepted_items_def split: if_splits sum.splits)
    with Cons.IH [OF t(1)] t(3,4) Cons.prems Nil show ?thesis unfolding split by (simp add: x)
  next
    case (Cons j js)
    then have j: "js = []" "sent (fst (WriteJSONArrayItem ops marshal cl v s)) = sent s @ (if arrayStarted s then [] else ''['') @ j"
      using t(2) Cons.prems(2) by (auto simp: accepted_items_def split: if_splits sum.splits)
    with items_after_first [OF t(1), of marshal xs] t(3,4) Cons show ?thesis unfolding split
      by (simp add: x Join_comma)
  qed
qed (simp add: accepted_items_def)

lemma array_sent:
  assumes "good s" "\<not> arrayStarted s" "\<not> arrayFirstWritten s"
  shows "sent (fst (EndJSONArray ops False (write_items ops marshal xs s))) =
           sent s @ ''['' @ Join (accepted_items marshal xs) '','' @ '']''"
    and "sent (fst (EndJSONArray ops False (write_items ops marshal xs (fst (StartJSONArray ops False s))))) =
           sent s @ ''['' @ Join (accepted_items marshal xs) '','' @ '']''"
proof -
  let ?t = "write_items ops marshal xs s"
  note t = items_sent [OF assms(1,3), of marshal xs]
  have e: "sent (fst (EndJSONArray ops False u)) = sent u @ (if arrayStarted u then '']'' else ''[]'')" if "good u" for u
    using put_bytes_sent(3) [OF that, of "'']''"] put_bytes_sent(3) [OF that, of "''[]''"]
    by (auto simp: EndJSONArray_def stream_Write_def sent_def split: prod.splits)
  show "sent (fst (EndJSONArray ops False ?t)) = sent s @ ''['' @ Join (accepted_items marshal xs) '','' @ '']''"
    using t assms(2) e [of ?t] by (cases "accepted_items marshal xs") auto
  let ?s = "fst (StartJSONArray ops False s)"
  have "good ?s \<and> arrayStarted ?s \<and> \<not> arrayFirstWritten ?s \<and> sent ?s = sent s @ ''[''"
    using put_bytes_sent [OF assms(1), of "''[''"]
    by (auto simp: StartJSONArray_def stream_Write_def sent_def good_def split: prod.splits option.splits)
  then show "sent (fst (EndJSONArray ops False (write_items ops marshal xs ?s))) =
      sent s @ ''['' @ Join (accepted_items marshal xs) '','' @ '']''"
    using items_sent [of ?s marshal xs] e [of "write_items ops marshal xs ?s"] by auto
qed

lemma events_sent:
  "good s \<Longrightarrow> good (write_events ops marshal es s) \<and>
   sent (write_events ops marshal es s) = sent s @ terminate_lines (accepted_lines marshal es)"
proof (induction es arbitrary: s)
  case (Cons x es)
  obtain cl e where x: "x = (cl, e)" by (cases x)
  let ?t = "fst (WriteSSEEvent ops marshal cl e s)"
  have "good ?t \<and> sent ?t = sent s @ terminate_lines (accepted_lines marshal [(cl, e)])"
    using put_bytes_sent [OF Cons.prems] Cons.prems
    by (auto simp: WriteSSEEvent_def accepted_lines_def terminate_lines_def split: sum.splits)
  moreover have "accepted_lines marshal (x # es) = accepted_lines marshal [(cl, e)] @ accepted_lines marshal es"
    by (simp add: accepted_lines_def x)
  ultimately show ?case using Cons.IH [of ?t] by (simp add: x terminate_lines_def)
qed (simp add: accepted_lines_def terminate_lines_def)

end

section \<open>The writers of the server\<close>

definition counted_ops :: "rw writer_ops" where
  "counted_ops = \<lparr>op_header = w_header, op_put = sw_put base_put, op_status = w_status,
     op_write = (\<lambda>d w. (w_write d w, None)), op_flusher = Some (sw_Flush base_WriteHeader base_Flush), op_disabler = None\<rparr>"

definition gzip_ops :: "(string \<Rightarrow> string) \<Rightarrow> gzipWriter writer_ops" where
  "gzip_ops detect = \<lparr>op_header = (\<lambda>w. bheader (gz_inner w)), op_put = gz_put, op_status = gz_WriteHeader,
     op_write = (\<lambda>d w. (gz_Write detect d w, None)), op_flusher = Some (gz_Flush detect), op_disabler = Some gz_DisableGzip\<rparr>"

interpretation counted_stream: stream_sink counted_ops "\<lambda>_. True" "\<lambda>w. bbody (sw_inner w)"
  by unfold_locales
    (auto simp: counted_ops_def op_flush_def w_write_def sw_Write_def sw_Flush_def sw_WriteHeader_def base_Write_def
      base_Flush_def base_WriteHeader_def Let_def)

interpretation gzip_stream: stream_sink "gzip_ops detect" "\<lambda>w. gz_skip w \<and> \<not> gz_active w \<and> gz_sniff w = [] \<and> gz_zipped w = []" delivered
  for detect
  by unfold_locales
    (auto simp: gzip_ops_def op_flush_def gz_Write_def gz_Flush_def gz_inner_write_def delivered_def base_Write_def
      base_Flush_def base_WriteHeader_def Let_def)


definition untouched :: "gzipWriter \<Rightarrow> bool" where
  "untouched w \<longleftrightarrow> (\<exists>b. w = newGzip b \<and> bcommit b = None \<and> bbody b = [])"

lemma untouched_new: "untouched (newGzip base_new)"
  by (auto simp: untouched_def base_new_def)

lemma untouched_set: "untouched w \<Longrightarrow> untouched (op_set (gzip_ops detect) k v w)"
proof -
  have "op_set (gzip_ops detect) k v (newGzip b) = newGzip (base_put (hset k v (bheader b)) b)" for b
    by (simp add: op_set_def gzip_ops_def gz_put_def newGzip_def)
  then show "untouched w \<Longrightarrow> untouched (op_set (gzip_ops detect) k v w)"
    by (auto simp: untouched_def)
qed

lemma gzip_opened:
  fixes detect :: "string \<Rightarrow> string"
  assumes "bcommit b = None" "bbody b = []" "200 \<le> code"
  defines "w \<equiv> gz_Flush detect (gz_DisableGzip (gz_WriteHeader code (newGzip b)))"
  shows "gz_skip w \<and> \<not> gz_active w \<and> gz_sniff w = [] \<and> gz_zipped w = [] \<and> delivered w = [] \<and>
    map_option fst (bcommit (gz_inner w)) = Some code"
  using assms
  by (simp add: gz_WriteHeader_def newGzip_def gz_DisableGzip_def gz_sendHeader_def gz_Flush_def base_WriteHeader_def
      base_Flush_def informational_def delivered_def Let_def)

lemma stream_opened:
  assumes "NewStreamWithStatus (gzip_ops detect) contentType code (newGzip base_new) = Inr s" and "200 \<le> code"
  shows "gzip_stream.good s" "gzip_stream.sent s = []" "\<not> arrayStarted s" "\<not> arrayFirstWritten s"
    "map_option fst (bcommit (gz_inner (st_writer s))) = Some code"
proof -
  have ops: "op_flusher (gzip_ops detect) = Some (gz_Flush detect)" "op_disabler (gzip_ops detect) = Some gz_DisableGzip"
    "op_status (gzip_ops detect) = gz_WriteHeader" by (simp_all add: gzip_ops_def)
  have u: "untouched (op_set (gzip_ops detect) ''X-Accel-Buffering'' ''no'' (op_set (gzip_ops detect) ''X-Content-Type-Options'' ''nosniff''
      (op_set (gzip_ops detect) ''Connection'' ''keep-alive'' (op_set (gzip_ops detect) ''Cache-Control'' ''no-cache, no-transform''
         (if contentType \<noteq> [] then op_set (gzip_ops detect) ''Content-Type'' contentType (newGzip base_new) else newGzip base_new)))))"
    by (intro untouched_set) (simp add: untouched_set untouched_new)
  have "\<exists>w. untouched w \<and> s = \<lparr>st_writer = gz_Flush detect (gz_DisableGzip (gz_WriteHeader code w)),
      arrayStarted = False, arrayFirstWritten = False\<rparr>"
    using assms(1) unfolding NewStreamWithStatus_def Let_def ops
    by - (intro exI conjI, rule u, simp)
  then obtain b where "bcommit b = None" "bbody b = []" and
    s: "s = \<lparr>st_writer = gz_Flush detect (gz_DisableGzip (gz_WriteHeader code (newGzip b))), arrayStarted = False, arrayFirstWritten = False\<rparr>"
    by (auto simp: untouched_def)
  from gzip_opened [OF this(1,2) assms(2)]
  show "gzip_stream.good s" "gzip_stream.sent s = []" "\<not> arrayStarted s" "\<not> arrayFirstWritten s"
    "map_option fst (bcommit (gz_inner (st_writer s))) = Some code"
    by (simp_all add: s gzip_stream.good_def gzip_stream.sent_def)
qed

section \<open>Reading events back\<close>

definition one_line :: "string \<Rightarrow> bool" where
  "one_line l \<longleftrightarrow> CHR 0x0A \<notin> set l \<and> CHR 0x0D \<notin> set l"

lemma lines_of_line: "one_line p \<Longrightarrow> lines_of cur (p @ CHR 0x0A # s) = (cur @ p) # lines_of [] s"
  by (induction p arbitrary: cur) (auto simp: one_line_def)

lemma lines_of_terminate: "list_all one_line ls \<Longrightarrow> lines_of [] (terminate_lines ls) = ls"
  by (induction ls) (simp_all add: terminate_lines_def lines_of_line)

lemma field_of_written:
  "field_of (''id: '' @ v) = (''id'', v)" "field_of (''event: '' @ v) = (''event'', v)"
  "field_of (''data: '' @ v) = (''data'', v)" "field_of (''retry: '' @ v) = (''retry'', v)"
  by (simp_all add: field_of_def Let_def HasPrefix_def)

definition plain_event :: "('v \<Rightarrow> string + string) \<Rightarrow> 'v SSEEvent \<Rightarrow> bool" where
  "plain_event marshal e \<longleftrightarrow> one_line (sse_ID e) \<and> one_line (sse_Event e) \<and>
     (case sse_Data e of NoData \<Rightarrow> True | SText t \<Rightarrow> CHR 0x0D \<notin> set t
      | SValue v \<Rightarrow> (case marshal v of Inl _ \<Rightarrow> False | Inr j \<Rightarrow> one_line j))"

fun sse_payload :: "('v \<Rightarrow> string + string) \<Rightarrow> 'v sse_data \<Rightarrow> string option" where
  "sse_payload marshal NoData = None"
| "sse_payload marshal (SText t) = Some t"
| "sse_payload marshal (SValue v) = (case marshal v of Inl _ \<Rightarrow> None | Inr j \<Rightarrow> Some j)"

fun sse_expected :: "('v \<Rightarrow> string + string) \<Rightarrow> string \<Rightarrow> 'v SSEEvent list \<Rightarrow> (string \<times> string \<times> string) list" where
  "sse_expected marshal prev [] = []"
| "sse_expected marshal prev (e # es) =
     (let i = (if sse_ID e \<noteq> [] then sse_ID e else prev)
      in (case sse_payload marshal (sse_Data e) of None \<Rightarrow> []
          | Some d \<Rightarrow> [(i, if sse_Event e = [] then ''message'' else sse_Event e, d)]) @ sse_expected marshal i es)"

lemma Itoa_one_line: "one_line (Itoa i)"
proof -
  have "is_digit c \<Longrightarrow> c \<noteq> CHR 0x0A \<and> c \<noteq> CHR 0x0D" for c by (auto simp: is_digit_def)
  then have "one_line (Itoa_nat n)" for n using Itoa_nat_digits [of _ n] by (auto simp: one_line_def)
  then show ?thesis by (auto simp: Itoa_def one_line_def)
qed

lemma data_lines_read:
  "sse_read (map (\<lambda>l. ''data: '' @ l) ps @ ls) st = sse_read ls (st\<lparr>ev_data := ev_data st @ ps\<rparr>)"
  by (induction ps arbitrary: st) (simp_all add: field_of_written [simplified])

lemma event_read:
  assumes "plain_event marshal e"
  shows "\<exists>es. sse_lines marshal e = Inr es \<and> list_all one_line es \<and>
     (\<forall>ls i. sse_read (es @ ls) \<lparr>last_id = i, ev_type = [], ev_data = []\<rparr> =
        (case sse_payload marshal (sse_Data e) of None \<Rightarrow> []
          | Some d \<Rightarrow> [(if sse_ID e \<noteq> [] then sse_ID e else i, if sse_Event e = [] then ''message'' else sse_Event e, d)]) @
        sse_read ls \<lparr>last_id = (if sse_ID e \<noteq> [] then sse_ID e else i), ev_type = [], ev_data = []\<rparr>)"
proof -
  obtain ds where ds: "sse_data_lines marshal (sse_Data e) = Inr ds" "list_all one_line ds"
    and read: "\<And>ls st. ev_data st = [] \<Longrightarrow> sse_read (ds @ [] # ls) st =
      (case sse_payload marshal (sse_Data e) of None \<Rightarrow> []
       | Some d \<Rightarrow> [(last_id st, if ev_type st = [] then ''message'' else ev_type st, d)]) @
      sse_read ls (st\<lparr>ev_type := [], ev_data := []\<rparr>)"
  proof (cases "sse_Data e")
    case NoData
    then show ?thesis by (intro that [of "[]"]) (simp_all add: sse_data_lines_def)
  next
    case (SText t)
    have "list_all one_line (map (\<lambda>l. ''data: '' @ l) (Split (CHR 0x0A) t))"
    proof -
      have "set (Join ps sep) \<supseteq> set p" if "p \<in> set ps" for p ps sep
        using that by (induction ps sep rule: Join.induct) auto
      from this [of _ "Split (CHR 0x0A) t" "[CHR 0x0A]"] show ?thesis
        using assms SText Split_no_sep [of _ "CHR 0x0A" t]
        by (auto simp: list_all_iff one_line_def plain_event_def)
    qed
    then show ?thesis using SText data_lines_read [of "Split (CHR 0x0A) t"]
      by (intro that [of "map (\<lambda>l. ''data: '' @ l) (Split (CHR 0x0A) t)"]) (simp_all add: sse_data_lines_def)
  next
    case (SValue v)
    then obtain j where "marshal v = Inr j" "one_line j" using assms by (auto simp: plain_event_def split: sum.splits)
    with SValue show ?thesis
      by (intro that [of "[''data: '' @ j]"]) (simp_all add: sse_data_lines_def one_line_def field_of_written [simplified])
  qed
  show ?thesis using ds assms Itoa_one_line
    by (auto simp: sse_lines_def plain_event_def one_line_def read field_of_written [simplified] split: option.split)
qed

lemma events_read:
  "list_all (plain_event marshal) es \<Longrightarrow>
   list_all one_line (accepted_lines marshal (map (Pair False) es)) \<and>
   sse_read (accepted_lines marshal (map (Pair False) es)) \<lparr>last_id = i, ev_type = [], ev_data = []\<rparr> = sse_expected marshal i es"
proof (induction es arbitrary: i)
  case (Cons e es)
  from event_read [of marshal e] Cons.prems obtain ls where
    "sse_lines marshal e = Inr ls" "list_all one_line ls"
    "\<And>rest i. sse_read (ls @ rest) \<lparr>last_id = i, ev_type = [], ev_data = []\<rparr> =
        (case sse_payload marshal (sse_Data e) of None \<Rightarrow> []
          | Some d \<Rightarrow> [(if sse_ID e \<noteq> [] then sse_ID e else i, if sse_Event e = [] then ''message'' else sse_Event e, d)]) @
        sse_read rest \<lparr>last_id = (if sse_ID e \<noteq> [] then sse_ID e else i), ev_type = [], ev_data = []\<rparr>"
    by auto
  moreover from this(1) have "accepted_lines marshal (map (Pair False) (e # es)) = ls @ accepted_lines marshal (map (Pair False) es)"
    by (simp add: accepted_lines_def)
  ultimately show ?case using Cons by (simp add: Let_def)
qed (simp add: accepted_lines_def)


section \<open>Properties\<close>

text \<open>Server-sent events survive the way to the client: on a stream opened over the compressing writer
  with a final status, which is the one sent, the bytes of any sequence of events whose ids,
  names and JSON contain no line break and whose texts contain no carriage return parse, by
  the event stream rules, to the same sequence of ids, names and data, several lines of text included.\<close>
theorem sse_roundtrip:
  assumes "NewStreamWithStatus (gzip_ops detect) contentType code (newGzip base_new) = Inr s" and "200 \<le> code"
    and "list_all (plain_event marshal) es"
  shows "sse_parse (delivered (st_writer (write_events (gzip_ops detect) marshal (map (Pair False) es) s))) =
           sse_expected marshal [] es \<and>
         map_option fst (bcommit (gz_inner (st_writer s))) = Some code"
proof -
  note o = stream_opened [OF assms(1,2)]
  from gzip_stream.events_sent [OF o(1), where marshal = marshal and es = "map (Pair False) es"] o(2)
  have "delivered (st_writer (write_events (gzip_ops detect) marshal (map (Pair False) es) s)) =
      terminate_lines (accepted_lines marshal (map (Pair False) es))"
    by (simp add: gzip_stream.sent_def)
  with events_read [OF assms(3)] o(5) show ?thesis by (simp add: sse_parse_def lines_of_terminate)
qed

theorem sse_roundtrip_witness:
  "let ev = \<lparr>sse_ID = ''7'', sse_Event = [], sse_Data = SText ([CHR ''a'', CHR 0x0A, CHR ''b'']), sse_Retry = 5\<rparr>;
       s = projr (NewStreamWithStatus (gzip_ops (\<lambda>_. [])) ''text/event-stream'' 200 (newGzip base_new))
   in sse_parse (delivered (st_writer (write_events (gzip_ops (\<lambda>_. [])) (Inr :: string \<Rightarrow> string + string)
        (map (Pair False) [ev, ev]) s))) =
      [(''7'', ''message'', [CHR ''a'', CHR 0x0A, CHR ''b'']), (''7'', ''message'', [CHR ''a'', CHR 0x0A, CHR ''b''])]"
proof -
  let ?ev = "\<lparr>sse_ID = ''7'', sse_Event = [], sse_Data = SText ([CHR ''a'', CHR 0x0A, CHR ''b'']), sse_Retry = 5\<rparr> :: string SSEEvent"
  let ?new = "NewStreamWithStatus (gzip_ops (\<lambda>_. [])) ''text/event-stream'' 200 (newGzip base_new)"
  have "?new = Inr (projr ?new)"
    by (simp add: NewStreamWithStatus_def gzip_ops_def Let_def)
  moreover have "list_all (plain_event (Inr :: string \<Rightarrow> string + string)) [?ev, ?ev]"
    by (simp add: plain_event_def one_line_def)
  moreover have "sse_expected (Inr :: string \<Rightarrow> string + string) [] [?ev, ?ev] =
      [(''7'', ''message'', [CHR ''a'', CHR 0x0A, CHR ''b'']), (''7'', ''message'', [CHR ''a'', CHR 0x0A, CHR ''b''])]"
    by simp
  ultimately show ?thesis
    using sse_roundtrip [of "\<lambda>_. []" "''text/event-stream''" 200 "projr ?new" Inr "[?ev, ?ev]"]
    unfolding Let_def by simp
qed

text \<open>A JSON array written item by item is well formed whatever happens to single items: with or
  without an explicit start, the items that can be encoded and are written before the context
  is done appear between brackets, separated by single commas; with none of them the array is
  empty.\<close>
theorem json_array_stream:
  assumes "NewStreamWithStatus (gzip_ops detect) contentType code (newGzip base_new) = Inr s" and "200 \<le> code"
  shows "delivered (st_writer (fst (EndJSONArray (gzip_ops detect) False (write_items (gzip_ops detect) marshal xs s)))) =
           ''['' @ Join (accepted_items marshal xs) '','' @ '']'' \<and>
         delivered (st_writer (fst (EndJSONArray (gzip_ops detect) False
             (write_items (gzip_ops detect) marshal xs (fst (StartJSONArray (gzip_ops detect) False s)))))) =
           ''['' @ Join (accepted_items marshal xs) '','' @ '']''"
  using gzip_stream.array_sent [OF stream_opened(1,3,4) [OF assms], where marshal = marshal and xs = xs] stream_opened(2) [OF assms]
  by (simp add: gzip_stream.sent_def)

theorem json_array_stream_witness:
  "let s = projr (NewStreamWithStatus (gzip_ops (\<lambda>_. [])) ''application/json'' 200 (newGzip base_new))
   in delivered (st_writer (fst (EndJSONArray (gzip_ops (\<lambda>_. [])) False
        (write_items (gzip_ops (\<lambda>_. [])) (\<lambda>x. if x = 0 then Inl ''bad'' else Inr (Itoa x)) [(False, 0), (False, 1), (False, 2), (True, 3)] s)))) =
      ''[1,2]''"
proof -
  let ?new = "NewStreamWithStatus (gzip_ops (\<lambda>_. [])) ''application/json'' 200 (newGzip base_new)"
  let ?m = "\<lambda>x. if x = 0 then Inl ''bad'' else Inr (Itoa x) :: string + string"
  have "?new = Inr (projr ?new)"
    by (simp add: NewStreamWithStatus_def gzip_ops_def Let_def)
  moreover have "accepted_items ?m [(False, 0), (False, 1), (False, 2), (True, 3)] = [''1'', ''2'']"
    by code_simp
  ultimately show ?thesis
    using json_array_stream [of "\<lambda>_. []" "''application/json''" 200 "projr ?new" ?m "[(False, 0), (False, 1), (False, 2), (True, 3)]"]
    unfolding Let_def by simp
qed

text \<open>A line break in an id or event name is written as it is and starts a field of its own.\<close>
theorem sse_id_injection:
  "sse_parse (terminate_lines (projr (sse_lines (Inr :: string \<Rightarrow> string + string)
     \<lparr>sse_ID = ''1'' @ [CHR 0x0A] @ ''data: forged'', sse_Event = [], sse_Data = SText ''real'', sse_Retry = 0\<rparr>))) =
   [(''1'', ''message'', ''forged'' @ [CHR 0x0A] @ ''real'')]"
  by code_simp

end
