(* ===== verification/Utils.thy ===== *)
theory Utils imports GoPrelude begin

text \<open>
  The helpers of \<^verbatim>\<open>utils.go\<close>: configuration values from the environment (a function from names to
  values), the client's address and origin checks, query parameters, masking and ASCII
  escaping, and \<^verbatim>\<open>ExtractJSVar\<close>, which cuts the value assigned to a variable out of a page. Its outer
  loop need not end, so it is a \<^verbatim>\<open>partial_function\<close> whose result \<open>None\<close> means that it does not
  return. Addresses (\<^verbatim>\<open>net.ParseIP\<close>, \<^verbatim>\<open>net.SplitHostPort\<close>) and URLs (\<^verbatim>\<open>url.Parse\<close>) are parameters.
\<close>

section \<open>Configuration values\<close>

type_synonym environment = "string \<Rightarrow> string option"

definition GetEnv :: "environment \<Rightarrow> string \<Rightarrow> string \<Rightarrow> string" where
  "GetEnv env key defaultValue = (case env key of Some v \<Rightarrow> v | None \<Rightarrow> defaultValue)"

definition ParseBool :: "string \<Rightarrow> bool option" where
  "ParseBool s =
     (if s \<in> {''1'', ''t'', ''T'', ''true'', ''TRUE'', ''True''} then Some True
      else if s \<in> {''0'', ''f'', ''F'', ''false'', ''FALSE'', ''False''} then Some False else None)"

definition GetEnvBool :: "environment \<Rightarrow> string \<Rightarrow> bool \<Rightarrow> bool" where
  "GetEnvBool env key defaultValue =
     (case env key of None \<Rightarrow> defaultValue
      | Some v \<Rightarrow> (case ParseBool v of Some b \<Rightarrow> b | None \<Rightarrow> defaultValue))"

definition GetEnvInt :: "environment \<Rightarrow> string \<Rightarrow> int \<Rightarrow> int" where
  "GetEnvInt env key defaultValue =
     (let valStr = GetEnv env key []
      in if valStr = [] then defaultValue
         else (case ParseInt64 valStr of Some v \<Rightarrow> v | None \<Rightarrow> defaultValue))"

text \<open>\<open>duration\<close> is \<^verbatim>\<open>time.ParseDuration\<close>; a plain number is seconds, the product wrapping at 64 bits.\<close>

definition GetEnvDuration :: "(string \<Rightarrow> int option) \<Rightarrow> environment \<Rightarrow> string \<Rightarrow> int \<Rightarrow> int" where
  "GetEnvDuration duration env key defaultValue =
     (let valStr = GetEnv env key []
      in if valStr = [] then defaultValue
         else (case duration valStr of Some d \<Rightarrow> d
               | None \<Rightarrow> (case ParseInt64 valStr of Some sec \<Rightarrow> signed_take_bit 63 (sec * 1000000000)
                          | None \<Rightarrow> defaultValue)))"

text \<open>\<^verbatim>\<open>strings.Split\<close> with a separator of several characters.\<close>

function split_on :: "string \<Rightarrow> string \<Rightarrow> string list" where
  "split_on sep s =
     (if sep = [] \<or> s = [] then [s]
      else if HasPrefix s sep then [] # split_on sep (drop (length sep) s)
      else (case split_on sep (tl s) of [] \<Rightarrow> [[hd s]] | p # ps \<Rightarrow> (hd s # p) # ps))"
  by auto
termination by (relation "measure (\<lambda>(sep, s). length s)") (auto simp: neq_Nil_conv)

declare split_on.simps [simp del]

text \<open>\<^verbatim>\<open>strconv.ParseUint(s, 10, 6)\<close>: digits only, below 64.\<close>

definition ParseUint6 :: "string \<Rightarrow> nat option" where
  "ParseUint6 s = (if s = [] then None else case digits_val 0 s of None \<Rightarrow> None | Some n \<Rightarrow> if n < 64 then Some n else None)"

definition GetEnvBytes :: "environment \<Rightarrow> string \<Rightarrow> int \<Rightarrow> int" where
  "GetEnvBytes env key defaultValue =
     (let v0 = GetEnv env key []
      in if v0 = [] then defaultValue
         else let v = TrimSpace (ToUpper v0)
              in if Contains v ''<<'' then
                   (case split_on ''<<'' v of
                      [a, b] \<Rightarrow> (case (ParseInt64 (TrimSpace a), ParseUint6 (TrimSpace b)) of
                                  (Some left, Some right) \<Rightarrow> signed_take_bit 63 (left * 2 ^ right)
                                | _ \<Rightarrow> defaultValue)
                    | _ \<Rightarrow> defaultValue)
                 else let (multiplier, num) =
                        (if HasSuffix v ''KB'' then (1024, TrimSuffix v ''KB'')
                         else if HasSuffix v ''MB'' then (1024 * 1024, TrimSuffix v ''MB'')
                         else if HasSuffix v ''GB'' then (1024 * 1024 * 1024, TrimSuffix v ''GB'')
                         else (1, v))
                      in (case ParseInt64 (TrimSpace num) of
                            None \<Rightarrow> defaultValue
                          | Some n \<Rightarrow> signed_take_bit 63 (n * multiplier)))"

definition GetResponseMode :: "environment \<Rightarrow> string" where
  "GetResponseMode env =
     (let value = ToLower (GetEnv env ''APP_ERROR_MODE'' ''html'')
      in if value = ''html'' \<or> value = ''json'' then value else ''html'')"

definition maskPartially :: "string \<Rightarrow> string" where
  "maskPartially s = (if length s \<le> 4 then ''[***]'' else ''['' @ take 3 s @ ''...]'')"

text \<open>\<^verbatim>\<open>formatByteSize\<close> and \<^verbatim>\<open>configuredLanguages\<close> of \<^verbatim>\<open>config.go\<close>.\<close>

definition formatByteSize :: "int \<Rightarrow> string" where
  "formatByteSize sz =
     (if sz \<ge> 2 ^ 30 \<and> sz mod 2 ^ 30 = 0 then Itoa (sz div 2 ^ 30) @ ''GiB''
      else if sz \<ge> 2 ^ 20 \<and> sz mod 2 ^ 20 = 0 then Itoa (sz div 2 ^ 20) @ ''MiB''
      else if sz \<ge> 2 ^ 10 \<and> sz mod 2 ^ 10 = 0 then Itoa (sz div 2 ^ 10) @ ''KiB''
      else Itoa sz @ ''B'')"

definition configuredLanguages :: "string \<Rightarrow> string \<Rightarrow> string list" where
  "configuredLanguages v defaultLanguage =
     (let languages = FieldsFunc v (\<lambda>c. c = CHR '','' \<or> c = CHR '';'' \<or> c = CHR '' '' \<or> c = CHR 0x09)
      in if languages = [] then [defaultLanguage] else languages)"

text \<open>The printed form of a size is not accepted as configuration, and a shifted value that does not fit wraps.\<close>
theorem sizes_not_read_back:
  "GetEnvBytes (\<lambda>_. Some (formatByteSize (2 ^ 20))) ''MAX_BODY_SIZE'' 7 = 7 \<and>
   GetEnvBytes (\<lambda>_. Some ''1 MB'') ''MAX_BODY_SIZE'' 7 = 2 ^ 20 \<and>
   GetEnvBytes (\<lambda>_. Some ''1 << 20'') ''MAX_BODY_SIZE'' 7 = 2 ^ 20 \<and>
   GetEnvBytes (\<lambda>_. Some ''1 << 63'') ''MAX_BODY_SIZE'' 7 = - (2 ^ 63)"
  by code_simp

section \<open>Addresses and origins\<close>

definition splitAndTrim :: "string \<Rightarrow> char \<Rightarrow> string list" where
  "splitAndTrim s sep = filter (\<lambda>p. p \<noteq> []) (map TrimSpace (Split sep s))"

fun first_for :: "(string \<Rightarrow> bool) \<Rightarrow> string list \<Rightarrow> string option" where
  "first_for valid_ip [] = None"
| "first_for valid_ip (part # parts) =
     (case CutPrefix part ''for='' of
        Some ipPart \<Rightarrow> (let ip = Trim (TrimSpace ipPart) (CHR 0x22) in if valid_ip ip then Some ip else first_for valid_ip parts)
      | None \<Rightarrow> first_for valid_ip parts)"

definition GetRealIP :: "(string \<Rightarrow> bool) \<Rightarrow> (string \<Rightarrow> string option) \<Rightarrow> header \<Rightarrow> string \<Rightarrow> string" where
  "GetRealIP valid_ip split_host hdr remoteAddr =
     (let forwardedFor = hget hdr ''X-Forwarded-For'';
          ips = splitAndTrim forwardedFor (CHR '','');
          realIP = TrimSpace (hget hdr ''X-Real-Ip'');
          forwarded = hget hdr ''X-Forwarded''
      in if forwardedFor \<noteq> [] \<and> ips \<noteq> [] \<and> valid_ip (TrimSpace (hd ips)) then TrimSpace (hd ips)
         else if hget hdr ''X-Real-Ip'' \<noteq> [] \<and> valid_ip realIP then realIP
         else case (if forwarded \<noteq> [] then first_for valid_ip (splitAndTrim forwarded (CHR '';'')) else None) of
                Some ip \<Rightarrow> ip
              | None \<Rightarrow> (case split_host remoteAddr of None \<Rightarrow> remoteAddr | Some ip \<Rightarrow> ip))"

text \<open>\<open>parse_host\<close> is \<^verbatim>\<open>url.Parse\<close> followed by \<^verbatim>\<open>Host\<close>.\<close>

definition isValidOrigin :: "bool \<Rightarrow> (string \<Rightarrow> string option) \<Rightarrow> (string \<Rightarrow> bool) \<Rightarrow> string \<Rightarrow> string \<Rightarrow> bool" where
  "isValidOrigin isDev parse_host is_loopback origin validHost =
     (if isDev then True
      else case parse_host origin of None \<Rightarrow> False
           | Some host \<Rightarrow>
               if HasPrefix host ''localhost'' \<or> HasPrefix host ''127.0.0.1'' then True
               else if is_loopback host then True else host = validHost)"

section \<open>Query parameters\<close>

type_synonym query = "(string \<times> string list) list"

definition getFirst :: "query \<Rightarrow> string \<Rightarrow> string option" where
  "getFirst q key = (case map_of q key of None \<Rightarrow> None | Some [] \<Rightarrow> None | Some (v # _) \<Rightarrow> if v = [] then None else Some v)"

definition GetQueryParam :: "query \<Rightarrow> string \<Rightarrow> string \<Rightarrow> string list option \<Rightarrow> string" where
  "GetQueryParam q key defaultValue allowed =
     (case getFirst q key of None \<Rightarrow> defaultValue
      | Some val \<Rightarrow> (case allowed of None \<Rightarrow> val | Some as \<Rightarrow> if val \<in> set as then val else defaultValue))"

definition GetQueryArray :: "query \<Rightarrow> string \<Rightarrow> string list \<Rightarrow> string list option \<Rightarrow> string list" where
  "GetQueryArray q key defaultValue allowed =
     (case map_of q key of None \<Rightarrow> defaultValue
      | Some vals \<Rightarrow>
          if vals = [] then defaultValue
          else (case allowed of
                  None \<Rightarrow> filter (\<lambda>v. v \<noteq> []) vals
                | Some as \<Rightarrow> (let result = filter (\<lambda>v. v \<noteq> [] \<and> v \<in> set as) vals
                             in if result = [] then defaultValue else result)))"

lemma query_param_allowed: "GetQueryParam q key d (Some as) \<in> insert d (set as)"
  by (auto simp: GetQueryParam_def split: option.split)

lemma query_array_allowed: "GetQueryArray q key d (Some as) = d \<or> set (GetQueryArray q key d (Some as)) \<subseteq> set as - {[]}"
  by (auto simp: GetQueryArray_def Let_def split: option.split)

section \<open>Escaping\<close>

definition hex4 :: "char \<Rightarrow> string" where
  "hex4 b = [CHR ''0'', CHR ''0'', hex_digit (of_char b div 16), hex_digit (of_char b mod 16)]"

definition toASCII :: "string \<Rightarrow> string" where
  "toASCII input = concat (map (\<lambda>b. if (of_char b :: nat) < 128 then [b] else CHR 0x5C # CHR ''u'' # hex4 b) input)"

lemma hex_digit_ascii:
  assumes "n < 16"
  shows "(of_char (hex_digit n) :: nat) < 128"
proof -
  have "list_all (\<lambda>n. (of_char (hex_digit n) :: nat) < 128) [0..<16]" by code_simp
  with assms show ?thesis by (simp add: list_all_iff)
qed

text \<open>The escaped text is ASCII, and ASCII text is unchanged; other characters, several bytes each in
  UTF-8, are escaped byte by byte, so a reader of the JSON gets one character per byte.\<close>
lemma toASCII_ascii: "c \<in> set (toASCII input) \<Longrightarrow> (of_char c :: nat) < 128"
proof -
  have "(of_char b :: nat) div 16 < 16" for b :: char
    using less_mult_imp_div_less [of "of_char b" 16 16] nat_of_char_less_256 [of b] by simp
  then show "c \<in> set (toASCII input) \<Longrightarrow> (of_char c :: nat) < 128"
    using hex_digit_ascii by (auto simp: toASCII_def hex4_def split: if_splits)
qed

lemma toASCII_id: "list_all (\<lambda>b. (of_char b :: nat) < 128) input \<Longrightarrow> toASCII input = input"
  by (induction input) (simp_all add: toASCII_def)

theorem toASCII_splits_characters: "toASCII [CHR 0xC3, CHR 0xA9] = CHR 0x5C # ''u00c3'' @ CHR 0x5C # ''u00a9''"
  by code_simp

section \<open>Cutting a value out of a page\<close>

definition js_space :: "char \<Rightarrow> bool" where
  "js_space c \<longleftrightarrow> c = CHR '' '' \<or> c = CHR 0x09 \<or> c = CHR 0x0A \<or> c = CHR 0x0D"

definition alnum :: "char \<Rightarrow> bool" where
  "alnum c \<longleftrightarrow> (let n = (of_char c :: nat) in (97 \<le> n \<and> n \<le> 122) \<or> (65 \<le> n \<and> n \<le> 90) \<or> (48 \<le> n \<and> n \<le> 57))"

text \<open>The rest of the page behind the equals sign, and from the opening bracket on.\<close>

definition after_equals :: "string \<Rightarrow> string option" where
  "after_equals s = (case dropWhile js_space s of [] \<Rightarrow> None | c # r \<Rightarrow> if c = CHR ''='' then Some r else None)"

definition from_bracket :: "string \<Rightarrow> string option" where
  "from_bracket s =
     (case dropWhile js_space s of [] \<Rightarrow> None
      | c # r \<Rightarrow> if c = CHR ''{'' \<or> c = CHR ''['' then Some (c # r) else None)"

fun scan_js :: "string \<Rightarrow> nat \<Rightarrow> bool \<Rightarrow> bool \<Rightarrow> string \<Rightarrow> string option" where
  "scan_js [] depth inString escaped acc = None"
| "scan_js (c # s) depth inString escaped acc =
     (if escaped then scan_js s depth inString False (acc @ [c])
      else if c = CHR 0x5C \<and> inString then scan_js s depth inString True (acc @ [c])
      else if c = CHR 0x22 then scan_js s depth (\<not> inString) False (acc @ [c])
      else if inString then scan_js s depth inString False (acc @ [c])
      else if c = CHR ''{'' \<or> c = CHR ''['' then scan_js s (depth + 1) False False (acc @ [c])
      else if c = CHR ''}'' \<or> c = CHR '']'' then
        (if depth - 1 = 0 then Some (acc @ [c]) else scan_js s (depth - 1) False False (acc @ [c]))
      else scan_js s depth False False (acc @ [c]))"

partial_function (option) extract_loop :: "string \<Rightarrow> string \<Rightarrow> nat \<Rightarrow> string option option" where
  "extract_loop html varName offset =
     (case Index (drop offset html) varName of
        None \<Rightarrow> Some None
      | Some idx \<Rightarrow>
          let absIdx = offset + idx; next = absIdx + length varName
          in if absIdx > 0 \<and> alnum (html ! (absIdx - 1)) then extract_loop html varName next
             else case after_equals (drop next html) of
                    None \<Rightarrow> extract_loop html varName next
                  | Some r \<Rightarrow> (case from_bracket r of
                      None \<Rightarrow> extract_loop html varName next
                    | Some v \<Rightarrow> Some (scan_js v 0 False False [])))"

definition ExtractJSVar :: "string \<Rightarrow> string \<Rightarrow> string option option" where
  "ExtractJSVar html varName = extract_loop html varName 0"


section \<open>Values in a page\<close>

text \<open>The text of a value: brackets around characters, quoted strings with escapes, and values.\<close>

datatype js_lit = Raw char | Esc char

datatype js_tok = Plain char | Quoted "js_lit list" | Group bool "js_tok list"

definition js_special :: "char \<Rightarrow> bool" where
  "js_special c \<longleftrightarrow> c = CHR 0x22 \<or> c = CHR ''{'' \<or> c = CHR ''}'' \<or> c = CHR ''['' \<or> c = CHR '']''"

fun show_lit :: "js_lit \<Rightarrow> string" where
  "show_lit (Raw c) = [c]"
| "show_lit (Esc c) = [CHR 0x5C, c]"

fun wf_lit :: "js_lit \<Rightarrow> bool" where
  "wf_lit (Raw c) = (c \<noteq> CHR 0x22 \<and> c \<noteq> CHR 0x5C)"
| "wf_lit (Esc c) = True"

fun show_tok :: "js_tok \<Rightarrow> string" where
  "show_tok (Plain c) = [c]"
| "show_tok (Quoted ls) = CHR 0x22 # concat (map show_lit ls) @ [CHR 0x22]"
| "show_tok (Group curly ts) =
     (if curly then CHR ''{'' else CHR ''['') # concat (map show_tok ts) @ [if curly then CHR ''}'' else CHR '']'']"

fun wf_tok :: "js_tok \<Rightarrow> bool" where
  "wf_tok (Plain c) = (\<not> js_special c)"
| "wf_tok (Quoted ls) = list_all wf_lit ls"
| "wf_tok (Group curly ts) = list_all wf_tok ts"

lemma scan_lits:
  "list_all wf_lit ls \<Longrightarrow>
   scan_js (concat (map show_lit ls) @ CHR 0x22 # rest) d True False acc =
   scan_js rest d False False (acc @ concat (map show_lit ls) @ [CHR 0x22])"
proof (induction ls arbitrary: acc)
  case (Cons l ls)
  then show ?case by (cases l) auto
qed simp

lemma scan_tok:
  "wf_tok t \<Longrightarrow> 0 < d \<Longrightarrow> scan_js (show_tok t @ rest) d False False acc = scan_js rest d False False (acc @ show_tok t)"
proof (induction t arbitrary: d rest acc)
  case (Plain c)
  then show ?case by (simp add: js_special_def)
next
  case (Quoted ls)
  then show ?case using scan_lits [of ls rest d "acc @ [CHR 0x22]"] by simp
next
  case (Group curly ts)
  have "set us \<subseteq> set ts \<Longrightarrow> scan_js (concat (map show_tok us) @ r) e False False a =
      scan_js r e False False (a @ concat (map show_tok us))" if "0 < e" for us r e a
  proof (induction us arbitrary: a)
    case (Cons u us)
    then have "u \<in> set ts" "wf_tok u" using Group.prems(1) by (auto simp: list_all_iff)
    from Group.IH [OF this that] Cons show ?case by simp
  qed simp
  from this [of "d + 1" ts] Group.prems(2) show ?case by simp
qed

lemma scan_group:
  assumes "list_all wf_tok ts"
  shows "scan_js (show_tok (Group curly ts) @ rest) 0 False False [] = Some (show_tok (Group curly ts))"
proof -
  have "set us \<subseteq> set ts \<Longrightarrow> scan_js (concat (map show_tok us) @ r) 1 False False a =
      scan_js r 1 False False (a @ concat (map show_tok us))" for us r a
  proof (induction us arbitrary: a)
    case (Cons u us)
    then have "wf_tok u" using assms by (auto simp: list_all_iff)
    from scan_tok [OF this] Cons show ?case by simp
  qed simp
  from this [of ts] show ?thesis by simp
qed

lemma extract_loop_returns: "varName \<noteq> [] \<Longrightarrow> \<exists>r. extract_loop html varName offset = Some r"
proof (induction "length html - offset" arbitrary: offset rule: less_induct)
  case less
  show ?case
  proof (cases "Index (drop offset html) varName")
    case None
    then show ?thesis by (simp add: extract_loop.simps)
  next
    case (Some idx)
    let ?next = "offset + idx + length varName"
    have "length html - ?next < length html - offset"
      using Index_Some [OF Some] less.prems by (cases varName) auto
    from less.hyps [OF this less.prems] obtain r where "extract_loop html varName ?next = Some r" by blast
    moreover have "extract_loop html varName offset = extract_loop html varName ?next \<or>
        (\<exists>v. extract_loop html varName offset = Some (scan_js v 0 False False []))"
    proof (cases "after_equals (drop ?next html)")
      case None
      then show ?thesis by (simp add: extract_loop.simps [of html varName offset] Some Let_def)
    next
      case (Some s)
      with \<open>Index _ _ = _\<close> show ?thesis
        by (cases "from_bracket s") (auto simp: extract_loop.simps [of html varName offset] Let_def)
    qed
    ultimately show ?thesis by auto
  qed
qed

lemma extract_loop_stuck:
  assumes "extract_loop html varName offset = Some r"
  shows "varName = [] \<longrightarrow> offset = 0 \<longrightarrow> (\<exists>s v. after_equals html = Some s \<and> from_bracket s = Some v)"
  using _ assms
proof (rule extract_loop.raw_induct)
  fix f html varName offset r
  assume IH: "\<And>html varName offset r. f html varName offset = Some r \<Longrightarrow>
      varName = [] \<longrightarrow> offset = 0 \<longrightarrow> (\<exists>s v. after_equals html = Some s \<and> from_bracket s = Some v)"
    and step: "(case Index (drop offset html) varName of None \<Rightarrow> Some None
      | Some idx \<Rightarrow> let absIdx = offset + idx; next = absIdx + length varName
          in if absIdx > 0 \<and> alnum (html ! (absIdx - 1)) then f html varName next
             else case after_equals (drop next html) of None \<Rightarrow> f html varName next
                  | Some r \<Rightarrow> (case from_bracket r of None \<Rightarrow> f html varName next
                               | Some v \<Rightarrow> Some (scan_js v 0 False False []))) = Some r"
  show "varName = [] \<longrightarrow> offset = 0 \<longrightarrow> (\<exists>s v. after_equals html = Some s \<and> from_bracket s = Some v)"
  proof (intro impI)
    assume "varName = []" "offset = 0"
    with step IH [of html "[]" 0 r]
    show "\<exists>s v. after_equals html = Some s \<and> from_bracket s = Some v"
      by (auto simp: Let_def split: option.splits)
  qed
qed

section \<open>Properties\<close>

text \<open>The search for a variable's value returns for every page when the name is not empty; with the
  empty name it returns only if the page begins with an assignment of an object or array, and
  loops for ever on every other page.\<close>
theorem js_var_terminates:
  "(\<exists>r. ExtractJSVar html varName = Some r) \<longleftrightarrow>
     \<not> (varName = [] \<and> \<not> (\<exists>s v. after_equals html = Some s \<and> from_bracket s = Some v))"
proof (cases "varName = []")
  case True
  have "ExtractJSVar html varName = Some (scan_js v 0 False False [])"
    if "after_equals html = Some s" "from_bracket s = Some v" for s v
    by (simp add: ExtractJSVar_def extract_loop.simps [of _ _ 0] True that Let_def)
  then show ?thesis using extract_loop_stuck [of html varName 0] True
    by (auto simp: ExtractJSVar_def)
qed (simp add: ExtractJSVar_def extract_loop_returns)

text \<open>The value assigned to a variable is cut out exactly: in a page whose first occurrence of the
  name is not the end of a longer word and is followed, up to white space, by an equals sign and a
  bracketed value, the result is the text of the value up to its matching bracket, whatever
  brackets and escaped quotes its strings contain and whatever follows.\<close>
theorem js_var_extracted:
  assumes "html = pre @ varName @ sp1 @ ''='' @ sp2 @ show_tok (Group curly ts) @ post"
    and "Index html varName = Some (length pre)" and "pre = [] \<or> \<not> alnum (last pre)"
    and "list_all js_space sp1" and "list_all js_space sp2" and "list_all wf_tok ts"
  shows "ExtractJSVar html varName = Some (Some (show_tok (Group curly ts)))"
proof -
  have after: "drop (length pre + length varName) html = sp1 @ CHR ''='' # sp2 @ show_tok (Group curly ts) @ post"
    by (simp add: assms(1))
  have prev: "html ! (length pre - 1) = last pre" if "pre \<noteq> []"
    using that by (simp add: assms(1) nth_append last_conv_nth)
  have sp: "dropWhile js_space (sp @ c # r) = c # r" if "list_all js_space sp" "\<not> js_space c" for sp c r
    using that by (induction sp) auto
  have eq: "after_equals (sp1 @ CHR ''='' # sp2 @ show_tok (Group curly ts) @ post) = Some (sp2 @ show_tok (Group curly ts) @ post)"
    using sp [OF assms(4), of "CHR ''=''"] by (simp add: after_equals_def js_space_def)
  have br: "from_bracket (sp2 @ show_tok (Group curly ts) @ post) = Some (show_tok (Group curly ts) @ post)"
    using sp [OF assms(5), of "if curly then CHR ''{'' else CHR ''[''"]
    by (simp add: from_bracket_def js_space_def split: if_splits)
  show ?thesis unfolding ExtractJSVar_def
    using assms(2,3) prev scan_group [OF assms(6), of curly post]
    by (subst extract_loop.simps) (auto simp: Let_def after eq br simp del: show_tok.simps)
qed

theorem js_var_extracted_witness:
  "let html = ''<script>var cfg = {\"a\": [1, \"}\"]};</script>''
   in ExtractJSVar html ''cfg'' = Some (Some ''{\"a\": [1, \"}\"]}'')"
proof -
  let ?ts = "[Quoted [Raw (CHR ''a'')], Plain (CHR '':''), Plain (CHR '' ''),
    Group False [Plain (CHR ''1''), Plain (CHR '',''), Plain (CHR '' ''), Quoted [Raw (CHR ''}'')]]]"
  have "''<script>var cfg = {\"a\": [1, \"}\"]};</script>'' =
      ''<script>var '' @ ''cfg'' @ '' '' @ ''='' @ '' '' @ show_tok (Group True ?ts) @ '';</script>''" by code_simp
  moreover have "Index ''<script>var cfg = {\"a\": [1, \"}\"]};</script>'' ''cfg'' = Some (length ''<script>var '')" by code_simp
  moreover have "''<script>var '' = [] \<or> \<not> alnum (last ''<script>var '')" by code_simp
  moreover have "list_all js_space '' ''" "list_all wf_tok ?ts" by code_simp+
  ultimately have "ExtractJSVar ''<script>var cfg = {\"a\": [1, \"}\"]};</script>'' ''cfg'' = Some (Some (show_tok (Group True ?ts)))"
    using js_var_extracted by blast
  moreover have "show_tok (Group True ?ts) = ''{\"a\": [1, \"}\"]}''" by code_simp
  ultimately show ?thesis by (simp only: Let_def)
qed

end
