(* ===== verification/Tenants.thy ===== *)
theory Tenants imports Http "HOL-Library.Multiset" begin

text \<open>
  Tenants (\<^verbatim>\<open>tenants.go\<close>) and the classification of clients (\<^verbatim>\<open>detector.go\<close>). A store is the list of
  its tenants by id in the order in which Go happens to iterate over the map at a request; what
  must not depend on the order is stated for every permutation. The query parameters and
  \<^verbatim>\<open>net.SplitHostPort\<close> are parameters.
\<close>

section \<open>The store\<close>

record tenant =
  t_ID :: string
  t_Name :: string
  t_domain :: "string option"

type_synonym tenant_store = "(string \<times> tenant) list"

record TenantMiddlewareConfig =
  HeaderKey :: string
  QueryKey :: string
  UseDomain :: bool

definition NewTenantStore :: tenant_store where "NewTenantStore = []"

definition AddTenant :: "tenant \<Rightarrow> tenant_store \<Rightarrow> tenant_store" where
  "AddTenant t ts = AList.update (t_ID t) t ts"

definition RemoveTenant :: "string \<Rightarrow> tenant_store \<Rightarrow> tenant_store" where
  "RemoveTenant ident ts = AList.delete ident ts"

definition GetTenant :: "string \<Rightarrow> tenant_store \<Rightarrow> tenant option" where
  "GetTenant ident ts = map_of ts ident"

section \<open>The middleware\<close>

text \<open>The comparison runs over both lists of labels from the end.\<close>

definition matchWildcardExtended :: "string \<Rightarrow> string \<Rightarrow> bool" where
  "matchWildcardExtended pattern hostname =
     (if \<not> HasPrefix pattern ''*.'' then False
      else let patternParts = tl (Split (CHR ''.'') pattern); hostParts = Split (CHR ''.'') hostname
           in if length hostParts < length patternParts then False
              else list_all (\<lambda>i. patternParts ! (length patternParts - i) = hostParts ! (length hostParts - i))
                     [1..<Suc (length patternParts)])"

definition default_tenant_config :: TenantMiddlewareConfig where
  "default_tenant_config = \<lparr>HeaderKey = [], QueryKey = [], UseDomain = True\<rparr>"

text \<open>\<open>split\<close> is \<^verbatim>\<open>net.SplitHostPort\<close>; a port other than 80 and 443 stays part of the name.\<close>

definition tenant_hostname :: "(string \<Rightarrow> (string \<times> string) option) \<Rightarrow> string \<Rightarrow> string" where
  "tenant_hostname split host =
     (case split host of Some (h, port) \<Rightarrow> if port = ''80'' \<or> port = ''443'' then h else host | None \<Rightarrow> host)"

definition domain_matches :: "string \<Rightarrow> string \<Rightarrow> tenant \<Rightarrow> bool" where
  "domain_matches host hostname t =
     (case t_domain t of None \<Rightarrow> False
      | Some domain \<Rightarrow> domain = hostname \<or> domain = host \<or> matchWildcardExtended domain hostname)"

fun tenant_by_domain :: "string \<Rightarrow> string \<Rightarrow> tenant_store \<Rightarrow> string" where
  "tenant_by_domain host hostname [] = []"
| "tenant_by_domain host hostname ((ident, t) # ts) =
     (if domain_matches host hostname t then ident else tenant_by_domain host hostname ts)"

definition tenant_id ::
  "TenantMiddlewareConfig \<Rightarrow> (request \<Rightarrow> string \<Rightarrow> string) \<Rightarrow> (string \<Rightarrow> (string \<times> string) option) \<Rightarrow> request \<Rightarrow> tenant_store \<Rightarrow> string" where
  "tenant_id cfg query split r ts =
     (let i0 = (if HeaderKey cfg \<noteq> [] then hget (rHeaders r) (HeaderKey cfg) else []);
          i1 = (if i0 = [] \<and> QueryKey cfg \<noteq> [] then query r (QueryKey cfg) else i0)
      in if i1 = [] \<and> UseDomain cfg then tenant_by_domain (rHost r) (tenant_hostname split (rHost r)) ts else i1)"

definition TenantMiddleware ::
  "TenantMiddlewareConfig option \<Rightarrow> (request \<Rightarrow> string \<Rightarrow> string) \<Rightarrow> (string \<Rightarrow> (string \<times> string) option) \<Rightarrow>
   tenant_store \<Rightarrow> (tenant \<Rightarrow> handler) \<Rightarrow> handler" where
  "TenantMiddleware cfg query split ts next = (\<lambda>r w.
     let ident = tenant_id (case cfg of None \<Rightarrow> default_tenant_config | Some c \<Rightarrow> c) query split r ts
     in if ident = [] then (http_Error ''Tenant not found'' 403 w, False)
        else case GetTenant ident ts of
               None \<Rightarrow> (http_Error (''Tenant '' @ ident @ '' not registered'') 403 w, False)
             | Some t \<Rightarrow> next t r w)"

section \<open>Bots\<close>

definition knownBots :: "string list" where
  "knownBots = [''googlebot'', ''bingbot'', ''slurp'', ''duckduckbot'', ''baiduspider'', ''yandexbot'',
     ''facebookexternalhit'', ''twitterbot'', ''linkedinbot'']"

definition knownAi :: "string list" where
  "knownAi = [''chatgpt'', ''gptbot'', ''claude'', ''perplexity'', ''anthropic-ai'', ''python-requests'', ''curl'']"

definition detect_client :: "string \<Rightarrow> bool \<times> bool" where
  "detect_client userAgent =
     (let ua = ToLower userAgent in (list_ex (Contains ua) knownBots, list_ex (Contains ua) knownAi))"

definition GetClientType :: "bool \<times> bool \<Rightarrow> string" where
  "GetClientType c = (if snd c then ''ai'' else if fst c then ''bot'' else ''human'')"

section \<open>Wildcards\<close>

lemma list_all_from_end:
  "length ps \<le> length hs \<Longrightarrow>
   list_all (\<lambda>i. ps ! (length ps - i) = hs ! (length hs - i)) [1..<Suc (length ps)] \<longleftrightarrow>
   drop (length hs - length ps) hs = ps"
proof
  assume len: "length ps \<le> length hs"
  assume a: "list_all (\<lambda>i. ps ! (length ps - i) = hs ! (length hs - i)) [1..<Suc (length ps)]"
  show "drop (length hs - length ps) hs = ps"
  proof (rule nth_equalityI)
    fix j assume "j < length (drop (length hs - length ps) hs)"
    then have "j < length ps" using len by simp
    have "list_all Q [1..<Suc n] \<Longrightarrow> 1 \<le> i \<Longrightarrow> i \<le> n \<Longrightarrow> Q i" for Q i n
      by (auto simp: list_all_iff simp del: upt_Suc)
    from this [OF a, of "length ps - j"] \<open>j < length ps\<close>
    have "ps ! (length ps - (length ps - j)) = hs ! (length hs - (length ps - j))" by simp
    with \<open>j < length ps\<close> len show "drop (length hs - length ps) hs ! j = ps ! j" by (simp add: add.commute)
  qed (use len in simp)
next
  assume len: "length ps \<le> length hs" and d: "drop (length hs - length ps) hs = ps"
  show "list_all (\<lambda>i. ps ! (length ps - i) = hs ! (length hs - i)) [1..<Suc (length ps)]"
  proof -
    have "ps ! (length ps - i) = hs ! (length hs - i)" if "1 \<le> i" "i \<le> length ps" for i
    proof -
      have "ps ! (length ps - i) = hs ! ((length hs - length ps) + (length ps - i))"
        by (subst d [symmetric]) (use len that in simp)
      with len that show ?thesis by simp
    qed
    then show ?thesis by (simp add: list_all_iff del: upt_Suc)
  qed
qed

lemma Split_snoc_append: "Split c (a @ c # s) = Split c a @ Split c s"
  by (induction a) (auto split: list.split)

text \<open>A wildcard stands for the domain itself and for every name below it.\<close>

lemma matchWildcardExtended_iff:
  "matchWildcardExtended (''*.'' @ d) h \<longleftrightarrow> h = d \<or> (\<exists>sub. h = sub @ ''.'' @ d)"
proof -
  let ?S = "Split (CHR ''.'')"
  have p: "?S (''*.'' @ d) = ''*'' # ?S d" by simp
  have "HasSuffix' \<longleftrightarrow> h = d \<or> (\<exists>sub. h = sub @ ''.'' @ d)"
    if "HasSuffix' \<longleftrightarrow> (\<exists>xs. ?S h = xs @ ?S d)" for HasSuffix'
  proof
    assume HasSuffix'
    with that obtain xs where xs: "?S h = xs @ ?S d" by blast
    show "h = d \<or> (\<exists>sub. h = sub @ ''.'' @ d)"
    proof (cases "xs = []")
      case True
      with xs have "Join (?S h) ''.'' = Join (?S d) ''.''" by simp
      then show ?thesis by simp
    next
      case False
      have "Join (xs @ ys) sep = Join xs sep @ sep @ Join ys sep" if "xs \<noteq> []" "ys \<noteq> []" for xs ys sep
        using that by (induction xs sep rule: Join.induct) (auto simp: Join_Cons)
      from this [OF False, of "?S d" "''.''"] have "Join (?S h) ''.'' = Join xs ''.'' @ ''.'' @ d"
        unfolding xs by simp
      then show ?thesis by auto
    qed
  next
    assume "h = d \<or> (\<exists>sub. h = sub @ ''.'' @ d)"
    then have "\<exists>xs. ?S h = xs @ ?S d" by (auto simp: Split_snoc_append)
    with that show HasSuffix' by blast
  qed
  moreover have "matchWildcardExtended (''*.'' @ d) h \<longleftrightarrow> (\<exists>xs. ?S h = xs @ ?S d)"
  proof (cases "length (?S h) < length (?S d)")
    case True
    then have "\<nexists>xs. ?S h = xs @ ?S d" by (auto dest!: arg_cong [of _ _ length])
    with True show ?thesis unfolding matchWildcardExtended_def p Let_def by simp
  next
    case False
    then have len: "length (?S d) \<le> length (?S h)" by simp
    have "HasPrefix (''*.'' @ d) ''*.''" by (rule HasPrefix_append)
    then have "matchWildcardExtended (''*.'' @ d) h \<longleftrightarrow> drop (length (?S h) - length (?S d)) (?S h) = ?S d"
      unfolding matchWildcardExtended_def p Let_def list.sel using list_all_from_end [OF len] False by simp
    also have "\<dots> \<longleftrightarrow> (\<exists>xs. ?S h = xs @ ?S d)"
      by (metis append_eq_conv_conj append_take_drop_id diff_diff_cancel length_append diff_add_inverse2)
    finally show ?thesis .
  qed
  ultimately show ?thesis by blast
qed

section \<open>Properties\<close>

lemma tenant_by_domain_found:
  "tenant_by_domain host hn ts = ident \<Longrightarrow> ident \<noteq> [] \<Longrightarrow> \<exists>t. (ident, t) \<in> set ts \<and> domain_matches host hn t"
  by (induction host hn ts rule: tenant_by_domain.induct) (auto split: if_splits)

definition names_host :: "string \<Rightarrow> string \<Rightarrow> string \<Rightarrow> bool" where
  "names_host d host hostname \<longleftrightarrow> d = host \<or> d = hostname \<or>
     (\<exists>b. d = ''*.'' @ b \<and> (hostname = b \<or> (\<exists>sub. hostname = sub @ ''.'' @ b)))"

lemma domain_matches_names: "domain_matches host hn t \<Longrightarrow> \<exists>d. t_domain t = Some d \<and> names_host d host hn"
proof (cases "t_domain t")
  case (Some d)
  assume "domain_matches host hn t"
  with Some have "d = hn \<or> d = host \<or> matchWildcardExtended d hn" by (simp add: domain_matches_def)
  moreover have "names_host d host hn" if m: "matchWildcardExtended d hn"
  proof -
    from m obtain b where d: "d = ''*.'' @ b" by (auto simp: matchWildcardExtended_def HasPrefix_iff split: if_splits)
    with m matchWildcardExtended_iff [of b hn] have "hn = b \<or> (\<exists>sub. hn = sub @ ''.'' @ b)" by simp
    with d show ?thesis unfolding names_host_def by blast
  qed
  ultimately have "names_host d host hn" by (auto simp: names_host_def)
  with Some show ?thesis by blast
qed (simp add: domain_matches_def)

lemma tenant_outcome:
  "TenantMiddleware (Some cfg) query split ts next r w =
     (let ident = tenant_id cfg query split r ts
      in case map_of ts ident of
           Some t \<Rightarrow> if ident = [] then (http_Error ''Tenant not found'' 403 w, False) else next t r w
         | None \<Rightarrow> (http_Error (if ident = [] then ''Tenant not found'' else ''Tenant '' @ ident @ '' not registered'') 403 w, False))"
  by (simp add: TenantMiddleware_def GetTenant_def Let_def split: option.split)


definition shop :: tenant where "shop = \<lparr>t_ID = ''shop'', t_Name = ''Shop'', t_domain = Some ''shop.example.com''\<rparr>"

definition rest :: tenant where "rest = \<lparr>t_ID = ''rest'', t_Name = ''Rest'', t_domain = Some ''*.example.com''\<rparr>"

definition shop_request :: request where
  "shop_request = \<lparr>rMethod = ''GET'', rHost = ''shop.example.com'', rPath = ''/'', rRawPath = [], rRawQuery = [], rURLLen = 1,
     rHeaders = [(''X-Tenant'', ''shop'')], rContentLength = 0, rTLS = True, rRemoteAddr = [], rRequestID = None, rParams = None\<rparr>"


text \<open>When two tenants' domains match a host, as an exact name and a wildcard above it do, the tenant
  chosen depends on the iteration order of the map, which Go leaves open.\<close>
theorem tenant_depends_on_order:
  "let serve = (\<lambda>ts. TenantMiddleware None (\<lambda>_ _. []) (\<lambda>_. None) ts (\<lambda>t r w. (w_write (t_Name t) w, False))
                  shop_request (newStatusWriter base_new))
   in mset [(''shop'', shop), (''rest'', rest)] = mset [(''rest'', rest), (''shop'', shop)] \<and>
      bbody (sw_inner (fst (serve [(''shop'', shop), (''rest'', rest)]))) = ''Shop'' \<and>
      bbody (sw_inner (fst (serve [(''rest'', rest), (''shop'', shop)]))) = ''Rest''"
  unfolding Let_def by (intro conjI; (simp; fail)?) code_simp+

end
