(* ===== verification/WebState.thy ===== *)
theory WebState imports GoPrelude begin

text \<open>
  Runtime state of rendered pages (\<^verbatim>\<open>web_framework.go\<close>): the store that keeps a component's properties
  under a random token for thirty minutes, for the visitor who owns it, and the functions that
  put tokens into cached documents. The store's map is an association list with one entry per
  key; tokens are inputs (\<^verbatim>\<open>crypto/rand\<close>), as are the clock and the JSON codec that clones the
  properties. Every operation runs under the store's mutex, so a run is a list of operations.
\<close>

section \<open>The store\<close>

type_synonym 'v props = "(string \<times> 'v) list"

record 'v runtimeStateEntry =
  e_owner :: string
  e_props :: "'v props"
  e_expires :: int

record 'v runtimeStateStore =
  entries :: "(string \<times> 'v runtimeStateEntry) list"
  order :: "string list"
  nextPrune :: "int option"

definition runtimeStateTTL :: int where "runtimeStateTTL = 30 * 60 * 1000000000"

definition runtimeStateLimit :: nat where "runtimeStateLimit = 4096"

definition runtimeStatePrune :: int where "runtimeStatePrune = 60 * 1000000000"

definition newRuntimeStateStore :: "'v runtimeStateStore" where
  "newRuntimeStateStore = \<lparr>entries = [], order = [], nextPrune = None\<rparr>"

definition live :: "'v runtimeStateStore \<Rightarrow> string \<Rightarrow> 'v runtimeStateEntry option" where
  "live s token = map_of (entries s) token"

text \<open>\<open>copy\<close> is encoding followed by decoding; \<open>None\<close> when one of them fails or gives no object.\<close>

definition cloneRuntimeProps :: "('v props \<Rightarrow> 'v props option) \<Rightarrow> 'v props \<Rightarrow> 'v props" where
  "cloneRuntimeProps copy props =
     (if props = [] then [] else case copy props of Some cloned \<Rightarrow> cloned | None \<Rightarrow> props)"

text \<open>The loops pop tokens off the front of the order; a token whose entry is gone is skipped.\<close>

fun discard_from :: "string list \<Rightarrow> (string \<times> 'v runtimeStateEntry) list \<Rightarrow>
    bool \<times> string list \<times> (string \<times> 'v runtimeStateEntry) list" where
  "discard_from [] es = (False, [], es)"
| "discard_from (token # ts) es =
     (if map_of es token \<noteq> None then (True, ts, AList.delete token es) else discard_from ts es)"

definition discardOldestLocked :: "'v runtimeStateStore \<Rightarrow> bool \<times> 'v runtimeStateStore" where
  "discardOldestLocked s =
     (case discard_from (order s) (entries s) of (found, ts, es) \<Rightarrow> (found, s\<lparr>order := ts, entries := es\<rparr>))"

fun prune_from :: "int \<Rightarrow> string list \<Rightarrow> (string \<times> 'v runtimeStateEntry) list \<Rightarrow>
    string list \<times> (string \<times> 'v runtimeStateEntry) list" where
  "prune_from now [] es = ([], es)"
| "prune_from now (token # ts) es =
     (case map_of es token of
        None \<Rightarrow> prune_from now ts es
      | Some e \<Rightarrow> if now < e_expires e then (token # ts, es) else prune_from now ts (AList.delete token es))"

definition pruneExpiredLocked :: "int \<Rightarrow> 'v runtimeStateStore \<Rightarrow> 'v runtimeStateStore" where
  "pruneExpiredLocked now s =
     (case prune_from now (order s) (entries s) of
        (ts, es) \<Rightarrow> s\<lparr>order := ts, entries := es, nextPrune := Some (now + runtimeStatePrune)\<rparr>)"

lemma discard_from_shorter: "discard_from ts es = (True, ts', es') \<Longrightarrow> length ts' < length ts"
  by (induction ts es rule: discard_from.induct) (auto split: if_splits)

function discard_loop :: "'v runtimeStateStore \<Rightarrow> 'v runtimeStateStore" where
  "discard_loop s =
     (if length (entries s) \<ge> runtimeStateLimit
      then (case discardOldestLocked s of (found, s') \<Rightarrow> if found then discard_loop s' else s')
      else s)"
  by auto
termination
  by (relation "measure (\<lambda>s. length (order s))")
    (auto simp: discardOldestLocked_def dest: discard_from_shorter split: prod.splits)

declare discard_loop.simps [simp del]

text \<open>
  \<open>drawn\<close> is the token of \<^verbatim>\<open>newRuntimeStateToken\<close>, \<open>None\<close> when the entropy source fails. \<^verbatim>\<open>Put\<close> and
  \<^verbatim>\<open>PutTrusted\<close> are \<open>put False\<close> and \<open>put True\<close>.
\<close>

definition put ::
  "('v props \<Rightarrow> 'v props option) \<Rightarrow> bool \<Rightarrow> string option \<Rightarrow> int \<Rightarrow> string \<Rightarrow> 'v props \<Rightarrow> 'v runtimeStateStore \<Rightarrow>
     string option \<times> 'v runtimeStateStore" where
  "put copy trusted drawn now owner props s =
     (case drawn of
        None \<Rightarrow> (None, s)
      | Some token \<Rightarrow>
          let props' = (if trusted then props else cloneRuntimeProps copy props);
              s1 = (if (case nextPrune s of None \<Rightarrow> True | Some t \<Rightarrow> \<not> now < t) then pruneExpiredLocked now s else s);
              s2 = discard_loop s1
          in (Some token,
              s2\<lparr>entries := AList.update token \<lparr>e_owner = owner, e_props = props', e_expires = now + runtimeStateTTL\<rparr> (entries s2),
                 order := order s2 @ [token]\<rparr>))"

text \<open>\<^verbatim>\<open>Get\<close> reads the clock twice: \<open>now\<close> for the answer and \<open>again\<close> before the removal.\<close>

definition state_Get ::
  "('v props \<Rightarrow> 'v props option) \<Rightarrow> int \<Rightarrow> int \<Rightarrow> string \<Rightarrow> string \<Rightarrow> 'v runtimeStateStore \<Rightarrow>
     'v props option \<times> 'v runtimeStateStore" where
  "state_Get copy now again owner token s =
     (if token = [] \<or> length token > 128 then (None, s)
      else case live s token of
             None \<Rightarrow> (None, s)
           | Some e \<Rightarrow>
               if e_owner e \<noteq> owner \<or> \<not> now < e_expires e
               then (None, if \<not> again < e_expires e then s\<lparr>entries := AList.delete token (entries s)\<rparr> else s)
               else (Some (cloneRuntimeProps copy (e_props e)), s))"

section \<open>Runs\<close>

datatype 'v state_op =
  OpPut bool "string option" int string "'v props"
| OpGet int int string string

definition state_step :: "('v props \<Rightarrow> 'v props option) \<Rightarrow> 'v state_op \<Rightarrow> 'v runtimeStateStore \<Rightarrow> 'v runtimeStateStore" where
  "state_step copy op s =
     (case op of OpPut trusted drawn now owner props \<Rightarrow> snd (put copy trusted drawn now owner props s)
      | OpGet now again owner token \<Rightarrow> snd (state_Get copy now again owner token s))"

definition state_run :: "('v props \<Rightarrow> 'v props option) \<Rightarrow> 'v state_op list \<Rightarrow> 'v runtimeStateStore \<Rightarrow> 'v runtimeStateStore" where
  "state_run copy ops s = fold (state_step copy) ops s"

definition puts :: "'v state_op list \<Rightarrow> nat" where
  "puts ops = length (filter (\<lambda>op. case op of OpPut _ _ _ _ _ \<Rightarrow> True | _ \<Rightarrow> False) ops)"

text \<open>An operation is harmless to a token until a deadline: it does not draw the token, and its clock is before the deadline.\<close>

fun spares :: "string \<Rightarrow> int \<Rightarrow> 'v state_op \<Rightarrow> bool" where
  "spares token deadline (OpPut trusted drawn now owner props) \<longleftrightarrow> drawn \<noteq> Some token \<and> now < deadline"
| "spares token deadline (OpGet now again owner t) \<longleftrightarrow> now < deadline \<and> again < deadline"

section \<open>Invariants\<close>

definition keyed :: "'v runtimeStateStore \<Rightarrow> bool" where
  "keyed s \<longleftrightarrow> distinct (map fst (entries s)) \<and> fst ` set (entries s) \<subseteq> set (order s)"

lemma set_delete_entries [simp]: "set (AList.delete k es) = {p \<in> set es. fst p \<noteq> k}"
  by (auto simp: AList.delete_eq)

lemma discard_from_facts:
  assumes "discard_from ts es = (found, ts', es')" and "distinct (map fst es)" and "fst ` set es \<subseteq> set ts"
  shows "distinct (map fst es') \<and> fst ` set es' \<subseteq> set ts' \<and> set es' \<subseteq> set es \<and> set ts' \<subseteq> set ts \<and> (\<not> found \<longrightarrow> es' = [])"
  using assms
proof (induction ts es rule: discard_from.induct)
  case (2 token ts es)
  show ?case
  proof (cases "map_of es token")
    case None
    then have "token \<notin> fst ` set es" by (simp add: map_of_eq_None_iff)
    with 2 None show ?thesis by (auto simp: subset_insert)
  next
    case (Some e)
    have "distinct (map fst (AList.delete token es))" "fst ` set (AList.delete token es) \<subseteq> set ts"
      using "2.prems" by (auto simp: distinct_delete image_subset_iff)
    with 2 Some show ?thesis by auto
  qed
qed auto

lemma prune_from_facts:
  assumes "prune_from now ts es = (ts', es')" and "distinct (map fst es)" and "fst ` set es \<subseteq> set ts"
  shows "distinct (map fst es') \<and> fst ` set es' \<subseteq> set ts' \<and> set es' \<subseteq> set es \<and> set ts' \<subseteq> set ts"
  using assms
proof (induction now ts es rule: prune_from.induct)
  case (2 now token ts es)
  show ?case
  proof (cases "map_of es token")
    case None
    then have "token \<notin> fst ` set es" by (simp add: map_of_eq_None_iff)
    with 2 None show ?thesis by (auto simp: subset_insert)
  next
    case (Some e)
    then show ?thesis
    proof (cases "now < e_expires e")
      case False
      have "distinct (map fst (AList.delete token es))" "fst ` set (AList.delete token es) \<subseteq> set ts"
        using "2.prems" by (auto simp: distinct_delete image_subset_iff)
      with 2 Some False show ?thesis by (auto simp:)
    qed (use 2 Some in auto)
  qed
qed auto

text \<open>What both loops keep, for any predicate on entries: nothing is added.\<close>

definition shrinks :: "'v runtimeStateStore \<Rightarrow> 'v runtimeStateStore \<Rightarrow> bool" where
  "shrinks s s' \<longleftrightarrow> keyed s' \<and> set (entries s') \<subseteq> set (entries s) \<and> set (order s') \<subseteq> set (order s)"

lemma shrinks_prune: "keyed s \<Longrightarrow> shrinks s (pruneExpiredLocked now s)"
proof -
  assume k: "keyed s"
  obtain ts es where d: "prune_from now (order s) (entries s) = (ts, es)" by fastforce
  have "distinct (map fst es) \<and> fst ` set es \<subseteq> set ts \<and> set es \<subseteq> set (entries s) \<and> set ts \<subseteq> set (order s)"
    using k by (intro prune_from_facts [OF d]) (auto simp: keyed_def)
  with d show ?thesis by (simp add: shrinks_def keyed_def pruneExpiredLocked_def)
qed

lemma shrinks_discard:
  assumes "keyed s" and "discardOldestLocked s = (found, s')"
  shows "shrinks s s'" and "\<not> found \<Longrightarrow> entries s' = []"
proof -
  obtain b ts es where d: "discard_from (order s) (entries s) = (b, ts, es)" by (metis prod_cases3)
  with assms(2) have s': "found = b" "s' = s\<lparr>order := ts, entries := es\<rparr>" by (auto simp: discardOldestLocked_def)
  have "distinct (map fst es) \<and> fst ` set es \<subseteq> set ts \<and> set es \<subseteq> set (entries s) \<and> set ts \<subseteq> set (order s) \<and> (\<not> b \<longrightarrow> es = [])"
    using assms(1) by (intro discard_from_facts [OF d]) (auto simp: keyed_def)
  with s' show "shrinks s s'" and "\<not> found \<Longrightarrow> entries s' = []" by (auto simp: shrinks_def keyed_def)
qed

lemma shrinks_loop: "keyed s \<Longrightarrow> shrinks s (discard_loop s) \<and> length (entries (discard_loop s)) < runtimeStateLimit"
proof (induction s rule: discard_loop.induct)
  case (1 s)
  obtain found s' where d: "discardOldestLocked s = (found, s')" by fastforce
  note sh = shrinks_discard [OF "1.prems" d]
  show ?case
  proof (cases "length (entries s) \<ge> runtimeStateLimit")
    case False
    with "1.prems" show ?thesis by (subst discard_loop.simps, subst (2) discard_loop.simps) (simp add: shrinks_def)
  next
    case big: True
    show ?thesis
    proof (cases found)
      case True
      have "discard_loop s = discard_loop s'" using big True d by (subst discard_loop.simps) simp
      moreover have "keyed s'" using sh(1) by (simp add: shrinks_def)
      then have "shrinks s' (discard_loop s') \<and> length (entries (discard_loop s')) < runtimeStateLimit"
        using "1.IH" big True d by auto
      ultimately show ?thesis using sh(1) by (auto simp: shrinks_def)
    next
      case False
      have "discard_loop s = s'" using big False d by (subst discard_loop.simps) simp
      with sh False show ?thesis by (simp add: runtimeStateLimit_def)
    qed
  qed
qed

text \<open>Every entry of a run was put by its owner, and the store is bounded.\<close>

definition stored_by :: "('v props \<Rightarrow> 'v props option) \<Rightarrow> 'v state_op list \<Rightarrow> string \<Rightarrow> 'v runtimeStateEntry \<Rightarrow> bool" where
  "stored_by copy ops token e \<longleftrightarrow>
     (\<exists>trusted now props. OpPut trusted (Some token) now (e_owner e) props \<in> set ops \<and>
        e_expires e = now + runtimeStateTTL \<and> e_props e = (if trusted then props else cloneRuntimeProps copy props))"

definition store_ok :: "('v props \<Rightarrow> 'v props option) \<Rightarrow> 'v state_op list \<Rightarrow> 'v runtimeStateStore \<Rightarrow> bool" where
  "store_ok copy ops s \<longleftrightarrow> keyed s \<and> length (entries s) \<le> runtimeStateLimit \<and>
     (\<forall>(token, e) \<in> set (entries s). stored_by copy ops token e)"

lemma stored_by_snoc: "stored_by copy ops token e \<Longrightarrow> stored_by copy (ops @ [op]) token e"
  unfolding stored_by_def set_append by blast

lemma put_shape:
  assumes "keyed s" and "put copy trusted drawn now owner props s = (t, s')"
  shows "(drawn = None \<and> t = None \<and> s' = s) \<or>
    (\<exists>token s2 p'. drawn = Some token \<and> t = drawn \<and> p' = (if trusted then props else cloneRuntimeProps copy props) \<and>
       shrinks s s2 \<and> length (entries s2) < runtimeStateLimit \<and>
       s2 = discard_loop (if (case nextPrune s of None \<Rightarrow> True | Some t \<Rightarrow> \<not> now < t) then pruneExpiredLocked now s else s) \<and>
       s' = s2\<lparr>entries := AList.update token \<lparr>e_owner = owner, e_props = p', e_expires = now + runtimeStateTTL\<rparr> (entries s2),
               order := order s2 @ [token]\<rparr>)"
proof (cases drawn)
  case (Some token)
  define s1 where "s1 = (if (case nextPrune s of None \<Rightarrow> True | Some t \<Rightarrow> \<not> now < t) then pruneExpiredLocked now s else s)"
  have 1: "shrinks s s1" using shrinks_prune [OF assms(1)] assms(1) by (auto simp: s1_def shrinks_def)
  then have 2: "shrinks s1 (discard_loop s1) \<and> length (entries (discard_loop s1)) < runtimeStateLimit"
    by (intro shrinks_loop) (simp add: shrinks_def)
  with 1 have "shrinks s (discard_loop s1)" by (auto simp: shrinks_def)
  with 2 Some assms(2) show ?thesis unfolding put_def s1_def [symmetric] Let_def by auto
qed (use assms in \<open>auto simp: put_def\<close>)

lemma set_update_entries: "set (AList.update k v es) \<subseteq> insert (k, v) (set es)"
  by (induction es) auto

lemma length_update_entries: "length (AList.update k v es) \<le> Suc (length es)"
  by (induction es) auto

lemma store_ok_step:
  assumes "store_ok copy ops s" shows "store_ok copy (ops @ [op]) (state_step copy op s)"
proof (cases op)
  case (OpGet now again owner token)
  have "state_step copy op s = s \<or> state_step copy op s = s\<lparr>entries := AList.delete token (entries s)\<rparr>"
    unfolding OpGet state_step_def state_Get_def by (auto split: option.splits)
  then show ?thesis
  proof
    assume "state_step copy op s = s"
    with assms show ?thesis unfolding store_ok_def by (auto intro: stored_by_snoc)
  next
    assume eq: "state_step copy op s = s\<lparr>entries := AList.delete token (entries s)\<rparr>"
    have "keyed (s\<lparr>entries := AList.delete token (entries s)\<rparr>)"
      using assms by (auto simp: store_ok_def keyed_def distinct_delete image_subset_iff)
    moreover have "length (AList.delete token (entries s)) \<le> runtimeStateLimit"
      using assms length_delete_le [of token "entries s"] by (simp add: store_ok_def)
    ultimately show ?thesis using assms unfolding eq store_ok_def by (auto intro: stored_by_snoc)
  qed
next
  case (OpPut trusted drawn now owner props)
  obtain t s' where p: "put copy trusted drawn now owner props s = (t, s')" by fastforce
  have k: "keyed s" using assms by (simp add: store_ok_def)
  have old: "\<forall>(token, e) \<in> set (entries s). stored_by copy (ops @ [op]) token e"
    using assms by (auto simp: store_ok_def intro: stored_by_snoc)
  have s': "state_step copy op s = s'" using OpPut p by (simp add: state_step_def)
  from put_shape [OF k p] show ?thesis
  proof (elim disjE exE conjE)
    assume "s' = s" with s' old assms show ?thesis by (simp add: store_ok_def)
  next
    fix token s2 p' assume d: "drawn = Some token" and p': "p' = (if trusted then props else cloneRuntimeProps copy props)"
      and sh: "shrinks s s2" and small: "length (entries s2) < runtimeStateLimit"
      and eq: "s' = s2\<lparr>entries := AList.update token \<lparr>e_owner = owner, e_props = p', e_expires = now + runtimeStateTTL\<rparr> (entries s2),
               order := order s2 @ [token]\<rparr>"
    let ?e = "\<lparr>e_owner = owner, e_props = p', e_expires = now + runtimeStateTTL\<rparr>"
    have new: "stored_by copy (ops @ [op]) token ?e" unfolding stored_by_def OpPut d p' by auto
    have "keyed s'" using sh eq set_update_entries [of token ?e "entries s2"]
      by (auto simp: shrinks_def keyed_def distinct_update image_subset_iff)
    moreover have "length (entries s') \<le> runtimeStateLimit"
      using small length_update_entries [of token ?e "entries s2"] eq by simp
    moreover have "\<forall>(tk, e) \<in> set (entries s'). stored_by copy (ops @ [op]) tk e"
    proof (clarify)
      fix tk e assume "(tk, e) \<in> set (entries s')"
      then have "(tk, e) = (token, ?e) \<or> (tk, e) \<in> set (entries s)"
        using set_update_entries [of token ?e "entries s2"] eq sh by (auto simp: shrinks_def)
      with new old show "stored_by copy (ops @ [op]) tk e" by auto
    qed
    ultimately show ?thesis using s' by (simp add: store_ok_def)
  qed
qed

lemma store_ok_run: "store_ok copy ops (state_run copy ops newRuntimeStateStore)"
  unfolding state_run_def
proof (induction ops rule: rev_induct)
  case (snoc op ops)
  from store_ok_step [OF this, of op] show ?case by simp
qed (simp add: store_ok_def keyed_def newRuntimeStateStore_def)

section \<open>A token is kept\<close>

definition held :: "string \<Rightarrow> 'v runtimeStateEntry \<Rightarrow> nat \<Rightarrow> 'v runtimeStateStore \<Rightarrow> bool" where
  "held token e n s \<longleftrightarrow> keyed s \<and> live s token = Some e \<and>
     (\<exists>pre post. order s = pre @ token # post \<and> token \<notin> set pre \<and> length post \<le> n)"

lemma heldI:
  "keyed s \<Longrightarrow> live s token = Some e \<Longrightarrow> order s = pre @ token # post \<Longrightarrow> token \<notin> set pre \<Longrightarrow> length post \<le> n \<Longrightarrow> held token e n s"
  unfolding held_def by blast

lemma prune_from_held:
  assumes "map_of es token = Some e" and "now < e_expires e" and "token \<notin> set pre"
  shows "\<exists>pre' es'. prune_from now (pre @ token # post) es = (pre' @ token # post, es') \<and> token \<notin> set pre' \<and> map_of es' token = Some e"
  using assms
proof (induction pre arbitrary: es)
  case (Cons a pre)
  show ?case
  proof (cases "map_of es a")
    case None
    with Cons show ?thesis by auto
  next
    case (Some f)
    show ?thesis
    proof (cases "now < e_expires f")
      case True
      with Some Cons show ?thesis by (intro exI [of _ "a # pre"]) auto
    next
      case False
      have "map_of (AList.delete a es) token = Some e" using Cons.prems by (simp add: delete_conv')
      with Cons.IH [of "AList.delete a es"] Cons.prems Some False show ?thesis by auto
    qed
  qed
qed (auto)

lemma discard_from_held:
  assumes "map_of es token = Some e" and "token \<notin> set pre" and "\<exists>a\<in>set pre. map_of es a \<noteq> None"
  shows "\<exists>pre' es'. discard_from (pre @ token # post) es = (True, pre' @ token # post, es') \<and> token \<notin> set pre' \<and> map_of es' token = Some e"
  using assms
proof (induction pre arbitrary: es)
  case (Cons a pre)
  show ?case
  proof (cases "map_of es a")
    case None
    with Cons show ?thesis by auto
  next
    case (Some f)
    have "map_of (AList.delete a es) token = Some e" using Cons.prems by (simp add: delete_conv')
    with Some Cons.prems show ?thesis by auto
  qed
qed auto

lemma held_prune: "held token e n s \<Longrightarrow> now < e_expires e \<Longrightarrow> held token e n (pruneExpiredLocked now s)"
proof -
  assume h: "held token e n s" and t: "now < e_expires e"
  from h obtain pre post where o: "order s = pre @ token # post" "token \<notin> set pre" "length post \<le> n" by (auto simp: held_def)
  have "map_of (entries s) token = Some e" using h by (simp add: held_def live_def)
  from prune_from_held [OF this t o(2)] obtain pre' es' where
    "prune_from now (pre @ token # post) (entries s) = (pre' @ token # post, es')" "token \<notin> set pre'" "map_of es' token = Some e"
    by blast
  moreover have "keyed (pruneExpiredLocked now s)" using shrinks_prune h by (auto simp: held_def shrinks_def)
  ultimately show ?thesis using o
    by (intro heldI [where pre = pre' and post = post]) (auto simp: pruneExpiredLocked_def live_def)
qed

lemma held_discard:
  assumes h: "held token e n s" and n: "Suc n < runtimeStateLimit" and "length (entries s) \<ge> runtimeStateLimit"
  shows "held token e n (snd (discardOldestLocked s))"
proof -
  from h obtain pre post where o: "order s = pre @ token # post" "token \<notin> set pre" "length post \<le> n" by (auto simp: held_def)
  have m: "map_of (entries s) token = Some e" and k: "keyed s" using h by (auto simp: held_def live_def)
  have "\<exists>a\<in>set pre. map_of (entries s) a \<noteq> None"
  proof (rule ccontr)
    assume "\<not> ?thesis"
    then have "\<forall>a\<in>set pre. a \<notin> fst ` set (entries s)" by (auto simp: map_of_eq_None_iff)
    then have "fst ` set (entries s) \<subseteq> insert token (set post)" using k o by (auto simp: keyed_def)
    then have "fst ` set (entries s) \<subseteq> set (token # post)" by simp
    then have "card (fst ` set (entries s)) \<le> card (set (token # post))" by (rule card_mono [rotated]) simp
    also have "\<dots> \<le> length (token # post)" by (rule card_length)
    finally have "card (fst ` set (entries s)) \<le> Suc (length post)" by simp
    moreover have "card (fst ` set (entries s)) = length (entries s)"
      using k distinct_card [of "map fst (entries s)"] by (simp add: keyed_def)
    ultimately show False using assms o by linarith
  qed
  from discard_from_held [OF m o(2) this] obtain pre' es' where
    "discard_from (pre @ token # post) (entries s) = (True, pre' @ token # post, es')" "token \<notin> set pre'" "map_of es' token = Some e"
    by blast
  moreover obtain b s' where d: "discardOldestLocked s = (b, s')" by fastforce
  moreover have "keyed s'" using shrinks_discard(1) [OF k d] by (simp add: shrinks_def)
  ultimately show ?thesis using o
    by (intro heldI [where pre = pre' and post = post]) (auto simp: discardOldestLocked_def live_def)
qed

lemma held_loop: "held token e n s \<Longrightarrow> Suc n < runtimeStateLimit \<Longrightarrow> held token e n (discard_loop s)"
proof (induction s rule: discard_loop.induct)
  case (1 s)
  obtain found s' where d: "discardOldestLocked s = (found, s')" by fastforce
  show ?case
  proof (cases "length (entries s) \<ge> runtimeStateLimit")
    case True
    then have h: "held token e n s'" using held_discard "1.prems" d by fastforce
    show ?thesis
    proof (cases found)
      case f: True
      with "1.IH" True d h "1.prems" have "held token e n (discard_loop s')" by auto
      with True d f show ?thesis by (subst discard_loop.simps) simp
    qed (use True d h in \<open>subst discard_loop.simps, simp\<close>)
  qed (use "1.prems" in \<open>subst discard_loop.simps, simp\<close>)
qed

lemma held_put:
  assumes h: "held token e n s" and n: "Suc n < runtimeStateLimit" and t: "now < e_expires e" and d: "drawn \<noteq> Some token"
  shows "held token e (Suc n) (snd (put copy trusted drawn now owner props s))"
proof -
  obtain r s' where p: "put copy trusted drawn now owner props s = (r, s')" by fastforce
  have k: "keyed s" using h by (simp add: held_def)
  have up: "held token e (Suc n) s" using h unfolding held_def by (meson le_SucI)
  from put_shape [OF k p] have "held token e (Suc n) s'"
  proof (elim disjE exE conjE)
    assume "s' = s" with up show ?thesis by simp
  next
    fix tk s2 p'
    assume dr: "drawn = Some tk" and sh: "shrinks s s2"
      and s2: "s2 = discard_loop (if (case nextPrune s of None \<Rightarrow> True | Some t \<Rightarrow> \<not> now < t) then pruneExpiredLocked now s else s)"
      and eq: "s' = s2\<lparr>entries := AList.update tk \<lparr>e_owner = owner, e_props = p', e_expires = now + runtimeStateTTL\<rparr> (entries s2),
               order := order s2 @ [tk]\<rparr>"
    have "held token e n s2" unfolding s2 by (intro held_loop n) (use held_prune [OF h t] h in simp)
    then obtain pre post where o: "order s2 = pre @ token # post" "token \<notin> set pre" "length post \<le> n" "live s2 token = Some e"
      by (auto simp: held_def)
    have "keyed s'" using sh eq set_update_entries [of tk _ "entries s2"]
      by (fastforce simp: shrinks_def keyed_def distinct_update image_subset_iff)
    moreover have "tk \<noteq> token" using d dr by simp
    ultimately show ?thesis using o eq
      by (intro heldI [where pre = pre and post = "post @ [tk]"]) (auto simp: live_def update_conv')
  qed
  with p show ?thesis by simp
qed

lemma held_get:
  assumes h: "held token e n s" and t: "again < e_expires e"
  shows "held token e n (snd (state_Get copy now again owner tk s))"
proof (cases "snd (state_Get copy now again owner tk s) = s")
  case False
  then obtain f where l: "live s tk = Some f" by (cases "live s tk") (auto simp: state_Get_def)
  with False have f: "snd (state_Get copy now again owner tk s) = s\<lparr>entries := AList.delete tk (entries s)\<rparr>"
      "\<not> again < e_expires f"
    by (auto simp: state_Get_def split: if_splits)
  from h t l f(2) have "tk \<noteq> token" by (auto simp: held_def)
  with f(1) h show ?thesis
    by (auto simp: held_def keyed_def live_def distinct_delete image_subset_iff delete_conv')
qed (use h in simp)

lemma held_run:
  assumes "held token e n s" and "n + puts ops < runtimeStateLimit" and "\<forall>op\<in>set ops. spares token (e_expires e) op"
  shows "held token e (n + puts ops) (state_run copy ops s)"
  using assms
proof (induction ops arbitrary: n s)
  case (Cons op ops)
  show ?case
  proof (cases op)
    case (OpPut trusted drawn now owner props)
    have n: "n + Suc (puts ops) < runtimeStateLimit" using Cons.prems(2) OpPut by (simp add: puts_def)
    have "held token e (Suc n) (state_step copy op s)"
      using held_put [OF Cons.prems(1)] Cons.prems n OpPut by (simp add: state_step_def)
    from Cons.IH [OF this] Cons.prems n OpPut show ?thesis by (simp add: puts_def state_run_def)
  next
    case (OpGet now again owner tk)
    have "held token e n (state_step copy op s)"
      using held_get [OF Cons.prems(1)] Cons.prems OpGet by (simp add: state_step_def)
    from Cons.IH [OF this] Cons.prems OpGet show ?thesis by (simp add: puts_def state_run_def)
  qed
qed (auto simp: puts_def state_run_def)

lemma put_held:
  assumes k: "keyed s" and f: "token \<notin> set (order s)" and p: "put copy trusted (Some token) now owner props s = (r, s')"
  shows "held token \<lparr>e_owner = owner, e_props = (if trusted then props else cloneRuntimeProps copy props),
           e_expires = now + runtimeStateTTL\<rparr> 0 s'"
  using put_shape [OF k p]
proof (elim disjE exE conjE)
  fix tk s2 p'
  assume dr: "Some token = Some tk" and sh: "shrinks s s2" and p': "p' = (if trusted then props else cloneRuntimeProps copy props)"
    and eq: "s' = s2\<lparr>entries := AList.update tk \<lparr>e_owner = owner, e_props = p', e_expires = now + runtimeStateTTL\<rparr> (entries s2),
             order := order s2 @ [tk]\<rparr>"
  have "keyed s'" using sh eq set_update_entries [of tk _ "entries s2"]
    by (fastforce simp: shrinks_def keyed_def distinct_update image_subset_iff)
  with sh f eq dr p' show ?thesis
    by (intro heldI [where pre = "order s2" and post = "[]"]) (auto simp: live_def update_conv' shrinks_def)
qed (auto)

section \<open>Tokens in documents\<close>

definition statePrefix :: string where "statePrefix = ''data-gosh-state='' @ [CHR 0x22]"

function replace_tokens_loop :: "string \<Rightarrow> (string \<times> string) list \<Rightarrow> string" where
  "replace_tokens_loop source replacements =
     (case Cut source statePrefix of
        None \<Rightarrow> source
      | Some (before, rest) \<Rightarrow>
          (case Cut rest [CHR 0x22] of
             None \<Rightarrow> source
           | Some (token, tail) \<Rightarrow>
               before @ statePrefix @ (case map_of replacements token of Some replacement \<Rightarrow> replacement | None \<Rightarrow> token) @
               [CHR 0x22] @ replace_tokens_loop tail replacements))"
  by auto
termination
proof (relation "measure (\<lambda>(source, r). length source)", simp)
  fix source replacements x before rest y token tail
  assume "Cut source statePrefix = Some x" "(before, rest) = x" "Cut rest [CHR 0x22] = Some y" "(token, tail) = y"
  then have "source = before @ statePrefix @ token @ [CHR 0x22] @ tail" by (auto dest!: Cut_Some)
  then show "((tail, replacements :: (string \<times> string) list), source, replacements) \<in> measure (\<lambda>(source, r). length source)" by simp
qed

definition replaceRuntimeStateTokens :: "string \<Rightarrow> (string \<times> string) list \<Rightarrow> string" where
  "replaceRuntimeStateTokens source replacements =
     (if source = [] \<or> replacements = [] then source else replace_tokens_loop source replacements)"

text \<open>The attribute is cut out and the text is scanned again from its start.\<close>

function removeRuntimeStateAttributes :: "string \<Rightarrow> string" where
  "removeRuntimeStateAttributes source =
     (case Cut source (CHR '' '' # statePrefix) of
        None \<Rightarrow> source
      | Some (before, rest) \<Rightarrow>
          (case Cut rest [CHR 0x22] of
             None \<Rightarrow> source
           | Some (token, tail) \<Rightarrow> removeRuntimeStateAttributes (before @ tail)))"
  by auto
termination
proof (relation "measure length", simp)
  fix source x before rest y token tail
  assume "Cut source (CHR '' '' # statePrefix) = Some x" "(before, rest) = x" "Cut rest [CHR 0x22] = Some y" "(token, tail) = y"
  then have "source = before @ (CHR '' '' # statePrefix) @ token @ [CHR 0x22] @ tail" by (auto dest!: Cut_Some)
  then show "(before @ tail, source) \<in> measure length" by simp
qed

declare replace_tokens_loop.simps [simp del] removeRuntimeStateAttributes.simps [simp del]

lemma removed_attributes:
  "Cut (removeRuntimeStateAttributes source) (CHR '' '' # statePrefix) = Some (before, rest) \<Longrightarrow> Cut rest [CHR 0x22] = None"
proof (induction source rule: removeRuntimeStateAttributes.induct)
  case (1 source)
  show ?case
  proof (cases "Cut source (CHR '' '' # statePrefix)")
    case None
    with "1.prems" show ?thesis by (simp add: removeRuntimeStateAttributes.simps [of source])
  next
    case (Some p)
    obtain b r where p: "p = (b, r)" by fastforce
    show ?thesis
    proof (cases "Cut r [CHR 0x22]")
      case n: None
      with Some p "1.prems" show ?thesis by (simp add: removeRuntimeStateAttributes.simps [of source])
    next
      case s: (Some q)
      obtain tk tl where q: "q = (tk, tl)" by fastforce
      from s Some p q have "removeRuntimeStateAttributes source = removeRuntimeStateAttributes (b @ tl)"
        by (simp add: removeRuntimeStateAttributes.simps [of source])
      with "1.IH" [OF Some p [symmetric] s q [symmetric]] "1.prems" show ?thesis by simp
    qed
  qed
qed

definition markerPrefix :: string where "markerPrefix = ''__GOSH_''"

definition cachedDocumentNonceMarker :: string where "cachedDocumentNonceMarker = ''__GOSH_CSP_NONCE__''"

definition cachedDocumentRootMarker :: string where "cachedDocumentRootMarker = ''__GOSH_ROOT_STATE__''"

definition cachedDocumentStatePrefix :: string where "cachedDocumentStatePrefix = ''__GOSH_STATE_''"

function replace_markers_loop :: "string \<Rightarrow> (string \<times> string) list \<Rightarrow> string" where
  "replace_markers_loop body replacements =
     (case Cut body markerPrefix of
        None \<Rightarrow> body
      | Some (before, rest) \<Rightarrow>
          (case Cut rest ''__'' of
             None \<Rightarrow> body
           | Some (name, tail) \<Rightarrow>
               let marker = markerPrefix @ name @ ''__''
               in before @ (case map_of replacements marker of Some replacement \<Rightarrow> replacement | None \<Rightarrow> marker) @
                  replace_markers_loop tail replacements))"
  by auto
termination
proof (relation "measure (\<lambda>(body, r). length body)", simp)
  fix body replacements x before rest y name tail z
  assume "Cut body markerPrefix = Some x" "(before, rest) = x" "Cut rest ''__'' = Some y" "(name, tail) = y"
  then have "body = before @ markerPrefix @ name @ ''__'' @ tail" by (auto dest!: Cut_Some)
  then show "((tail, replacements :: (string \<times> string) list), body, replacements) \<in> measure (\<lambda>(body, r). length body)" by simp
qed

declare replace_markers_loop.simps [simp del]

definition replaceCachedDocumentMarkers :: "string \<Rightarrow> (string \<times> string) list \<Rightarrow> string" where
  "replaceCachedDocumentMarkers body replacements =
     (if body = [] \<or> replacements = [] then body else replace_markers_loop body replacements)"

section \<open>Page plans\<close>

text \<open>Two maps with the same life time and an order (\<^verbatim>\<open>web_page_plans.go\<close>).\<close>

record 'p page_plans =
  pagePlans :: "(string \<times> 'p) list"
  pagePlanExpiry :: "(string \<times> int) list"
  pagePlanOrder :: "string list"

fun prune_plans :: "int \<Rightarrow> string list \<Rightarrow> (string \<times> 'p) list \<Rightarrow> (string \<times> int) list \<Rightarrow> 'p page_plans" where
  "prune_plans now [] ps es = \<lparr>pagePlans = ps, pagePlanExpiry = es, pagePlanOrder = []\<rparr>"
| "prune_plans now (token # ts) ps es =
     (if (case map_of es token of Some expires \<Rightarrow> now < expires | None \<Rightarrow> False) \<and> length ps < runtimeStateLimit
      then \<lparr>pagePlans = ps, pagePlanExpiry = es, pagePlanOrder = token # ts\<rparr>
      else prune_plans now ts (AList.delete token ps) (AList.delete token es))"

definition prunePagePlansLocked :: "int \<Rightarrow> 'p page_plans \<Rightarrow> 'p page_plans" where
  "prunePagePlansLocked now a = prune_plans now (pagePlanOrder a) (pagePlans a) (pagePlanExpiry a)"

definition rememberPagePlan :: "int \<Rightarrow> string \<Rightarrow> 'p \<Rightarrow> 'p page_plans \<Rightarrow> 'p page_plans" where
  "rememberPagePlan now token plan a0 =
     (let a = prunePagePlansLocked now a0
      in \<lparr>pagePlans = AList.update token plan (pagePlans a),
          pagePlanExpiry = AList.update token (now + runtimeStateTTL) (pagePlanExpiry a),
          pagePlanOrder = (if map_of (pagePlans a) token = None then pagePlanOrder a @ [token] else pagePlanOrder a)\<rparr>)"

definition lookupPagePlan :: "int \<Rightarrow> string \<Rightarrow> 'p page_plans \<Rightarrow> 'p option \<times> 'p page_plans" where
  "lookupPagePlan now token a =
     (case map_of (pagePlanExpiry a) token of
        Some expires \<Rightarrow>
          if \<not> now < expires
          then (None, a\<lparr>pagePlans := AList.delete token (pagePlans a), pagePlanExpiry := AList.delete token (pagePlanExpiry a)\<rparr>)
          else (map_of (pagePlans a) token, a)
      | None \<Rightarrow> (map_of (pagePlans a) token, a))"

definition plans_ok :: "'p page_plans \<Rightarrow> bool" where
  "plans_ok a \<longleftrightarrow> fst ` set (pagePlans a) \<subseteq> set (pagePlanOrder a) \<and> length (pagePlans a) \<le> runtimeStateLimit"

lemma prune_plans_facts:
  "fst ` set ps \<subseteq> set ts \<Longrightarrow>
     fst ` set (pagePlans (prune_plans now ts ps es)) \<subseteq> set (pagePlanOrder (prune_plans now ts ps es)) \<and>
     length (pagePlans (prune_plans now ts ps es)) < runtimeStateLimit"
proof (induction now ts ps es rule: prune_plans.induct)
  case (2 now token ts ps es)
  have "fst ` set (AList.delete token ps) \<subseteq> set ts" using "2.prems" by (auto simp: AList.delete_eq image_subset_iff)
  with 2 show ?case by (auto simp del: set_delete_entries)
qed (simp add: runtimeStateLimit_def)

lemma plans_ok_remember: "plans_ok a \<Longrightarrow> plans_ok (rememberPagePlan now token plan a)"
proof -
  assume "plans_ok a"
  let ?b = "prunePagePlansLocked now a"
  have b: "fst ` set (pagePlans ?b) \<subseteq> set (pagePlanOrder ?b) \<and> length (pagePlans ?b) < runtimeStateLimit"
    using \<open>plans_ok a\<close> unfolding prunePagePlansLocked_def by (intro prune_plans_facts) (simp add: plans_ok_def)
  moreover have "map_of (pagePlans ?b) token \<noteq> None \<Longrightarrow> token \<in> set (pagePlanOrder ?b)"
    using b by (auto simp: map_of_eq_None_iff)
  moreover have "fst ` set (AList.update token plan (pagePlans ?b)) \<subseteq> insert token (fst ` set (pagePlans ?b))"
    using image_mono [OF set_update_entries [of token plan "pagePlans ?b"], of fst] by simp
  moreover have "length (AList.update token plan (pagePlans ?b)) \<le> runtimeStateLimit"
    using b length_update_entries [of token plan "pagePlans ?b"] by linarith
  ultimately show ?thesis by (auto simp: plans_ok_def rememberPagePlan_def Let_def)
qed

lemma plans_ok_lookup: "plans_ok a \<Longrightarrow> plans_ok (snd (lookupPagePlan now token a))"
proof -
  assume "plans_ok a"
  then have "plans_ok (a\<lparr>pagePlans := AList.delete token (pagePlans a), pagePlanExpiry := AList.delete token (pagePlanExpiry a)\<rparr>)"
    using length_delete_le [of token "pagePlans a"] by (auto simp: plans_ok_def)
  with \<open>plans_ok a\<close> show ?thesis by (auto simp: lookupPagePlan_def split: option.splits)
qed

lemma remembered: "fst (lookupPagePlan t token (rememberPagePlan now token plan a)) = (if t < now + runtimeStateTTL then Some plan else None)"
  by (simp add: lookupPagePlan_def rememberPagePlan_def Let_def)

section \<open>Cached documents\<close>

record ('v, 'p) cachedDocument =
  cd_Plan :: 'p
  cd_Body :: string
  cd_States :: "(string \<times> 'v props) list"
  cd_PublicStatic :: bool

record ('v, 'p) app_state =
  runtimeState :: "'v runtimeStateStore"
  plans :: "'p page_plans"

text \<open>The cookie of \<^verbatim>\<open>runtimeOwner\<close>: its value, and whether it has to be set; \<open>None\<close> without entropy.\<close>

definition runtimeOwner :: "string option \<Rightarrow> string option \<Rightarrow> (string \<times> bool) option" where
  "runtimeOwner cookie drawn =
     (case cookie of
        Some v \<Rightarrow> if v \<noteq> [] then Some (v, False) else map_option (\<lambda>o1. (o1, True)) drawn
      | None \<Rightarrow> map_option (\<lambda>o1. (o1, True)) drawn)"

text \<open>The loop over the states: each puts its properties under a drawn token, at the time it reads.\<close>

fun put_states ::
  "('v props \<Rightarrow> 'v props option) \<Rightarrow> string \<Rightarrow> 'p \<Rightarrow> (string \<times> 'v props \<times> string option \<times> int) list \<Rightarrow>
     ('v, 'p) app_state \<Rightarrow> (string \<times> string) list \<Rightarrow> (string \<times> string) list option \<times> ('v, 'p) app_state" where
  "put_states copy owner plan [] a reps = (Some reps, a)"
| "put_states copy owner plan ((marker, props, drawn, now) # sts) a reps =
     (case put copy True drawn now owner props (runtimeState a) of
        (None, s) \<Rightarrow> (None, a\<lparr>runtimeState := s\<rparr>)
      | (Some token, s) \<Rightarrow>
          put_states copy owner plan sts
            (a\<lparr>runtimeState := s, plans := (if marker = cachedDocumentRootMarker then rememberPagePlan now token plan (plans a) else plans a)\<rparr>)
            ((marker, token) # reps))"

definition csp_policy :: "string \<Rightarrow> string" where
  "csp_policy nonce =
     concat [''default-src 'self' https: data: blob:; '',
       ''script-src 'nonce-'', nonce, [CHR 0x27], '' 'strict-dynamic'; '',
       ''script-src-elem 'self' 'nonce-'', nonce, [CHR 0x27], ''; '',
       ''style-src 'self' https: 'nonce-'', nonce, [CHR 0x27], ''; '',
       ''style-src-attr 'none'; '',
       ''img-src 'self' https: data: blob:; font-src 'self' https: data:; media-src 'self' https: blob:; '',
       ''frame-src 'self' https:; connect-src 'self' https: wss:; worker-src 'self' blob:; '',
       ''object-src 'none'; base-uri 'self'; form-action 'self'; frame-ancestors 'self'', [CHR 0x27]]"

definition setCSPHeaders :: "string \<Rightarrow> header \<Rightarrow> header" where
  "setCSPHeaders nonce h =
     hset ''Referrer-Policy'' ''strict-origin-when-cross-origin'' (hset ''X-Content-Type-Options'' ''nosniff''
       (hset ''Content-Security-Policy'' (csp_policy nonce) h))"

definition setPublicStaticCSPHeaders :: "header \<Rightarrow> header" where
  "setPublicStaticCSPHeaders h =
     hset ''Referrer-Policy'' ''strict-origin-when-cross-origin'' (hset ''X-Content-Type-Options'' ''nosniff''
       (hset ''Content-Security-Policy'' (concat [''default-src 'self' https: data: blob:; '',
          ''script-src 'none'; '',
          ''style-src 'self' https: 'unsafe-inline'; style-src-attr 'none'; '',
          ''img-src 'self' https: data: blob:; font-src 'self' https: data:; media-src 'self' https: blob:; '',
          ''frame-src 'self' https:; connect-src 'self' https: wss:; worker-src 'self' blob:; '',
          ''object-src 'none'; base-uri 'self'; form-action 'self'; frame-ancestors 'self'', [CHR 0x27]]) h))"

text \<open>
  What the call draws: the owner when the cookie has none, a token and a time for each state in the
  order of the map, and the nonce. The outcome is the body, \<open>None\<close> on an error; the cookie to set,
  the headers and the state of the application are kept either way.
\<close>

record draws =
  d_owner :: "string option"
  d_states :: "(string option \<times> int) list"
  d_nonce :: "string option"

definition state_draws :: "(string \<times> 'v props) list \<Rightarrow> draws \<Rightarrow> (string \<times> 'v props \<times> string option \<times> int) list" where
  "state_draws states d = map (\<lambda>((marker, props), drawn, now). (marker, props, drawn, now)) (zip states (d_states d))"

definition materializeCachedDocument ::
  "('v props \<Rightarrow> 'v props option) \<Rightarrow> string option \<Rightarrow> draws \<Rightarrow> ('v, 'p) cachedDocument option \<Rightarrow> header \<Rightarrow> ('v, 'p) app_state \<Rightarrow>
     string option \<times> string option \<times> header \<times> ('v, 'p) app_state" where
  "materializeCachedDocument copy cookie d document h a =
     (case document of
        None \<Rightarrow> (None, None, h, a)
      | Some doc \<Rightarrow>
          if cd_PublicStatic doc then (Some (cd_Body doc), None, setPublicStaticCSPHeaders h, a)
          else case runtimeOwner cookie (d_owner d) of
                 None \<Rightarrow> (None, None, h, a)
               | Some (owner, fresh) \<Rightarrow>
                   let set_cookie = (if fresh then Some owner else None)
                   in case put_states copy owner (cd_Plan doc) (state_draws (cd_States doc) d) a [] of
                        (None, a') \<Rightarrow> (None, set_cookie, h, a')
                      | (Some reps, a') \<Rightarrow>
                          (case d_nonce d of
                             None \<Rightarrow> (None, set_cookie, h, a')
                           | Some nonce \<Rightarrow>
                               (Some (replaceCachedDocumentMarkers (cd_Body doc) ((cachedDocumentNonceMarker, nonce) # reps)),
                                set_cookie, setCSPHeaders nonce h, a')))"

section \<open>Markers\<close>

text \<open>A document as the renderer leaves it: texts and the names of the markers between them.\<close>

definition piece_text :: "string \<times> string \<Rightarrow> string" where
  "piece_text p = fst p @ markerPrefix @ snd p @ ''__''"

definition piece_filled :: "(string \<times> string) list \<Rightarrow> string \<times> string \<Rightarrow> string" where
  "piece_filled reps p =
     fst p @ (case map_of reps (markerPrefix @ snd p @ ''__'') of Some r \<Rightarrow> r | None \<Rightarrow> markerPrefix @ snd p @ ''__'')"

definition piece_ok :: "string \<times> string \<Rightarrow> bool" where
  "piece_ok p \<longleftrightarrow> Index (fst p @ markerPrefix) markerPrefix = Some (length (fst p)) \<and> Index (snd p @ ''__'') ''__'' = Some (length (snd p))"

lemma Cut_piece: "Index (a @ sep) sep = Some (length a) \<Longrightarrow> Cut (a @ sep @ b) sep = Some (a, b)"
  using Index_append [of "a @ sep" sep "length a" b] by (simp add: Cut_def)

lemma replace_markers_pieces:
  assumes "\<forall>p\<in>set pieces. piece_ok p" and "Index final markerPrefix = None"
  shows "replace_markers_loop (concat (map piece_text pieces) @ final) reps = concat (map (piece_filled reps) pieces) @ final"
  using assms
proof (induction pieces)
  case Nil
  then show ?case by (subst replace_markers_loop.simps) (simp add: Cut_def)
next
  case (Cons p pieces)
  let ?rest = "concat (map piece_text pieces) @ final"
  have ok: "piece_ok p" using Cons.prems by simp
  have 1: "Cut (fst p @ markerPrefix @ (snd p @ ''__'' @ ?rest)) markerPrefix = Some (fst p, snd p @ ''__'' @ ?rest)"
    using ok by (intro Cut_piece) (simp add: piece_ok_def)
  have 2: "Cut (snd p @ ''__'' @ ?rest) ''__'' = Some (snd p, ?rest)"
    using ok Cut_piece [of "snd p" "''__''" ?rest] by (simp add: piece_ok_def)
  have "replace_markers_loop ?rest reps = concat (map (piece_filled reps) pieces) @ final" using Cons by simp
  with 1 2 show ?case by (subst replace_markers_loop.simps) (simp add: piece_text_def piece_filled_def Let_def)
qed

lemma put_states_run:
  assumes "put_states copy owner plan sts a reps = (Some reps', a')"
  shows "runtimeState a' = state_run copy (map (\<lambda>(m, props, drawn, now). OpPut True drawn now owner props) sts) (runtimeState a) \<and>
      (\<forall>(m, props, drawn, now) \<in> set sts. drawn \<noteq> None) \<and>
      reps' = rev (map (\<lambda>(m, props, drawn, now). (m, the drawn)) sts) @ reps"
  using assms
proof (induction copy owner plan sts a reps rule: put_states.induct)
  case (2 copy owner plan marker props drawn now sts a reps)
  obtain r s where p: "put copy True drawn now owner props (runtimeState a) = (r, s)" by fastforce
  show ?case
  proof (cases r)
    case (Some token)
    with p have "drawn = Some token" by (auto simp: put_def Let_def split: option.splits)
    with 2 p Some show ?thesis by (auto simp: state_run_def state_step_def)
  qed (use 2 p in auto)
qed (simp add: state_run_def)

section \<open>What the store promises\<close>

definition drawn_by :: "'v state_op \<Rightarrow> string option" where
  "drawn_by op = (case op of OpPut trusted drawn now owner props \<Rightarrow> drawn | OpGet now again owner token \<Rightarrow> None)"

lemma order_step: "keyed s \<Longrightarrow> token \<in> set (order (state_step copy op s)) \<Longrightarrow> token \<in> set (order s) \<or> drawn_by op = Some token"
proof (cases op)
  case (OpPut trusted drawn now owner props)
  assume k: "keyed s" and tok: "token \<in> set (order (state_step copy op s))"
  obtain r s' where p: "put copy trusted drawn now owner props s = (r, s')" by fastforce
  have "token \<in> set (order s')" using tok p OpPut by (simp add: state_step_def)
  with put_shape [OF k p] OpPut show ?thesis by (auto simp: shrinks_def drawn_by_def)
qed (auto simp: state_step_def state_Get_def split: option.splits if_splits)

lemma keyed_run: "keyed (state_run copy ops newRuntimeStateStore)"
  using store_ok_run unfolding store_ok_def by blast

lemma order_run: "token \<in> set (order (state_run copy ops newRuntimeStateStore)) \<Longrightarrow> \<exists>op\<in>set ops. drawn_by op = Some token"
proof (induction ops rule: rev_induct)
  case (snoc op ops)
  have "state_run copy (ops @ [op]) newRuntimeStateStore = state_step copy op (state_run copy ops newRuntimeStateStore)"
    by (simp add: state_run_def)
  with snoc.prems order_step [OF keyed_run] snoc.IH show ?case by (metis Un_iff set_append list.set_intros(1))
qed (simp add: state_run_def newRuntimeStateStore_def)

lemma get_held:
  "held token e n s \<Longrightarrow> e_owner e = owner \<Longrightarrow> token \<noteq> [] \<Longrightarrow> length token \<le> 128 \<Longrightarrow> now < e_expires e \<Longrightarrow>
     fst (state_Get copy now again owner token s) = Some (cloneRuntimeProps copy (e_props e))"
  by (auto simp: held_def state_Get_def)

lemma kept_after_put:
  assumes k: "keyed s" and f: "token \<notin> set (order s)" and tok: "token \<noteq> []" "length token \<le> 128"
    and n: "puts after < runtimeStateLimit - 1" and sp: "\<forall>op\<in>set after. spares token (t + runtimeStateTTL) op"
    and now: "now < t + runtimeStateTTL"
  shows "fst (state_Get copy now again owner token
      (state_run copy after (state_step copy (OpPut trusted (Some token) t owner props) s))) =
    Some (cloneRuntimeProps copy (if trusted then props else cloneRuntimeProps copy props))"
proof -
  let ?e = "\<lparr>e_owner = owner, e_props = (if trusted then props else cloneRuntimeProps copy props), e_expires = t + runtimeStateTTL\<rparr>"
  obtain r s' where p: "put copy trusted (Some token) t owner props s = (r, s')" by fastforce
  have "held token ?e 0 s'" using put_held [OF k f p] .
  from held_run [OF this, of after copy] n sp have "held token ?e (0 + puts after) (state_run copy after s')" by simp
  from get_held [OF this, of owner now copy again] tok now p show ?thesis by (simp add: state_step_def)
qed

lemma kept_in_run:
  assumes "\<forall>op\<in>set before. drawn_by op \<noteq> Some token" and "token \<noteq> []" and "length token \<le> 128"
    and "puts after < 4095" and "\<forall>op\<in>set after. spares token (t + runtimeStateTTL) op"
    and "now < t + runtimeStateTTL"
  shows "fst (state_Get copy now again owner token
      (state_run copy (before @ OpPut trusted (Some token) t owner props # after) newRuntimeStateStore)) =
    Some (cloneRuntimeProps copy (if trusted then props else cloneRuntimeProps copy props))"
proof -
  let ?s = "state_run copy before newRuntimeStateStore"
  have "token \<notin> set (order ?s)" using order_run assms(1) by blast
  from kept_after_put [OF keyed_run this, of after t now copy again owner trusted props] assms
  show ?thesis by (simp add: state_run_def runtimeStateLimit_def)
qed

text \<open>C27: What \<^verbatim>\<open>Get\<close> returns was put under that token by the same owner less than thirty minutes
  before, and is a copy of what was put: no visitor reads the properties of another one, whatever
  the token presented.\<close>

theorem state_owner_only:
  assumes "fst (state_Get copy now again owner token (state_run copy ops newRuntimeStateStore)) = Some result"
  shows "\<exists>trusted t props. OpPut trusted (Some token) t owner props \<in> set ops \<and> now < t + runtimeStateTTL \<and>
    result = cloneRuntimeProps copy (if trusted then props else cloneRuntimeProps copy props)"
proof -
  let ?s = "state_run copy ops newRuntimeStateStore"
  from assms obtain e where e: "live ?s token = Some e" "e_owner e = owner" "now < e_expires e"
      "result = cloneRuntimeProps copy (e_props e)"
    by (auto simp: state_Get_def split: option.splits if_splits)
  have "(token, e) \<in> set (entries ?s)" using e(1) by (simp add: live_def map_of_SomeD)
  with store_ok_run [of copy ops] have "stored_by copy ops token e" by (auto simp: store_ok_def)
  with e show ?thesis unfolding stored_by_def by metis
qed

theorem state_owner_only_witness:
  "let ops = [OpPut False (Some ''t1'') 10 ''ann'' [(''a'', 1 :: nat)]] in
     fst (state_Get Some 20 20 ''ann'' ''t1'' (state_run Some ops newRuntimeStateStore)) = Some [(''a'', 1)] \<and>
     (\<exists>trusted t props. OpPut trusted (Some ''t1'') t ''ann'' props \<in> set ops \<and> 20 < t + runtimeStateTTL \<and>
        [(''a'', 1)] = cloneRuntimeProps Some (if trusted then props else cloneRuntimeProps Some props))"
proof -
  let ?ops = "[OpPut False (Some ''t1'') 10 ''ann'' [(''a'', 1 :: nat)]]"
  have "fst (state_Get Some 20 20 ''ann'' ''t1'' (state_run Some ?ops newRuntimeStateStore)) = Some [(''a'', 1)]"
    by (simp add: state_run_def state_step_def put_def newRuntimeStateStore_def pruneExpiredLocked_def state_Get_def
        live_def cloneRuntimeProps_def runtimeStateTTL_def discard_loop.simps runtimeStateLimit_def)
  with state_owner_only [OF this] show ?thesis unfolding Let_def by blast
qed

text \<open>C28: The store never holds more than 4096 entries, and each of them has its token in the order
  that eviction follows.\<close>

theorem state_bounded:
  "length (entries (state_run copy ops newRuntimeStateStore)) \<le> 4096 \<and>
   fst ` set (entries (state_run copy ops newRuntimeStateStore)) \<subseteq> set (order (state_run copy ops newRuntimeStateStore))"
  using store_ok_run [of copy ops] by (auto simp: store_ok_def keyed_def runtimeStateLimit_def)

text \<open>The properties put under a fresh token are returned to their owner for thirty minutes,
  whatever other tokens are read or put meanwhile, as long as fewer than 4095 other ones are put.\<close>

theorem state_kept:
  assumes "\<forall>op\<in>set before. drawn_by op \<noteq> Some token" and "token \<noteq> []" and "length token \<le> 128"
    and "puts after < 4095" and "\<forall>op\<in>set after. spares token (t + runtimeStateTTL) op"
    and "now < t + runtimeStateTTL"
  shows "fst (state_Get copy now again owner token
      (state_run copy (before @ OpPut trusted (Some token) t owner props # after) newRuntimeStateStore)) =
    Some (cloneRuntimeProps copy (if trusted then props else cloneRuntimeProps copy props))"
  by (rule kept_in_run [OF assms])

theorem state_kept_witness:
  "fst (state_Get Some 50 50 ''ann'' ''t1''
      (state_run Some ([] @ OpPut False (Some ''t1'') 10 ''ann'' [(''a'', 1 :: nat)] #
         [OpPut False (Some ''t2'') 30 ''bob'' [], OpGet 40 40 ''bob'' ''t1'']) newRuntimeStateStore)) =
    Some (cloneRuntimeProps Some (if False then [(''a'', 1)] else cloneRuntimeProps Some [(''a'', 1)]))"
  by (rule state_kept) (simp_all add: puts_def runtimeStateTTL_def)

text \<open>The markers of a cached document are replaced by the visitor's values and its texts are
  left alone; a replacement is never scanned again, so a value that looks like a marker stays.\<close>

theorem markers_filled:
  assumes "\<forall>p\<in>set pieces. piece_ok p" and "Index final markerPrefix = None" and "reps \<noteq> []"
  shows "replaceCachedDocumentMarkers (concat (map piece_text pieces) @ final) reps = concat (map (piece_filled reps) pieces) @ final"
proof -
  have "concat (map piece_text pieces) = [] \<longleftrightarrow> pieces = []" by (cases pieces) (auto simp: piece_text_def markerPrefix_def)
  with replace_markers_pieces [OF assms(1,2), of reps] assms(3) show ?thesis
    by (auto simp: replaceCachedDocumentMarkers_def)
qed

theorem markers_filled_witness:
  "let pieces = [(''<p n='', ''CSP_NONCE''), (''>_'', ''STATE_1'')]; reps = [(''__GOSH_CSP_NONCE__'', ''__GOSH_STATE_1__'')] in
     replaceCachedDocumentMarkers (concat (map piece_text pieces) @ ''</p>'') reps = concat (map (piece_filled reps) pieces) @ ''</p>'' \<and>
     concat (map (piece_filled reps) pieces) = ''<p n=__GOSH_STATE_1__>___GOSH_STATE_1__''"
proof -
  let ?pieces = "[(''<p n='', ''CSP_NONCE''), (''>_'', ''STATE_1'')]"
  have "\<forall>p\<in>set ?pieces. piece_ok p" by (simp add: piece_ok_def markerPrefix_def HasPrefix_def)
  moreover have "Index ''</p>'' markerPrefix = None" by (simp add: markerPrefix_def HasPrefix_def)
  ultimately show ?thesis
    using markers_filled [of ?pieces "''</p>''" "[(''__GOSH_CSP_NONCE__'', ''__GOSH_STATE_1__'')]"]
    by (simp add: piece_filled_def markerPrefix_def)
qed

section \<open>A cached document and the store\<close>

abbreviation put_op :: "string \<Rightarrow> string \<times> 'v props \<times> string option \<times> int \<Rightarrow> 'v state_op" where
  "put_op owner x \<equiv> (case x of (m, props, drawn, now) \<Rightarrow> OpPut True drawn now owner props)"

text \<open>A visitor who gets a cached document gets working state: after the document is served, each
  token drawn for it returns that state's properties to the visitor, until the first of them expires
  (tokens fresh and distinct, fewer than 4096 states, all put within thirty minutes).\<close>

theorem document_states_live:
  assumes "materializeCachedDocument copy cookie d (Some doc) h a = (Some body, set_cookie, h', a')"
    and "\<not> cd_PublicStatic doc"
    and "runtimeOwner cookie (d_owner d) = Some (owner, fresh)"
    and "runtimeState a = state_run copy ops newRuntimeStateStore"
    and "length (cd_States doc) \<le> 4095"
    and "\<forall>(m, props, drawn, t)\<in>set (state_draws (cd_States doc) d).
           \<forall>token. drawn = Some token \<longrightarrow> token \<noteq> [] \<and> length token \<le> 128 \<and> (\<forall>op\<in>set ops. drawn_by op \<noteq> Some token)"
    and "distinct (map (\<lambda>(m, props, drawn, t). drawn) (state_draws (cd_States doc) d))"
    and "\<forall>(m, props, drawn, t)\<in>set (state_draws (cd_States doc) d). now < t + runtimeStateTTL \<and>
           (\<forall>(m', props', drawn', t')\<in>set (state_draws (cd_States doc) d). t' < t + runtimeStateTTL)"
    and "(marker, props, drawn, t) \<in> set (state_draws (cd_States doc) d)"
  shows "\<exists>token. drawn = Some token \<and>
    fst (state_Get copy now again owner token (runtimeState a')) = Some (cloneRuntimeProps copy props)"
proof -
  let ?sts = "state_draws (cd_States doc) d"
  obtain reps where ps: "put_states copy owner (cd_Plan doc) ?sts a [] = (Some reps, a')"
    using assms(1-3) by (auto simp: materializeCachedDocument_def Let_def split: prod.splits option.splits)
  note run = put_states_run [OF ps]
  from run assms(9) obtain token where tok: "drawn = Some token" by auto
  from assms(9) obtain xs ys where sp: "?sts = xs @ (marker, props, drawn, t) # ys" by (meson split_list)
  let ?before = "ops @ map (put_op owner) xs"
  have rs: "runtimeState a' = state_run copy (?before @ OpPut True (Some token) t owner props # map (put_op owner) ys) newRuntimeStateStore"
    using run assms(4) sp tok by (simp add: state_run_def)
  have other: "(m', props', Some token, t') \<notin> set xs" "(m', props', Some token, t') \<notin> set ys" for m' props' t'
    using assms(7) sp tok by (force simp: image_iff)+
  have "\<forall>op\<in>set ?before. drawn_by op \<noteq> Some token"
    using assms(6) sp tok other by (auto simp: drawn_by_def split: prod.splits)
  moreover have "puts (map (put_op owner) ys) < 4095"
  proof -
    have "puts (map (put_op owner) ys) \<le> length ys" unfolding puts_def by (rule order_trans [OF length_filter_le]) simp
    moreover have "length ?sts \<le> length (cd_States doc)" by (simp add: state_draws_def)
    ultimately show ?thesis using assms(5) sp by simp
  qed
  moreover have "\<forall>op\<in>set (map (put_op owner) ys). spares token (t + runtimeStateTTL) op"
  proof -
    have "t' < t + runtimeStateTTL" if "(m', props', drawn', t') \<in> set ys" for m' props' drawn' t'
      using assms(8,9) sp that by fastforce
    with other(2) show ?thesis by auto
  qed
  moreover have "now < t + runtimeStateTTL" "token \<noteq> []" "length token \<le> 128" using assms(6,8) sp tok by auto
  ultimately have "fst (state_Get copy now again owner token (runtimeState a')) =
      Some (cloneRuntimeProps copy (if True then props else cloneRuntimeProps copy props))"
    unfolding rs
    by (intro kept_in_run) auto
  with tok show ?thesis by simp
qed

theorem document_states_live_witness:
  "let doc = \<lparr>cd_Plan = (), cd_Body = ''<p s=__GOSH_STATE_1__>'', cd_States = [(''__GOSH_STATE_1__'', [(''a'', 1 :: nat)])], cd_PublicStatic = False\<rparr>;
       d = \<lparr>d_owner = None, d_states = [(Some ''t1'', 10)], d_nonce = Some ''n''\<rparr>;
       a = \<lparr>runtimeState = newRuntimeStateStore, plans = \<lparr>pagePlans = [], pagePlanExpiry = [], pagePlanOrder = []\<rparr>\<rparr>;
       r = materializeCachedDocument Some (Some ''ann'') d (Some doc) [] a
   in fst r = Some ''<p s=t1>'' \<and>
      (\<exists>token. Some ''t1'' = Some token \<and>
         fst (state_Get Some 20 20 ''ann'' token (runtimeState (snd (snd (snd r))))) = Some (cloneRuntimeProps Some [(''a'', 1)]))"
proof -
  let ?doc = "\<lparr>cd_Plan = (), cd_Body = ''<p s=__GOSH_STATE_1__>'', cd_States = [(''__GOSH_STATE_1__'', [(''a'', 1 :: nat)])], cd_PublicStatic = False\<rparr>"
  let ?d = "\<lparr>d_owner = None, d_states = [(Some ''t1'', 10)], d_nonce = Some ''n''\<rparr>"
  let ?a = "\<lparr>runtimeState = newRuntimeStateStore, plans = \<lparr>pagePlans = [], pagePlanExpiry = [], pagePlanOrder = []\<rparr>\<rparr>"
  let ?r = "materializeCachedDocument Some (Some ''ann'') ?d (Some ?doc) [] ?a"
  have p: "replaceCachedDocumentMarkers ''<p s=__GOSH_STATE_1__>'' [(''__GOSH_CSP_NONCE__'', ''n''), (''__GOSH_STATE_1__'', ''t1'')] = ''<p s=t1>''"
    by (simp add: replaceCachedDocumentMarkers_def replace_markers_loop.simps Cut_def HasPrefix_def markerPrefix_def)
  have b: "fst ?r = Some ''<p s=t1>''"
    by (simp add: materializeCachedDocument_def runtimeOwner_def state_draws_def put_def cachedDocumentRootMarker_def
        cachedDocumentNonceMarker_def newRuntimeStateStore_def pruneExpiredLocked_def discard_loop.simps
        runtimeStateLimit_def Let_def p)
  obtain c h' a' where r: "?r = (Some ''<p s=t1>'', c, h', a')" using b by (cases ?r) auto
  have "\<exists>token. Some ''t1'' = Some token \<and>
      fst (state_Get Some 20 20 ''ann'' token (runtimeState a')) = Some (cloneRuntimeProps Some [(''a'', 1)])"
    by (rule document_states_live [OF r, where owner = "''ann''" and fresh = False and ops = "[]" and marker = "''__GOSH_STATE_1__''" and t = 10])
      (simp_all add: runtimeOwner_def state_run_def state_draws_def runtimeStateTTL_def)
  with b r show ?thesis unfolding Let_def by simp
qed

end
