(* ===== verification/WebRoutes.thy ===== *)
theory WebRoutes
  imports Router Tenants "HOL-Library.Char_ord" "HOL-Library.List_Lexorder" "HOL-Library.Product_Lexorder"
begin

text \<open>
  Pages and route rules of the web framework (\<^verbatim>\<open>web_framework.go\<close>): the route of a page file, the
  order of the pages, matching a path, locales, and the rules that decide how a response may be
  cached. Paths are those of a Unix file system. A map that the code ranges over is a list in the
  order in which Go happens to iterate.
\<close>

section \<open>Routes of page files\<close>

datatype routeSegment = RStatic string | RDynamic string | RCatchAll string

definition file_Ext :: "string \<Rightarrow> string" where
  "file_Ext p =
     (let r = rev p; e = takeWhile (\<lambda>c. c \<noteq> CHR ''.'' \<and> c \<noteq> CHR ''/'') r
      in case drop (length e) r of [] \<Rightarrow> [] | c # _ \<Rightarrow> if c = CHR ''.'' then CHR ''.'' # rev e else [])"

datatype route_error = EmptyCatchAll | EmptyDynamic

definition page_parts :: "string \<Rightarrow> string list" where
  "page_parts relativePath =
     (let p = TrimSuffix (TrimSuffix (TrimSuffix relativePath (file_Ext relativePath)) ''.client'') ''.server'';
          parts = Split (CHR ''/'') p
      in if last parts = ''index'' then butlast parts else parts)"

fun part_segment :: "string \<Rightarrow> route_error + (routeSegment \<times> string \<times> int)" where
  "part_segment part =
     (if HasPrefix part ''[...'' \<and> HasSuffix part '']'' then
        (let name = TrimSuffix (TrimPrefix part ''[...'') '']''
         in if name = [] then Inl EmptyCatchAll else Inr (RCatchAll name, '':'' @ name @ ''*'', 1))
      else if HasPrefix part ''['' \<and> HasSuffix part '']'' then
        (let name = TrimSuffix (TrimPrefix part ''['') '']''
         in if name = [] then Inl EmptyDynamic else Inr (RDynamic name, '':'' @ name, 10))
      else Inr (RStatic part, part, 100))"

fun page_loop :: "string list \<Rightarrow> routeSegment list \<Rightarrow> string list \<Rightarrow> int \<Rightarrow>
    route_error + (routeSegment list \<times> string list \<times> int)" where
  "page_loop [] segs rps score = Inr (segs, rps, score)"
| "page_loop (part # parts) segs rps score =
     (if part = [] then page_loop parts segs rps score
      else case part_segment part of
             Inl e \<Rightarrow> Inl e
           | Inr (seg, rp, n) \<Rightarrow> page_loop parts (segs @ [seg]) (rps @ [rp]) (score + n))"

definition pageRoute :: "string \<Rightarrow> route_error + (string \<times> routeSegment list \<times> int)" where
  "pageRoute relativePath =
     (case page_loop (page_parts relativePath) [] [] 0 of
        Inl e \<Rightarrow> Inl e
      | Inr (segs, rps, score) \<Rightarrow>
          Inr (if rps = [] then ''/'' else CHR ''/'' # Join rps ''/'', segs, score))"

section \<open>The page set\<close>

record 'v Page =
  Route :: string
  RelativePath :: string
  Layout :: string
  View :: 'v
  segments :: "routeSegment list"
  score :: int

record 'v Pages =
  items :: "'v Page list"
  NotFound :: "'v Page option"
  ErrorPage :: "'v Page option"

text \<open>A parsed page file: its path below the root, its layout and its component.\<close>

type_synonym 'v page_file = "string \<times> string \<times> 'v"

definition path_Base :: "string \<Rightarrow> string" where
  "path_Base p =
     (if p = [] then ''.''
      else let s = TrimRight p (CHR ''/'') in if s = [] then ''/'' else last (Split (CHR ''/'') s))"

fun add_pages :: "'v page_file list \<Rightarrow> 'v Pages \<Rightarrow> route_error + 'v Pages" where
  "add_pages [] ps = Inr ps"
| "add_pages ((rel, layout, view) # fs) ps =
     (let base = ToLower (path_Base rel)
      in if base = ''404.gosh'' then
           add_pages fs (ps\<lparr>NotFound := Some \<lparr>Route = ''@404'', RelativePath = rel, Layout = layout, View = view, segments = [], score = 0\<rparr>\<rparr>)
         else if base = ''error.gosh'' then
           add_pages fs (ps\<lparr>ErrorPage := Some \<lparr>Route = ''@error'', RelativePath = rel, Layout = layout, View = view, segments = [], score = 0\<rparr>\<rparr>)
         else case pageRoute rel of
                Inl e \<Rightarrow> Inl e
              | Inr (route, segs, sc) \<Rightarrow>
                  add_pages fs (ps\<lparr>items := items ps @
                    [\<lparr>Route = route, RelativePath = rel, Layout = layout, View = view, segments = segs, score = sc\<rparr>]\<rparr>))"

text \<open>A stable sort: higher scores first, equal scores by route.\<close>

definition page_key :: "'v Page \<Rightarrow> int \<times> string" where
  "page_key p = (- score p, Route p)"

definition LoadPages :: "'v page_file list \<Rightarrow> route_error + 'v Pages" where
  "LoadPages fs =
     (case add_pages fs \<lparr>items = [], NotFound = None, ErrorPage = None\<rparr> of
        Inl e \<Rightarrow> Inl e
      | Inr ps \<Rightarrow> Inr (ps\<lparr>items := sort_key page_key (items ps)\<rparr>))"

definition Routes :: "'v Pages \<Rightarrow> string list" where
  "Routes ps = sort (map Route (items ps))"

section \<open>Matching\<close>

datatype param = PStr string | PParts "string list"

type_synonym page_params = "(string \<times> param) list"

definition parts_key :: "string \<Rightarrow> string" where "parts_key name = ''__parts:'' @ name"

definition splitURLPath :: "string \<Rightarrow> string list" where
  "splitURLPath p = (let t = Trim p (CHR ''/'') in if t = [] then [] else Split (CHR ''/'') t)"

text \<open>\<open>req\<close> is \<^verbatim>\<open>request[i:]\<close>.\<close>

fun match_segs :: "routeSegment list \<Rightarrow> string list \<Rightarrow> page_params \<Rightarrow> page_params option" where
  "match_segs [] req ps = (if req = [] then Some ps else None)"
| "match_segs (RStatic t # ss) req ps =
     (case req of [] \<Rightarrow> None | r # rs \<Rightarrow> if r \<noteq> t then None else match_segs ss rs ps)"
| "match_segs (RDynamic name # ss) req ps =
     (case req of [] \<Rightarrow> None | r # rs \<Rightarrow> if r = [] then None else match_segs ss rs (AList.update name (PStr r) ps))"
| "match_segs (RCatchAll name # ss) req ps =
     (if req = [] then None
      else match_segs ss [] (AList.update (parts_key name) (PParts req) (AList.update name (PStr (Join req ''/'')) ps)))"

definition matchRoute :: "routeSegment list \<Rightarrow> string list \<Rightarrow> page_params option" where
  "matchRoute route request = match_segs route request []"

fun match_pages :: "'v Page list \<Rightarrow> string list \<Rightarrow> ('v Page \<times> page_params) option" where
  "match_pages [] parts = None"
| "match_pages (p # ps) parts =
     (case matchRoute (segments p) parts of Some params \<Rightarrow> Some (p, params) | None \<Rightarrow> match_pages ps parts)"

definition Match :: "'v Pages \<Rightarrow> string \<Rightarrow> ('v Page \<times> page_params) option" where
  "Match ps path = match_pages (items ps) (splitURLPath path)"

definition MatchStatic :: "'v Pages \<Rightarrow> string \<Rightarrow> ('v Page \<times> page_params) option" where
  "MatchStatic ps path = map_option (\<lambda>p. (p, [])) (find (\<lambda>p. Route p = path) (items ps))"

definition ByRelative :: "'v Pages \<Rightarrow> string \<Rightarrow> 'v Page option" where
  "ByRelative ps path =
     (case find (\<lambda>p. RelativePath p = path) (items ps) of
        Some p \<Rightarrow> Some p
      | None \<Rightarrow>
          (case NotFound ps of
             Some p \<Rightarrow> if RelativePath p = path then Some p
                       else (case ErrorPage ps of Some e \<Rightarrow> if RelativePath e = path then Some e else None | None \<Rightarrow> None)
           | None \<Rightarrow> (case ErrorPage ps of Some e \<Rightarrow> if RelativePath e = path then Some e else None | None \<Rightarrow> None)))"

definition publicRouteParams :: "page_params \<Rightarrow> page_params" where
  "publicRouteParams ps = filter (\<lambda>(k, v). \<not> HasPrefix k ''__parts:'') ps"

text \<open>The locale prefix of a path, unless it is the default locale.\<close>

definition path_locale :: "string list \<Rightarrow> string \<Rightarrow> string \<Rightarrow> string option" where
  "path_locale locales defaultLocale path =
     (case splitURLPath path of
        [] \<Rightarrow> None
      | part # _ \<Rightarrow> if part \<in> set locales \<and> part \<noteq> defaultLocale then Some part else None)"

definition with_locale :: "string \<Rightarrow> page_params \<Rightarrow> page_params" where
  "with_locale loc ps = (if loc \<noteq> [] then AList.update ''locale'' (PStr loc) ps else ps)"

definition selectPageFrom ::
  "'v Pages \<Rightarrow> string list \<Rightarrow> string \<Rightarrow> string \<Rightarrow> bool \<Rightarrow> ('v Page \<times> page_params) option \<times> nat" where
  "selectPageFrom pages locales defaultLocale path includeNotFound =
     (let found = path_locale locales defaultLocale path
      in case (case found of Some _ \<Rightarrow> MatchStatic pages path | None \<Rightarrow> None) of
           Some r \<Rightarrow> (Some r, 200)
         | None \<Rightarrow>
             let loc = (case found of Some l \<Rightarrow> l | None \<Rightarrow> []);
                 path' = (case found of Some _ \<Rightarrow> CHR ''/'' # Join (tl (splitURLPath path)) ''/'' | None \<Rightarrow> path)
             in case Match pages path' of
                  Some (p, params) \<Rightarrow> (Some (p, with_locale loc params), 200)
                | None \<Rightarrow>
                    (case NotFound pages of
                       Some p \<Rightarrow> if includeNotFound then (Some (p, with_locale loc []), 404) else (None, 404)
                     | None \<Rightarrow> (None, 404)))"

section \<open>Tenants of a request\<close>

definition safeTenantID :: "string \<Rightarrow> bool" where
  "safeTenantID ident \<longleftrightarrow>
     ident \<noteq> [] \<and> ident \<noteq> ''.'' \<and> path_Base ident = ident \<and> CHR ''/'' \<notin> set ident \<and> CHR 0x5C \<notin> set ident"

definition tenantIDFromRequest :: "tenant option \<Rightarrow> string" where
  "tenantIDFromRequest t = (case t of Some tn \<Rightarrow> if safeTenantID (t_ID tn) then t_ID tn else [] | None \<Rightarrow> [])"

section \<open>Route rules\<close>

definition routePatternMatch :: "string \<Rightarrow> string \<Rightarrow> bool" where
  "routePatternMatch pattern path =
     (if HasPrefix pattern ''*'' \<and> HasSuffix pattern ''*'' \<and> length pattern > 2 then
        Contains path (Trim pattern (CHR ''*''))
      else if pattern = path then True
      else if HasSuffix pattern ''/**'' then
        HasPrefix path (TrimSuffix (TrimSuffix pattern ''**'') ''/'')
      else if Contains pattern ''*'' then
        (let pp = Split (CHR ''/'') (Trim pattern (CHR ''/'')); sp = Split (CHR ''/'') (Trim path (CHR ''/''))
         in length pp = length sp \<and> list_all (\<lambda>(p, s). p = ''*'' \<or> p = s) (zip pp sp))
      else False)"

record RouteRule =
  SWR :: int
  CacheMaxAge :: "int option"
  SSRStream :: "bool option"
  PublicStatic :: bool
  Exclude :: "string list"

definition no_rule :: RouteRule where
  "no_rule = \<lparr>SWR = 0, CacheMaxAge = None, SSRStream = None, PublicStatic = False, Exclude = []\<rparr>"

definition routeRuleExcluded :: "RouteRule \<Rightarrow> string \<Rightarrow> bool" where
  "routeRuleExcluded rule path \<longleftrightarrow> list_ex (\<lambda>pattern. pattern \<noteq> [] \<and> routePatternMatch pattern path) (Exclude rule)"

fun best_rule :: "(string \<times> RouteRule) list \<Rightarrow> string \<Rightarrow> string \<Rightarrow> RouteRule \<Rightarrow> string \<times> RouteRule" where
  "best_rule [] path best rule = (best, rule)"
| "best_rule ((pattern, candidate) # rs) path best rule =
     (if routePatternMatch pattern path \<and> \<not> routeRuleExcluded candidate path \<and> length pattern > length best
      then best_rule rs path pattern candidate
      else best_rule rs path best rule)"

definition routeRule :: "(string \<times> RouteRule) list \<Rightarrow> string \<Rightarrow> RouteRule \<times> bool" where
  "routeRule rules path = (case best_rule rules path [] no_rule of (best, rule) \<Rightarrow> (rule, best \<noteq> []))"

definition ssrStreamEnabled :: "bool \<Rightarrow> RouteRule \<Rightarrow> bool \<Rightarrow> bool" where
  "ssrStreamEnabled configured rule hasRouteRule =
     (case SSRStream rule of Some b \<Rightarrow> if hasRouteRule then b else configured | None \<Rightarrow> configured)"

definition routeTTL :: "RouteRule \<Rightarrow> int \<times> int" where
  "routeTTL rule =
     (let swr = SWR rule; ttl = (case CacheMaxAge rule of Some n \<Rightarrow> n | None \<Rightarrow> 0)
      in (if ttl \<le> 0 \<and> swr > 0 then swr else ttl, swr))"

definition publicCacheControl :: "RouteRule \<Rightarrow> string" where
  "publicCacheControl rule =
     (case routeTTL rule of (ttl, swr) \<Rightarrow>
        Join ([''public'', ''max-age='' @ Itoa (max 0 ttl), ''s-maxage='' @ Itoa (max 0 ttl)] @
              (if swr > 0 then [''stale-while-revalidate='' @ Itoa swr] else [])) '', '')"

section \<open>Facts\<close>

definition special_file :: "string \<Rightarrow> bool" where
  "special_file rel \<longleftrightarrow> ToLower (path_Base rel) = ''404.gosh'' \<or> ToLower (path_Base rel) = ''error.gosh''"

text \<open>The pages are the ordinary files, each with its route.\<close>

definition is_page_of :: "'v page_file \<Rightarrow> 'v Page \<Rightarrow> bool" where
  "is_page_of f p \<longleftrightarrow> \<not> special_file (fst f) \<and> RelativePath p = fst f \<and>
     pageRoute (fst f) = Inr (Route p, segments p, score p)"

lemma add_pages_items:
  assumes "add_pages fs ps0 = Inr ps"
  shows "(\<forall>p\<in>set (items ps) - set (items ps0). \<exists>f\<in>set fs. is_page_of f p) \<and> set (items ps0) \<subseteq> set (items ps) \<and>
    (\<forall>f\<in>set fs. \<not> special_file (fst f) \<longrightarrow> (\<exists>p\<in>set (items ps). is_page_of f p))"
  using assms
proof (induction fs ps0 rule: add_pages.induct)
  case (2 rel layout view fs ps0)
  show ?case
  proof (cases "special_file rel")
    case True
    with 2 show ?thesis by (auto simp: special_file_def Let_def split: if_splits)
  next
    case False
    then obtain route segs sc where r: "pageRoute rel = Inr (route, segs, sc)"
      using "2.prems" by (auto simp: special_file_def Let_def split: sum.splits)
    let ?p = "\<lparr>Route = route, RelativePath = rel, Layout = layout, View = view, segments = segs, score = sc\<rparr>"
    have "is_page_of (rel, layout, view) ?p" using False r by (simp add: is_page_of_def)
    moreover have "add_pages fs (ps0\<lparr>items := items ps0 @ [?p]\<rparr>) = Inr ps"
      using "2.prems" False r by (simp add: special_file_def Let_def)
    moreover have "(\<forall>p\<in>set (items ps) - set (items (ps0\<lparr>items := items ps0 @ [?p]\<rparr>)). \<exists>f\<in>set fs. is_page_of f p) \<and>
        set (items (ps0\<lparr>items := items ps0 @ [?p]\<rparr>)) \<subseteq> set (items ps) \<and>
        (\<forall>f\<in>set fs. \<not> special_file (fst f) \<longrightarrow> (\<exists>p\<in>set (items ps). is_page_of f p))"
      using "2.IH"(3) False r calculation(2) by (simp add: special_file_def)
    ultimately show ?thesis by auto
  qed
qed simp

lemma LoadPages_items:
  assumes "LoadPages fs = Inr ps"
  shows "sorted (map page_key (items ps))" and "\<And>p. p \<in> set (items ps) \<Longrightarrow> \<exists>f\<in>set fs. is_page_of f p"
    and "\<And>f. f \<in> set fs \<Longrightarrow> \<not> special_file (fst f) \<Longrightarrow> \<exists>p\<in>set (items ps). is_page_of f p"
proof -
  from assms obtain ps1 where a: "add_pages fs \<lparr>items = [], NotFound = None, ErrorPage = None\<rparr> = Inr ps1"
      "ps = ps1\<lparr>items := sort_key page_key (items ps1)\<rparr>"
    by (auto simp: LoadPages_def split: sum.splits)
  from add_pages_items [OF a(1)] a(2)
  show "sorted (map page_key (items ps))" and "\<And>p. p \<in> set (items ps) \<Longrightarrow> \<exists>f\<in>set fs. is_page_of f p"
    and "\<And>f. f \<in> set fs \<Longrightarrow> \<not> special_file (fst f) \<Longrightarrow> \<exists>p\<in>set (items ps). is_page_of f p" by auto
qed

lemma match_pages_first:
  assumes "match_pages xs parts = Some (p, ps)" and "sorted (map page_key xs)"
  shows "p \<in> set xs \<and> matchRoute (segments p) parts = Some ps \<and>
    (\<forall>q\<in>set xs. matchRoute (segments q) parts \<noteq> None \<longrightarrow> page_key p \<le> page_key q)"
  using assms by (induction xs) (auto split: option.splits)

lemma page_key_le: "page_key p \<le> page_key q \<longleftrightarrow> score q < score p \<or> (score q = score p \<and> Route p \<le> Route q)"
  by (auto simp: page_key_def less_eq_prod_def)

fun seg_keys :: "routeSegment \<Rightarrow> string list" where
  "seg_keys (RStatic t) = []"
| "seg_keys (RDynamic name) = [name]"
| "seg_keys (RCatchAll name) = [name, parts_key name]"

text \<open>The parts of a path that a page's segments and the captured parameters spell.\<close>

fun fill :: "routeSegment list \<Rightarrow> page_params \<Rightarrow> string list" where
  "fill [] ps = []"
| "fill (RStatic t # ss) ps = t # fill ss ps"
| "fill (RDynamic name # ss) ps = (case map_of ps name of Some (PStr s) \<Rightarrow> s # fill ss ps | _ \<Rightarrow> [])"
| "fill (RCatchAll name # ss) ps = (case map_of ps (parts_key name) of Some (PParts xs) \<Rightarrow> xs @ fill ss ps | _ \<Rightarrow> [])"

lemma match_segs_fill:
  assumes "match_segs ss req acc = Some ps" and "distinct (concat (map seg_keys ss))"
  shows "fill ss ps = req \<and> (\<forall>k. k \<notin> set (concat (map seg_keys ss)) \<longrightarrow> map_of ps k = map_of acc k)"
  using assms
proof (induction ss req acc rule: match_segs.induct)
  case (3 name ss req acc)
  then obtain r rs where r: "req = r # rs" "r \<noteq> []" "match_segs ss rs (AList.update name (PStr r) acc) = Some ps"
    by (auto split: list.splits if_splits)
  with 3 have ih: "fill ss ps = rs" "\<forall>k. k \<notin> set (concat (map seg_keys ss)) \<longrightarrow> map_of ps k = ((map_of acc)(name \<mapsto> PStr r)) k"
    by auto
  moreover have "map_of ps name = Some (PStr r)" using ih(2) "3.prems"(2) by auto
  ultimately show ?case using r by auto
next
  case (4 name ss req acc)
  then have m: "req \<noteq> []" "match_segs ss [] (AList.update (parts_key name) (PParts req) (AList.update name (PStr (Join req ''/'')) acc)) = Some ps"
    by (auto split: if_splits)
  with 4 have ih: "fill ss ps = []" "\<forall>k. k \<notin> set (concat (map seg_keys ss)) \<longrightarrow>
      map_of ps k = ((map_of acc)(name \<mapsto> PStr (Join req ''/''), parts_key name \<mapsto> PParts req)) k"
    by auto
  moreover have "map_of ps (parts_key name) = Some (PParts req)" using ih(2) "4.prems"(2) by auto
  ultimately show ?case by auto
qed (auto split: list.splits if_splits)

lemma best_rule_facts:
  assumes "best_rule rs path best rule = (b, r)"
  shows "length best \<le> length b \<and> ((b, r) = (best, rule) \<or> ((b, r) \<in> set rs \<and> routePatternMatch b path \<and> \<not> routeRuleExcluded r path)) \<and>
    (\<forall>(q, c)\<in>set rs. routePatternMatch q path \<and> \<not> routeRuleExcluded c path \<longrightarrow> length q \<le> length b)"
  using assms
proof (induction rs path best rule rule: best_rule.induct)
  case (2 pattern candidate rs path best rule)
  then show ?case
    by (cases "routePatternMatch pattern path \<and> \<not> routeRuleExcluded candidate path \<and> length pattern > length best") auto
qed simp

section \<open>Properties\<close>



text \<open>What a page captures spells the path: static segments as they are, a parameter for each
  dynamic segment and the rest of the path for a catch-all give back the parts that were matched.\<close>

theorem page_params_roundtrip:
  assumes "matchRoute segs parts = Some params" and "distinct (concat (map seg_keys segs))"
  shows "fill segs params = parts"
  using match_segs_fill assms unfolding matchRoute_def by blast

theorem page_params_roundtrip_witness:
  "let segs = [RStatic ''docs'', RDynamic ''version'', RCatchAll ''page'']; parts = [''docs'', ''v2'', ''api'', ''auth''];
       params = [(''version'', PStr ''v2''), (''page'', PStr ''api/auth''), (''__parts:page'', PParts [''api'', ''auth''])] in
     matchRoute segs parts = Some params \<and> fill segs params = parts"
proof -
  have "matchRoute [RStatic ''docs'', RDynamic ''version'', RCatchAll ''page''] [''docs'', ''v2'', ''api'', ''auth''] =
      Some [(''version'', PStr ''v2''), (''page'', PStr ''api/auth''), (''__parts:page'', PParts [''api'', ''auth''])]"
    by (simp add: matchRoute_def parts_key_def)
  with page_params_roundtrip [OF this] show ?thesis unfolding Let_def by (simp add: parts_key_def)
qed

text \<open>The rule of a path is one whose pattern matches and that does not exclude the path, and no
  such rule has a longer pattern; without one there is no rule. This holds for every order in which
  the map of rules is read.\<close>

theorem route_rule_longest:
  assumes "routeRule rules path = (rule, found)"
  shows "(found \<longrightarrow> (\<exists>pattern. (pattern, rule) \<in> set rules \<and> routePatternMatch pattern path \<and> \<not> routeRuleExcluded rule path \<and>
           (\<forall>(q, c)\<in>set rules. routePatternMatch q path \<and> \<not> routeRuleExcluded c path \<longrightarrow> length q \<le> length pattern))) \<and>
    (\<not> found \<longrightarrow> rule = no_rule \<and> (\<forall>(q, c)\<in>set rules. q \<noteq> [] \<longrightarrow> \<not> (routePatternMatch q path \<and> \<not> routeRuleExcluded c path)))"
proof -
  obtain b r where br: "best_rule rules path [] no_rule = (b, r)" by fastforce
  with assms have e: "rule = r" "found = (b \<noteq> [])" by (auto simp: routeRule_def)
  note f = best_rule_facts [OF br]
  show ?thesis
  proof (cases found)
    case True
    with f e show ?thesis by auto
  next
    case False
    with e have "b = []" by simp
    moreover from this have "\<forall>rs best rule. best_rule rs path best rule = ([], r) \<longrightarrow> best = [] \<and> r = rule"
    proof (intro allI impI)
      fix rs best rule assume "best_rule rs path best rule = ([], r)"
      then show "best = [] \<and> r = rule" by (induction rs path best rule rule: best_rule.induct) (auto split: if_splits)
    qed
    ultimately show ?thesis using False f e br by fastforce
  qed
qed

theorem route_rule_longest_witness:
  "let r1 = no_rule\<lparr>SWR := 5\<rparr>; r2 = no_rule\<lparr>SWR := 9, Exclude := [''/blog/draft'']\<rparr>;
       rules = [(''/**'', r1), (''/blog/**'', r2)] in
     routeRule rules ''/blog/draft'' = (r1, True) \<and>
     (\<exists>pattern. (pattern, r1) \<in> set rules \<and> routePatternMatch pattern ''/blog/draft'' \<and> \<not> routeRuleExcluded r1 ''/blog/draft'')"
proof -
  let ?r1 = "no_rule\<lparr>SWR := 5\<rparr>" and ?r2 = "no_rule\<lparr>SWR := 9, Exclude := [''/blog/draft'']\<rparr>"
  let ?rules = "[(''/**'', ?r1), (''/blog/**'', ?r2)]"
  have "routeRule ?rules ''/blog/draft'' = (?r1, True)" by code_simp
  with route_rule_longest [OF this] show ?thesis unfolding Let_def by blast
qed

text \<open>A double star also matches what merely starts with the pattern's last segment, and a
  catch-all in the middle of a route makes a page that no path reaches.\<close>

theorem double_star_prefix: "routePatternMatch ''/admin/**'' ''/administrator''"
  by code_simp

theorem inner_catch_all_unreachable: "seg = RStatic t \<or> seg = RDynamic t \<or> seg = RCatchAll t \<Longrightarrow>
    match_segs (ss1 @ RCatchAll name # seg # ss2) req acc = None"
  by (induction ss1 req acc rule: match_segs.induct) (auto split: list.splits)

theorem dotdot_is_safe_tenant: "safeTenantID ''..''"
  by code_simp

end
