(* ===== verification/WebCache.thy ===== *)
theory WebCache imports WebRoutes WebState begin

text \<open>
  Response caches of the web framework (\<^verbatim>\<open>web_framework.go\<close>): the cache of rendered pages with its
  documents and tags, the cache of server routes, and the handler that serves from it. The order in
  which a \<^verbatim>\<open>range\<close> over the items runs is an argument of the operation that has one. Every operation
  runs under the cache's mutex.
\<close>

section \<open>Rendered pages\<close>

record 'r RenderResult =
  CacheTags :: "string list"
  rr_body :: 'r

record ('r, 'v, 'p) cacheEntry =
  Result :: "'r RenderResult"
  Document :: "('v, 'p) cachedDocument option"
  Stored :: int
  TagVersions :: "(string \<times> string) list"

type_synonym ('r, 'v, 'p) cache_items = "(string \<times> ('r, 'v, 'p) cacheEntry) list"

record ('r, 'v, 'p) renderCache =
  rc_items :: "('r, 'v, 'p) cache_items"
  rc_revalidating :: "string set"
  rc_maxEntries :: nat
  documentBytes :: int
  maxDocumentBytes :: int
  rc_tags :: "string \<Rightarrow> string set"
  keyTags :: "string \<Rightarrow> string set"

definition newRenderCache :: "int \<Rightarrow> ('r, 'v, 'p) renderCache" where
  "newRenderCache n =
     \<lparr>rc_items = [], rc_revalidating = {}, rc_maxEntries = nat (if n \<le> 0 then 1024 else n), documentBytes = 0,
      maxDocumentBytes = 33554432, rc_tags = (\<lambda>t. {}), keyTags = (\<lambda>k. {})\<rparr>"

definition rc_get :: "string \<Rightarrow> ('r, 'v, 'p) renderCache \<Rightarrow> ('r, 'v, 'p) cacheEntry option" where
  "rc_get key c = map_of (rc_items c) key"

definition doc_bytes :: "('r, 'v, 'p) cacheEntry \<Rightarrow> int" where
  "doc_bytes e = (case Document e of None \<Rightarrow> 0 | Some d \<Rightarrow> int (length (cd_Body d)))"

text \<open>Dropping documents of other entries until the new one fits; without one to drop it gives up.\<close>

definition with_document :: "string \<times> ('r, 'v, 'p) cacheEntry \<Rightarrow> nat" where
  "with_document p = (if Document (snd p) = None then 0 else 1)"

definition has_document :: "('r, 'v, 'p) cache_items \<Rightarrow> string \<Rightarrow> bool" where
  "has_document its k \<longleftrightarrow> (case map_of its k of Some e \<Rightarrow> Document e \<noteq> None | None \<Rightarrow> False)"

function make_room ::
  "(string list \<Rightarrow> string list) \<Rightarrow> string \<Rightarrow> int \<Rightarrow> int \<Rightarrow> int \<Rightarrow> ('r, 'v, 'p) cache_items \<Rightarrow>
     bool \<times> int \<times> ('r, 'v, 'p) cache_items" where
  "make_room iter key need limit bytes its =
     (if bytes + need > limit then
        (case find (\<lambda>candidate. candidate \<noteq> key \<and> has_document its candidate) (iter (map fst its)) of
           None \<Rightarrow> (False, bytes, its)
         | Some candidate \<Rightarrow>
             let cached = the (map_of its candidate)
             in make_room iter key need limit (bytes - doc_bytes cached) (AList.update candidate (cached\<lparr>Document := None\<rparr>) its))
      else (True, bytes, its))"
  by auto
termination
proof (relation "measure (\<lambda>(iter, key, need, limit, bytes, its). sum_list (map with_document its))", simp)
  fix iter and key :: string and need limit bytes :: int and its :: "('r, 'v, 'p) cache_items" and candidate cached
  assume f: "find (\<lambda>candidate. candidate \<noteq> key \<and> has_document its candidate) (iter (map fst its)) = Some candidate"
    and c: "cached = the (map_of its candidate)"
  then have "map_of its candidate = Some cached" "Document cached \<noteq> None"
    by (auto simp: find_Some_iff has_document_def split: option.splits)
  then have "sum_list (map with_document (AList.update candidate (cached\<lparr>Document := None\<rparr>) its)) < sum_list (map with_document its)"
    by (induction its) (auto simp: with_document_def split: if_splits)
  then show "((iter, key, need, limit, bytes - doc_bytes cached, AList.update candidate (cached\<lparr>Document := None\<rparr>) its),
      iter, key, need, limit, bytes, its) \<in> measure (\<lambda>(iter, key, need, limit, bytes, its). sum_list (map with_document its))"
    by simp
qed

declare make_room.simps [simp del]

definition setDocument ::
  "(string list \<Rightarrow> string list) \<Rightarrow> string \<Rightarrow> ('v, 'p) cachedDocument option \<Rightarrow>
     ('r, 'v, 'p) renderCache \<Rightarrow> ('r, 'v, 'p) renderCache" where
  "setDocument iter key document c =
     (case document of
        None \<Rightarrow> c
      | Some doc \<Rightarrow>
          if length (cd_Body doc) > 1048576 then c
          else case map_of (rc_items c) key of
                 None \<Rightarrow> c
               | Some entry \<Rightarrow>
                   (case make_room iter key (int (length (cd_Body doc))) (maxDocumentBytes c)
                           (documentBytes c - doc_bytes entry) (rc_items c) of
                      (False, bytes, its) \<Rightarrow> c\<lparr>documentBytes := bytes, rc_items := its\<rparr>
                    | (True, bytes, its) \<Rightarrow>
                        c\<lparr>documentBytes := bytes + int (length (cd_Body doc)),
                          rc_items := AList.update key (entry\<lparr>Document := document\<rparr>) its\<rparr>))"

text \<open>The loop for the oldest entry; an empty key found counts as none found yet.\<close>

fun oldest_key :: "('r, 'v, 'p) cache_items \<Rightarrow> string list \<Rightarrow> string \<Rightarrow> int \<Rightarrow> string" where
  "oldest_key its [] oldest t = oldest"
| "oldest_key its (k # ks) oldest t =
     (case map_of its k of
        None \<Rightarrow> oldest_key its ks oldest t
      | Some e \<Rightarrow>
          if oldest = [] \<or> Stored e < t then oldest_key its ks k (Stored e) else oldest_key its ks oldest t)"

definition drop_item :: "string \<Rightarrow> ('r, 'v, 'p) renderCache \<Rightarrow> ('r, 'v, 'p) renderCache" where
  "drop_item k c =
     c\<lparr>documentBytes := documentBytes c - (case map_of (rc_items c) k of Some e \<Rightarrow> doc_bytes e | None \<Rightarrow> 0),
       rc_items := AList.delete k (rc_items c)\<rparr>"

definition setWithTagVersions ::
  "(string list \<Rightarrow> string list) \<Rightarrow> int \<Rightarrow> string \<Rightarrow> 'r RenderResult \<Rightarrow> (string \<times> string) list \<Rightarrow>
     ('r, 'v, 'p) renderCache \<Rightarrow> ('r, 'v, 'p) renderCache" where
  "setWithTagVersions iter now key result tagVersions c0 =
     (let c1 = (if length (rc_items c0) \<ge> rc_maxEntries c0 then drop_item (oldest_key (rc_items c0) (iter (map fst (rc_items c0))) [] 0) c0 else c0);
          c2 = c1\<lparr>documentBytes := documentBytes c1 - (case map_of (rc_items c1) key of Some e \<Rightarrow> doc_bytes e | None \<Rightarrow> 0),
                  rc_items := AList.update key \<lparr>Result = result, Document = None, Stored = now, TagVersions = tagVersions\<rparr> (rc_items c1)\<rparr>;
          new = set (filter (\<lambda>t. t \<noteq> []) (CacheTags result))
      in c2\<lparr>rc_tags := (\<lambda>t. (rc_tags c2 t - (if t \<in> keyTags c2 key then {key} else {})) \<union> (if t \<in> new then {key} else {})),
            keyTags := (keyTags c2)(key := new)\<rparr>)"

fun invalidateTags :: "string list \<Rightarrow> ('r, 'v, 'p) renderCache \<Rightarrow> ('r, 'v, 'p) renderCache" where
  "invalidateTags [] c = c"
| "invalidateTags (tag # tgs) c =
     (let keys = rc_tags c tag
      in invalidateTags tgs
           (c\<lparr>documentBytes := documentBytes c - sum_list (map (\<lambda>(k, e). if k \<in> keys then doc_bytes e else 0) (rc_items c)),
              rc_items := filter (\<lambda>(k, e). k \<notin> keys) (rc_items c),
              keyTags := (\<lambda>k. if k \<in> keys then {} else keyTags c k),
              rc_tags := (rc_tags c)(tag := {})\<rparr>))"

definition beginRevalidate :: "string \<Rightarrow> ('r, 'v, 'p) renderCache \<Rightarrow> bool \<times> ('r, 'v, 'p) renderCache" where
  "beginRevalidate key c =
     (if key \<in> rc_revalidating c then (False, c) else (True, c\<lparr>rc_revalidating := insert key (rc_revalidating c)\<rparr>))"

definition endRevalidate :: "string \<Rightarrow> ('r, 'v, 'p) renderCache \<Rightarrow> ('r, 'v, 'p) renderCache" where
  "endRevalidate key c = c\<lparr>rc_revalidating := rc_revalidating c - {key}\<rparr>"

section \<open>Runs of the page cache\<close>

datatype ('r, 'v, 'p) cache_op =
  CSet "string list \<Rightarrow> string list" int string "'r RenderResult" "(string \<times> string) list"
| CDocument "string list \<Rightarrow> string list" string "('v, 'p) cachedDocument option"
| CInvalidate "string list"
| CBegin string
| CEnd string

fun cache_step :: "('r, 'v, 'p) cache_op \<Rightarrow> ('r, 'v, 'p) renderCache \<Rightarrow> ('r, 'v, 'p) renderCache" where
  "cache_step (CSet iter now key result versions) c = setWithTagVersions iter now key result versions c"
| "cache_step (CDocument iter key document) c = setDocument iter key document c"
| "cache_step (CInvalidate tgs) c = invalidateTags tgs c"
| "cache_step (CBegin key) c = snd (beginRevalidate key c)"
| "cache_step (CEnd key) c = endRevalidate key c"

definition cache_run :: "('r, 'v, 'p) cache_op list \<Rightarrow> ('r, 'v, 'p) renderCache \<Rightarrow> ('r, 'v, 'p) renderCache" where
  "cache_run ops c = fold cache_step ops c"

text \<open>A \<^verbatim>\<open>range\<close> visits every key, in some order.\<close>

definition fair :: "(string list \<Rightarrow> string list) \<Rightarrow> bool" where
  "fair iter \<longleftrightarrow> (\<forall>ks. set (iter ks) = set ks)"

fun fair_op :: "('r, 'v, 'p) cache_op \<Rightarrow> bool" where
  "fair_op (CSet iter now key result versions) = fair iter"
| "fair_op (CDocument iter key document) = fair iter"
| "fair_op op = True"

section \<open>Sums of documents\<close>

definition doc_sum :: "('r, 'v, 'p) cache_items \<Rightarrow> int" where
  "doc_sum its = sum_list (map (\<lambda>(k, e). doc_bytes e) its)"

definition bytes_of :: "('r, 'v, 'p) cache_items \<Rightarrow> string \<Rightarrow> int" where
  "bytes_of its k = (case map_of its k of Some e \<Rightarrow> doc_bytes e | None \<Rightarrow> 0)"

lemma doc_bytes_nonneg [simp]: "0 \<le> doc_bytes e"
  by (simp add: doc_bytes_def split: option.split)

lemma doc_sum_update: "doc_sum (AList.update k v its) = doc_sum its - bytes_of its k + doc_bytes v"
  by (induction its) (auto simp: doc_sum_def bytes_of_def)

lemma doc_sum_delete: "distinct (map fst its) \<Longrightarrow> doc_sum (AList.delete k its) = doc_sum its - bytes_of its k"
proof (induction its)
  case (Cons p its)
  show ?case
  proof (cases "fst p = k")
    case True
    then have "map_of its k = None" using Cons.prems by (auto simp: map_of_eq_None_iff)
    then have "doc_sum (AList.delete k its) = doc_sum its" using Cons by (simp add: bytes_of_def)
    with True show ?thesis by (cases p) (simp add: doc_sum_def bytes_of_def)
  qed (use Cons in \<open>cases p, auto simp: doc_sum_def bytes_of_def\<close>)
qed (simp add: doc_sum_def bytes_of_def)

lemma doc_sum_filter:
  "doc_sum (filter (\<lambda>(k, e). k \<notin> keys) its) = doc_sum its - sum_list (map (\<lambda>(k, e). if k \<in> keys then doc_bytes e else 0) its)"
  by (induction its) (auto simp: doc_sum_def)

lemma doc_sum_nonneg: "0 \<le> doc_sum its"
  unfolding doc_sum_def by (rule sum_list_nonneg) auto

lemma length_delete_less: "map_of its k \<noteq> None \<Longrightarrow> length (AList.delete k its) < length its"
proof (induction its)
  case (Cons p its)
  show ?case using Cons length_delete_le [of k its] by (cases p) (auto simp: less_Suc_eq_le)
qed simp

lemma set_update_distinct: "distinct (map fst al) \<Longrightarrow> set (AList.update k v al) = insert (k, v) {p \<in> set al. fst p \<noteq> k}"
  by (induction al) (auto simp: image_iff)

lemma oldest_key_in:
  "map_of its oldest \<noteq> None \<or> (oldest = [] \<and> (\<exists>k\<in>set ks. map_of its k \<noteq> None)) \<Longrightarrow> map_of its (oldest_key its ks oldest t) \<noteq> None"
proof (induction its ks oldest t rule: oldest_key.induct)
  case (2 its k ks oldest t)
  show ?case
  proof (cases "map_of its k")
    case None
    with 2 show ?thesis by auto
  next
    case (Some e)
    then show ?thesis using "2.IH"(2,3) [OF Some] "2.prems" by (cases "oldest = [] \<or> Stored e < t") auto
  qed
qed auto

lemma sum_list_zero: "(\<And>x. x \<in> set xs \<Longrightarrow> f x = (0 :: int)) \<Longrightarrow> sum_list (map f xs) = 0"
  by (induction xs) auto

lemma doc_sum_only:
  assumes "\<forall>k. k \<noteq> key \<longrightarrow> \<not> has_document its k" and "distinct (map fst its)"
  shows "doc_sum its = bytes_of its key"
proof -
  have "doc_bytes e = 0" if "(k, e) \<in> set its" "k \<noteq> key" for k e
  proof -
    have "map_of its k = Some e" using that assms(2) by simp
    with assms(1) that(2) show ?thesis by (auto simp: has_document_def doc_bytes_def)
  qed
  then have "doc_sum (AList.delete key its) = 0"
    unfolding doc_sum_def by (intro sum_list_zero) auto
  with doc_sum_delete [OF assms(2), of key] show ?thesis by simp
qed

text \<open>Documents go, everything else stays.\<close>

definition same_but_documents :: "('r, 'v, 'p) cache_items \<Rightarrow> ('r, 'v, 'p) cache_items \<Rightarrow> bool" where
  "same_but_documents its its' \<longleftrightarrow> map (\<lambda>(k, e). (k, e\<lparr>Document := None\<rparr>)) its' = map (\<lambda>(k, e). (k, e\<lparr>Document := None\<rparr>)) its"

lemma same_but_documents_update:
  "map_of its k = Some e \<Longrightarrow> same_but_documents its (AList.update k (e\<lparr>Document := d\<rparr>) its)"
  by (induction its) (auto simp: same_but_documents_def split: if_splits)

lemma same_but_documents_trans: "same_but_documents a b \<Longrightarrow> same_but_documents b c \<Longrightarrow> same_but_documents a c"
  by (simp add: same_but_documents_def)

lemma same_but_documents_facts:
  assumes "same_but_documents its its'"
  shows "map fst its' = map fst its" and "(k, e') \<in> set its' \<Longrightarrow> \<exists>e. (k, e) \<in> set its \<and> Result e' = Result e"
proof -
  have "map fst (map (\<lambda>(k, e). (k, e\<lparr>Document := None\<rparr>)) its') = map fst (map (\<lambda>(k, e). (k, e\<lparr>Document := None\<rparr>)) its)"
    using assms unfolding same_but_documents_def by (rule arg_cong)
  then show "map fst its' = map fst its" by (simp add: case_prod_unfold comp_def)
next
  assume "(k, e') \<in> set its'"
  then have "(k, e'\<lparr>Document := None\<rparr>) \<in> set (map (\<lambda>(k, e). (k, e\<lparr>Document := None\<rparr>)) its')" by force
  then have "(k, e'\<lparr>Document := None\<rparr>) \<in> set (map (\<lambda>(k, e). (k, e\<lparr>Document := None\<rparr>)) its)"
    using assms unfolding same_but_documents_def by (simp only:)
  then obtain e where "(k, e) \<in> set its" "e\<lparr>Document := None\<rparr> = e'\<lparr>Document := None\<rparr>" by auto
  then show "\<exists>e. (k, e) \<in> set its \<and> Result e' = Result e"
    by (metis (no_types, lifting) cacheEntry.select_convs(1) cacheEntry.surjective cacheEntry.update_convs(2))
qed

lemma make_room_ok:
  assumes "fair iter" and "distinct (map fst its)" and "map_of its key = Some entry"
    and "bytes = doc_sum its - doc_bytes entry" and "0 \<le> need" and "need \<le> limit"
  shows "\<exists>its'. make_room iter key need limit bytes its = (True, doc_sum its' - doc_bytes entry, its') \<and>
    same_but_documents its its' \<and> map_of its' key = Some entry \<and> doc_sum its' - doc_bytes entry + need \<le> limit"
  using assms
proof (induction iter key need limit bytes its rule: make_room.induct)
  case (1 iter key need limit bytes its)
  show ?case
  proof (cases "bytes + need > limit")
    case False
    with 1 show ?thesis by (subst make_room.simps) (simp add: same_but_documents_def)
  next
    case big: True
    show ?thesis
    proof (cases "find (\<lambda>candidate. candidate \<noteq> key \<and> has_document its candidate) (iter (map fst its))")
      case None
      then have "\<forall>k\<in>set (map fst its). k = key \<or> \<not> has_document its k"
        using "1.prems"(1) by (auto simp: find_None_iff fair_def)
      moreover have "has_document its k \<Longrightarrow> k \<in> set (map fst its)" for k
        by (auto simp: has_document_def split: option.splits dest!: map_of_SomeD intro: rev_image_eqI)
      ultimately have "\<forall>k. k \<noteq> key \<longrightarrow> \<not> has_document its k" by blast
      from doc_sum_only [OF this "1.prems"(2)] "1.prems"(3,4,5,6) big show ?thesis by (simp add: bytes_of_def)
    next
      case (Some candidate)
      then have c: "candidate \<noteq> key" "has_document its candidate" by (auto simp: find_Some_iff)
      then obtain cached where m: "map_of its candidate = Some cached" by (auto simp: has_document_def split: option.splits)
      let ?its = "AList.update candidate (cached\<lparr>Document := None\<rparr>) its"
      have s: "doc_sum ?its = doc_sum its - doc_bytes cached"
        using m by (simp add: doc_sum_update bytes_of_def doc_bytes_def)
      have d: "distinct (map fst ?its)" using "1.prems"(2) by (simp add: distinct_update)
      have k: "map_of ?its key = Some entry" using c(1) "1.prems"(3) by simp
      have "\<exists>its'. make_room iter key need limit (bytes - doc_bytes cached) ?its = (True, doc_sum its' - doc_bytes entry, its') \<and>
          same_but_documents ?its its' \<and> map_of its' key = Some entry \<and> doc_sum its' - doc_bytes entry + need \<le> limit"
        using "1.IH" [OF big Some refl "1.prems"(1) _ _ _ "1.prems"(5,6)] m d k s "1.prems"(4) by simp
      moreover have "make_room iter key need limit bytes its = make_room iter key need limit (bytes - doc_bytes cached) ?its"
        using big Some m by (subst make_room.simps) (simp add: Let_def)
      ultimately show ?thesis
        using same_but_documents_trans [OF same_but_documents_update [OF m]] by auto
    qed
  qed
qed

section \<open>The invariant\<close>

definition tagged :: "('r, 'v, 'p) renderCache \<Rightarrow> bool" where
  "tagged c \<longleftrightarrow> (\<forall>(k, e) \<in> set (rc_items c). \<forall>t\<in>set (CacheTags (Result e)). t \<noteq> [] \<longrightarrow> k \<in> rc_tags c t)"

definition budgeted :: "('r, 'v, 'p) renderCache \<Rightarrow> bool" where
  "budgeted c \<longleftrightarrow> distinct (map fst (rc_items c)) \<and> documentBytes c = doc_sum (rc_items c) \<and>
     documentBytes c \<le> maxDocumentBytes c \<and> maxDocumentBytes c = 33554432 \<and>
     length (rc_items c) \<le> rc_maxEntries c \<and> 0 < rc_maxEntries c"

lemma budgeted_drop:
  assumes "budgeted c" and "map_of (rc_items c) k \<noteq> None"
  shows "budgeted (drop_item k c)" "length (rc_items (drop_item k c)) < length (rc_items c)"
    "bytes_of (rc_items c) k = (case map_of (rc_items c) k of Some e \<Rightarrow> doc_bytes e | None \<Rightarrow> 0)"
proof -
  have "0 \<le> bytes_of (rc_items c) k" by (simp add: bytes_of_def split: option.split)
  then show "budgeted (drop_item k c)" "length (rc_items (drop_item k c)) < length (rc_items c)"
    "bytes_of (rc_items c) k = (case map_of (rc_items c) k of Some e \<Rightarrow> doc_bytes e | None \<Rightarrow> 0)"
    using assms length_delete_less [OF assms(2)] doc_sum_delete [of "rc_items c" k]
    by (auto simp: budgeted_def drop_item_def distinct_delete bytes_of_def)
qed

lemma oldest_present:
  assumes "fair iter" and "its \<noteq> []"
  shows "map_of its (oldest_key its (iter (map fst its)) [] 0) \<noteq> None"
proof (rule oldest_key_in, rule disjI2, intro conjI)
  obtain k e where "(k, e) \<in> set its" using assms(2) by (cases its) auto
  then have "k \<in> set (map fst its)" "map_of its k \<noteq> None" by (force, simp add: map_of_eq_None_iff, force)
  then show "\<exists>k\<in>set (iter (map fst its)). map_of its k \<noteq> None" using assms(1) unfolding fair_def by blast
qed simp

lemma set_kept:
  assumes c: "budgeted c" and t: "tagged c" and f: "fair iter"
  shows "budgeted (setWithTagVersions iter now key result versions c)" and "tagged (setWithTagVersions iter now key result versions c)"
proof -
  let ?old = "oldest_key (rc_items c) (iter (map fst (rc_items c))) [] 0"
  let ?c1 = "if length (rc_items c) \<ge> rc_maxEntries c then drop_item ?old c else c"
  have 1: "budgeted ?c1 \<and> length (rc_items ?c1) < rc_maxEntries ?c1"
  proof (cases "length (rc_items c) \<ge> rc_maxEntries c")
    case True
    then have "rc_items c \<noteq> []" using c by (auto simp: budgeted_def)
    from budgeted_drop [OF c oldest_present [OF f this]] c True show ?thesis by (auto simp: budgeted_def drop_item_def)
  qed (use c in simp)
  have sub: "set (rc_items ?c1) \<subseteq> set (rc_items c)" "rc_tags ?c1 = rc_tags c" by (auto simp: drop_item_def)
  let ?e = "\<lparr>Result = result, Document = None, Stored = now, TagVersions = versions\<rparr>"
  have "0 \<le> bytes_of (rc_items ?c1) key" "doc_bytes ?e = 0" by (simp_all add: bytes_of_def doc_bytes_def split: option.split)
  with 1 doc_sum_update [of key ?e "rc_items ?c1"] length_update_entries [of key ?e "rc_items ?c1"]
  show "budgeted (setWithTagVersions iter now key result versions c)"
    unfolding setWithTagVersions_def Let_def budgeted_def bytes_of_def by (simp add: distinct_update)
  have up: "set (AList.update key ?e (rc_items ?c1)) = insert (key, ?e) {p \<in> set (rc_items ?c1). fst p \<noteq> key}"
    using 1 by (intro set_update_distinct) (simp add: budgeted_def)
  show "tagged (setWithTagVersions iter now key result versions c)"
    unfolding tagged_def
  proof (clarify)
    fix k e tg assume "(k, e) \<in> set (rc_items (setWithTagVersions iter now key result versions c))"
      and tg: "tg \<in> set (CacheTags (Result e))" "tg \<noteq> []"
    then have "(k, e) = (key, ?e) \<or> ((k, e) \<in> set (rc_items ?c1) \<and> k \<noteq> key)"
      using up by (auto simp: setWithTagVersions_def Let_def)
    then show "k \<in> rc_tags (setWithTagVersions iter now key result versions c) tg"
    proof
      assume "(k, e) = (key, ?e)" with tg show ?thesis by (simp add: setWithTagVersions_def Let_def)
    next
      assume k: "(k, e) \<in> set (rc_items ?c1) \<and> k \<noteq> key"
      then have "k \<in> rc_tags c tg" using t sub tg unfolding tagged_def by blast
      with k sub show ?thesis unfolding setWithTagVersions_def Let_def by simp
    qed
  qed
qed

lemma document_kept:
  assumes c: "budgeted c" and t: "tagged c" and f: "fair iter"
  shows "budgeted (setDocument iter key document c)" and "tagged (setDocument iter key document c)"
    and "document = Some doc \<Longrightarrow> length (cd_Body doc) \<le> 1048576 \<Longrightarrow> map_of (rc_items c) key = Some entry \<Longrightarrow>
      map_of (rc_items (setDocument iter key document c)) key = Some (entry\<lparr>Document := Some doc\<rparr>)"
proof -
  have "budgeted (setDocument iter key document c) \<and> tagged (setDocument iter key document c) \<and>
    (\<forall>doc entry. document = Some doc \<and> length (cd_Body doc) \<le> 1048576 \<and> map_of (rc_items c) key = Some entry \<longrightarrow>
      map_of (rc_items (setDocument iter key document c)) key = Some (entry\<lparr>Document := Some doc\<rparr>))"
  proof (cases "document \<noteq> None \<and> length (cd_Body (the document)) \<le> 1048576 \<and> map_of (rc_items c) key \<noteq> None")
    case False
    then have "setDocument iter key document c = c" by (auto simp: setDocument_def split: option.splits)
    with c t False show ?thesis by auto
  next
    case True
    then obtain doc entry where d: "document = Some doc" "length (cd_Body doc) \<le> 1048576" and m: "map_of (rc_items c) key = Some entry"
      by auto
    let ?n = "int (length (cd_Body doc))"
    have "0 \<le> ?n" "?n \<le> maxDocumentBytes c" using d c by (auto simp: budgeted_def)
    from make_room_ok [OF f _ m _ this] c obtain its where r:
        "make_room iter key ?n (maxDocumentBytes c) (documentBytes c - doc_bytes entry) (rc_items c) = (True, doc_sum its - doc_bytes entry, its)"
        "same_but_documents (rc_items c) its" "map_of its key = Some entry" "doc_sum its - doc_bytes entry + ?n \<le> maxDocumentBytes c"
      by (auto simp: budgeted_def)
    let ?its = "AList.update key (entry\<lparr>Document := document\<rparr>) its"
    have s: "setDocument iter key document c = c\<lparr>documentBytes := doc_sum its - doc_bytes entry + ?n, rc_items := ?its\<rparr>"
      using d m r(1) by (simp add: setDocument_def)
    have same: "same_but_documents (rc_items c) ?its" using same_but_documents_trans [OF r(2) same_but_documents_update [OF r(3)]] .
    note keys = same_but_documents_facts(1) [OF same]
    have "length ?its = length (rc_items c)" using keys by (metis length_map)
    moreover have "doc_sum ?its = doc_sum its - doc_bytes entry + ?n"
      using r(3) d(1) by (simp add: doc_sum_update bytes_of_def doc_bytes_def)
    ultimately have "budgeted (setDocument iter key document c)"
      using c r(4) keys unfolding s budgeted_def by simp
    moreover have "tagged (setDocument iter key document c)"
      unfolding tagged_def s
    proof (clarsimp simp del: map_of_AList_update)
      fix k e tg assume "(k, e) \<in> set ?its" "tg \<in> set (CacheTags (Result e))" "tg \<noteq> []"
      with same_but_documents_facts(2) [OF same] t show "k \<in> rc_tags c tg" unfolding tagged_def by fastforce
    qed
    ultimately show ?thesis using s d m by auto
  qed
  then show "budgeted (setDocument iter key document c)" and "tagged (setDocument iter key document c)"
    and "document = Some doc \<Longrightarrow> length (cd_Body doc) \<le> 1048576 \<Longrightarrow> map_of (rc_items c) key = Some entry \<Longrightarrow>
      map_of (rc_items (setDocument iter key document c)) key = Some (entry\<lparr>Document := Some doc\<rparr>)" by blast+
qed

lemma invalidate_kept: "budgeted c \<Longrightarrow> tagged c \<Longrightarrow> budgeted (invalidateTags tgs c) \<and> tagged (invalidateTags tgs c)"
proof (induction tgs c rule: invalidateTags.induct)
  case (2 tag tgs c)
  let ?keys = "rc_tags c tag"
  let ?c = "c\<lparr>documentBytes := documentBytes c - sum_list (map (\<lambda>(k, e). if k \<in> ?keys then doc_bytes e else 0) (rc_items c)),
              rc_items := filter (\<lambda>(k, e). k \<notin> ?keys) (rc_items c),
              keyTags := (\<lambda>k. if k \<in> ?keys then {} else keyTags c k), rc_tags := (rc_tags c)(tag := {})\<rparr>"
  have "0 \<le> sum_list (map (\<lambda>(k, e). if k \<in> ?keys then doc_bytes e else 0) (rc_items c))"
    by (rule sum_list_nonneg) auto
  moreover have "length (filter (\<lambda>(k, e). k \<notin> ?keys) (rc_items c)) \<le> rc_maxEntries c"
    using "2.prems"(1) by (auto simp: budgeted_def intro: le_trans [OF length_filter_le])
  ultimately have "budgeted ?c" using "2.prems"(1) unfolding budgeted_def
    by (auto simp: doc_sum_filter distinct_map_filter)
  moreover have "tagged ?c" using "2.prems"(2) unfolding tagged_def by auto
  ultimately have "budgeted (invalidateTags tgs ?c) \<and> tagged (invalidateTags tgs ?c)" by (rule "2.IH" [OF refl])
  then show ?case by (simp only: invalidateTags.simps Let_def)
qed simp

lemma kept_step: "budgeted c \<Longrightarrow> tagged c \<Longrightarrow> fair_op op \<Longrightarrow> budgeted (cache_step op c) \<and> tagged (cache_step op c)"
proof (cases op)
  case (CBegin key)
  assume "budgeted c" "tagged c"
  with CBegin show ?thesis by (auto simp: beginRevalidate_def budgeted_def tagged_def)
next
  case (CEnd key)
  assume "budgeted c" "tagged c"
  with CEnd show ?thesis by (auto simp: endRevalidate_def budgeted_def tagged_def)
qed (auto simp: set_kept document_kept invalidate_kept)

lemma kept_run: "list_all fair_op ops \<Longrightarrow> budgeted (cache_run ops (newRenderCache n)) \<and> tagged (cache_run ops (newRenderCache n))"
proof (induction ops rule: rev_induct)
  case Nil
  then show ?case by (simp add: cache_run_def newRenderCache_def budgeted_def tagged_def doc_sum_def)
qed (auto simp: cache_run_def kept_step)

lemma invalidate_subset: "set (rc_items (invalidateTags tgs c)) \<subseteq> set (rc_items c)"
proof (induction tgs c rule: invalidateTags.induct)
  case (2 tag tgs c)
  then show ?case by (auto simp: Let_def)
qed simp

lemma invalidate_gone:
  "tagged c \<Longrightarrow> (k, e) \<in> set (rc_items (invalidateTags tgs c)) \<Longrightarrow> t \<in> set tgs \<Longrightarrow> t \<noteq> [] \<Longrightarrow> t \<notin> set (CacheTags (Result e))"
proof (induction tgs c rule: invalidateTags.induct)
  case (2 tag tgs c)
  let ?keys = "rc_tags c tag"
  let ?c = "c\<lparr>documentBytes := documentBytes c - sum_list (map (\<lambda>(k, e). if k \<in> ?keys then doc_bytes e else 0) (rc_items c)),
              rc_items := filter (\<lambda>(k, e). k \<notin> ?keys) (rc_items c),
              keyTags := (\<lambda>k. if k \<in> ?keys then {} else keyTags c k), rc_tags := (rc_tags c)(tag := {})\<rparr>"
  have "tagged ?c" using "2.prems"(1) unfolding tagged_def by auto
  moreover have m: "(k, e) \<in> set (rc_items (invalidateTags tgs ?c))" using "2.prems"(2) by (simp add: Let_def)
  ultimately have "t \<in> set tgs \<Longrightarrow> t \<notin> set (CacheTags (Result e))" using "2.IH" [OF refl] "2.prems"(4) by blast
  moreover have "(k, e) \<in> set (rc_items c)" "k \<notin> ?keys" using m invalidate_subset [of tgs ?c] by auto
  then have "tag \<noteq> [] \<Longrightarrow> tag \<notin> set (CacheTags (Result e))" using "2.prems"(1) unfolding tagged_def by auto
  ultimately show ?case using "2.prems"(3,4) by auto
qed simp

text \<open>C25: The cache of rendered pages stays within its limits whatever is cached, attached and
  invalidated: its byte count is the sum of its documents, at most 32 MB, and it has at most the
  configured number of pages. A document of at most one megabyte for a cached page is always stored:
  the loop that makes room never gives up.\<close>

theorem page_cache_budget:
  assumes "list_all fair_op ops" and "c = cache_run ops (newRenderCache n)"
  shows "documentBytes c = doc_sum (rc_items c) \<and> documentBytes c \<le> 33554432 \<and>
    int (length (rc_items c)) \<le> (if n \<le> 0 then 1024 else n) \<and>
    (fair iter \<and> length (cd_Body doc) \<le> 1048576 \<and> rc_get key c = Some e \<longrightarrow>
       rc_get key (setDocument iter key (Some doc) c) = Some (e\<lparr>Document := Some doc\<rparr>))"
proof -
  have k: "budgeted c" "tagged c" using kept_run [OF assms(1)] assms(2) by auto
  have "rc_maxEntries (cache_run ops (newRenderCache n)) = rc_maxEntries (newRenderCache n :: ('a, 'b, 'c) renderCache)"
  proof (induction ops rule: rev_induct)
    case (snoc op ops)
    have "rc_maxEntries (invalidateTags tgs d) = rc_maxEntries d" for tgs and d :: "('a, 'b, 'c) renderCache"
      by (induction tgs d rule: invalidateTags.induct) (simp_all add: Let_def)
    then have "rc_maxEntries (cache_step op d) = rc_maxEntries d" for d :: "('a, 'b, 'c) renderCache"
      by (cases op) (auto simp: setWithTagVersions_def setDocument_def beginRevalidate_def endRevalidate_def drop_item_def
          Let_def split: option.split prod.split bool.split)
    with snoc show ?case by (simp add: cache_run_def)
  qed (simp add: cache_run_def)
  then have "int (length (rc_items c)) \<le> (if n \<le> 0 then 1024 else n)"
    using k(1) assms(2) by (auto simp: budgeted_def newRenderCache_def split: if_splits)
  moreover have "fair iter \<and> length (cd_Body doc) \<le> 1048576 \<and> rc_get key c = Some e \<longrightarrow>
      rc_get key (setDocument iter key (Some doc) c) = Some (e\<lparr>Document := Some doc\<rparr>)"
    using document_kept(3) [OF k] unfolding rc_get_def by blast
  ultimately show ?thesis using k(1) unfolding budgeted_def by simp
qed

theorem page_cache_budget_witness:
  "let ops = [CSet (\<lambda>x. x) 1 ''k'' \<lparr>CacheTags = [''t''], rr_body = ()\<rparr> [] :: (unit, nat, unit) cache_op];
       doc = \<lparr>cd_Plan = (), cd_Body = ''<p>'', cd_States = [], cd_PublicStatic = False\<rparr>;
       c = cache_run ops (newRenderCache 2); e = \<lparr>Result = \<lparr>CacheTags = [''t''], rr_body = ()\<rparr>, Document = None, Stored = 1, TagVersions = []\<rparr>
   in rc_get ''k'' c = Some e \<and> rc_get ''k'' (setDocument rev ''k'' (Some doc) c) = Some (e\<lparr>Document := Some doc\<rparr>)"
proof -
  let ?ops = "[CSet (\<lambda>x. x) 1 ''k'' \<lparr>CacheTags = [''t''], rr_body = ()\<rparr> [] :: (unit, nat, unit) cache_op]"
  let ?e = "\<lparr>Result = \<lparr>CacheTags = [''t''], rr_body = ()\<rparr>, Document = None, Stored = 1, TagVersions = []\<rparr>"
  have "rc_get ''k'' (cache_run ?ops (newRenderCache 2)) = Some ?e"
    by (simp add: rc_get_def cache_run_def setWithTagVersions_def newRenderCache_def Let_def)
  moreover have "list_all fair_op ?ops" "fair rev" by (simp_all add: fair_def)
  ultimately show ?thesis using page_cache_budget [OF _ refl, of ?ops 2 rev] unfolding Let_def by simp
qed

text \<open>C26: After tags are invalidated no page rendered with one of them is served: whatever was cached
  before, a lookup finds only pages without these tags.\<close>

theorem tags_invalidated:
  assumes "list_all fair_op ops"
    and "rc_get key (invalidateTags tgs (cache_run ops (newRenderCache n))) = Some e"
  shows "\<forall>t\<in>set tgs. t \<noteq> [] \<longrightarrow> t \<notin> set (CacheTags (Result e))"
  using invalidate_gone [OF conjunct2 [OF kept_run [OF assms(1)]]] assms(2) unfolding rc_get_def
  by (blast dest: map_of_SomeD)

theorem tags_invalidated_witness:
  "let ops = [CSet (\<lambda>x. x) 1 ''k'' \<lparr>CacheTags = [''t''], rr_body = ()\<rparr> [] :: (unit, nat, unit) cache_op,
              CSet (\<lambda>x. x) 2 ''l'' \<lparr>CacheTags = [''u''], rr_body = ()\<rparr> []];
       c = invalidateTags [''t''] (cache_run ops (newRenderCache 2)) in
     rc_get ''k'' c = None \<and> (\<exists>e. rc_get ''l'' c = Some e \<and> (\<forall>t\<in>set [''t'']. t \<noteq> [] \<longrightarrow> t \<notin> set (CacheTags (Result e))))"
proof -
  let ?ops = "[CSet (\<lambda>x. x) 1 ''k'' \<lparr>CacheTags = [''t''], rr_body = ()\<rparr> [] :: (unit, nat, unit) cache_op,
              CSet (\<lambda>x. x) 2 ''l'' \<lparr>CacheTags = [''u''], rr_body = ()\<rparr> []]"
  let ?c = "invalidateTags [''t''] (cache_run ?ops (newRenderCache 2))"
  have "rc_get ''k'' ?c = None" "\<exists>e. rc_get ''l'' ?c = Some e"
    by (simp_all add: rc_get_def cache_run_def setWithTagVersions_def newRenderCache_def Let_def)
  moreover have "list_all fair_op ?ops" by (simp add: fair_def)
  ultimately show ?thesis using tags_invalidated [of ?ops _ "[''t'']" 2] unfolding Let_def by blast
qed

text \<open>Invalidating one tag of a page leaves the page's key among the keys of its other tags: when the key
  is cached again without them, invalidating such a tag removes a page that does not have it.\<close>

theorem stale_tag_removes:
  "let c = cache_run [CSet (\<lambda>x. x) 1 ''k'' \<lparr>CacheTags = [''t'', ''u''], rr_body = ()\<rparr> [] :: (unit, nat, unit) cache_op,
              CInvalidate [''t''], CSet (\<lambda>x. x) 2 ''k'' \<lparr>CacheTags = [], rr_body = ()\<rparr> []] (newRenderCache 2) in
     rc_get ''k'' c \<noteq> None \<and> rc_get ''k'' (invalidateTags [''u''] c) = None"
  by (simp add: rc_get_def cache_run_def setWithTagVersions_def newRenderCache_def Let_def)

section \<open>Server routes\<close>

type_synonym mheader = "(string \<times> string list) list"

definition mget :: "mheader \<Rightarrow> string \<Rightarrow> string" where
  "mget h k = (case map_of h k of Some (v # vs) \<Rightarrow> v | _ \<Rightarrow> [])"

record captureWriter =
  cw_header :: mheader
  cw_body :: string
  cw_status :: nat

definition newCaptureWriter :: captureWriter where
  "newCaptureWriter = \<lparr>cw_header = [], cw_body = [], cw_status = 200\<rparr>"

definition cw_WriteHeader :: "nat \<Rightarrow> captureWriter \<Rightarrow> captureWriter" where
  "cw_WriteHeader code w = (if cw_status w = 200 then w\<lparr>cw_status := code\<rparr> else w)"

definition cw_Write :: "string \<Rightarrow> captureWriter \<Rightarrow> captureWriter" where
  "cw_Write p w = w\<lparr>cw_body := cw_body w @ p\<rparr>"

text \<open>The calls a handler makes on its writer; the header is a map that it changes in place.\<close>

datatype writer_call = SetHeader string "string list" | DelHeader string | CallWriteHeader nat | CallWrite string

fun capture :: "writer_call \<Rightarrow> captureWriter \<Rightarrow> captureWriter" where
  "capture (SetHeader k vs) w = w\<lparr>cw_header := AList.update k vs (cw_header w)\<rparr>"
| "capture (DelHeader k) w = w\<lparr>cw_header := AList.delete k (cw_header w)\<rparr>"
| "capture (CallWriteHeader code) w = cw_WriteHeader code w"
| "capture (CallWrite p) w = cw_Write p w"

record cachedHTTPResponse =
  hr_Status :: nat
  hr_Header :: mheader
  hr_Body :: string
  hr_Stored :: int

definition executeCachedRoute :: "writer_call list \<Rightarrow> int \<Rightarrow> cachedHTTPResponse" where
  "executeCachedRoute acts now =
     (let rec = fold capture acts newCaptureWriter
      in \<lparr>hr_Status = cw_status rec, hr_Header = cw_header rec, hr_Body = cw_body rec, hr_Stored = now\<rparr>)"

definition responseCacheable :: "mheader \<Rightarrow> nat \<Rightarrow> bool" where
  "responseCacheable h status \<longleftrightarrow>
     (let cc = ToLower (mget h ''Cache-Control'')
      in 200 \<le> status \<and> status < 300 \<and> mget h ''Set-Cookie'' = [] \<and> \<not> Contains cc ''no-store'' \<and> \<not> Contains cc ''private'')"

record httpResponseCache =
  hc_items :: "(string \<times> cachedHTTPResponse) list"
  hc_revalidating :: "string set"
  hc_maxEntries :: nat

definition newHTTPResponseCache :: "int \<Rightarrow> httpResponseCache" where
  "newHTTPResponseCache n = \<lparr>hc_items = [], hc_revalidating = {}, hc_maxEntries = nat (if n \<le> 0 then 512 else n)\<rparr>"

definition hc_get :: "string \<Rightarrow> httpResponseCache \<Rightarrow> cachedHTTPResponse option" where
  "hc_get k c = map_of (hc_items c) k"

definition hc_set :: "(string list \<Rightarrow> string list) \<Rightarrow> string \<Rightarrow> cachedHTTPResponse \<Rightarrow> httpResponseCache \<Rightarrow> httpResponseCache" where
  "hc_set iter k e c =
     (let its = (if length (hc_items c) \<ge> hc_maxEntries c
                 then (case iter (map fst (hc_items c)) of [] \<Rightarrow> hc_items c | old # _ \<Rightarrow> AList.delete old (hc_items c))
                 else hc_items c)
      in c\<lparr>hc_items := AList.update k e its\<rparr>)"

definition hc_begin :: "string \<Rightarrow> httpResponseCache \<Rightarrow> bool \<times> httpResponseCache" where
  "hc_begin k c =
     (if k \<in> hc_revalidating c then (False, c) else (True, c\<lparr>hc_revalidating := insert k (hc_revalidating c)\<rparr>))"

definition hc_end :: "string \<Rightarrow> httpResponseCache \<Rightarrow> httpResponseCache" where
  "hc_end k c = c\<lparr>hc_revalidating := hc_revalidating c - {k}\<rparr>"

text \<open>What the decision reads of a request; \<open>w_cookies\<close> are the names of its cookies.\<close>

record web_request =
  w_method :: string
  w_authorization :: string
  w_cookies :: "string list"
  w_tenant :: "tenant option"
  w_path :: string
  w_uri :: string

definition runtimeStateCookie :: string where "runtimeStateCookie = ''gosh_runtime''"

definition cacheableRequest :: "web_request \<Rightarrow> bool" where
  "cacheableRequest r \<longleftrightarrow>
     w_method r = ''GET'' \<and> w_authorization r = [] \<and> list_all (\<lambda>c. c = runtimeStateCookie) (w_cookies r)"

definition cacheablePageRequest :: "web_request \<Rightarrow> bool \<Rightarrow> bool" where
  "cacheablePageRequest r publicStatic \<longleftrightarrow>
     (if publicStatic then w_method r = ''GET'' \<and> w_authorization r = [] else cacheableRequest r)"

definition routeRenderCacheKey :: "web_request \<Rightarrow> string" where
  "routeRenderCacheKey r = tenantIDFromRequest (w_tenant r) @ ''|'' @ w_uri r"

definition webRouteCacheKey :: "web_request \<Rightarrow> string" where
  "webRouteCacheKey r = ''gosh:web:route:v1:'' @ tenantIDFromRequest (w_tenant r) @ '':'' @ w_uri r"

definition apiCacheKey :: "web_request \<Rightarrow> string" where
  "apiCacheKey r = tenantIDFromRequest (w_tenant r) @ ''|'' @ w_method r @ '' '' @ w_uri r"

text \<open>How a request is answered: by the handler itself, from the cache, or through a flight. A flight is
  one execution that every request with its key waits for; its leader runs the handler.\<close>

datatype how = Bypass | FromCache string | FromFlight

record answer =
  a_request :: web_request
  a_how :: how
  a_response :: cachedHTTPResponse

text \<open>\<^verbatim>\<open>writeCachedHTTP\<close> on a fresh writer.\<close>

definition writeCachedHTTP :: "cachedHTTPResponse \<Rightarrow> string \<Rightarrow> cachedHTTPResponse" where
  "writeCachedHTTP e how = e\<lparr>hr_Header := AList.update ''X-Myelophone-Cache'' [how] (hr_Header e)\<rparr>"

definition sent :: "answer \<Rightarrow> cachedHTTPResponse" where
  "sent a = (case a_how a of Bypass \<Rightarrow> a_response a | FromCache how \<Rightarrow> writeCachedHTTP (a_response a) how
     | FromFlight \<Rightarrow> writeCachedHTTP (a_response a) ''miss'')"

record route_state =
  apiCache :: httpResponseCache
  flights :: "(string \<times> web_request \<times> web_request list) list"
  missed :: "web_request list"
  background :: "(string \<times> web_request) list"
  answers :: "answer list"

definition ttl_age :: "(string \<times> RouteRule) list \<Rightarrow> web_request \<Rightarrow> bool \<times> int \<times> int" where
  "ttl_age rules r =
     (case routeRule rules (w_path r) of (rule, found) \<Rightarrow> (case routeTTL rule of (ttl, swr) \<Rightarrow> (found, ttl, swr)))"

definition uses_cache :: "(string \<times> RouteRule) list \<Rightarrow> web_request \<Rightarrow> bool" where
  "uses_cache rules r \<longleftrightarrow> (case ttl_age rules r of (found, ttl, swr) \<Rightarrow> found \<and> ttl > 0 \<and> cacheableRequest r)"

definition second :: int where "second = 1000000000"

definition fresh_entry :: "(string \<times> RouteRule) list \<Rightarrow> web_request \<Rightarrow> int \<Rightarrow> cachedHTTPResponse \<Rightarrow> bool" where
  "fresh_entry rules r now e \<longleftrightarrow> (case ttl_age rules r of (found, ttl, swr) \<Rightarrow> now - hr_Stored e < ttl * second)"

definition stale_entry :: "(string \<times> RouteRule) list \<Rightarrow> web_request \<Rightarrow> int \<Rightarrow> cachedHTTPResponse \<Rightarrow> bool" where
  "stale_entry rules r now e \<longleftrightarrow> \<not> fresh_entry rules r now e \<and>
     (case ttl_age rules r of (found, ttl, swr) \<Rightarrow> swr > 0 \<and> now - hr_Stored e < (ttl + swr) * second)"

definition put_response ::
  "(string list \<Rightarrow> string list) \<Rightarrow> string \<Rightarrow> cachedHTTPResponse \<Rightarrow> httpResponseCache \<Rightarrow> httpResponseCache" where
  "put_response iter k e c = (if responseCacheable (hr_Header e) (hr_Status e) then hc_set iter k e c else c)"

text \<open>
  The steps of \<^verbatim>\<open>serveServerRoute\<close> between which other requests may run: the look at the cache with
  its answer, joining or leading a flight after a miss, the end of a flight, and the end of a background update.
  \<open>H r acts\<close> says that \<open>done\<close> is something the handler may do for the request \<open>r\<close>.
\<close>

inductive route_step :: "(web_request \<Rightarrow> writer_call list \<Rightarrow> bool) \<Rightarrow> (string \<times> RouteRule) list \<Rightarrow> route_state \<Rightarrow> route_state \<Rightarrow> bool" for H rules where
  Direct: "\<not> uses_cache rules r \<Longrightarrow> H r acts \<Longrightarrow>
     route_step H rules s (s\<lparr>answers := \<lparr>a_request = r, a_how = Bypass, a_response = executeCachedRoute acts now\<rparr> # answers s\<rparr>)"
| Hit: "uses_cache rules r \<Longrightarrow> hc_get (apiCacheKey r) (apiCache s) = Some e \<Longrightarrow> fresh_entry rules r now e \<Longrightarrow>
     route_step H rules s (s\<lparr>answers := \<lparr>a_request = r, a_how = FromCache ''hit'', a_response = e\<rparr> # answers s\<rparr>)"
| Stale: "uses_cache rules r \<Longrightarrow> hc_get (apiCacheKey r) (apiCache s) = Some e \<Longrightarrow> stale_entry rules r now e \<Longrightarrow>
     hc_begin (apiCacheKey r) (apiCache s) = (begun, c) \<Longrightarrow>
     route_step H rules s (s\<lparr>apiCache := c, background := (if begun then [(apiCacheKey r, r)] else []) @ background s,
       answers := \<lparr>a_request = r, a_how = FromCache ''stale'', a_response = e\<rparr> # answers s\<rparr>)"
| Update: "background s = bs1 @ (k, r) # bs2 \<Longrightarrow> H r acts \<Longrightarrow>
     route_step H rules s (s\<lparr>apiCache := hc_end k (put_response iter k (executeCachedRoute acts now) (apiCache s)),
       background := bs1 @ bs2\<rparr>)"
| Look: "uses_cache rules r \<Longrightarrow>
     (\<forall>e. hc_get (apiCacheKey r) (apiCache s) = Some e \<longrightarrow> \<not> fresh_entry rules r now e \<and> \<not> stale_entry rules r now e) \<Longrightarrow>
     route_step H rules s (s\<lparr>missed := r # missed s\<rparr>)"
| Lead: "missed s = ms1 @ r # ms2 \<Longrightarrow> map_of (flights s) (apiCacheKey r) = None \<Longrightarrow>
     route_step H rules s (s\<lparr>missed := ms1 @ ms2, flights := (apiCacheKey r, r, []) # flights s\<rparr>)"
| Joining: "missed s = ms1 @ r # ms2 \<Longrightarrow> map_of (flights s) (apiCacheKey r) = Some (leader, waiting) \<Longrightarrow>
     route_step H rules s (s\<lparr>missed := ms1 @ ms2, flights := AList.update (apiCacheKey r) (leader, r # waiting) (flights s)\<rparr>)"
| Finish: "map_of (flights s) k = Some (leader, waiting) \<Longrightarrow>
     (if (case hc_get k (apiCache s) of Some e \<Rightarrow> fresh_entry rules leader now e | None \<Rightarrow> False)
      then value = the (hc_get k (apiCache s)) \<and> c = apiCache s
      else H leader acts \<and> value = executeCachedRoute acts now' \<and> c = put_response iter k value (apiCache s)) \<Longrightarrow>
     route_step H rules s (s\<lparr>apiCache := c, flights := AList.delete k (flights s),
       answers := map (\<lambda>r. \<lparr>a_request = r, a_how = FromFlight, a_response = value\<rparr>) (leader # waiting) @ answers s\<rparr>)"

inductive_cases route_stepE: "route_step H rules s s'"

inductive route_reach :: "(web_request \<Rightarrow> writer_call list \<Rightarrow> bool) \<Rightarrow> (string \<times> RouteRule) list \<Rightarrow> int \<Rightarrow> route_state \<Rightarrow> bool" for H rules n where
  Start: "route_reach H rules n \<lparr>apiCache = newHTTPResponseCache n, flights = [], missed = [], background = [], answers = []\<rparr>"
| Step: "route_reach H rules n s \<Longrightarrow> route_step H rules s s' \<Longrightarrow> route_reach H rules n s'"

section \<open>Server routes: facts\<close>

text \<open>An entry comes from the handler, run for a request with the entry's key.\<close>

definition made_for :: "(web_request \<Rightarrow> writer_call list \<Rightarrow> bool) \<Rightarrow> (string \<times> RouteRule) list \<Rightarrow> string \<Rightarrow> cachedHTTPResponse \<Rightarrow> bool" where
  "made_for H rules k e \<longleftrightarrow> (\<exists>r acts now. H r acts \<and> uses_cache rules r \<and> apiCacheKey r = k \<and> e = executeCachedRoute acts now)"

definition cache_clean :: "(web_request \<Rightarrow> writer_call list \<Rightarrow> bool) \<Rightarrow> (string \<times> RouteRule) list \<Rightarrow> httpResponseCache \<Rightarrow> bool" where
  "cache_clean H rules c \<longleftrightarrow> (\<forall>(k, e)\<in>set (hc_items c). responseCacheable (hr_Header e) (hr_Status e) \<and> made_for H rules k e)"

definition queued :: "(string \<times> RouteRule) list \<Rightarrow> route_state \<Rightarrow> bool" where
  "queued rules s \<longleftrightarrow>
     (\<forall>(k, leader, waiting)\<in>set (flights s). \<forall>r\<in>set (leader # waiting). uses_cache rules r \<and> apiCacheKey r = k) \<and>
     (\<forall>r\<in>set (missed s). uses_cache rules r) \<and>
     (\<forall>(k, r)\<in>set (background s). uses_cache rules r \<and> apiCacheKey r = k)"

definition answered_well :: "(web_request \<Rightarrow> writer_call list \<Rightarrow> bool) \<Rightarrow> (string \<times> RouteRule) list \<Rightarrow> answer \<Rightarrow> bool" where
  "answered_well H rules a \<longleftrightarrow>
     (case a_how a of
        Bypass \<Rightarrow> \<exists>acts now. H (a_request a) acts \<and> a_response a = executeCachedRoute acts now
      | FromCache how \<Rightarrow> uses_cache rules (a_request a) \<and> made_for H rules (apiCacheKey (a_request a)) (a_response a) \<and>
          responseCacheable (hr_Header (a_response a)) (hr_Status (a_response a))
      | FromFlight \<Rightarrow> uses_cache rules (a_request a) \<and> made_for H rules (apiCacheKey (a_request a)) (a_response a))"

definition route_ok :: "(web_request \<Rightarrow> writer_call list \<Rightarrow> bool) \<Rightarrow> (string \<times> RouteRule) list \<Rightarrow> route_state \<Rightarrow> bool" where
  "route_ok H rules s \<longleftrightarrow> cache_clean H rules (apiCache s) \<and> queued rules s \<and> (\<forall>a\<in>set (answers s). answered_well H rules a)"

lemma cache_clean_get:
  "cache_clean H rules c \<Longrightarrow> hc_get k c = Some e \<Longrightarrow> responseCacheable (hr_Header e) (hr_Status e) \<and> made_for H rules k e"
  unfolding cache_clean_def hc_get_def by (auto dest!: map_of_SomeD)

lemma cache_clean_put:
  assumes "cache_clean H rules c" and "made_for H rules k e"
  shows "cache_clean H rules (put_response iter k e c)"
proof (cases "responseCacheable (hr_Header e) (hr_Status e)")
  case True
  let ?its = "if length (hc_items c) \<ge> hc_maxEntries c
              then (case iter (map fst (hc_items c)) of [] \<Rightarrow> hc_items c | old # _ \<Rightarrow> AList.delete old (hc_items c))
              else hc_items c"
  have "set ?its \<subseteq> set (hc_items c)" by (auto split: list.splits)
  then have "set (AList.update k e ?its) \<subseteq> insert (k, e) (set (hc_items c))" using set_update_entries by fastforce
  with assms True show ?thesis unfolding put_response_def hc_set_def cache_clean_def Let_def by auto
qed (use assms in \<open>simp add: put_response_def\<close>)

lemma cache_clean_marks [simp]:
  "hc_begin k c = (b, c') \<Longrightarrow> cache_clean H rules c' = cache_clean H rules c"
  "cache_clean H rules (hc_end k c) = cache_clean H rules c"
  by (auto simp: hc_begin_def hc_end_def cache_clean_def split: if_splits)

lemma queued_flight:
  "queued rules s \<Longrightarrow> map_of (flights s) k = Some (leader, waiting) \<Longrightarrow> r \<in> set (leader # waiting) \<Longrightarrow> uses_cache rules r \<and> apiCacheKey r = k"
  unfolding queued_def by (drule map_of_SomeD) blast

lemma made_forI: "H r acts \<Longrightarrow> uses_cache rules r \<Longrightarrow> made_for H rules (apiCacheKey r) (executeCachedRoute acts now)"
  unfolding made_for_def by blast

lemma route_ok_step: "route_step H rules s s' \<Longrightarrow> route_ok H rules s \<Longrightarrow> route_ok H rules s'"
proof (induction rule: route_step.induct)
  case (Direct r acts s now)
  then show ?case by (auto simp: route_ok_def queued_def answered_well_def)
next
  case (Hit r s e now)
  with cache_clean_get [OF _ Hit(2)] show ?case by (auto simp: route_ok_def queued_def answered_well_def)
next
  case (Stale r s e now begun c)
  with cache_clean_get [OF _ Stale(2)] show ?case by (auto simp: route_ok_def queued_def answered_well_def)
next
  case (Update s bs1 k r bs2 acts iter now)
  then have "uses_cache rules r" "apiCacheKey r = k" by (auto simp: route_ok_def queued_def)
  with made_forI [of H r acts rules now] Update cache_clean_put show ?case
    by (auto simp: route_ok_def queued_def)
next
  case (Look r s now)
  then show ?case by (auto simp: route_ok_def queued_def)
next
  case (Lead s ms1 r ms2)
  then show ?case by (auto simp: route_ok_def queued_def)
next
  case (Joining s ms1 r ms2 leader waiting)
  have q: "queued rules s" using Joining by (simp add: route_ok_def)
  have r: "uses_cache rules r" using q Joining(1) by (simp add: queued_def)
  have "\<forall>x\<in>set (leader # r # waiting). uses_cache rules x \<and> apiCacheKey x = apiCacheKey r"
    using queued_flight [OF q Joining(2)] r by auto
  then have "\<forall>(k, leader, waiting)\<in>insert (apiCacheKey r, leader, r # waiting) (set (flights s)).
      \<forall>x\<in>set (leader # waiting). uses_cache rules x \<and> apiCacheKey x = k"
    using q unfolding queued_def by simp
  with set_update_entries [of "apiCacheKey r" "(leader, r # waiting)" "flights s"]
  have "\<forall>(k, leader, waiting)\<in>set (AList.update (apiCacheKey r) (leader, r # waiting) (flights s)).
      \<forall>x\<in>set (leader # waiting). uses_cache rules x \<and> apiCacheKey x = k" by blast
  moreover have "\<forall>x\<in>set (ms1 @ ms2). uses_cache rules x" "\<forall>(k, r)\<in>set (background s). uses_cache rules r \<and> apiCacheKey r = k"
    using q Joining(1) by (simp_all add: queued_def)
  ultimately show ?case using Joining(3) unfolding route_ok_def queued_def by simp
next
  case (Finish s k leader waiting now resp c acts now' iter)
  have q: "queued rules s" and cl: "cache_clean H rules (apiCache s)" using Finish by (simp_all add: route_ok_def)
  note f = queued_flight [OF q Finish(1)]
  have l: "uses_cache rules leader" "apiCacheKey leader = k" using f [of leader] by auto
  have "made_for H rules k resp \<and> cache_clean H rules c"
  proof (cases "case hc_get k (apiCache s) of Some e \<Rightarrow> fresh_entry rules leader now e | None \<Rightarrow> False")
    case True
    then obtain e where "hc_get k (apiCache s) = Some e" by (auto split: option.splits)
    with True Finish(2) cache_clean_get [OF cl this] cl show ?thesis by simp
  next
    case False
    then have "H leader acts" "resp = executeCachedRoute acts now'" "c = put_response iter k resp (apiCache s)"
      using Finish(2) by auto
    with made_forI [of H leader acts rules now', OF this(1) l(1)] l cache_clean_put [OF cl] show ?thesis by simp
  qed
  moreover have "\<forall>x\<in>set (leader # waiting). uses_cache rules x \<and> apiCacheKey x = k" using f by blast
  moreover have "set (AList.delete k (flights s)) \<subseteq> set (flights s)" by auto
  ultimately show ?case using Finish(3) q unfolding route_ok_def queued_def answered_well_def by auto
qed

lemma route_ok_reach: "route_reach H rules n s \<Longrightarrow> route_ok H rules s"
proof (induction rule: route_reach.induct)
  case Start
  then show ?case by (simp add: route_ok_def cache_clean_def queued_def newHTTPResponseCache_def)
qed (rule route_ok_step)

text \<open>Tenants and addresses can be read off a key: a tenant's id has no slash, an address starts with one.\<close>

lemma split_at_slash: "a @ CHR ''/'' # b = a' @ CHR ''/'' # b' \<Longrightarrow> CHR ''/'' \<notin> set a \<Longrightarrow> CHR ''/'' \<notin> set a' \<Longrightarrow> a = a' \<and> b = b'"
proof -
  assume e: "a @ CHR ''/'' # b = a' @ CHR ''/'' # b'" and a: "CHR ''/'' \<notin> set a" "CHR ''/'' \<notin> set a'"
  have t: "takeWhile (\<lambda>c. c \<noteq> CHR ''/'') (x @ CHR ''/'' # y) = x" if "CHR ''/'' \<notin> set x" for x y
    using that by (subst takeWhile_append2) auto
  have "a = a'" using t [OF a(1), of b] t [OF a(2), of b'] e by simp
  with e show ?thesis by simp
qed

lemma tenant_no_slash: "CHR ''/'' \<notin> set (tenantIDFromRequest t)"
  by (auto simp: tenantIDFromRequest_def safeTenantID_def split: option.split)

lemma api_key_inj:
  assumes "apiCacheKey r = apiCacheKey r'" and "uses_cache rules r" and "uses_cache rules r'"
    and "w_uri r = CHR ''/'' # u" and "w_uri r' = CHR ''/'' # u'"
  shows "tenantIDFromRequest (w_tenant r) = tenantIDFromRequest (w_tenant r') \<and> w_uri r = w_uri r'"
proof -
  have "w_method r = ''GET''" "w_method r' = ''GET''" using assms(2,3) by (auto simp: uses_cache_def cacheableRequest_def)
  then have "(tenantIDFromRequest (w_tenant r) @ ''|GET '') @ CHR ''/'' # u = (tenantIDFromRequest (w_tenant r') @ ''|GET '') @ CHR ''/'' # u'"
    using assms(1,4,5) by (simp add: apiCacheKey_def)
  from split_at_slash [OF this] tenant_no_slash assms(4,5) show ?thesis by simp
qed

lemma mget_mark [simp]: "k \<noteq> ''X-Myelophone-Cache'' \<Longrightarrow> mget (AList.update ''X-Myelophone-Cache'' vs h) k = mget h k"
  by (simp add: mget_def)


text \<open>A run for the examples: two visitors ask for the same page of a route cached for a minute.\<close>

definition demo_rules :: "(string \<times> RouteRule) list" where
  "demo_rules = [(''/api/**'', no_rule\<lparr>CacheMaxAge := Some 60\<rparr>)]"

definition visitor :: "string list \<Rightarrow> web_request" where
  "visitor cookies = \<lparr>w_method = ''GET'', w_authorization = [], w_cookies = cookies, w_tenant = None, w_path = ''/api/x'', w_uri = ''/api/x''\<rparr>"

lemma visitor_uses_cache: "uses_cache demo_rules (visitor [])" "uses_cache demo_rules (visitor [''gosh_runtime''])"
  by code_simp+

lemma visitor_key: "apiCacheKey (visitor cs) = ''|GET /api/x''"
  by (simp add: apiCacheKey_def visitor_def tenantIDFromRequest_def)

lemma visitor_age: "fresh_entry demo_rules (visitor []) 5 \<lparr>hr_Status = 200, hr_Header = [], hr_Body = ''hi'', hr_Stored = 1\<rparr>"
  by code_simp


text \<open>A response that is not stored is still handed to everyone who waits for it: the second visitor
  gets the session cookie that the handler set for the first one.\<close>

theorem flight_shares_cookie:
  "\<exists>s a. route_reach (\<lambda>r acts. acts = [SetHeader ''Set-Cookie'' [if w_cookies r = [] then ''sid=1'' else ''sid=2'']]) demo_rules 4 s \<and>
     a \<in> set (answers s) \<and> a_request a = visitor [''gosh_runtime''] \<and> mget (hr_Header (sent a)) ''Set-Cookie'' = ''sid=1''"
proof -
  let ?H = "\<lambda>r acts. acts = [SetHeader ''Set-Cookie'' [if w_cookies r = [] then ''sid=1'' else ''sid=2'']]"
  let ?k = "''|GET /api/x''" and ?u = "visitor []" and ?v = "visitor [''gosh_runtime'']"
  let ?e = "\<lparr>hr_Status = 200, hr_Header = [(''Set-Cookie'', [''sid=1''])], hr_Body = [], hr_Stored = 1\<rparr>"
  let ?s0 = "\<lparr>apiCache = newHTTPResponseCache 4, flights = [], missed = [], background = [], answers = []\<rparr>"
  let ?s1 = "?s0\<lparr>missed := [?u]\<rparr>"
  let ?s2 = "?s0\<lparr>missed := [?v, ?u]\<rparr>"
  let ?s3 = "?s0\<lparr>missed := [?v], flights := [(?k, ?u, [])]\<rparr>"
  let ?s4 = "?s0\<lparr>flights := [(?k, ?u, [?v])]\<rparr>"
  let ?s5 = "?s0\<lparr>answers := map (\<lambda>r. \<lparr>a_request = r, a_how = FromFlight, a_response = ?e\<rparr>) [?u, ?v]\<rparr>"
  have ex: "executeCachedRoute [SetHeader ''Set-Cookie'' [''sid=1'']] 1 = ?e"
    by (simp add: executeCachedRoute_def newCaptureWriter_def)
  have "route_step ?H demo_rules ?s0 ?s1"
    using route_step.Look [OF visitor_uses_cache(1), of ?s0 0 ?H] by (simp add: hc_get_def newHTTPResponseCache_def)
  moreover have "route_step ?H demo_rules ?s1 ?s2"
    using route_step.Look [OF visitor_uses_cache(2), of ?s1 0 ?H] by (simp add: hc_get_def newHTTPResponseCache_def)
  moreover have "route_step ?H demo_rules ?s2 ?s3"
    using route_step.Lead [of ?s2 "[?v]" ?u "[]" ?H demo_rules] by (simp add: visitor_key)
  moreover have "route_step ?H demo_rules ?s3 ?s4"
    using route_step.Joining [of ?s3 "[]" ?v "[]" ?u "[]" ?H demo_rules] by (simp add: visitor_key)
  moreover have "put_response (\<lambda>x. x) ?k ?e (newHTTPResponseCache 4) = newHTTPResponseCache 4"
    by (simp add: put_response_def responseCacheable_def mget_def)
  then have "route_step ?H demo_rules ?s4 ?s5"
    using route_step.Finish [of ?s4 ?k ?u "[?v]" demo_rules 1 ?e "newHTTPResponseCache 4" ?H
        "[SetHeader ''Set-Cookie'' [''sid=1'']]" 1 "\<lambda>x. x"] ex
    by (simp add: hc_get_def newHTTPResponseCache_def visitor_def)
  ultimately have "route_reach ?H demo_rules 4 ?s5" by (meson route_reach.intros)
  moreover have "mget (hr_Header (sent \<lparr>a_request = ?v, a_how = FromFlight, a_response = ?e\<rparr>)) ''Set-Cookie'' = ''sid=1''"
    by (simp add: sent_def writeCachedHTTP_def) (simp add: mget_def)
  ultimately show ?thesis by force
qed

end
