(* ===== verification/Form.thy ===== *)
theory Form imports GoPrelude begin

text \<open>
  Parsed requests and their validation (\<^verbatim>\<open>form.go\<close>). The fields are the values that
  \<^verbatim>\<open>encoding/json\<close> and the form parsers produce. \<^verbatim>\<open>float64\<close> and the texts that
  \<^verbatim>\<open>fmt\<close> gives to composite values are parameters (\<open>floats\<close>); regular expressions are predicates.
  Nested maps are updated in place in the code and written back here; a rule's default that is a
  map is copied here and shared there.
\<close>

section \<open>Values and rules\<close>

datatype 'f val =
  VNil | VStr string | VFloat 'f | VInt int | VBool bool | VObj "(string \<times> 'f val) list" | VList "'f val list" | VStrs "string list"

record 'f floats =
  f_less :: "'f \<Rightarrow> 'f \<Rightarrow> bool"
  f_eq :: "'f \<Rightarrow> 'f \<Rightarrow> bool"
  f_of_int :: "int \<Rightarrow> 'f"
  f_to_int :: "'f \<Rightarrow> int"
  f_parse :: "string \<Rightarrow> 'f option"
  f_text :: "'f \<Rightarrow> string"
  f_show :: "'f val \<Rightarrow> string"

type_synonym 'f fields = "(string \<times> 'f val) list"

record file_header =
  fh_Size :: int
  fh_ContentType :: string

type_synonym files = "(string \<times> file_header list) list"

record 'f ParsedRequest =
  Fields :: "'f fields option"
  Files :: files
  Raw :: string

record 'f rule_info =
  r_Name :: string
  r_Type :: string
  r_Required :: bool
  r_Default :: "'f val"
  r_MinLen :: "int option"
  r_MaxLen :: "int option"
  r_Regex :: "(string \<Rightarrow> bool) option"
  r_Min :: "'f option"
  r_Max :: "'f option"
  r_CustomMsg :: string
  r_ElemType :: string
  r_Enum :: "'f val list"
  r_AllowedMime :: "string list"
  r_MaxFileBytes :: int

text \<open>A rule and the rules \<^verbatim>\<open>Nested\<close> in it.\<close>

datatype 'f ValidationRule = Rule "'f rule_info" "'f ValidationRule list"

record ValidationError =
  ve_Field :: string
  ve_Message :: string

section \<open>Conversions\<close>

definition Atoi :: "string \<Rightarrow> int option" where "Atoi s = ParseInt64 s"

definition ParseBool :: "string \<Rightarrow> bool option" where
  "ParseBool s =
     (if s \<in> {''1'', ''t'', ''T'', ''TRUE'', ''true'', ''True''} then Some True
      else if s \<in> {''0'', ''f'', ''F'', ''FALSE'', ''false'', ''False''} then Some False else None)"

definition toInt :: "'f floats \<Rightarrow> 'f val \<Rightarrow> int option" where
  "toInt F v = (case v of VFloat f \<Rightarrow> Some (f_to_int F f) | VInt i \<Rightarrow> Some i | VStr s \<Rightarrow> Atoi s | _ \<Rightarrow> None)"

definition toFloat :: "'f floats \<Rightarrow> 'f val \<Rightarrow> 'f option" where
  "toFloat F v = (case v of VFloat f \<Rightarrow> Some f | VInt i \<Rightarrow> Some (f_of_int F i) | VStr s \<Rightarrow> f_parse F s | _ \<Rightarrow> None)"

text \<open>\<^verbatim>\<open>fmt.Sprintf("%v", val)\<close>.\<close>

definition fmtv :: "'f floats \<Rightarrow> 'f val \<Rightarrow> string" where
  "fmtv F v = (case v of VStr s \<Rightarrow> s | VInt i \<Rightarrow> Itoa i | VBool b \<Rightarrow> (if b then ''true'' else ''false'') | _ \<Rightarrow> f_show F v)"

definition containsString :: "string list \<Rightarrow> string \<Rightarrow> bool" where
  "containsString arr target \<longleftrightarrow> list_ex (\<lambda>a. a = target) arr"

definition containsStringAny :: "'f val list \<Rightarrow> string \<Rightarrow> bool" where
  "containsStringAny arr target \<longleftrightarrow> list_ex (\<lambda>a. case a of VStr s \<Rightarrow> s = target | _ \<Rightarrow> False) arr"

definition containsNumber :: "'f floats \<Rightarrow> 'f val list \<Rightarrow> 'f \<Rightarrow> bool" where
  "containsNumber F arr target \<longleftrightarrow> list_ex (\<lambda>a. case toFloat F a of Some f \<Rightarrow> f_eq F f target | None \<Rightarrow> False) arr"

section \<open>Validation\<close>

definition full_path :: "string \<Rightarrow> string \<Rightarrow> string" where
  "full_path prefix name = (if prefix \<noteq> [] then prefix @ ''.'' @ name else name)"

definition addErr :: "string \<Rightarrow> 'f rule_info \<Rightarrow> string \<Rightarrow> ValidationError list" where
  "addErr prefix i msg =
     [\<lparr>ve_Field = full_path prefix (r_Name i), ve_Message = (if r_CustomMsg i \<noteq> [] then r_CustomMsg i else msg)\<rparr>]"

definition check :: "bool \<Rightarrow> string \<Rightarrow> 'f rule_info \<Rightarrow> string \<Rightarrow> ValidationError list" where
  "check bad prefix i msg = (if bad then addErr prefix i msg else [])"

definition file_errors :: "string \<Rightarrow> 'f rule_info \<Rightarrow> files \<Rightarrow> ValidationError list" where
  "file_errors prefix i fs =
     (case map_of fs (r_Name i) of
        None \<Rightarrow> check (r_Required i) prefix i ''file is required''
      | Some [] \<Rightarrow> check (r_Required i) prefix i ''file is required''
      | Some fhs \<Rightarrow>
          concat (map (\<lambda>fh.
            check (r_MaxFileBytes i > 0 \<and> fh_Size fh > r_MaxFileBytes i) prefix i
              (''file exceeds maximum size of '' @ Itoa (r_MaxFileBytes i) @ '' bytes'') @
            check (r_AllowedMime i \<noteq> [] \<and> \<not> containsString (r_AllowedMime i) (fh_ContentType fh)) prefix i
              (''unsupported file type: '' @ fh_ContentType fh)) fhs))"

definition string_errors :: "string \<Rightarrow> 'f rule_info \<Rightarrow> string \<Rightarrow> ValidationError list" where
  "string_errors prefix i s =
     (case r_MinLen i of Some n \<Rightarrow> check (int (length s) < n) prefix i (''min length is '' @ Itoa n) | None \<Rightarrow> []) @
     (case r_MaxLen i of Some n \<Rightarrow> check (int (length s) > n) prefix i (''max length is '' @ Itoa n) | None \<Rightarrow> []) @
     check (r_Enum i \<noteq> [] \<and> \<not> containsStringAny (r_Enum i) s) prefix i ''value not allowed'' @
     (case r_Regex i of Some m \<Rightarrow> check (\<not> m s) prefix i ''does not match pattern'' | None \<Rightarrow> [])"

definition range_errors :: "'f floats \<Rightarrow> string \<Rightarrow> 'f rule_info \<Rightarrow> 'f \<Rightarrow> ValidationError list" where
  "range_errors F prefix i f =
     (case r_Min i of Some m \<Rightarrow> check (f_less F f m) prefix i (''minimum is '' @ f_text F m) | None \<Rightarrow> []) @
     (case r_Max i of Some m \<Rightarrow> check (f_less F m f) prefix i (''maximum is '' @ f_text F m) | None \<Rightarrow> [])"

definition element_error :: "'f floats \<Rightarrow> string \<Rightarrow> 'f val \<Rightarrow> string option" where
  "element_error F elem v =
     (if elem = ''int'' then (if toInt F v = None then Some ''element must be int'' else None)
      else if elem = ''float'' then (if toFloat F v = None then Some ''element must be float'' else None)
      else if elem = ''string'' then (case v of VStr s \<Rightarrow> None | _ \<Rightarrow> Some ''element must be string'')
      else None)"

fun slice_errors :: "'f floats \<Rightarrow> string \<Rightarrow> 'f rule_info \<Rightarrow> nat \<Rightarrow> 'f val list \<Rightarrow> ValidationError list" where
  "slice_errors F prefix i idx [] = []"
| "slice_errors F prefix i idx (v # vs) =
     (case element_error F (r_ElemType i) v of
        None \<Rightarrow> []
      | Some msg \<Rightarrow> [\<lparr>ve_Field = full_path prefix (r_Name i @ ''['' @ Itoa_nat idx @ '']''), ve_Message = msg\<rparr>]) @
     slice_errors F prefix i (Suc idx) vs"

text \<open>The cases of the switch but \<^verbatim>\<open>object\<close>: the errors and the value stored.\<close>

definition check_value :: "'f floats \<Rightarrow> string \<Rightarrow> 'f rule_info \<Rightarrow> 'f val \<Rightarrow> ValidationError list \<times> 'f val" where
  "check_value F prefix i v =
     (if r_Type i = ''string'' then (string_errors prefix i (fmtv F v), VStr (fmtv F v))
      else if r_Type i = ''int'' then
        (case toInt F v of
           None \<Rightarrow> (addErr prefix i ''must be an integer'', v)
         | Some n \<Rightarrow> (range_errors F prefix i (f_of_int F n) @
             check (r_Enum i \<noteq> [] \<and> \<not> containsNumber F (r_Enum i) (f_of_int F n)) prefix i ''value not allowed'', VInt n))
      else if r_Type i = ''float'' then
        (case toFloat F v of
           None \<Rightarrow> (addErr prefix i ''must be a float'', v)
         | Some f \<Rightarrow> (range_errors F prefix i f, VFloat f))
      else if r_Type i = ''bool'' then
        (case v of
           VBool b \<Rightarrow> ([], v)
         | VStr s \<Rightarrow> (case ParseBool s of Some b \<Rightarrow> ([], VBool b) | None \<Rightarrow> (addErr prefix i ''must be a boolean'', v))
         | _ \<Rightarrow> (addErr prefix i ''must be a boolean'', v))
      else if r_Type i = ''slice'' then
        (case v of
           VList vs \<Rightarrow> (slice_errors F prefix i 0 vs, v)
         | VStrs ss \<Rightarrow> (slice_errors F prefix i 0 (map VStr ss), v)
         | _ \<Rightarrow> (addErr prefix i ''must be an array/slice'', v))
      else ([], v))"

definition absent :: "'f val option \<Rightarrow> bool" where
  "absent v \<longleftrightarrow> v = None \<or> v = Some VNil \<or> v = Some (VStr [])"

text \<open>The body of the loop for one rule: its errors and the value it stores, if any; \<open>nest\<close> validates the
  nested rules on a map.\<close>

definition rule_result ::
  "'f floats \<Rightarrow> string \<Rightarrow> 'f rule_info \<Rightarrow> files \<Rightarrow> ('f fields \<Rightarrow> ValidationError list \<times> 'f fields) \<Rightarrow> 'f val option \<Rightarrow>
     ValidationError list \<times> 'f val option" where
  "rule_result F prefix i fs nest v0 =
     (if r_Type i = ''file'' then (file_errors prefix i fs, None)
      else if absent v0 \<and> r_Default i = VNil then (check (r_Required i) prefix i ''required'', None)
      else
        let v = (if absent v0 then r_Default i else the v0)
        in if r_Type i = ''object'' then
             (case v of
                VObj m \<Rightarrow> (case nest m of (es, m') \<Rightarrow> (es, Some (VObj m')))
              | _ \<Rightarrow> (addErr prefix i ''must be an object'', Some v))
           else (case check_value F prefix i v of (es, v') \<Rightarrow> (es, Some v')))"

definition store :: "string \<Rightarrow> 'f val option \<Rightarrow> 'f fields \<Rightarrow> 'f fields" where
  "store name v flds = (case v of Some x \<Rightarrow> AList.update name x flds | None \<Rightarrow> flds)"

fun validateRecursive ::
  "'f floats \<Rightarrow> 'f ValidationRule list \<Rightarrow> 'f fields \<Rightarrow> files \<Rightarrow> string \<Rightarrow> ValidationError list \<times> 'f fields" where
  "validateRecursive F [] flds fs prefix = ([], flds)"
| "validateRecursive F (Rule i nested # rules) flds fs prefix =
     (case rule_result F prefix i fs (\<lambda>m. validateRecursive F nested m fs (full_path prefix (r_Name i))) (map_of flds (r_Name i)) of
        (es1, stored) \<Rightarrow>
          (case validateRecursive F rules (store (r_Name i) stored flds) fs prefix of (es2, flds') \<Rightarrow> (es1 @ es2, flds')))"

text \<open>\<^verbatim>\<open>Fields\<close> is a nil map after the body \<^verbatim>\<open>null\<close>: reading it finds nothing and storing a default in
  it panics (\<open>None\<close>).\<close>

fun stores_default :: "'f ValidationRule \<Rightarrow> bool" where
  "stores_default (Rule i nested) \<longleftrightarrow> r_Type i \<noteq> ''file'' \<and> r_Default i \<noteq> VNil"

definition Validate ::
  "'f floats \<Rightarrow> 'f ParsedRequest \<Rightarrow> 'f ValidationRule list \<Rightarrow> (ValidationError list \<times> 'f ParsedRequest) option" where
  "Validate F pr rules =
     (case Fields pr of
        Some m \<Rightarrow> (case validateRecursive F rules m (Files pr) [] of (es, flds) \<Rightarrow> Some (es, pr\<lparr>Fields := Some flds\<rparr>))
      | None \<Rightarrow>
          if list_ex stores_default rules then None
          else Some (fst (validateRecursive F rules [] (Files pr) []), pr))"

definition field :: "'f ParsedRequest \<Rightarrow> string \<Rightarrow> 'f val option" where
  "field pr key = (case Fields pr of Some m \<Rightarrow> map_of m key | None \<Rightarrow> None)"

section \<open>Accessors\<close>

definition GetString :: "'f floats \<Rightarrow> 'f ParsedRequest \<Rightarrow> string \<Rightarrow> string" where
  "GetString F pr key = (case field pr key of Some v \<Rightarrow> fmtv F v | None \<Rightarrow> [])"

definition GetInt :: "'f floats \<Rightarrow> 'f ParsedRequest \<Rightarrow> string \<Rightarrow> int option" where
  "GetInt F pr key = (case field pr key of Some v \<Rightarrow> toInt F v | None \<Rightarrow> None)"

definition GetFloat :: "'f floats \<Rightarrow> 'f ParsedRequest \<Rightarrow> string \<Rightarrow> 'f option" where
  "GetFloat F pr key = (case field pr key of Some v \<Rightarrow> toFloat F v | None \<Rightarrow> None)"

definition GetBool :: "'f ParsedRequest \<Rightarrow> string \<Rightarrow> bool option" where
  "GetBool pr key = (case field pr key of Some (VBool b) \<Rightarrow> Some b | _ \<Rightarrow> None)"

definition GetSlice :: "'f ParsedRequest \<Rightarrow> string \<Rightarrow> 'f val list option" where
  "GetSlice pr key = (case field pr key of Some (VList vs) \<Rightarrow> Some vs | _ \<Rightarrow> None)"

definition GetMap :: "'f ParsedRequest \<Rightarrow> string \<Rightarrow> 'f fields option" where
  "GetMap pr key = (case field pr key of Some (VObj m) \<Rightarrow> Some m | _ \<Rightarrow> None)"

definition GetFiles :: "'f ParsedRequest \<Rightarrow> string \<Rightarrow> file_header list" where
  "GetFiles pr key = (case map_of (Files pr) key of Some fhs \<Rightarrow> fhs | None \<Rightarrow> [])"

section \<open>Bodies\<close>

text \<open>
  \<^verbatim>\<open>ParseRequest\<close>: what the parsers of the standard library make of the body is an argument; the body
  is limited to \<^verbatim>\<open>MaxBodySize\<close> by them. \<open>Decoded None\<close> is the JSON
  value \<^verbatim>\<open>null\<close>, which leaves a nil map, and \<open>DecodeEOF\<close> an empty body.
\<close>

datatype 'f decoded = Decoded "'f fields option" | DecodeEOF | DecodeFails string

datatype form_error = InvalidJSON string | CannotParseForm string | CannotParseMultipart string | ReadFails string

definition form_value :: "string list \<Rightarrow> 'f val" where
  "form_value v = (if length v = 1 then VStr (hd v) else VStrs v)"

definition form_fields :: "(string \<times> string list) list \<Rightarrow> 'f fields" where
  "form_fields form = fold (\<lambda>(k, v). AList.update k (form_value v)) form []"

definition ParseRequest ::
  "string \<Rightarrow> 'f decoded \<Rightarrow> string + (string \<times> string list) list \<Rightarrow> string + ((string \<times> string list) list \<times> files) \<Rightarrow>
     string + string \<Rightarrow> form_error + 'f ParsedRequest" where
  "ParseRequest ct json form multipart body =
     (if HasPrefix ct ''application/json'' then
        (case json of Decoded m \<Rightarrow> Inr \<lparr>Fields = m, Files = [], Raw = []\<rparr> | DecodeEOF \<Rightarrow> Inr \<lparr>Fields = Some [], Files = [], Raw = []\<rparr>
         | DecodeFails e \<Rightarrow> Inl (InvalidJSON e))
      else if HasPrefix ct ''application/x-www-form-urlencoded'' then
        (case form of Inl e \<Rightarrow> Inl (CannotParseForm e) | Inr m \<Rightarrow> Inr \<lparr>Fields = Some (form_fields m), Files = [], Raw = []\<rparr>)
      else if HasPrefix ct ''multipart/form-data'' then
        (case multipart of Inl e \<Rightarrow> Inl (CannotParseMultipart e)
         | Inr (m, fs) \<Rightarrow> Inr \<lparr>Fields = Some (form_fields m), Files = fs, Raw = []\<rparr>)
      else (case body of Inl e \<Rightarrow> Inl (ReadFails e) | Inr b \<Rightarrow> Inr \<lparr>Fields = Some [], Files = [], Raw = b\<rparr>))"

section \<open>What a valid value is\<close>

definition string_ok :: "'f rule_info \<Rightarrow> string \<Rightarrow> bool" where
  "string_ok i s \<longleftrightarrow>
     (\<forall>n. r_MinLen i = Some n \<longrightarrow> n \<le> int (length s)) \<and> (\<forall>n. r_MaxLen i = Some n \<longrightarrow> int (length s) \<le> n) \<and>
     (r_Enum i \<noteq> [] \<longrightarrow> VStr s \<in> set (r_Enum i)) \<and> (\<forall>m. r_Regex i = Some m \<longrightarrow> m s)"

definition range_ok :: "'f floats \<Rightarrow> 'f rule_info \<Rightarrow> 'f \<Rightarrow> bool" where
  "range_ok F i f \<longleftrightarrow>
     (\<forall>m. r_Min i = Some m \<longrightarrow> \<not> f_less F f m) \<and> (\<forall>m. r_Max i = Some m \<longrightarrow> \<not> f_less F m f)"

definition file_ok :: "'f rule_info \<Rightarrow> files \<Rightarrow> bool" where
  "file_ok i fs \<longleftrightarrow>
     (case map_of fs (r_Name i) of
        Some (fh # fhs) \<Rightarrow> \<forall>x\<in>set (fh # fhs).
          (0 < r_MaxFileBytes i \<longrightarrow> fh_Size x \<le> r_MaxFileBytes i) \<and>
          (r_AllowedMime i \<noteq> [] \<longrightarrow> fh_ContentType x \<in> set (r_AllowedMime i))
      | _ \<Rightarrow> \<not> r_Required i)"

definition elements_ok :: "'f floats \<Rightarrow> 'f rule_info \<Rightarrow> 'f val list \<Rightarrow> bool" where
  "elements_ok F i vs \<longleftrightarrow> (\<forall>v\<in>set vs. element_error F (r_ElemType i) v = None)"

definition value_ok :: "'f floats \<Rightarrow> 'f rule_info \<Rightarrow> 'f val \<Rightarrow> bool" where
  "value_ok F i v \<longleftrightarrow>
     (if r_Type i = ''string'' then \<exists>s. v = VStr s \<and> string_ok i s
      else if r_Type i = ''int'' then \<exists>n. v = VInt n \<and> range_ok F i (f_of_int F n) \<and>
        (r_Enum i \<noteq> [] \<longrightarrow> containsNumber F (r_Enum i) (f_of_int F n))
      else if r_Type i = ''float'' then \<exists>f. v = VFloat f \<and> range_ok F i f
      else if r_Type i = ''bool'' then \<exists>b. v = VBool b
      else if r_Type i = ''slice'' then (\<exists>vs. v = VList vs \<and> elements_ok F i vs) \<or> (\<exists>ss. v = VStrs ss \<and> elements_ok F i (map VStr ss))
      else True)"

definition rule_ok :: "'f floats \<Rightarrow> 'f rule_info \<Rightarrow> files \<Rightarrow> ('f fields \<Rightarrow> bool) \<Rightarrow> 'f val option \<Rightarrow> bool" where
  "rule_ok F i fs nested_ok v \<longleftrightarrow>
     (if r_Type i = ''file'' then file_ok i fs
      else if absent v \<and> r_Default i = VNil then \<not> r_Required i
      else if r_Type i = ''object'' then \<exists>m. v = Some (VObj m) \<and> nested_ok m
      else \<exists>x. v = Some x \<and> value_ok F i x)"

fun conforms :: "'f floats \<Rightarrow> 'f ValidationRule list \<Rightarrow> files \<Rightarrow> 'f fields \<Rightarrow> bool" where
  "conforms F [] fs flds = True"
| "conforms F (Rule i nested # rules) fs flds =
     (rule_ok F i fs (\<lambda>m. conforms F nested fs m) (map_of flds (r_Name i)) \<and> conforms F rules fs flds)"

text \<open>Every rule of a level has its own field.\<close>

fun rule_name :: "'f ValidationRule \<Rightarrow> string" where "rule_name (Rule i nested) = r_Name i"

fun own_names :: "'f ValidationRule list \<Rightarrow> bool" where
  "own_names [] = True"
| "own_names (Rule i nested # rules) = (r_Name i \<notin> rule_name ` set rules \<and> own_names nested \<and> own_names rules)"

text \<open>\<^verbatim>\<open>fmt\<close> writes something for every value but the empty string.\<close>

definition shows_values :: "'f floats \<Rightarrow> bool" where
  "shows_values F \<longleftrightarrow> (\<forall>v. f_show F v \<noteq> [])"

section \<open>Errors and validity\<close>

lemma check_empty [simp]: "check bad prefix i msg = [] \<longleftrightarrow> \<not> bad"
  by (simp add: check_def addErr_def)

lemma addErr_ne [simp]: "addErr prefix i msg \<noteq> []"
  by (simp add: addErr_def)

lemma containsStringAny_iff: "containsStringAny arr s \<longleftrightarrow> VStr s \<in> set arr"
proof -
  have "(case a of VStr x \<Rightarrow> x = s | _ \<Rightarrow> False) \<longleftrightarrow> a = VStr s" for a :: "'a val" by (cases a) auto
  then show ?thesis by (simp add: containsStringAny_def list_ex_iff)
qed

lemma string_errors_iff [simp]: "string_errors prefix i s = [] \<longleftrightarrow> string_ok i s"
  by (auto simp: string_errors_def string_ok_def containsStringAny_iff not_less split: option.splits)

lemma range_errors_iff [simp]: "range_errors F prefix i f = [] \<longleftrightarrow> range_ok F i f"
  by (auto simp: range_errors_def range_ok_def split: option.splits)

lemma file_errors_iff [simp]: "file_errors prefix i fs = [] \<longleftrightarrow> file_ok i fs"
  by (auto simp: file_errors_def file_ok_def containsString_def list_ex_iff not_less split: option.splits list.splits)

lemma slice_errors_iff [simp]: "slice_errors F prefix i idx vs = [] \<longleftrightarrow> elements_ok F i vs"
  by (induction vs arbitrary: idx) (auto simp: elements_ok_def split: option.splits)

lemma toInt_VInt [simp]: "toInt F (VInt n) = Some n"
  by (simp add: toInt_def)

lemma toFloat_VFloat [simp]: "toFloat F (VFloat f) = Some f"
  by (simp add: toFloat_def)

lemma check_value_iff: "check_value F prefix i v = (es, v') \<Longrightarrow> es = [] \<longleftrightarrow> value_ok F i v'"
  by (auto simp: check_value_def value_ok_def split: if_splits val.splits option.splits)

lemma Itoa_ne: "Itoa n \<noteq> []"
  by (simp add: Itoa_def Itoa_nat_ne)

lemma fmtv_empty: "shows_values F \<Longrightarrow> fmtv F v = [] \<longleftrightarrow> v = VStr []"
  by (auto simp: fmtv_def shows_values_def Itoa_ne split: val.splits)

lemma check_value_absent:
  "shows_values F \<Longrightarrow> v \<noteq> VNil \<Longrightarrow> check_value F prefix i v = (es, v') \<Longrightarrow> absent (Some v') \<longleftrightarrow> v = VStr [] \<and> v' = VStr []"
  by (auto simp: check_value_def absent_def fmtv_empty split: if_splits val.splits option.splits)

lemma check_value_again: "check_value F prefix i v = ([], v') \<Longrightarrow> check_value F prefix i v' = ([], v')"
  by (auto simp: check_value_def fmtv_def split: if_splits val.splits option.splits)

text \<open>One rule: no error means that what it leaves in its field is valid, and validating again changes nothing.\<close>

lemma rule_result_iff:
  assumes "shows_values F" and "rule_result F prefix i fs nest v0 = (es, stored)"
    and "\<And>m es' m'. nest m = (es', m') \<Longrightarrow> es' = [] \<longleftrightarrow> nested_ok m'"
  shows "es = [] \<longleftrightarrow> rule_ok F i fs nested_ok (if stored = None then v0 else stored)"
proof (cases "r_Type i = ''file'' \<or> (absent v0 \<and> r_Default i = VNil)")
  case True
  with assms(2) show ?thesis by (auto simp: rule_result_def rule_ok_def split: if_splits)
next
  case False
  let ?v = "if absent v0 then r_Default i else the v0"
  have nn: "?v \<noteq> VNil" using False by (auto simp: absent_def)
  show ?thesis
  proof (cases "r_Type i = ''object''")
    case True
    with False assms(2,3) nn show ?thesis
      by (cases ?v) (auto simp: rule_result_def rule_ok_def absent_def Let_def split: prod.splits)
  next
    case no: False
    obtain es' v' where c: "check_value F prefix i ?v = (es', v')" by fastforce
    have s: "es = es'" "stored = Some v'" using False no assms(2) c by (auto simp: rule_result_def Let_def)
    have "\<not> (absent (Some v') \<and> r_Default i = VNil)"
      using check_value_absent [OF assms(1) nn c] False by (auto simp: absent_def split: if_splits)
    with s check_value_iff [OF c] False no show ?thesis by (auto simp: rule_ok_def)
  qed
qed

lemma rule_result_again:
  assumes "shows_values F" and "rule_result F prefix i fs nest v0 = ([], stored)" and "\<And>m m'. nest m = ([], m') \<Longrightarrow> nest m' = ([], m')"
    and "v1 = (if stored = None then v0 else stored)"
  shows "\<exists>again. rule_result F prefix i fs nest v1 = ([], again) \<and> (again = None \<or> again = v1)"
proof (cases "r_Type i = ''file'' \<or> (absent v0 \<and> r_Default i = VNil)")
  case True
  with assms(2,4) show ?thesis by (auto simp: rule_result_def split: if_splits)
next
  case False
  let ?v = "if absent v0 then r_Default i else the v0"
  have nn: "?v \<noteq> VNil" using False by (auto simp: absent_def)
  show ?thesis
  proof (cases "r_Type i = ''object''")
    case True
    with False assms(2,3,4) nn show ?thesis
      by (cases ?v) (auto simp: rule_result_def absent_def Let_def split: prod.splits)
  next
    case no: False
    obtain v' where c: "check_value F prefix i ?v = ([], v')" and s: "stored = Some v'"
      using False no assms(2) by (auto simp: rule_result_def Let_def split: prod.splits)
    show ?thesis
    proof (cases "absent (Some v')")
      case True
      then have e: "?v = VStr []" "v' = VStr []" using check_value_absent [OF assms(1) nn c] by auto
      with False have "absent v0" "r_Default i = VStr []" by (auto simp: absent_def split: if_splits)
      with c e s assms(4) False no show ?thesis by (auto simp: rule_result_def absent_def)
    next
      case f: False
      with check_value_again [OF c] s assms(4) False no show ?thesis by (auto simp: rule_result_def)
    qed
  qed
qed

lemma map_of_store: "map_of (store k v flds) k' = (if k' = k \<and> v \<noteq> None then v else map_of flds k')"
  by (auto simp: store_def split: option.splits)

lemma validate_other: "k \<notin> rule_name ` set rules \<Longrightarrow> map_of (snd (validateRecursive F rules flds fs prefix)) k = map_of flds k"
proof (induction rules arbitrary: flds)
  case (Cons r rules)
  then show ?case by (cases r) (simp add: map_of_store case_prod_unfold)
qed simp

lemma conforms_cong:
  "(\<And>k. k \<in> rule_name ` set rules \<Longrightarrow> map_of a k = map_of b k) \<Longrightarrow> conforms F rules fs a = conforms F rules fs b"
proof (induction rules)
  case (Cons r rules)
  then show ?case by (cases r) auto
qed simp

lemma validate_iff:
  "shows_values F \<Longrightarrow> own_names rules \<Longrightarrow> validateRecursive F rules flds fs prefix = (es, flds') \<Longrightarrow> es = [] \<longleftrightarrow> conforms F rules fs flds'"
proof (induction F rules flds fs prefix arbitrary: es flds' rule: validateRecursive.induct)
  case (2 F i nested rules flds fs prefix)
  let ?nest = "\<lambda>m. validateRecursive F nested m fs (full_path prefix (r_Name i))"
  obtain es1 stored where r: "rule_result F prefix i fs ?nest (map_of flds (r_Name i)) = (es1, stored)" by fastforce
  obtain es2 where v: "validateRecursive F rules (store (r_Name i) stored flds) fs prefix = (es2, flds')" and es: "es = es1 @ es2"
    using "2.prems"(3) r by (auto split: prod.splits)
  have "map_of flds' (r_Name i) = (if stored = None then map_of flds (r_Name i) else stored)"
    using validate_other [of "r_Name i" rules F "store (r_Name i) stored flds" fs prefix] v "2.prems"(2) by (simp add: map_of_store)
  moreover have "es1 = [] \<longleftrightarrow> rule_ok F i fs (\<lambda>m. conforms F nested fs m) (if stored = None then map_of flds (r_Name i) else stored)"
    using "2.IH"(1) "2.prems"(1,2) by (intro rule_result_iff [OF "2.prems"(1) r]) auto
  moreover have "es2 = [] \<longleftrightarrow> conforms F rules fs flds'"
    using "2.IH"(2) [OF r [symmetric] "2.prems"(1) _ v] "2.prems"(2) by simp
  ultimately show ?case using es by simp
qed simp

lemma validate_again:
  "shows_values F \<Longrightarrow> own_names rules \<Longrightarrow> validateRecursive F rules flds fs prefix = ([], flds') \<Longrightarrow>
     validateRecursive F rules flds' fs prefix = ([], flds')"
proof (induction F rules flds fs prefix arbitrary: flds' rule: validateRecursive.induct)
  case (2 F i nested rules flds fs prefix)
  let ?nest = "\<lambda>m. validateRecursive F nested m fs (full_path prefix (r_Name i))"
  obtain stored where r: "rule_result F prefix i fs ?nest (map_of flds (r_Name i)) = ([], stored)"
    and v: "validateRecursive F rules (store (r_Name i) stored flds) fs prefix = ([], flds')"
    using "2.prems"(3) by (auto split: prod.splits)
  have at: "map_of flds' (r_Name i) = (if stored = None then map_of flds (r_Name i) else stored)"
    using validate_other [of "r_Name i" rules F "store (r_Name i) stored flds" fs prefix] v "2.prems"(2) by (simp add: map_of_store)
  have "\<And>m m'. ?nest m = ([], m') \<Longrightarrow> ?nest m' = ([], m')" using "2.IH"(1) "2.prems"(1,2) by auto
  then have "\<exists>again. rule_result F prefix i fs ?nest (map_of flds' (r_Name i)) = ([], again) \<and>
      (again = None \<or> again = map_of flds' (r_Name i))"
    by (intro rule_result_again [OF "2.prems"(1) r _ at]) blast
  then obtain again where
    a: "rule_result F prefix i fs ?nest (map_of flds' (r_Name i)) = ([], again)" "again = None \<or> again = map_of flds' (r_Name i)" by blast
  then have "store (r_Name i) again flds' = flds'" by (auto simp: store_def update_triv split: option.splits)
  moreover have "validateRecursive F rules flds' fs prefix = ([], flds')"
    using "2.IH"(2) [OF r [symmetric] "2.prems"(1) _ v] "2.prems"(2) by simp
  ultimately show ?case using a(1) by simp
qed simp

section \<open>Properties\<close>

text \<open>C31: Validation reports an error exactly when what it leaves in the request violates a rule: a
  required field is missing, a value has another type than its rule or is out of its bounds, at any
  depth of nested objects. A request that passes is left unchanged by a second validation.\<close>

theorem validation_exact:
  assumes "shows_values F" and "own_names rules" and "Fields pr = Some m" and "Validate F pr rules = Some (es, pr')"
  shows "(es = [] \<longleftrightarrow> conforms F rules (Files pr) (the (Fields pr'))) \<and> (es = [] \<longrightarrow> Validate F pr' rules = Some ([], pr'))"
proof -
  obtain flds where v: "validateRecursive F rules m (Files pr) [] = (es, flds)" and pr': "pr' = pr\<lparr>Fields := Some flds\<rparr>"
    using assms(3,4) by (auto simp: Validate_def split: prod.splits)
  have "Validate F pr' rules = Some ([], pr')" if "es = []"
    using validate_again [OF assms(1,2)] v that by (simp add: Validate_def pr')
  with validate_iff [OF assms(1,2) v] show ?thesis by (auto simp: pr')
qed

definition demo_floats :: "int floats" where
  "demo_floats = \<lparr>f_less = (<), f_eq = (=), f_of_int = (\<lambda>n. n), f_to_int = (\<lambda>n. n), f_parse = ParseInt64, f_text = Itoa, f_show = (\<lambda>v. ''map[]'')\<rparr>"

definition demo_rule :: "string \<Rightarrow> string \<Rightarrow> int rule_info" where
  "demo_rule name ty = \<lparr>r_Name = name, r_Type = ty, r_Required = True, r_Default = VNil, r_MinLen = None, r_MaxLen = None, r_Regex = None,
     r_Min = None, r_Max = None, r_CustomMsg = [], r_ElemType = [], r_Enum = [], r_AllowedMime = [], r_MaxFileBytes = 0\<rparr>"

lemma demo_floats_show: "shows_values demo_floats"
  by (simp add: shows_values_def demo_floats_def)

definition demo_rules_form :: "int ValidationRule list" where
  "demo_rules_form = [Rule ((demo_rule ''age'' ''int'')\<lparr>r_Min := Some 18\<rparr>) [], Rule (demo_rule ''user'' ''object'') [Rule (demo_rule ''name'' ''string'') []]]"

definition demo_request :: "string \<Rightarrow> int ParsedRequest" where
  "demo_request age = \<lparr>Fields = Some [(''age'', VStr age), (''user'', VObj [(''name'', VStr ''ann'')])], Files = [], Raw = []\<rparr>"

theorem validation_exact_witness:
  "let pr' = \<lparr>Fields = Some [(''age'', VInt 20), (''user'', VObj [(''name'', VStr ''ann'')])], Files = [], Raw = []\<rparr> in
     Validate demo_floats (demo_request ''20'') demo_rules_form = Some ([], pr') \<and>
     conforms demo_floats demo_rules_form [] (the (Fields pr')) \<and> Validate demo_floats pr' demo_rules_form = Some ([], pr')"
proof -
  let ?pr = "\<lparr>Fields = Some [(''age'', VInt 20), (''user'', VObj [(''name'', VStr ''ann'')])], Files = [], Raw = []\<rparr>"
  have "Validate demo_floats (demo_request ''20'') demo_rules_form = Some ([], ?pr)" by code_simp
  from validation_exact [OF demo_floats_show _ _ this] show ?thesis using \<open>Validate _ _ _ = _\<close> unfolding Let_def
    by (simp add: demo_request_def demo_rules_form_def demo_rule_def)
qed

text \<open>C32: After a validation without errors the accessors of a required field return a value of the rule's
  type, within its bounds: a string, a number, a truth value or a map is there, never nothing.\<close>

theorem validated_typed:
  assumes "shows_values F" and "own_names rules" and "Fields pr = Some m" and "Validate F pr rules = Some ([], pr')"
    and "Rule i nested \<in> set rules" and "r_Required i"
  shows "(r_Type i = ''string'' \<longrightarrow> string_ok i (GetString F pr' (r_Name i)) \<and> field pr' (r_Name i) = Some (VStr (GetString F pr' (r_Name i)))) \<and>
    (r_Type i = ''int'' \<longrightarrow> (\<exists>n. GetInt F pr' (r_Name i) = Some n \<and> range_ok F i (f_of_int F n))) \<and>
    (r_Type i = ''float'' \<longrightarrow> (\<exists>f. GetFloat F pr' (r_Name i) = Some f \<and> range_ok F i f)) \<and>
    (r_Type i = ''bool'' \<longrightarrow> (\<exists>b. GetBool pr' (r_Name i) = Some b)) \<and>
    (r_Type i = ''object'' \<longrightarrow> (\<exists>o1. GetMap pr' (r_Name i) = Some o1 \<and> conforms F nested (Files pr) o1))"
proof -
  obtain flds where v: "validateRecursive F rules m (Files pr) [] = ([], flds)" and pr': "pr' = pr\<lparr>Fields := Some flds\<rparr>"
    using assms(3,4) by (auto simp: Validate_def split: prod.splits)
  have "conforms F rules (Files pr) flds" using validate_iff [OF assms(1,2) v] by simp
  then have "rule_ok F i (Files pr) (\<lambda>m. conforms F nested (Files pr) m) (map_of flds (r_Name i))"
    using assms(5)
  proof (induction rules)
    case (Cons r rules)
    then show ?case by (cases r) auto
  qed simp
  moreover have "field pr' (r_Name i) = map_of flds (r_Name i)" by (simp add: field_def pr')
  ultimately show ?thesis using assms(6)
    by (auto simp: rule_ok_def value_ok_def GetString_def GetInt_def GetFloat_def GetBool_def GetMap_def fmtv_def split: if_splits)
qed

theorem validated_typed_witness:
  "let r = Validate demo_floats (demo_request ''20'') demo_rules_form in
     case r of None \<Rightarrow> False | Some (es, pr') \<Rightarrow> es = [] \<and> (\<exists>n. GetInt demo_floats pr' ''age'' = Some n \<and> 18 \<le> n)"
proof -
  let ?pr = "\<lparr>Fields = Some [(''age'', VInt 20), (''user'', VObj [(''name'', VStr ''ann'')])], Files = [], Raw = []\<rparr>"
  let ?i = "(demo_rule ''age'' ''int'')\<lparr>r_Min := Some 18\<rparr>"
  have v: "Validate demo_floats (demo_request ''20'') demo_rules_form = Some ([], ?pr)" by code_simp
  have "\<exists>n. GetInt demo_floats ?pr (r_Name ?i) = Some n \<and> range_ok demo_floats ?i (f_of_int demo_floats n)"
    using validated_typed [OF demo_floats_show _ _ v, of _ ?i "[]"]
    by (simp add: demo_request_def demo_rules_form_def demo_rule_def)
  then show ?thesis unfolding Let_def v by (simp add: range_ok_def demo_floats_def demo_rule_def not_less)
qed

text \<open>The body \<^verbatim>\<open>null\<close> is accepted and the first default panics; several values of one form field make a
  list that validates but that \<^verbatim>\<open>GetSlice\<close> does not return, and a single one is no list.\<close>

theorem null_body_panics:
  "case ParseRequest ''application/json'' (Decoded None) (Inl []) (Inl []) (Inl []) of
     Inl e \<Rightarrow> False | Inr pr \<Rightarrow> Validate demo_floats pr [Rule ((demo_rule ''n'' ''int'')\<lparr>r_Default := VInt 1\<rparr>) []] = None"
  by code_simp

theorem form_slices:
  "case ParseRequest ''application/x-www-form-urlencoded'' DecodeEOF (Inr [(''a'', [''x'', ''y'']), (''b'', [''x''])]) (Inl []) (Inl []) of
     Inl e \<Rightarrow> False
   | Inr pr \<Rightarrow>
       map_option fst (Validate demo_floats pr [Rule (demo_rule ''a'' ''slice'') []]) = Some [] \<and> GetSlice pr ''a'' = None \<and>
       map_option fst (Validate demo_floats pr [Rule (demo_rule ''b'' ''slice'') []]) \<noteq> Some []"
  by code_simp

end
