(* ===== verification/WebRender.thy ===== *)
theory WebRender imports GoPrelude begin

text \<open>
  The template renderer of the web framework (\<^verbatim>\<open>web_framework.go\<close>, \<^verbatim>\<open>web_render_safety.go\<close>): values,
  scopes, expressions, attributes, and the walk over a template with its conditions, slots and
  components. Parsing templates, the server code of a component, hashing and random tokens are
  parameters (\<open>env\<close>). The caches that \<^verbatim>\<open>prepareTemplateMetadata\<close> keeps in the nodes are computed where
  they are read, but for the static fragments, which are modelled and shown to change nothing. The
  request's context is live; the log is not modelled.
\<close>

section \<open>Values\<close>

text \<open>\<open>RURL\<close>, \<open>RJS\<close> and \<open>RHTML\<close> are the trusted strings of \<^verbatim>\<open>html/template\<close>; \<open>ROther\<close> is any other value with
  its text and its truth.\<close>

datatype rval =
  RNil | RBool bool | RInt int | RStr string | RObj "(string \<times> rval) list"
| RURL string | RJS string | RHTML string | ROther string bool

type_synonym frame = "(string \<times> rval) list"

text \<open>A scope is the chain of its frames, the innermost first.\<close>

type_synonym Scope = "frame list"

definition scope_Set :: "string \<Rightarrow> rval \<Rightarrow> Scope \<Rightarrow> Scope" where
  "scope_Set name v s = (case s of f # fs \<Rightarrow> AList.update name v f # fs | [] \<Rightarrow> [])"

fun scope_Get :: "Scope \<Rightarrow> string \<Rightarrow> rval option" where
  "scope_Get [] name = None"
| "scope_Get (f # fs) name = (case map_of f name of Some v \<Rightarrow> Some v | None \<Rightarrow> scope_Get fs name)"

definition Snapshot :: "Scope \<Rightarrow> frame" where
  "Snapshot s = fold (\<lambda>f out. fold (\<lambda>(k, v). AList.update k v) f out) (rev s) []"

definition stringify :: "((string \<times> rval) list \<Rightarrow> string) \<Rightarrow> rval \<Rightarrow> string" where
  "stringify show_map v =
     (case v of RNil \<Rightarrow> [] | RStr s \<Rightarrow> s | RBool b \<Rightarrow> (if b then ''true'' else ''false'') | RInt n \<Rightarrow> Itoa n
      | RObj m \<Rightarrow> show_map m | RURL s \<Rightarrow> s | RJS s \<Rightarrow> s | RHTML s \<Rightarrow> s | ROther s b \<Rightarrow> s)"

definition truthy :: "rval \<Rightarrow> bool" where
  "truthy v =
     (case v of RNil \<Rightarrow> False | RBool b \<Rightarrow> b | RStr s \<Rightarrow> s \<noteq> [] | RInt n \<Rightarrow> n \<noteq> 0 | ROther s b \<Rightarrow> b | _ \<Rightarrow> True)"

definition getMember :: "rval \<Rightarrow> string \<Rightarrow> rval option" where
  "getMember v name = (case v of RObj m \<Rightarrow> map_of m name | _ \<Rightarrow> None)"

section \<open>Expressions\<close>

definition looksLikeNumericLiteral :: "string \<Rightarrow> bool" where
  "looksLikeNumericLiteral expr =
     (case expr of
        [] \<Rightarrow> False
      | c # cs \<Rightarrow>
          if is_digit c then True
          else if c \<noteq> CHR ''-'' \<and> c \<noteq> CHR ''+'' then False
          else (case cs of [] \<Rightarrow> False | n # _ \<Rightarrow> is_digit n \<or> n = CHR ''.''))"

text \<open>\<^verbatim>\<open>strings.Cut\<close> at the dots: the members of a path, one by one.\<close>

fun members :: "rval \<Rightarrow> string list \<Rightarrow> rval" where
  "members v [] = v"
| "members v (part # parts) = (case getMember v part of None \<Rightarrow> RNil | Some w \<Rightarrow> members w parts)"

text \<open>A run either returns, panics, or needs more fuel.\<close>

datatype 'a outcome = Ret 'a | Panics | NoFuel

fun obind :: "'a outcome \<Rightarrow> ('a \<Rightarrow> 'b outcome) \<Rightarrow> 'b outcome" where
  "obind (Ret x) f = f x"
| "obind Panics f = Panics"
| "obind NoFuel f = NoFuel"

lemma obind_cong [fundef_cong]: "x = y \<Longrightarrow> (\<And>a. y = Ret a \<Longrightarrow> f a = g a) \<Longrightarrow> obind x f = obind y g"
  by (cases y) auto

lemma TrimSpace_length: "length (TrimSpace s) \<le> length s"
  unfolding TrimSpace_def trim_left_where_def trim_right_where_def
  by (metis length_dropWhile_le length_rev le_trans)

text \<open>A lone quote is both prefix and suffix, and cutting it off slices out of range.\<close>

function evalExpression :: "(string \<Rightarrow> rval option) \<Rightarrow> string \<Rightarrow> Scope \<Rightarrow> rval outcome" where
  "evalExpression parse_float expr0 scope =
     (let expr = TrimSpace expr0
      in if expr = [] then Ret RNil
         else if hd expr = CHR ''!'' then
           obind (evalExpression parse_float (TrimSpace (tl expr)) scope) (\<lambda>v. Ret (RBool (\<not> truthy v)))
         else if (hd expr = CHR 0x22 \<and> last expr = CHR 0x22) \<or> (hd expr = CHR 0x27 \<and> last expr = CHR 0x27) then
           (if length expr = 1 then Panics else Ret (RStr (butlast (tl expr))))
         else if expr = ''true'' then Ret (RBool True)
         else if expr = ''false'' then Ret (RBool False)
         else if expr = ''null'' \<or> expr = ''undefined'' then Ret RNil
         else case (if looksLikeNumericLiteral expr
                    then (case ParseInt64 expr of Some n \<Rightarrow> Some (RInt n) | None \<Rightarrow> parse_float expr) else None) of
                Some v \<Rightarrow> Ret v
              | None \<Rightarrow>
                  (case Split (CHR ''.'') expr of
                     [] \<Rightarrow> Ret RNil
                   | name # parts \<Rightarrow> Ret (case scope_Get scope name of None \<Rightarrow> RNil | Some v \<Rightarrow> members v parts)))"
  by auto
termination
proof (relation "measure (\<lambda>(p, e, s). length e)", simp)
  fix p :: "string \<Rightarrow> rval option" and expr0 :: string and scope :: Scope and expr
  assume e: "expr = TrimSpace expr0" "expr \<noteq> []"
  have "length (TrimSpace (tl expr)) \<le> length (tl expr)" by (rule TrimSpace_length)
  also have "\<dots> < length expr" using e by (cases expr) auto
  also have "\<dots> \<le> length expr0" using e TrimSpace_length by simp
  finally show "((p, TrimSpace (tl expr), scope), p, expr0, scope) \<in> measure (\<lambda>(p, e, s). length e)" by simp
qed

declare evalExpression.simps [simp del]

section \<open>Escaping and URLs\<close>

definition escape_char :: "char \<Rightarrow> string" where
  "escape_char c =
     (if c = CHR ''&'' then ''&amp;'' else if c = CHR ''<'' then ''&lt;'' else if c = CHR ''>'' then ''&gt;''
      else if c = CHR 0x22 then ''&#34;'' else if c = CHR 0x27 then ''&#39;'' else [c])"

definition EscapeString :: "string \<Rightarrow> string" where "EscapeString s = concat (map escape_char s)"

definition visible_char :: "char \<Rightarrow> bool" where
  "visible_char c \<longleftrightarrow> (let n = (of_char c :: nat) in 32 < n \<and> n \<noteq> 127)"

definition safeDynamicURL :: "string \<Rightarrow> bool" where
  "safeDynamicURL u =
     (case Cut (filter visible_char u) '':'' of
        None \<Rightarrow> True
      | Some (scheme, _) \<Rightarrow>
          if CHR ''/'' \<in> set scheme \<or> CHR ''?'' \<in> set scheme \<or> CHR ''#'' \<in> set scheme then True
          else ToLower scheme \<in> {''http'', ''https'', ''mailto'', ''tel''})"

section \<open>Attributes\<close>

record Attribute =
  at_Name :: string
  at_Value :: string
  at_Dynamic :: bool
  at_Event :: bool
  at_Directive :: bool
  at_Boolean :: bool

definition plain_attr :: "string \<Rightarrow> Attribute" where
  "plain_attr v = \<lparr>at_Name = [], at_Value = v, at_Dynamic = False, at_Event = False, at_Directive = False, at_Boolean = False\<rparr>"

definition attributeEvalValue :: "Attribute \<Rightarrow> string" where
  "attributeEvalValue a = TrimSpace (at_Value a)"

definition isStructuralDirective :: "string \<Rightarrow> bool" where
  "isStructuralDirective name \<longleftrightarrow> name \<in> {''m-if'', ''m-else'', ''m-else-if'', ''m-for''}"

definition findDirective :: "Attribute list \<Rightarrow> string \<Rightarrow> Attribute option" where
  "findDirective attrs name = find (\<lambda>a. at_Name a = name) attrs"

definition shouldSkipRenderedAttribute :: "Attribute \<Rightarrow> bool" where
  "shouldSkipRenderedAttribute a \<longleftrightarrow>
     at_Event a \<or> isStructuralDirective (at_Name a) \<or> HasPrefix (at_Name a) ''#'' \<or>
     (HasPrefix (at_Name a) ''v-'' \<and> \<not> HasPrefix (at_Name a) ''v-bind:'')"

definition renderedAttributeName :: "string \<Rightarrow> string" where
  "renderedAttributeName name =
     (if HasPrefix name '':'' then TrimPrefix name '':''
      else if HasPrefix name ''v-bind:'' then TrimPrefix name ''v-bind:''
      else if HasPrefix name ''@'' \<or> HasPrefix name ''v-on:'' then []
      else name)"

fun kebab :: "bool \<Rightarrow> string \<Rightarrow> string" where
  "kebab upper [] = []"
| "kebab upper (c # s) =
     (if c = CHR ''-'' then kebab True s else (if upper then upper_char c else c) # kebab False s)"

definition kebabToCamel :: "string \<Rightarrow> string" where "kebabToCamel s = kebab False s"

definition componentPropName :: "string \<Rightarrow> string" where
  "componentPropName name0 =
     (let name = renderedAttributeName name0
      in if name = [] \<or> HasPrefix name ''v-'' then [] else kebabToCamel name)"

definition writeStaticHTMLAttribute :: "string \<Rightarrow> Attribute \<Rightarrow> string" where
  "writeStaticHTMLAttribute name a =
     '' '' @ name @ (if at_Boolean a then [] else ''='' @ [CHR 0x22] @ EscapeString (at_Value a) @ [CHR 0x22])"

definition url_attributes :: "string set" where
  "url_attributes = {''href'', ''src'', ''action'', ''formaction'', ''poster'', ''cite'', ''background'', ''xlink:href''}"

text \<open>The value after the rules for event handlers, \<^verbatim>\<open>srcdoc\<close> and URLs.\<close>

definition guard_value :: "((string \<times> rval) list \<Rightarrow> string) \<Rightarrow> string \<Rightarrow> rval \<Rightarrow> rval" where
  "guard_value show_map name v0 =
     (let lowerName = ToLower name;
          v1 = (if HasPrefix lowerName ''on'' \<and> v0 \<noteq> RNil then (case v0 of RJS s \<Rightarrow> v0 | _ \<Rightarrow> RStr []) else v0);
          v2 = (if lowerName = ''srcdoc'' \<and> v1 \<noteq> RNil
                then (case v1 of RHTML s \<Rightarrow> v1 | _ \<Rightarrow> RStr (EscapeString (stringify show_map v1))) else v1)
      in if lowerName \<in> url_attributes
         then (case v2 of RURL s \<Rightarrow> v2
               | _ \<Rightarrow> if v2 \<noteq> RNil \<and> \<not> safeDynamicURL (stringify show_map v2) then RStr ''#ZgotmplZ'' else v2)
         else v2)"

definition writeDynamicHTMLAttribute :: "((string \<times> rval) list \<Rightarrow> string) \<Rightarrow> string \<Rightarrow> rval \<Rightarrow> string" where
  "writeDynamicHTMLAttribute show_map name v0 =
     (let v = guard_value show_map name v0
      in if v = RNil \<or> v = RBool False then []
         else if v = RBool True then '' '' @ name
         else '' '' @ name @ ''='' @ [CHR 0x22] @ EscapeString (stringify show_map v) @ [CHR 0x22])"

definition reveal_char :: "char \<Rightarrow> bool" where
  "reveal_char c \<longleftrightarrow> (let n = (of_char c :: nat) in (97 \<le> n \<and> n \<le> 122) \<or> (48 \<le> n \<and> n \<le> 57) \<or> n = 45)"

definition revealSSRClasses :: "Attribute list \<Rightarrow> string" where
  "revealSSRClasses attrs =
     (let pick = (\<lambda>name. fold (\<lambda>a old. if \<not> at_Dynamic a \<and> ToLower (at_Name a) = name then ToLower (TrimSpace (at_Value a)) else old) attrs []);
          typeName = pick ''data-gosh-reveal''; speed = pick ''data-gosh-reveal-speed''
      in if typeName = [] then []
         else ''reveal-active reveal-'' @ (if list_all reveal_char typeName then typeName else ''slide'') @
              (if speed = ''fast'' \<or> speed = ''slow'' then '' reveal-'' @ speed else []))"

definition appendHTMLClass :: "string \<Rightarrow> string \<Rightarrow> string" where
  "appendHTMLClass v extra = (let t = TrimSpace v in if t = [] then extra else t @ '' '' @ extra)"

section \<open>Templates\<close>

record elem_info =
  el_Tag :: string
  el_IsComponent :: bool
  el_Attrs :: "Attribute list"
  el_ScopeAttrs :: "string list"
  el_static :: "string option"
  el_context :: "(string list \<times> (rval list \<Rightarrow> string option)) option"

text \<open>\<open>el_static\<close> is the static fragment; \<open>el_context\<close> the expressions of a prepared raw text element with
  the body that \<^verbatim>\<open>html/template\<close> makes of their values.\<close>

datatype tnode = NText string | NInterp string | NComment string | NElement elem_info "tnode list"

record Component =
  c_Name :: string
  c_Client :: bool
  c_HasRuntimeAction :: bool
  c_ScopeID :: string
  c_Template :: "tnode list"
  c_Scripts :: "string list"
  c_PreparedSetup :: string

record SlotContent =
  sl_Nodes :: "tnode list"
  sl_Scope :: Scope
  sl_Owner :: "Component option"
  sl_RawHTML :: string

record renderContext =
  x_scope :: Scope
  x_slot :: "SlotContent option"
  x_owner :: "Component option"
  x_root :: bool
  x_forceLazy :: bool
  x_lazyHydration :: string
  x_parentRootScopes :: "string list"

record ScriptBinding =
  sb_Source :: string
  sb_Target :: string
  sb_Owner :: string

record renderState =
  rs_used :: "(string \<times> Component) list"
  rs_forceClient :: bool
  rs_instanceSeq :: nat
  rs_scripts :: "ScriptBinding list"
  rs_runtimeStates :: "(string \<times> frame) list"
  rs_tokens :: "string option list"

text \<open>
  \<open>server\<close> is \<^verbatim>\<open>applyServerRender\<close>: the values it sets, and the message when it fails. \<open>components\<close> is the
  registry, \<open>instance_id\<close> hashes a name, a number and the encoded properties, \<open>copy_props\<close> is
  \<^verbatim>\<open>cloneRuntimeProps\<close>. Tokens are taken from \<open>rs_tokens\<close>; \<open>None\<close> is a failing entropy source.
\<close>

record env =
  components :: "string \<Rightarrow> Component option"
  server :: "string \<Rightarrow> Scope \<Rightarrow> frame \<times> string option"
  instance_id :: "string \<Rightarrow> nat \<Rightarrow> string \<Rightarrow> string"
  marshalProps :: "frame \<Rightarrow> string"
  copy_props :: "frame \<Rightarrow> frame"
  loader :: string
  show_map :: "frame \<Rightarrow> string"
  parse_float :: "string \<Rightarrow> rval option"

abbreviation eval :: "env \<Rightarrow> string \<Rightarrow> Scope \<Rightarrow> rval outcome" where
  "eval E expr scope \<equiv> evalExpression (parse_float E) expr scope"

abbreviation quoted :: "string \<Rightarrow> string" where "quoted s \<equiv> [CHR 0x22] @ s @ [CHR 0x22]"

definition elementIsSlot :: "elem_info \<Rightarrow> bool" where "elementIsSlot el \<longleftrightarrow> ToLower (el_Tag el) = ''slot''"

definition elementIsClientOnly :: "elem_info \<Rightarrow> bool" where "elementIsClientOnly el \<longleftrightarrow> ToLower (el_Tag el) = ''clientonly''"

definition elementIfDirective :: "elem_info \<Rightarrow> string option" where
  "elementIfDirective el = map_option attributeEvalValue (findDirective (el_Attrs el) ''m-if'')"

definition elementElseIfDirective :: "elem_info \<Rightarrow> string option" where
  "elementElseIfDirective el = map_option attributeEvalValue (findDirective (el_Attrs el) ''m-else-if'')"

definition elementElseDirective :: "elem_info \<Rightarrow> bool" where
  "elementElseDirective el \<longleftrightarrow> findDirective (el_Attrs el) ''m-else'' \<noteq> None"

definition isVoidHTMLTag :: "string \<Rightarrow> bool" where
  "isVoidHTMLTag tag \<longleftrightarrow> ToLower tag \<in> {''area'', ''base'', ''br'', ''col'', ''embed'', ''hr'', ''img'', ''input'', ''link'', ''meta'',
     ''param'', ''source'', ''track'', ''wbr''}"

definition appendUnique :: "string list \<Rightarrow> string \<Rightarrow> string list" where
  "appendUnique vs v = (if v \<in> set vs then vs else vs @ [v])"

text \<open>One attribute of an element; the flag tells that a class attribute was written with the reveal classes.\<close>

definition render_attr :: "env \<Rightarrow> Scope \<Rightarrow> string \<Rightarrow> Attribute \<Rightarrow> (string \<times> bool) outcome" where
  "render_attr E scope reveal a =
     (if at_Event a then
        (let eventName = TrimPrefix (TrimPrefix (at_Name a) ''@'') ''v-on:''
         in Ret (if eventName = [] then [] else '' data-gosh-on-'' @ EscapeString eventName @ ''='' @ quoted (EscapeString (at_Value a)), False))
      else if shouldSkipRenderedAttribute a then Ret ([], False)
      else
        let name = renderedAttributeName (at_Name a)
        in if name = [] then Ret ([], False)
           else if name = ''class'' \<and> reveal \<noteq> [] then
             (if at_Dynamic a
              then obind (eval E (attributeEvalValue a) scope) (\<lambda>v.
                     Ret (writeStaticHTMLAttribute ''class'' (plain_attr (appendHTMLClass (stringify (show_map E) v) reveal)), True))
              else Ret (writeStaticHTMLAttribute ''class'' (plain_attr (appendHTMLClass (at_Value a) reveal)), True))
           else if at_Dynamic a then
             obind (eval E (attributeEvalValue a) scope) (\<lambda>v. Ret (writeDynamicHTMLAttribute (show_map E) name v, False))
           else Ret (writeStaticHTMLAttribute name a, False))"

fun render_attrs :: "env \<Rightarrow> Scope \<Rightarrow> string \<Rightarrow> Attribute list \<Rightarrow> (string \<times> bool) outcome" where
  "render_attrs E scope reveal [] = Ret ([], False)"
| "render_attrs E scope reveal (a # as) =
     obind (render_attr E scope reveal a) (\<lambda>(s, w).
       obind (render_attrs E scope reveal as) (\<lambda>(s', w'). Ret (s @ s', w \<or> w')))"

text \<open>The properties of a component element and its hydration.\<close>

fun component_props :: "env \<Rightarrow> Scope \<Rightarrow> Attribute list \<Rightarrow> frame \<Rightarrow> string \<Rightarrow> (frame \<times> string) outcome" where
  "component_props E scope [] props hydration = Ret (props, hydration)"
| "component_props E scope (a # as) props hydration =
     (if at_Name a = ''hydrate'' \<or> at_Name a = ''client:hydrate'' then
        component_props E scope as props
          (if \<not> at_Boolean a \<and> attributeEvalValue a \<noteq> [] then ToLower (attributeEvalValue a) else hydration)
      else if shouldSkipRenderedAttribute a then component_props E scope as props hydration
      else
        let name = componentPropName (at_Name a)
        in if name = [] then component_props E scope as props hydration
           else if at_Dynamic a then
             obind (eval E (attributeEvalValue a) scope) (\<lambda>v. component_props E scope as (AList.update name v props) hydration)
           else component_props E scope as
                  (AList.update name (if at_Boolean a then RBool True else RStr (at_Value a)) props) hydration)"

definition client_hydration :: "Attribute list \<Rightarrow> string" where
  "client_hydration attrs =
     (case find (\<lambda>a. (at_Name a = ''hydrate'' \<or> at_Name a = ''client:hydrate'') \<and> \<not> at_Boolean a \<and> attributeEvalValue a \<noteq> []) attrs of
        Some a \<Rightarrow> ToLower (attributeEvalValue a) | None \<Rightarrow> ''idle'')"

fun eval_all :: "env \<Rightarrow> Scope \<Rightarrow> string list \<Rightarrow> rval list outcome" where
  "eval_all E scope [] = Ret []"
| "eval_all E scope (e # es) = obind (eval E e scope) (\<lambda>v. obind (eval_all E scope es) (\<lambda>vs. Ret (v # vs)))"

text \<open>Registering a component: its scripts and setup code run at the mount target.\<close>

definition enter_component :: "env \<Rightarrow> Component \<Rightarrow> string \<Rightarrow> Scope \<Rightarrow> renderState \<Rightarrow> Scope \<times> renderState" where
  "enter_component E c target scope s =
     (let (values, failure) = server E (c_Name c) scope;
          scope1 = fold (\<lambda>(k, v). scope_Set k v) values scope;
          scope2 = (case failure of Some msg \<Rightarrow> scope_Set ''renderError'' (RStr msg) scope1 | None \<Rightarrow> scope1);
          scripts = map (\<lambda>src. \<lparr>sb_Source = src, sb_Target = target, sb_Owner = c_Name c\<rparr>)
            (filter (\<lambda>src. TrimSpace src \<noteq> []) (c_Scripts c) @ (if c_PreparedSetup c \<noteq> [] then [c_PreparedSetup c] else []))
      in (scope2, s\<lparr>rs_used := AList.update (c_Name c) c (rs_used s), rs_scripts := rs_scripts s @ scripts\<rparr>))"

datatype chain = Chain bool bool

text \<open>
  The decision of \<^verbatim>\<open>renderNodes\<close> for one node: whether it is rendered, and the state of the chain of
  conditions after it (active, matched).
\<close>

definition chain_step :: "env \<Rightarrow> Scope \<Rightarrow> tnode \<Rightarrow> chain \<Rightarrow> (bool \<times> chain) outcome" where
  "chain_step E scope node ch =
     (case ch of Chain active matched \<Rightarrow>
        (case node of
           NText t \<Rightarrow> Ret (True, if TrimSpace t = [] then ch else Chain False False)
         | NElement el cs \<Rightarrow>
             (case elementIfDirective el of
                Some e \<Rightarrow> obind (eval E e scope) (\<lambda>v. Ret (truthy v, Chain True (truthy v)))
              | None \<Rightarrow>
                  if elementElseIfDirective el \<noteq> None \<and> active then
                    (if matched then Ret (False, ch)
                     else obind (eval E (the (elementElseIfDirective el)) scope) (\<lambda>v. Ret (truthy v, Chain True (truthy v))))
                  else if elementElseDirective el \<and> active then Ret (\<not> matched, Chain False True)
                  else Ret (True, Chain False False))
         | _ \<Rightarrow> Ret (True, Chain False False)))"

section \<open>Rendering\<close>

definition element_shown :: "env \<Rightarrow> Scope \<Rightarrow> elem_info \<Rightarrow> bool outcome" where
  "element_shown E scope el =
     (case elementIfDirective el of None \<Rightarrow> Ret True | Some e \<Rightarrow> obind (eval E e scope) (\<lambda>v. Ret (truthy v)))"

definition slot_context :: "renderContext \<Rightarrow> SlotContent \<Rightarrow> renderContext" where
  "slot_context x sl = \<lparr>x_scope = sl_Scope sl, x_slot = None, x_owner = sl_Owner sl, x_root = False,
     x_forceLazy = x_forceLazy x, x_lazyHydration = [], x_parentRootScopes = []\<rparr>"

definition inner_context :: "renderContext \<Rightarrow> renderContext" where
  "inner_context x = x\<lparr>x_root := False, x_lazyHydration := [], x_parentRootScopes := []\<rparr>"

definition parent_scopes :: "renderContext \<Rightarrow> string list" where
  "parent_scopes x =
     (let own = (case x_owner x of Some c \<Rightarrow> if c_ScopeID c \<noteq> [] then [c_ScopeID c] else [] | None \<Rightarrow> [])
      in if x_root x then fold (\<lambda>sc acc. appendUnique acc sc) (x_parentRootScopes x) own else own)"

definition open_scopes :: "renderContext \<Rightarrow> elem_info \<Rightarrow> string list" where
  "open_scopes x el =
     (if x_root x then fold (\<lambda>sc acc. appendUnique acc sc) (x_parentRootScopes x) (el_ScopeAttrs el) else el_ScopeAttrs el)"

text \<open>What is written for a component up to its body; the token is drawn when its state is kept.\<close>

definition component_open :: "Component \<Rightarrow> string \<Rightarrow> string option \<Rightarrow> string" where
  "component_open c instance token =
     ''<gosh-component class='' @ quoted ''gosh-component-root'' @ '' data-gosh-component='' @ quoted (EscapeString (c_Name c)) @
     '' data-gosh-instance='' @ quoted instance @
     (case token of Some t \<Rightarrow> '' data-gosh-state='' @ quoted t | None \<Rightarrow> [])"

definition hydration_modes :: "string set" where
  "hydration_modes = {''visible'', ''idle'', ''interaction'', ''immediate'', ''manual''}"

definition client_context :: "renderContext \<Rightarrow> elem_info \<Rightarrow> renderContext" where
  "client_context x el =
     x\<lparr>x_root := False, x_forceLazy := True, x_lazyHydration := client_hydration (el_Attrs el), x_parentRootScopes := []\<rparr>"

text \<open>The slot and the context of a component's own template.\<close>

definition component_context :: "renderContext \<Rightarrow> tnode list \<Rightarrow> Component \<Rightarrow> Scope \<Rightarrow> renderContext" where
  "component_context x cs c scope =
     \<lparr>x_scope = scope,
      x_slot = (if cs \<noteq> [] then Some \<lparr>sl_Nodes = cs, sl_Scope = x_scope x, sl_Owner = x_owner x, sl_RawHTML = []\<rparr> else None),
      x_owner = Some c, x_root = True, x_forceLazy = False, x_lazyHydration = [], x_parentRootScopes = parent_scopes x\<rparr>"

text \<open>
  The number of the instance, its identifier, and the token under which its properties are kept when
  the browser needs them: no token is \<open>Some None\<close>, and \<open>None\<close> a failing entropy source.
\<close>

definition component_start ::
  "env \<Rightarrow> renderContext \<Rightarrow> Component \<Rightarrow> frame \<Rightarrow> renderState \<Rightarrow> string \<times> string option option \<times> renderState" where
  "component_start E x c props s =
     (let needsState = c_Client c \<or> x_forceLazy x \<or> c_HasRuntimeAction c;
          instance = instance_id E (c_Name c) (Suc (rs_instanceSeq s)) (if needsState then marshalProps E props else []);
          s1 = s\<lparr>rs_instanceSeq := Suc (rs_instanceSeq s)\<rparr>
      in if \<not> needsState then (instance, Some None, s1)
         else case rs_tokens s1 of
                Some t # ts \<Rightarrow>
                  (instance, Some (Some t), s1\<lparr>rs_tokens := ts, rs_runtimeStates := AList.update t (copy_props E props) (rs_runtimeStates s1)\<rparr>)
              | None # ts \<Rightarrow> (instance, None, s1\<lparr>rs_tokens := ts\<rparr>)
              | [] \<Rightarrow> (instance, None, s1))"

text \<open>A component that the browser renders: its place and the loader.\<close>

definition component_lazy :: "env \<Rightarrow> renderContext \<Rightarrow> string \<Rightarrow> string" where
  "component_lazy E x hydration =
     (let h0 = (if x_forceLazy x then x_lazyHydration x else hydration);
          h = (if h0 \<in> hydration_modes then h0 else ''visible'')
      in '' data-gosh-lazy='' @ quoted ''1'' @ '' data-gosh-island='' @ quoted h @ ''>'' @
         (if h \<noteq> ''manual'' then loader E else []) @ ''</gosh-component>'')"

definition open_tag :: "renderContext \<Rightarrow> elem_info \<Rightarrow> string \<times> bool \<Rightarrow> string" where
  "open_tag x el w =
     (let reveal = revealSSRClasses (el_Attrs el)
      in ''<'' @ el_Tag el @ fst w @
         (if reveal \<noteq> [] \<and> \<not> snd w then writeStaticHTMLAttribute ''class'' (plain_attr reveal) else []) @
         concat (map (\<lambda>sc. '' '' @ sc) (open_scopes x el)) @ ''>'')"

text \<open>A component on the server: \<open>body\<close> renders its template, with one unit of fuel less.\<close>

definition render_component ::
  "env \<Rightarrow> nat \<Rightarrow> renderContext \<Rightarrow> tnode list \<Rightarrow> Component \<Rightarrow> frame \<times> string \<Rightarrow> renderState \<Rightarrow>
     (nat \<Rightarrow> renderContext \<Rightarrow> renderState \<Rightarrow> (string \<times> renderState) outcome) \<Rightarrow> (string \<times> renderState) outcome" where
  "render_component E n x cs c p s body =
     (case component_start E x c (fst p) s of (instance, drawn, s1) \<Rightarrow>
        (case drawn of
           None \<Rightarrow> Ret ([], s1)
         | Some token \<Rightarrow>
             if (c_Client c \<or> x_forceLazy x) \<and> \<not> rs_forceClient s1
             then Ret (component_open c instance token @ component_lazy E x (snd p), s1)
             else (case n of
                     0 \<Rightarrow> NoFuel
                   | Suc m \<Rightarrow>
                       (case enter_component E c (''[data-gosh-instance='' @ quoted instance @ '']'') [fst p] s1 of
                          (scope, s2) \<Rightarrow>
                            obind (body m (component_context x cs c scope) s2)
                              (\<lambda>(out, s3). Ret (component_open c instance token @ ''>'' @ out @ ''</gosh-component>'', s3))))))"

lemma render_component_cong [fundef_cong]:
  assumes "E = E'" "n = n'" "x = x'" "cs = cs'" "c = c'" "p = p'" "s = s'"
    and "\<And>m x1 s1. n' = Suc m \<Longrightarrow> body m x1 s1 = body' m x1 s1"
  shows "render_component E n x cs c p s body = render_component E' n' x' cs' c' p' s' body'"
  using assms unfolding render_component_def by (auto split: prod.split option.split nat.split)

text \<open>
  The walk. Entering a component or a slot uses one unit of fuel, since templates may include each
  other without end; the other calls go down the tree. Every function returns what it wrote and the
  new state; a node that fails has written what it wrote before, and the loop goes on.
\<close>

function (sequential) render_nodes :: "env \<Rightarrow> nat \<Rightarrow> renderContext \<Rightarrow> chain \<Rightarrow> tnode list \<Rightarrow> renderState \<Rightarrow> (string \<times> renderState) outcome"
  and render_node :: "env \<Rightarrow> nat \<Rightarrow> renderContext \<Rightarrow> tnode \<Rightarrow> renderState \<Rightarrow> (string \<times> renderState) outcome"
where
  "render_nodes E n x ch [] s = Ret ([], s)"
| "render_nodes E n x ch (node # nodes) s =
     obind (chain_step E (x_scope x) node ch) (\<lambda>(visible, ch').
       obind (if visible then render_node E n x node s else Ret ([], s)) (\<lambda>(o1, s1).
         obind (render_nodes E n x ch' nodes s1) (\<lambda>(o2, s2). Ret (o1 @ o2, s2))))"
| "render_node E n x (NText t) s = Ret (t, s)"
| "render_node E n x (NInterp e) s =
     obind (eval E e (x_scope x)) (\<lambda>v. Ret (EscapeString (stringify (show_map E) v), s))"
| "render_node E n x (NComment t) s = Ret (''<!--'' @ t @ ''-->'', s)"
| "render_node E n x (NElement el cs) s =
     (if \<not> x_root x \<and> el_static el \<noteq> None then Ret (the (el_static el), s)
      else
        obind (element_shown E (x_scope x) el) (\<lambda>shown.
        if \<not> shown then Ret ([], s)
        else if elementIsSlot el then
          (case x_slot x of
             Some sl \<Rightarrow>
               if sl_RawHTML sl \<noteq> [] then Ret (sl_RawHTML sl, s)
               else (case n of 0 \<Rightarrow> NoFuel | Suc m \<Rightarrow> render_nodes E m (slot_context x sl) (Chain False False) (sl_Nodes sl) s)
           | None \<Rightarrow> render_nodes E n (inner_context x) (Chain False False) cs s)
        else if elementIsClientOnly el then render_nodes E n (client_context x el) (Chain False False) cs s
        else if el_IsComponent el then
          (case components E (el_Tag el) of
             None \<Rightarrow> Ret ([], s)
           | Some c \<Rightarrow>
               obind (component_props E (x_scope x) (el_Attrs el) [] ''visible'') (\<lambda>p.
                 render_component E n x cs c p s (\<lambda>m x1 s1. render_nodes E m x1 (Chain False False) (c_Template c) s1)))
        else
          obind (render_attrs E (x_scope x) (revealSSRClasses (el_Attrs el)) (el_Attrs el)) (\<lambda>w.
            if isVoidHTMLTag (el_Tag el) then Ret (open_tag x el w, s)
            else case el_context el of
                   Some (exprs, execute) \<Rightarrow>
                     obind (eval_all E (x_scope x) exprs) (\<lambda>vs.
                       Ret (case execute vs of Some body \<Rightarrow> open_tag x el w @ body @ ''</'' @ el_Tag el @ ''>'' | None \<Rightarrow> open_tag x el w, s))
                 | None \<Rightarrow>
                     obind (render_nodes E n (inner_context x) (Chain False False) cs s) (\<lambda>(body, s1).
                       Ret (open_tag x el w @ body @ ''</'' @ el_Tag el @ ''>'', s1)))))"
  by pat_completeness auto
termination
  by (relation "measures [\<lambda>p. case p of Inl (E, n, x, ch, nodes, s) \<Rightarrow> n | Inr (E, n, x, node, s) \<Rightarrow> n,
      \<lambda>p. case p of Inl (E, n, x, ch, nodes, s) \<Rightarrow> 2 * size_list size nodes | Inr (E, n, x, node, s) \<Rightarrow> 2 * size node + 1]")
    auto

section \<open>Static fragments\<close>

fun staticRenderTree :: "tnode \<Rightarrow> bool" where
  "staticRenderTree (NElement el cs) \<longleftrightarrow>
     \<not> (el_IsComponent el \<or> elementIsSlot el \<or> elementIsClientOnly el) \<and>
     list_all (\<lambda>a. \<not> (at_Dynamic a \<or> at_Event a \<or> at_Directive a \<or> isStructuralDirective (at_Name a))) (el_Attrs el) \<and>
     list_all staticRenderTree cs"
| "staticRenderTree (NInterp e) \<longleftrightarrow> False"
| "staticRenderTree (NText t) \<longleftrightarrow> True"
| "staticRenderTree (NComment t) \<longleftrightarrow> True"

definition empty_context :: renderContext where
  "empty_context = \<lparr>x_scope = [], x_slot = None, x_owner = None, x_root = False, x_forceLazy = False, x_lazyHydration = [], x_parentRootScopes = []\<rparr>"

definition empty_state :: renderState where
  "empty_state = \<lparr>rs_used = [], rs_forceClient = False, rs_instanceSeq = 0, rs_scripts = [], rs_runtimeStates = [], rs_tokens = []\<rparr>"

text \<open>\<^verbatim>\<open>prepareTemplateMetadata\<close>: the children first, then the fragment of a static element.\<close>

fun prepare :: "env \<Rightarrow> tnode \<Rightarrow> tnode" where
  "prepare E (NElement el cs) =
     (let cs' = map (prepare E) cs
      in NElement (if staticRenderTree (NElement el cs)
           then (case render_node E 0 empty_context (NElement el cs') empty_state of
                   Ret (html, s) \<Rightarrow> el\<lparr>el_static := Some html\<rparr> | _ \<Rightarrow> el)
           else el) cs')"
| "prepare E (NInterp e) = NInterp e"
| "prepare E (NText t) = NText t"
| "prepare E (NComment t) = NComment t"

text \<open>A template as it is parsed: no fragments yet, and raw text expressions only where there are interpolations.\<close>

fun fresh :: "tnode \<Rightarrow> bool" where
  "fresh (NElement el cs) \<longleftrightarrow> el_static el = None \<and> (staticRenderTree (NElement el cs) \<longrightarrow> el_context el = None) \<and> list_all fresh cs"
| "fresh n \<longleftrightarrow> True"

lemma append_single [simp]: "(@) [c] = (#) c"
  by (rule ext) simp

text \<open>The attributes of a static element read nothing from the scope.\<close>

lemma render_attrs_static:
  "list_all (\<lambda>a. \<not> (at_Dynamic a \<or> at_Event a \<or> at_Directive a \<or> isStructuralDirective (at_Name a))) as \<Longrightarrow>
     \<exists>r. \<forall>E scope. render_attrs E scope reveal as = Ret r"
proof (induction "as")
  case (Cons a as)
  then obtain r where r: "\<forall>E scope. render_attrs E scope reveal as = Ret r" by auto
  have "\<exists>q. \<forall>E scope. render_attr E scope reveal a = Ret q"
    using Cons.prems
    by (cases "shouldSkipRenderedAttribute a"; cases "renderedAttributeName (at_Name a) = []";
        cases "renderedAttributeName (at_Name a) = ''class'' \<and> reveal \<noteq> []")
      (simp_all add: render_attr_def Let_def split del: if_split, auto)
  then obtain q where "\<forall>E scope. render_attr E scope reveal a = Ret q" by blast
  with r show ?case by (auto split: prod.splits)
next
  case Nil
  show ?case by (rule exI [of _ "([], False)"]) simp
qed

lemma no_directive:
  "list_all (\<lambda>a. \<not> (at_Dynamic a \<or> at_Event a \<or> at_Directive a \<or> isStructuralDirective (at_Name a))) (el_Attrs el) \<Longrightarrow>
     elementIfDirective el = None \<and> elementElseIfDirective el = None \<and> \<not> elementElseDirective el"
  by (auto simp: elementIfDirective_def elementElseIfDirective_def elementElseDirective_def findDirective_def
      find_None_iff list_all_iff isStructuralDirective_def)

lemma chain_step_static: "staticRenderTree node \<Longrightarrow> \<exists>ch'. \<forall>E scope. chain_step E scope node ch = Ret (True, ch')"
proof (cases node)
  case (NElement el cs)
  assume "staticRenderTree node"
  with NElement no_directive show ?thesis by (cases ch) (auto simp: chain_step_def)
qed (auto simp: chain_step_def split: chain.splits)

text \<open>A static element writes the same text in every environment, with any fuel, and leaves the state alone;
  its children may be prepared or not.\<close>

definition writes :: "tnode \<Rightarrow> string \<Rightarrow> bool" where
  "writes node out \<longleftrightarrow> (\<forall>E n x s. \<not> x_root x \<longrightarrow> render_node E n x node s = Ret (out, s))"

lemma writes_list:
  "list_all staticRenderTree cs \<Longrightarrow> list_all2 writes cs outs \<Longrightarrow> \<not> x_root x \<Longrightarrow> render_nodes E n x ch cs s = Ret (concat outs, s)"
proof (induction cs arbitrary: outs ch)
  case (Cons c cs)
  then obtain out outs' where o: "outs = out # outs'" "writes c out" "list_all2 writes cs outs'" by (auto simp: list_all2_Cons1)
  obtain ch' where "chain_step E (x_scope x) c ch = Ret (True, ch')" using chain_step_static [of c ch] Cons.prems(1) by auto
  moreover have "render_node E n x c s = Ret (out, s)" using o(2) Cons.prems(3) by (simp add: writes_def)
  ultimately show ?case using Cons o by simp
qed simp

definition static_out :: "elem_info \<Rightarrow> string \<Rightarrow> string list \<Rightarrow> string" where
  "static_out el attrs outs =
     (let opened = ''<'' @ el_Tag el @ attrs @ concat (map (\<lambda>sc. '' '' @ sc) (el_ScopeAttrs el)) @ ''>''
      in if isVoidHTMLTag (el_Tag el) then opened else opened @ concat outs @ ''</'' @ el_Tag el @ ''>'')"

lemma writes_element:
  assumes "staticRenderTree (NElement el cs)" and "el_static el = None" and "el_context el = None"
  shows "\<exists>attrs. \<forall>cs' outs. list_all staticRenderTree cs' \<and> list_all2 writes cs' outs \<longrightarrow>
    writes (NElement el cs') (static_out el attrs outs)"
proof -
  let ?reveal = "revealSSRClasses (el_Attrs el)"
  from assms(1) render_attrs_static [of "el_Attrs el" ?reveal] obtain a w where
    a: "\<And>E scope. render_attrs E scope ?reveal (el_Attrs el) = Ret (a, w)" by auto
  have d: "elementIfDirective el = None" "\<not> elementIsSlot el" "\<not> elementIsClientOnly el" "\<not> el_IsComponent el"
    using assms(1) no_directive [of el] by auto
  let ?attrs = "a @ (if ?reveal \<noteq> [] \<and> \<not> w then writeStaticHTMLAttribute ''class'' (plain_attr ?reveal) else [])"
  have "render_node E n x (NElement el cs') s = Ret (static_out el ?attrs outs, s)"
    if "list_all staticRenderTree cs'" "list_all2 writes cs' outs" "\<not> x_root x" for cs' outs E n x s
  proof -
    have "\<not> x_root (inner_context x)" by (simp add: inner_context_def)
    from writes_list [OF that(1,2) this] have c: "render_nodes E n (inner_context x) (Chain False False) cs' s = Ret (concat outs, s)" .
    show ?thesis using d a c that assms(2,3) by (simp add: static_out_def open_tag_def open_scopes_def element_shown_def Let_def)
  qed
  then show ?thesis unfolding writes_def by blast
qed

lemma writes_static:
  "staticRenderTree node \<Longrightarrow> fresh node \<Longrightarrow>
     \<exists>out. writes node out \<and> writes (prepare E node) out \<and> staticRenderTree (prepare E node)"
proof (induction node)
  case (NElement el cs)
  have "\<exists>outs. list_all2 writes cs outs \<and> list_all2 writes (map (prepare E) cs) outs \<and> list_all staticRenderTree (map (prepare E) cs)"
    using NElement
  proof (induction cs)
    case (Cons c cs)
    then obtain out outs where "writes c out" "writes (prepare E c) out" "staticRenderTree (prepare E c)"
        "list_all2 writes cs outs" "list_all2 writes (map (prepare E) cs) outs" "list_all staticRenderTree (map (prepare E) cs)"
      by fastforce
    then show ?case by (intro exI [of _ "out # outs"]) simp
  qed simp
  then obtain outs where o: "list_all2 writes cs outs" "list_all2 writes (map (prepare E) cs) outs"
      "list_all staticRenderTree (map (prepare E) cs)" by blast
  have st: "list_all staticRenderTree cs" "el_static el = None" "el_context el = None"
    using NElement.prems by auto
  from writes_element [OF NElement.prems(1) st(2,3)] o st(1) obtain attrs where
    w: "writes (NElement el cs) (static_out el attrs outs)" "writes (NElement el (map (prepare E) cs)) (static_out el attrs outs)" by blast
  have "\<not> x_root empty_context" by (simp add: empty_context_def)
  with w(2) have "prepare E (NElement el cs) = NElement (el\<lparr>el_static := Some (static_out el attrs outs)\<rparr>) (map (prepare E) cs)"
    using NElement.prems(1) by (simp add: writes_def Let_def)
  moreover have "staticRenderTree (NElement (el\<lparr>el_static := Some (static_out el attrs outs)\<rparr>) (map (prepare E) cs))"
    using NElement.prems(1) o(3) by (simp add: elementIsSlot_def elementIsClientOnly_def)
  ultimately show ?case using w(1) by (auto simp: writes_def)
qed (auto simp: writes_def)

section \<open>Preparing a whole application\<close>

definition prep_component :: "env \<Rightarrow> Component \<Rightarrow> Component" where
  "prep_component F c = c\<lparr>c_Template := map (prepare F) (c_Template c)\<rparr>"

definition prep_env :: "env \<Rightarrow> env \<Rightarrow> env" where
  "prep_env F E = E\<lparr>components := (\<lambda>tag. map_option (prep_component F) (components E tag))\<rparr>"

definition prep_slot :: "env \<Rightarrow> SlotContent \<Rightarrow> SlotContent" where
  "prep_slot F sl = sl\<lparr>sl_Nodes := map (prepare F) (sl_Nodes sl), sl_Owner := map_option (prep_component F) (sl_Owner sl)\<rparr>"

definition prep_context :: "env \<Rightarrow> renderContext \<Rightarrow> renderContext" where
  "prep_context F x = x\<lparr>x_slot := map_option (prep_slot F) (x_slot x), x_owner := map_option (prep_component F) (x_owner x)\<rparr>"

definition prep_state :: "env \<Rightarrow> renderState \<Rightarrow> renderState" where
  "prep_state F s = s\<lparr>rs_used := map (\<lambda>(k, c). (k, prep_component F c)) (rs_used s)\<rparr>"

fun omap :: "('a \<Rightarrow> 'b) \<Rightarrow> 'a outcome \<Rightarrow> 'b outcome" where
  "omap f (Ret x) = Ret (f x)"
| "omap f Panics = Panics"
| "omap f NoFuel = NoFuel"

abbreviation prep_result :: "env \<Rightarrow> (string \<times> renderState) outcome \<Rightarrow> (string \<times> renderState) outcome" where
  "prep_result F r \<equiv> omap (\<lambda>(out, s). (out, prep_state F s)) r"

definition fresh_env :: "env \<Rightarrow> bool" where
  "fresh_env E \<longleftrightarrow> (\<forall>tag c. components E tag = Some c \<longrightarrow> list_all fresh (c_Template c))"

definition fresh_context :: "renderContext \<Rightarrow> bool" where
  "fresh_context x \<longleftrightarrow> (\<forall>sl. x_slot x = Some sl \<longrightarrow> list_all fresh (sl_Nodes sl))"

lemma omap_obind [simp]: "omap f (obind m g) = obind m (\<lambda>x. omap f (g x))"
  by (cases m) auto

lemma obind_omap [simp]: "obind (omap f m) g = obind m (\<lambda>x. g (f x))"
  by (cases m) auto

lemma omap_if [simp]: "omap f (if b then p else q) = (if b then omap f p else omap f q)"
  by simp

lemma prep_env_fields [simp]:
  "components (prep_env F E) tag = map_option (prep_component F) (components E tag)"
  "server (prep_env F E) = server E" "instance_id (prep_env F E) = instance_id E" "marshalProps (prep_env F E) = marshalProps E"
  "copy_props (prep_env F E) = copy_props E" "loader (prep_env F E) = loader E" "show_map (prep_env F E) = show_map E"
  "parse_float (prep_env F E) = parse_float E"
  by (simp_all add: prep_env_def)

lemma prep_context_fields [simp]:
  "x_scope (prep_context F x) = x_scope x" "x_root (prep_context F x) = x_root x" "x_forceLazy (prep_context F x) = x_forceLazy x"
  "x_lazyHydration (prep_context F x) = x_lazyHydration x" "x_parentRootScopes (prep_context F x) = x_parentRootScopes x"
  "x_slot (prep_context F x) = map_option (prep_slot F) (x_slot x)" "x_owner (prep_context F x) = map_option (prep_component F) (x_owner x)"
  by (simp_all add: prep_context_def)

lemma prep_component_fields [simp]:
  "c_Name (prep_component F c) = c_Name c" "c_Client (prep_component F c) = c_Client c"
  "c_HasRuntimeAction (prep_component F c) = c_HasRuntimeAction c" "c_ScopeID (prep_component F c) = c_ScopeID c"
  "c_Template (prep_component F c) = map (prepare F) (c_Template c)" "c_Scripts (prep_component F c) = c_Scripts c"
  "c_PreparedSetup (prep_component F c) = c_PreparedSetup c"
  by (simp_all add: prep_component_def)

lemma prep_state_fields [simp]:
  "rs_instanceSeq (prep_state F s) = rs_instanceSeq s" "rs_tokens (prep_state F s) = rs_tokens s"
  "rs_forceClient (prep_state F s) = rs_forceClient s" "rs_runtimeStates (prep_state F s) = rs_runtimeStates s"
  "rs_scripts (prep_state F s) = rs_scripts s"
  by (simp_all add: prep_state_def)

lemma prep_state_updates:
  "prep_state F (s\<lparr>rs_instanceSeq := n\<rparr>) = (prep_state F s)\<lparr>rs_instanceSeq := n\<rparr>"
  "prep_state F (s\<lparr>rs_tokens := ts\<rparr>) = (prep_state F s)\<lparr>rs_tokens := ts\<rparr>"
  "prep_state F (s\<lparr>rs_runtimeStates := st\<rparr>) = (prep_state F s)\<lparr>rs_runtimeStates := st\<rparr>"
  by (simp_all add: prep_state_def)

lemma render_attr_prep [simp]: "render_attr (prep_env F E) scope reveal a = render_attr E scope reveal a"
  unfolding render_attr_def by (simp only: prep_env_fields)

lemma component_props_prep [simp]: "component_props (prep_env F E) scope as props h = component_props E scope as props h"
  by (induction "as" arbitrary: props h) (simp_all add: Let_def)

lemma eval_all_prep [simp]: "eval_all (prep_env F E) scope es = eval_all E scope es"
  by (induction es) simp_all

lemma chain_step_prep [simp]: "chain_step (prep_env F E) scope node ch = chain_step E scope node ch"
  unfolding chain_step_def by (simp only: prep_env_fields)

lemma render_attrs_prep [simp]: "render_attrs (prep_env F E) scope reveal as = render_attrs E scope reveal as"
  by (induction "as") simp_all

lemma update_map_snd: "map (\<lambda>(k, v). (k, f v)) (AList.update k v al) = AList.update k (f v) (map (\<lambda>(k, v). (k, f v)) al)"
  by (induction al) auto

lemma enter_prep:
  "enter_component (prep_env F E) (prep_component F c) target scope (prep_state F s) =
     (case enter_component E c target scope s of (scope', s') \<Rightarrow> (scope', prep_state F s'))"
  by (simp add: enter_component_def Let_def prep_state_def update_map_snd split: prod.split)

lemma contexts_prep:
  "inner_context (prep_context F x) = prep_context F (inner_context x)"
  "slot_context (prep_context F x) (prep_slot F sl) = prep_context F (slot_context x sl)"
  "client_context (prep_context F x) el = prep_context F (client_context x el)"
  "parent_scopes (prep_context F x) = parent_scopes x" "open_scopes (prep_context F x) el = open_scopes x el"
  by (simp_all add: client_context_def inner_context_def prep_context_def slot_context_def prep_slot_def parent_scopes_def open_scopes_def
      split: option.split)

text \<open>Preparing a node changes nothing that the decisions read.\<close>

lemma prepare_element: "\<exists>st. prepare F (NElement el cs) = NElement (el\<lparr>el_static := st\<rparr>) (map (prepare F) cs)"
proof (cases "staticRenderTree (NElement el cs)")
  case True
  show ?thesis
  proof (cases "render_node F 0 empty_context (NElement el (map (prepare F) cs)) empty_state")
    case (Ret r)
    with True show ?thesis
      by (intro exI [of _ "Some (fst r)"]) (simp add: Let_def del: staticRenderTree.simps render_node.simps split: prod.split)
  qed (use True in \<open>auto simp: Let_def simp del: staticRenderTree.simps render_node.simps intro: exI [of _ "el_static el"]\<close>)
next
  case False
  then show ?thesis
    by (intro exI [of _ "el_static el"]) (simp add: Let_def del: staticRenderTree.simps render_node.simps)
qed

lemma static_update [simp]:
  "elementIfDirective (el\<lparr>el_static := st\<rparr>) = elementIfDirective el" "elementElseIfDirective (el\<lparr>el_static := st\<rparr>) = elementElseIfDirective el"
  "elementElseDirective (el\<lparr>el_static := st\<rparr>) = elementElseDirective el" "elementIsSlot (el\<lparr>el_static := st\<rparr>) = elementIsSlot el"
  "elementIsClientOnly (el\<lparr>el_static := st\<rparr>) = elementIsClientOnly el" "open_scopes x (el\<lparr>el_static := st\<rparr>) = open_scopes x el"
  by (simp_all add: elementIfDirective_def elementElseIfDirective_def elementElseDirective_def elementIsSlot_def
      elementIsClientOnly_def open_scopes_def)

lemma chain_step_prepare [simp]: "chain_step E scope (prepare F node) ch = chain_step E scope node ch"
proof (cases node)
  case (NElement el cs)
  obtain st where "prepare F (NElement el cs) = NElement (el\<lparr>el_static := st\<rparr>) (map (prepare F) cs)" using prepare_element by blast
  with NElement show ?thesis by (simp only: chain_step_def tnode.case static_update)
qed simp_all

lemma element_shown_prep [simp]: "element_shown (prep_env F E) scope (el\<lparr>el_static := st\<rparr>) = element_shown E scope el"
  unfolding element_shown_def by (simp only: static_update prep_env_fields)

lemma open_tag_prep [simp]: "open_tag (prep_context F x) (el\<lparr>el_static := st\<rparr>) w = open_tag x el w"
  by (simp add: open_tag_def contexts_prep)

lemma component_lazy_prep [simp]: "component_lazy (prep_env F E) (prep_context F x) h = component_lazy E x h"
  unfolding component_lazy_def by (simp only: prep_env_fields prep_context_fields)

lemma component_open_prep [simp]: "component_open (prep_component F c) i token = component_open c i token"
  unfolding component_open_def by (simp only: prep_component_fields)

lemma component_context_prep:
  "component_context (prep_context F x) (map (prepare F) cs) (prep_component F c) scope = prep_context F (component_context x cs c scope)"
  by (simp add: component_context_def prep_context_def prep_slot_def contexts_prep [unfolded prep_context_def])

lemma component_start_prep:
  "component_start (prep_env F E) (prep_context F x) (prep_component F c) props (prep_state F s) =
     (case component_start E x c props s of (i, d, s') \<Rightarrow> (i, d, prep_state F s'))"
  by (auto simp: component_start_def Let_def prep_state_updates split: list.split option.split)

lemma fresh_contexts:
  "fresh_context x \<Longrightarrow> fresh_context (inner_context x)" "fresh_context x \<Longrightarrow> fresh_context (client_context x el)"
  "fresh_context x \<Longrightarrow> x_slot x = Some sl \<Longrightarrow> fresh_context (slot_context x sl) \<and> list_all fresh (sl_Nodes sl)"
  "list_all fresh cs \<Longrightarrow> fresh_context (component_context x cs c scope)"
  by (simp_all add: fresh_context_def inner_context_def client_context_def slot_context_def component_context_def)

lemma prep_slot_fields [simp]:
  "sl_Nodes (prep_slot F sl) = map (prepare F) (sl_Nodes sl)" "sl_RawHTML (prep_slot F sl) = sl_RawHTML sl"
  by (simp_all add: prep_slot_def)

lemma client_context_static [simp]: "client_context x (el\<lparr>el_static := st\<rparr>) = client_context x el"
  by (simp add: client_context_def)

lemma obind_eq: "m = m' \<Longrightarrow> (\<And>a. f a = g a) \<Longrightarrow> obind m f = obind m' g"
  by (cases m') auto

text \<open>The walk over an element whose static fragment is not used.\<close>

lemma render_element_prep:
  assumes not_static: "x_root x \<or> el_static el = None" "x_root x \<or> st = None"
    and x: "fresh_context x" and E: "fresh_env E" and cs: "list_all fresh cs"
    and down: "\<And>x s. fresh_context x \<Longrightarrow>
      render_nodes (prep_env F E) n (prep_context F x) (Chain False False) (map (prepare F) cs) (prep_state F s) =
      prep_result F (render_nodes E n x (Chain False False) cs s)"
    and jump: "\<And>m x nodes s. n = Suc m \<Longrightarrow> fresh_context x \<Longrightarrow> list_all fresh nodes \<Longrightarrow>
      render_nodes (prep_env F E) m (prep_context F x) (Chain False False) (map (prepare F) nodes) (prep_state F s) =
      prep_result F (render_nodes E m x (Chain False False) nodes s)"
  shows "render_node (prep_env F E) n (prep_context F x) (NElement (el\<lparr>el_static := st\<rparr>) (map (prepare F) cs)) (prep_state F s) =
    prep_result F (render_node E n x (NElement el cs) s)"
proof -
  have skip: "(\<not> x_root x \<and> el_static el \<noteq> None) = False" "(\<not> x_root x \<and> st \<noteq> None) = False" using not_static by auto
  consider (slot) "elementIsSlot el" | (client) "\<not> elementIsSlot el" "elementIsClientOnly el"
    | (comp) "\<not> elementIsSlot el" "\<not> elementIsClientOnly el" "el_IsComponent el"
    | (plain) "\<not> elementIsSlot el" "\<not> elementIsClientOnly el" "\<not> el_IsComponent el" by blast
  then show ?thesis
  proof cases
    case slot
    show ?thesis
    proof (cases "x_slot x")
      case None
      with slot skip down [OF fresh_contexts(1) [OF x]] show ?thesis
        by (auto simp: contexts_prep intro!: obind_eq)
    next
      case (Some sl)
      with slot skip jump [OF _ conjunct1 [OF fresh_contexts(3) [OF x Some]] conjunct2 [OF fresh_contexts(3) [OF x Some]]] show ?thesis
        by (cases n) (auto simp: contexts_prep intro!: obind_eq)
    qed
  next
    case client
    with skip down [OF fresh_contexts(2) [OF x]] show ?thesis by (auto simp: contexts_prep intro!: obind_eq)
  next
    case plain
    with skip down [OF fresh_contexts(1) [OF x]] show ?thesis
      by (auto simp: contexts_prep case_prod_unfold intro!: obind_eq split: option.splits)
  next
    case comp
    show ?thesis
    proof (cases "components E (el_Tag el)")
      case None
      with comp skip show ?thesis by (auto intro!: obind_eq)
    next
      case (Some c)
      have tmpl: "list_all fresh (c_Template c)" using E Some by (simp add: fresh_env_def)
      note body = jump [OF _ fresh_contexts(4) [OF cs] tmpl]
      have go: "render_component (prep_env F E) n (prep_context F x) (map (prepare F) cs) (prep_component F c) p (prep_state F s)
            (\<lambda>m x1 s1. render_nodes (prep_env F E) m x1 (Chain False False) (map (prepare F) (c_Template c)) s1) =
          prep_result F (render_component E n x cs c p s (\<lambda>m x1 s1. render_nodes E m x1 (Chain False False) (c_Template c) s1))" for p
      proof -
        obtain i d s1 where st: "component_start E x c (fst p) s = (i, d, s1)" using prod_cases3 by blast
        show ?thesis
        proof (cases d)
          case None
          with st show ?thesis by (simp add: render_component_def component_start_prep)
        next
          case (Some token)
          obtain scope s2 where en: "enter_component E c (''[data-gosh-instance='' @ quoted i @ '']'') [fst p] s1 = (scope, s2)" by fastforce
          show ?thesis
          proof (cases "(c_Client c \<or> x_forceLazy x) \<and> \<not> rs_forceClient s1")
            case True
            with st Some show ?thesis by (simp add: render_component_def component_start_prep)
          next
            case False
            then show ?thesis using st Some en body
              by (cases n) (auto simp: render_component_def component_start_prep enter_prep component_context_prep case_prod_unfold)
          qed
        qed
      qed
      show ?thesis using comp skip Some go by (auto intro!: obind_eq)
    qed
  qed
qed

lemma render_nodes_prep_step:
  assumes one: "\<And>s. render_node (prep_env F E) n (prep_context F x) (prepare F d) (prep_state F s) = prep_result F (render_node E n x d s)"
    and rest: "\<And>ch s. render_nodes (prep_env F E) n (prep_context F x) ch (map (prepare F) ds) (prep_state F s) =
      prep_result F (render_nodes E n x ch ds s)"
  shows "render_nodes (prep_env F E) n (prep_context F x) ch (map (prepare F) (d # ds)) (prep_state F s) =
    prep_result F (render_nodes E n x ch (d # ds) s)"
proof (cases "chain_step E (x_scope x) d ch")
  case (Ret r)
  obtain v ch' where r: "r = (v, ch')" by fastforce
  show ?thesis
  proof (cases v)
    case True
    show ?thesis
    proof (cases "render_node E n x d s")
      case (Ret q)
      with True r \<open>chain_step _ _ _ _ = _\<close> one rest show ?thesis
        by (cases q) (simp add: case_prod_unfold del: prepare.simps)
    qed (use True r \<open>chain_step _ _ _ _ = _\<close> one in \<open>simp_all del: prepare.simps\<close>)
  qed (use r \<open>chain_step _ _ _ _ = _\<close> rest in \<open>simp add: case_prod_unfold del: prepare.simps\<close>)
qed (simp_all del: prepare.simps)

lemma render_prep:
  "fresh_env E \<Longrightarrow> fresh_context x \<Longrightarrow> list_all fresh nodes \<Longrightarrow>
     render_nodes (prep_env F E) n (prep_context F x) ch (map (prepare F) nodes) (prep_state F s) = prep_result F (render_nodes E n x ch nodes s)"
proof (induction n arbitrary: x ch nodes s rule: less_induct)
  case (less n)
  have jump: "render_nodes (prep_env F E) m (prep_context F x) (Chain False False) (map (prepare F) nodes) (prep_state F s) =
      prep_result F (render_nodes E m x (Chain False False) nodes s)"
    if "n = Suc m" "fresh_context x" "list_all fresh nodes" for m x nodes s
    using less.IH [of m] that less.prems(1) by simp
  have node: "render_node (prep_env F E) n (prep_context F x) (prepare F node) (prep_state F s) = prep_result F (render_node E n x node s)"
    if "fresh node" "fresh_context x" for node x s
    using that
  proof (induction node arbitrary: x s)
    case (NElement el cs)
    have nodes: "render_nodes (prep_env F E) n (prep_context F x) ch (map (prepare F) ds) (prep_state F s) = prep_result F (render_nodes E n x ch ds s)"
      if "set ds \<subseteq> set cs" "fresh_context x" for ds x ch s
      using that
    proof (induction ds arbitrary: ch s)
      case (Cons d ds)
      have d: "d \<in> set cs" "fresh d" using Cons.prems(1) NElement.prems(1) by (auto simp: list_all_iff)
      note one = NElement.IH [OF d Cons.prems(2)]
      have rest: "render_nodes (prep_env F E) n (prep_context F x) ch (map (prepare F) ds) (prep_state F s) = prep_result F (render_nodes E n x ch ds s)" for ch s
        using Cons by simp
      from one rest show ?case by (rule render_nodes_prep_step)
    qed simp
    obtain st where p: "prepare F (NElement el cs) = NElement (el\<lparr>el_static := st\<rparr>) (map (prepare F) cs)" using prepare_element by blast
    show ?case
    proof (cases "staticRenderTree (NElement el cs) \<and> \<not> x_root x")
      case True
      from writes_static [OF conjunct1 [OF True] NElement.prems(1), of F] obtain out where
        "writes (NElement el cs) out" "writes (prepare F (NElement el cs)) out" by blast
      with True show ?thesis by (simp add: writes_def del: prepare.simps render_node.simps)
    next
      case False
      have "x_root x \<or> st = None"
      proof (cases "staticRenderTree (NElement el cs)")
        case False
        with p NElement.prems(1) show ?thesis
          by (simp add: Let_def del: staticRenderTree.simps) (metis elem_info.select_convs(5) elem_info.surjective elem_info.update_convs(5))
      qed (use False in simp)
      moreover have "x_root x \<or> el_static el = None" "list_all fresh cs" using NElement.prems(1) by simp_all
      ultimately show ?thesis unfolding p
        using NElement.prems(2) less.prems(1) nodes jump by (intro render_element_prep) auto
    qed
  qed (auto intro!: obind_eq)
  show ?case using less.prems(2,3)
  proof (induction nodes arbitrary: ch s)
    case (Cons d ds)
    have one: "render_node (prep_env F E) n (prep_context F x) (prepare F d) (prep_state F s) = prep_result F (render_node E n x d s)" for s
      using node Cons.prems by simp
    have rest: "render_nodes (prep_env F E) n (prep_context F x) ch (map (prepare F) ds) (prep_state F s) = prep_result F (render_nodes E n x ch ds s)" for ch s
      using Cons by simp
    from one rest show ?case by (rule render_nodes_prep_step)
  qed simp
qed

section \<open>What a browser reads\<close>

text \<open>The value of an attribute, for the entities that the renderer writes.\<close>

fun html_unescape :: "string \<Rightarrow> string" where
  "html_unescape [] = []"
| "html_unescape (c # s) =
     (if c \<noteq> CHR ''&'' then c # html_unescape s
      else if HasPrefix s ''amp;'' then CHR ''&'' # html_unescape (drop 4 s)
      else if HasPrefix s ''lt;'' then CHR ''<'' # html_unescape (drop 3 s)
      else if HasPrefix s ''gt;'' then CHR ''>'' # html_unescape (drop 3 s)
      else if HasPrefix s ''#34;'' then CHR 0x22 # html_unescape (drop 4 s)
      else if HasPrefix s ''#39;'' then CHR 0x27 # html_unescape (drop 4 s)
      else c # html_unescape s)"

text \<open>The scheme of a URL by the URL standard: control characters and blanks around it and tabs and line
  breaks within it do not count; a letter, then letters, digits, plus, minus and dots, then a colon.\<close>

definition c0_or_space :: "char \<Rightarrow> bool" where "c0_or_space c \<longleftrightarrow> (of_char c :: nat) \<le> 32"

definition url_break :: "char \<Rightarrow> bool" where "url_break c \<longleftrightarrow> c = CHR 0x09 \<or> c = CHR 0x0A \<or> c = CHR 0x0D"

definition letter :: "char \<Rightarrow> bool" where
  "letter c \<longleftrightarrow> (let n = (of_char c :: nat) in (65 \<le> n \<and> n \<le> 90) \<or> (97 \<le> n \<and> n \<le> 122))"

definition scheme_char :: "char \<Rightarrow> bool" where
  "scheme_char c \<longleftrightarrow> letter c \<or> is_digit c \<or> c \<in> {CHR ''+'', CHR ''-'', CHR ''.''}"

definition clean_url :: "string \<Rightarrow> string" where
  "clean_url u = filter (\<lambda>c. \<not> url_break c) (trim_right_where c0_or_space (trim_left_where c0_or_space u))"

definition browser_scheme :: "string \<Rightarrow> string option" where
  "browser_scheme u =
     (let w = clean_url u; sch = takeWhile scheme_char w
      in case drop (length sch) w of
           c # _ \<Rightarrow> if c = CHR '':'' \<and> sch \<noteq> [] \<and> letter (hd sch) then Some (ToLower sch) else None
         | [] \<Rightarrow> None)"

lemma html_unescape_escape_char: "html_unescape (escape_char c @ s) = c # html_unescape s"
  by (simp add: escape_char_def HasPrefix_def)

lemma html_unescape_EscapeString: "html_unescape (EscapeString s) = s"
  by (induction s) (simp_all add: EscapeString_def html_unescape_escape_char)

lemma EscapeString_chars: "set (EscapeString s) \<inter> {CHR ''<'', CHR ''>'', CHR 0x22, CHR 0x27} = {}"
  by (induction s) (auto simp: EscapeString_def escape_char_def)

lemma filter_trim:
  "(\<And>c. Q c \<Longrightarrow> \<not> P c) \<Longrightarrow> filter P (trim_right_where Q s) = filter P s \<and> filter P (trim_left_where Q s) = filter P s"
proof -
  assume q: "\<And>c. Q c \<Longrightarrow> \<not> P c"
  have d: "filter P (dropWhile Q s) = filter P s" for s using q by (induction s) auto
  have "filter P (rev (dropWhile Q (rev s))) = rev (filter P (dropWhile Q (rev s)))" by (simp add: rev_filter)
  also have "\<dots> = filter P s" by (simp add: d flip: rev_filter)
  finally show ?thesis by (simp add: trim_right_where_def trim_left_where_def d)
qed

lemma filter_clean_url: "filter visible_char (clean_url u) = filter visible_char u"
proof -
  have c: "c0_or_space c \<Longrightarrow> \<not> visible_char c" for c by (simp add: c0_or_space_def visible_char_def Let_def)
  have b: "url_break c \<Longrightarrow> \<not> visible_char c" for c by (auto simp: url_break_def visible_char_def)
  have "filter visible_char (filter (\<lambda>c. \<not> url_break c) s) = filter visible_char s" for s
    using b by (simp add: filter_filter) (metis (mono_tags, lifting) filter_cong)
  then show ?thesis using filter_trim [of c0_or_space visible_char, OF c] by (simp add: clean_url_def)
qed

lemma scheme_char_facts: "scheme_char c \<Longrightarrow> visible_char c \<and> c \<noteq> CHR '':'' \<and> c \<noteq> CHR ''/'' \<and> c \<noteq> CHR ''?'' \<and> c \<noteq> CHR ''#''"
  by (auto simp: scheme_char_def letter_def is_digit_def visible_char_def Let_def)

lemma Cut_at_colon: "CHR '':'' \<notin> set a \<Longrightarrow> Cut (a @ CHR '':'' # b) '':'' = Some (a, b)"
proof (induction a)
  case (Cons c a)
  then show ?case by (auto simp: Cut_def HasPrefix_def split: option.splits)
qed (simp add: Cut_def HasPrefix_def)

lemma safe_scheme: "safeDynamicURL u \<Longrightarrow> browser_scheme u = Some sch \<Longrightarrow> sch \<in> {''http'', ''https'', ''mailto'', ''tel''}"
proof -
  assume s: "safeDynamicURL u" and b: "browser_scheme u = Some sch"
  let ?w = "clean_url u" let ?s = "takeWhile scheme_char ?w"
  from b obtain r where r: "drop (length ?s) ?w = CHR '':'' # r" "sch = ToLower ?s"
    by (auto simp: browser_scheme_def Let_def split: list.splits if_splits)
  have w: "?w = ?s @ CHR '':'' # r" using r(1) by (metis append_take_drop_id takeWhile_eq_take)
  have c: "\<forall>c\<in>set ?s. scheme_char c" by (auto dest: set_takeWhileD)
  then have "filter visible_char ?s = ?s" using scheme_char_facts by (simp add: filter_id_conv)
  moreover have "visible_char (CHR '':'')" by (simp add: visible_char_def)
  ultimately have "filter visible_char u = ?s @ CHR '':'' # filter visible_char r"
    using arg_cong [OF w, of "filter visible_char"] by (simp add: filter_clean_url)
  moreover have "CHR '':'' \<notin> set ?s" "CHR ''/'' \<notin> set ?s" "CHR ''?'' \<notin> set ?s" "CHR ''#'' \<notin> set ?s"
    using c scheme_char_facts by blast+
  ultimately show ?thesis using s r(2) by (simp add: safeDynamicURL_def Cut_at_colon)
qed

section \<open>Properties\<close>

definition untrusted :: "rval \<Rightarrow> bool" where
  "untrusted v \<longleftrightarrow> (case v of RURL s \<Rightarrow> False | RJS s \<Rightarrow> False | RHTML s \<Rightarrow> False | _ \<Rightarrow> True)"




section \<open>Preparing keeps the output\<close>

text \<open>Preparing the templates of an application, which replaces every static element by the text it
  once rendered to, changes nothing: with any scope, slot, fuel and state a prepared template writes
  what the parsed one writes, draws the same tokens and keeps the same states.\<close>

theorem prepared_renders_same:
  assumes "fresh_env E" and "fresh_context x" and "list_all fresh template"
  shows "render_nodes (prep_env F E) n (prep_context F x) ch (map (prepare F) template) (prep_state F s) =
    prep_result F (render_nodes E n x ch template s)"
  using assms by (rule render_prep)

definition demo_env :: "(string \<Rightarrow> Component option) \<Rightarrow> env" where
  "demo_env comps = \<lparr>components = comps, server = (\<lambda>n s. ([], None)), instance_id = (\<lambda>n k p. ''i''), marshalProps = (\<lambda>p. ''{}''),
     copy_props = (\<lambda>p. p), loader = ''...'', show_map = (\<lambda>m. ''map[]''), parse_float = (\<lambda>s. None)\<rparr>"

definition elem :: "string \<Rightarrow> Attribute list \<Rightarrow> tnode list \<Rightarrow> tnode" where
  "elem tag attrs cs = NElement \<lparr>el_Tag = tag, el_IsComponent = False, el_Attrs = attrs, el_ScopeAttrs = [], el_static = None, el_context = None\<rparr> cs"

definition attr :: "string \<Rightarrow> string \<Rightarrow> bool \<Rightarrow> Attribute" where
  "attr name v dyn = \<lparr>at_Name = name, at_Value = v, at_Dynamic = dyn, at_Event = False, at_Directive = isStructuralDirective name, at_Boolean = False\<rparr>"

definition demo_p :: tnode where
  "demo_p = elem ''p'' [attr ''class'' ''a'' False] [NText ''hi'']"

definition demo_template :: "tnode list" where
  "demo_template = [elem ''div'' [] [demo_p, elem ''b'' [attr '':title'' ''t'' True] [NInterp ''t'']]]"

theorem prepared_renders_same_witness:
  "let E = demo_env (\<lambda>t. None); x = empty_context\<lparr>x_scope := [[(''t'', RStr ''<1>'')]]\<rparr> in
     (case prepare E demo_p of NElement el cs \<Rightarrow> el_static el | _ \<Rightarrow> None) = Some (''<p class='' @ quoted ''a'' @ ''>hi</p>'') \<and>
     render_nodes (prep_env E E) 0 (prep_context E x) (Chain False False) (map (prepare E) demo_template) (prep_state E empty_state) =
       prep_result E (render_nodes E 0 x (Chain False False) demo_template empty_state)"
proof -
  let ?E = "demo_env (\<lambda>t. None)" and ?x = "empty_context\<lparr>x_scope := [[(''t'', RStr ''<1>'')]]\<rparr>"
  have "list_all fresh demo_template"
    by (simp add: demo_template_def demo_p_def elem_def attr_def elementIsSlot_def elementIsClientOnly_def)
  moreover have "fresh_env ?E" by (simp add: fresh_env_def demo_env_def)
  moreover have "fresh_context ?x" by (simp add: fresh_context_def empty_context_def)
  moreover have "(case prepare ?E demo_p of NElement el cs \<Rightarrow> el_static el | _ \<Rightarrow> None) = Some (''<p class='' @ quoted ''a'' @ ''>hi</p>'')"
    by code_simp
  ultimately show ?thesis using prepared_renders_same [of ?E ?x demo_template] unfolding Let_def by blast
qed


section \<open>Chains of conditions\<close>

text \<open>A branch: its condition (none for \<^verbatim>\<open>m-else\<close>), its element, and the white space that follows it.\<close>

type_synonym branch = "string option \<times> elem_info \<times> tnode list \<times> string"

fun branch_nodes :: "branch \<Rightarrow> tnode list" where
  "branch_nodes (c, el, cs, gap) = [NElement el cs, NText gap]"

definition holds :: "env \<Rightarrow> Scope \<Rightarrow> string \<Rightarrow> bool" where
  "holds E scope e = (case eval E e scope of Ret v \<Rightarrow> truthy v | _ \<Rightarrow> False)"

fun gap_after :: "branch \<Rightarrow> string" where
  "gap_after (c, el, cs, gap) = gap"

text \<open>What precedes the chosen branch, the branch, and what follows it.\<close>

fun pick_branch :: "(string \<Rightarrow> bool) \<Rightarrow> branch list \<Rightarrow> string \<times> tnode option \<times> string" where
  "pick_branch h [] = ([], None, [])"
| "pick_branch h ((c, el, cs, gap) # bs) =
     (if c = None \<or> h (the c) then ([], Some (NElement el cs), gap @ concat (map gap_after bs))
      else case pick_branch h bs of (before, node, after) \<Rightarrow> (gap @ before, node, after))"

fun if_branch :: "branch \<Rightarrow> bool" where
  "if_branch (c, el, cs, gap) \<longleftrightarrow> c \<noteq> None \<and> elementIfDirective el = c \<and> TrimSpace gap = []"

fun else_if_branch :: "branch \<Rightarrow> bool" where
  "else_if_branch (c, el, cs, gap) \<longleftrightarrow>
     c \<noteq> None \<and> elementIfDirective el = None \<and> elementElseIfDirective el = c \<and> TrimSpace gap = []"

fun else_branch :: "branch \<Rightarrow> bool" where
  "else_branch (c, el, cs, gap) \<longleftrightarrow>
     c = None \<and> elementIfDirective el = None \<and> elementElseIfDirective el = None \<and> elementElseDirective el \<and> TrimSpace gap = []"

definition evaluates :: "env \<Rightarrow> Scope \<Rightarrow> branch \<Rightarrow> bool" where
  "evaluates E scope b \<longleftrightarrow> (case fst b of None \<Rightarrow> True | Some e \<Rightarrow> eval E e scope \<noteq> Panics \<and> eval E e scope \<noteq> NoFuel)"

definition branches_out :: "env \<Rightarrow> nat \<Rightarrow> renderContext \<Rightarrow> string \<times> tnode option \<times> string \<Rightarrow> renderState \<Rightarrow> (string \<times> renderState) outcome" where
  "branches_out E n x b s =
     (case b of (before, None, after) \<Rightarrow> Ret (before @ after, s)
      | (before, Some node, after) \<Rightarrow> obind (render_node E n x node s) (\<lambda>(out, s1). Ret (before @ out @ after, s1)))"

lemma evaluates_holds: "evaluates E scope (Some e, r) \<Longrightarrow> \<exists>v. eval E e scope = Ret v \<and> holds E scope e = truthy v"
  by (cases "eval E e scope") (auto simp: evaluates_def holds_def)

lemma obind_again: "obind (obind m f) g = obind m (\<lambda>a. obind (f a) g)"
  by (cases m) auto

lemma chain_gap [simp]: "TrimSpace gap = [] \<Longrightarrow> chain_step E scope (NText gap) (Chain a m) = Ret (True, Chain a m)"
  by (simp add: chain_step_def)

lemma after_branch:
  "TrimSpace gap = [] \<Longrightarrow> render_nodes E n x (Chain True m) (NText gap # nodes) s =
     obind (render_nodes E n x (Chain True m) nodes s) (\<lambda>(o2, s2). Ret (gap @ o2, s2))"
  by (simp add: chain_step_def)

lemma after_else:
  "TrimSpace gap = [] \<Longrightarrow> render_nodes E n x (Chain False m) [NText gap] s = Ret (gap, s)"
  by (simp add: chain_step_def)

text \<open>Once a branch is taken the others are passed over; until then each is tried in turn.\<close>

lemma chain_done:
  "list_all else_if_branch mids \<Longrightarrow> list_all else_branch els \<Longrightarrow> length els \<le> 1 \<Longrightarrow>
     render_nodes E n x (Chain True True) (concat (map branch_nodes (mids @ els))) s = Ret (concat (map gap_after (mids @ els)), s)"
proof (induction mids)
  case Nil
  then show ?case
    by (cases els) (auto simp: chain_step_def)
next
  case (Cons b mids)
  obtain c el cs gap where b: "b = (c, el, cs, gap)" by (cases b) auto
  from Cons b have "render_nodes E n x (Chain True True) (concat (map branch_nodes (mids @ els))) s = Ret (concat (map gap_after (mids @ els)), s)" by simp
  with Cons.prems(1) b show ?case by (auto simp: chain_step_def)
qed

lemma chain_open:
  "list_all else_if_branch mids \<Longrightarrow> list_all else_branch els \<Longrightarrow> length els \<le> 1 \<Longrightarrow>
     list_all (evaluates E (x_scope x)) (mids @ els) \<Longrightarrow>
     render_nodes E n x (Chain True False) (concat (map branch_nodes (mids @ els))) s =
       branches_out E n x (pick_branch (holds E (x_scope x)) (mids @ els)) s"
proof (induction mids)
  case Nil
  then show ?case
    by (cases els) (auto simp: chain_step_def branches_out_def)
next
  case (Cons b mids)
  obtain e el cs gap where b: "b = (Some e, el, cs, gap)" "elementIfDirective el = None" "elementElseIfDirective el = Some e" "TrimSpace gap = []"
    using Cons.prems(1) by (cases b) auto
  obtain v where v: "eval E e (x_scope x) = Ret v" "holds E (x_scope x) e = truthy v"
    using Cons.prems(4) b(1) evaluates_holds [of E "x_scope x" e "(el, cs, gap)"] by auto
  have step: "chain_step E (x_scope x) (NElement el cs) (Chain True False) = Ret (truthy v, Chain True (truthy v))"
    using b v by (simp add: chain_step_def)
  show ?case
  proof (cases "truthy v")
    case True
    have "render_nodes E n x (Chain True True) (concat (map branch_nodes (mids @ els))) s1 = Ret (concat (map gap_after (mids @ els)), s1)" for s1
      using chain_done [of mids els] Cons.prems by simp
    then show ?thesis using True step v b
      by (cases "render_node E n x (NElement el cs) s")
        (simp_all add: branches_out_def case_prod_unfold del: render_node.simps(4))
  next
    case False
    with step v b Cons show ?thesis
      by (simp add: branches_out_def obind_again case_prod_unfold split: prod.split option.split del: render_node.simps(4))
  qed
qed


text \<open>C30: Of an \<^verbatim>\<open>m-if\<close>, its \<^verbatim>\<open>m-else-if\<close>s and a last \<^verbatim>\<open>m-else\<close>, in this order and with only white space
  between them, exactly the first branch whose condition holds is rendered (the \<^verbatim>\<open>m-else\<close> when none
  does, and nothing when there is none); the white space stays, and a later condition than the one
  that holds decides nothing.\<close>

theorem condition_chain:
  assumes "if_branch b" and "list_all else_if_branch mids" and "list_all else_branch els" and "length els \<le> 1"
    and "list_all (evaluates E (x_scope x)) (b # mids @ els)"
  shows "render_nodes E n x ch (concat (map branch_nodes (b # mids @ els))) s =
    branches_out E n x (pick_branch (holds E (x_scope x)) (b # mids @ els)) s"
proof -
  obtain e el cs gap where b: "b = (Some e, el, cs, gap)" "elementIfDirective el = Some e" "TrimSpace gap = []"
    using assms(1) by (cases b) auto
  obtain v where v: "eval E e (x_scope x) = Ret v" "holds E (x_scope x) e = truthy v"
    using assms(5) b(1) evaluates_holds [of E "x_scope x" e "(el, cs, gap)"] by auto
  have step: "chain_step E (x_scope x) (NElement el cs) ch = Ret (truthy v, Chain True (truthy v))"
    using b v by (cases ch) (simp add: chain_step_def)
  show ?thesis
  proof (cases "truthy v")
    case True
    have "render_nodes E n x (Chain True True) (concat (map branch_nodes (mids @ els))) s1 = Ret (concat (map gap_after (mids @ els)), s1)" for s1
      using chain_done [of mids els] assms by simp
    then show ?thesis using True step v b
      by (cases "render_node E n x (NElement el cs) s")
        (simp_all add: branches_out_def case_prod_unfold del: render_node.simps(4))
  next
    case False
    have "render_nodes E n x (Chain True False) (concat (map branch_nodes (mids @ els))) s = branches_out E n x (pick_branch (holds E (x_scope x)) (mids @ els)) s"
      using chain_open assms by auto
    with False step v b show ?thesis
      by (simp add: branches_out_def obind_again case_prod_unfold split: prod.split option.split del: render_node.simps(4))
  qed
qed

definition demo_branch :: "string \<Rightarrow> string \<Rightarrow> string \<Rightarrow> elem_info" where
  "demo_branch tag name v =
     \<lparr>el_Tag = tag, el_IsComponent = False, el_Attrs = [attr name v False], el_ScopeAttrs = [], el_static = None, el_context = None\<rparr>"

theorem condition_chain_witness:
  "let E = demo_env (\<lambda>t. None); x = empty_context\<lparr>x_scope := [[(''n'', RStr [])]]\<rparr>;
       b = (Some ''n'', demo_branch ''a'' ''m-if'' ''n'', [NText ''1''], '' ''); m = (Some ''!n'', demo_branch ''b'' ''m-else-if'' ''!n'', [NText ''2''], []);
       e = (None, demo_branch ''i'' ''m-else'' [], [NText ''3''], '' '')
   in render_nodes E 0 x (Chain False False) (concat (map branch_nodes (b # [m] @ [e]))) empty_state =
        branches_out E 0 x (pick_branch (holds E (x_scope x)) (b # [m] @ [e])) empty_state \<and>
      pick_branch (holds E (x_scope x)) (b # [m] @ [e]) = ('' '', Some (NElement (demo_branch ''b'' ''m-else-if'' ''!n'') [NText ''2'']), '' '')"
proof -
  let ?E = "demo_env (\<lambda>t. None)" and ?x = "empty_context\<lparr>x_scope := [[(''n'', RStr [])]]\<rparr>"
  let ?b = "(Some ''n'', demo_branch ''a'' ''m-if'' ''n'', [NText ''1''], '' '')"
  let ?m = "(Some ''!n'', demo_branch ''b'' ''m-else-if'' ''!n'', [NText ''2''], [])"
  let ?e = "(None, demo_branch ''i'' ''m-else'' [], [NText ''3''], '' '')"
  have ev: "eval ?E ''n'' (x_scope ?x) = Ret (RStr [])" "eval ?E ''!n'' (x_scope ?x) = Ret (RBool True)" by code_simp+
  have f: "findDirective (el_Attrs (demo_branch t name v)) d = (if name = d then Some (attr name v False) else None)" for t name v d
    by (simp add: findDirective_def demo_branch_def attr_def)
  have val: "attributeEvalValue (attr ''m-if'' ''n'' False) = ''n''" "attributeEvalValue (attr ''m-else-if'' ''!n'' False) = ''!n''" by code_simp+
  have sp: "TrimSpace '' '' = []" "TrimSpace [] = []" by code_simp+
  have "if_branch ?b" "list_all else_if_branch [?m]" "list_all else_branch [?e]" "length [?e] \<le> 1"
    by (simp_all add: elementIfDirective_def elementElseIfDirective_def elementElseDirective_def f val sp)
  moreover have "list_all (evaluates ?E (x_scope ?x)) (?b # [?m] @ [?e])"
    using ev by (simp add: evaluates_def)
  ultimately have "render_nodes ?E 0 ?x (Chain False False) (concat (map branch_nodes (?b # [?m] @ [?e]))) empty_state =
      branches_out ?E 0 ?x (pick_branch (holds ?E (x_scope ?x)) (?b # [?m] @ [?e])) empty_state"
    by (rule condition_chain)
  moreover have "pick_branch (holds ?E (x_scope ?x)) (?b # [?m] @ [?e]) =
      ('' '', Some (NElement (demo_branch ''b'' ''m-else-if'' ''!n'') [NText ''2'']), '' '')"
    using ev by (simp add: holds_def truthy_def)
  ultimately show ?thesis unfolding Let_def by blast
qed

section \<open>What the walk does not guard against\<close>

definition demo_component :: "tnode list \<Rightarrow> Component" where
  "demo_component template = \<lparr>c_Name = ''X'', c_Client = False, c_HasRuntimeAction = False, c_ScopeID = [],
     c_Template = template, c_Scripts = [], c_PreparedSetup = []\<rparr>"

definition component_tag :: tnode where
  "component_tag = NElement \<lparr>el_Tag = ''X'', el_IsComponent = True, el_Attrs = [], el_ScopeAttrs = [], el_static = None, el_context = None\<rparr> []"

lemma x_tag: "ToLower ''X'' = ''x''" by code_simp

text \<open>A component whose template includes itself is rendered for ever: no fuel is enough. Nothing in the
  walk counts the depth, so the program ends with an exhausted stack.\<close>

theorem self_including_never_returns:
  "\<not> x_forceLazy x \<Longrightarrow>
     render_nodes (demo_env (\<lambda>t. Some (demo_component [component_tag]))) n x (Chain False False) [component_tag] s = NoFuel"
proof (induction n arbitrary: x s)
  case 0
  then show ?case
    by (simp add: x_tag component_tag_def chain_step_def elementIfDirective_def elementElseIfDirective_def elementElseDirective_def findDirective_def
        element_shown_def elementIsSlot_def elementIsClientOnly_def demo_env_def demo_component_def render_component_def component_start_def
        component_lazy_def)
next
  case (Suc n)
  let ?E = "demo_env (\<lambda>t. Some (demo_component [component_tag]))"
  let ?c = "demo_component [component_tag]"
  have go: "render_nodes ?E n (component_context x [] ?c scope) (Chain False False) (c_Template ?c) s1 = NoFuel" for scope s1
    using Suc.IH [of "component_context x [] ?c scope" s1] by (simp add: component_context_def demo_component_def del: render_nodes.simps(2))
  have start: "component_start ?E x ?c p s = (instance_id ?E (c_Name ?c) (Suc (rs_instanceSeq s)) [], Some None, s\<lparr>rs_instanceSeq := Suc (rs_instanceSeq s)\<rparr>)" for p
    using Suc.prems by (simp add: component_start_def demo_component_def)
  have "render_component ?E (Suc n) x [] ?c p s (\<lambda>m x1 s1. render_nodes ?E m x1 (Chain False False) (c_Template ?c) s1) = NoFuel" for p
    using Suc.prems by (simp add: render_component_def start go demo_component_def [THEN arg_cong [where f = c_Client]] split: prod.split del: render_nodes.simps(2))
  then show ?case
    by (simp add: x_tag component_tag_def chain_step_def elementIfDirective_def elementElseIfDirective_def elementElseDirective_def findDirective_def
        element_shown_def elementIsSlot_def elementIsClientOnly_def demo_env_def)
qed

text \<open>An expression of a single quote panics: the quote is both the opening and the closing one.\<close>

theorem lone_quote_panics: "evalExpression pf [CHR 0x22] scope = Panics"
  by (subst evalExpression.simps) (simp add: TrimSpace_def trim_left_where_def trim_right_where_def is_space_def)

end
