(* ===== verification/WebTemplate.thy ===== *)
theory WebTemplate imports WebRender begin

text \<open>
  The parser of component files (\<^verbatim>\<open>web_components.go\<close>): tags and their attributes, the tree of a
  template, the blocks of a file and what \<^verbatim>\<open>ParseComponentFile\<close> makes of them. The parser's position
  is the rest of its source, so the positions in its messages are left out. A byte is a space when
  \<^verbatim>\<open>unicode.IsSpace\<close> says so of its value, which \<^verbatim>\<open>strings.TrimSpace\<close> only does for ASCII. Reading files,
  hashing, and the compiler of \<^verbatim>\<open>html/template\<close> are parameters.
\<close>

section \<open>Tags and attributes\<close>

definition space_byte :: "char \<Rightarrow> bool" where
  "space_byte c \<longleftrightarrow> is_space c \<or> c = CHR 0x85 \<or> c = CHR 0xA0"

definition quote_char :: "char \<Rightarrow> bool" where
  "quote_char c \<longleftrightarrow> c = CHR 0x27 \<or> c = CHR 0x22"

datatype template_error =
  UnclosedComment | UnclosedInterpolation | UnclosedDeclaration | UnclosedOpening | UnclosedClosing | EmptyTag | EmptyClosing
| InvalidAttribute | NoValue string | UnclosedQuote string | InTag string template_error
| Mismatch string string | Unclosed string | UnexpectedClosing string

text \<open>The index of the \<^verbatim>\<open>>\<close> that ends a tag; inside quotes a backslash skips the next byte.\<close>

fun findTagEnd :: "char option \<Rightarrow> string \<Rightarrow> nat option" where
  "findTagEnd q [] = None"
| "findTagEnd (Some q) [c] = None"
| "findTagEnd (Some q) (c # d # s) =
     (if c = CHR 0x5C then map_option (\<lambda>i. i + 2) (findTagEnd (Some q) s)
      else map_option Suc (findTagEnd (if c = q then None else Some q) (d # s)))"
| "findTagEnd None (c # s) =
     (if quote_char c then map_option Suc (findTagEnd (Some c) s)
      else if c = CHR ''>'' then Some 0 else map_option Suc (findTagEnd None s))"

definition splitTagName :: "string \<Rightarrow> string \<times> string" where
  "splitTagName raw = (takeWhile (\<lambda>c. \<not> space_byte c) raw, TrimSpace (dropWhile (\<lambda>c. \<not> space_byte c) raw))"

text \<open>The flags of an attribute follow from its name.\<close>

definition named_attr :: "string \<Rightarrow> string option \<Rightarrow> Attribute" where
  "named_attr name v =
     \<lparr>at_Name = name, at_Value = (case v of Some x \<Rightarrow> x | None \<Rightarrow> []),
      at_Dynamic = (HasPrefix name '':'' \<or> HasPrefix name ''v-bind:''),
      at_Event = (HasPrefix name ''@'' \<or> HasPrefix name ''v-on:''),
      at_Directive = (HasPrefix name '':'' \<or> HasPrefix name ''@'' \<or> HasPrefix name ''#'' \<or> HasPrefix name ''v-''),
      at_Boolean = (v = None)\<rparr>"

definition name_char :: "char \<Rightarrow> bool" where
  "name_char c \<longleftrightarrow> \<not> space_byte c \<and> c \<noteq> CHR ''=''"

definition skip_spaces :: "string \<Rightarrow> string" where
  "skip_spaces s = dropWhile space_byte s"

lemma skip_spaces_length: "length (skip_spaces s) \<le> length s"
  by (simp add: skip_spaces_def length_dropWhile_le)

text \<open>The value behind the equals sign, and what follows it.\<close>

definition attr_value :: "string \<Rightarrow> string \<Rightarrow> template_error + string \<times> string" where
  "attr_value name s =
     (case s of
        [] \<Rightarrow> Inl (NoValue name)
      | c # t \<Rightarrow>
          if quote_char c then
            (case dropWhile (\<lambda>d. d \<noteq> c) t of
               [] \<Rightarrow> Inl (UnclosedQuote name)
             | _ # r \<Rightarrow> Inr (takeWhile (\<lambda>d. d \<noteq> c) t, r))
          else Inr (takeWhile (\<lambda>d. \<not> space_byte d) s, dropWhile (\<lambda>d. \<not> space_byte d) s))"

lemma attr_value_length: "attr_value name s = Inr (v, r) \<Longrightarrow> length r \<le> length s"
proof -
  have "length (dropWhile P t) \<le> length t" for P and t :: string by (rule length_dropWhile_le)
  from this [of "\<lambda>d. d \<noteq> hd s" "tl s"] this [of "\<lambda>d. \<not> space_byte d" s] show "attr_value name s = Inr (v, r) \<Longrightarrow> length r \<le> length s"
    by (auto simp: attr_value_def split: list.splits if_splits)
qed

function parseTemplateAttributes :: "string \<Rightarrow> template_error + Attribute list" where
  "parseTemplateAttributes input =
     (let s = skip_spaces input
      in if s = [] then Inr []
         else let name = takeWhile name_char s; s2 = skip_spaces (dropWhile name_char s)
           in if name = [] then Inl InvalidAttribute
              else if s2 = [] \<or> hd s2 \<noteq> CHR ''='' then
                map_sum (\<lambda>e. e) (\<lambda>as. named_attr name None # as) (parseTemplateAttributes s2)
              else (case attr_value name (skip_spaces (tl s2)) of
                      Inl e \<Rightarrow> Inl e
                    | Inr (v, r) \<Rightarrow> map_sum (\<lambda>e. e) (\<lambda>as. named_attr name (Some v) # as) (parseTemplateAttributes r)))"
  by auto
termination
proof (relation "measure length", simp)
  fix input s :: string and name s2 :: string
  assume s: "s = skip_spaces input" "s \<noteq> []" and n: "name = takeWhile name_char s" "name \<noteq> []"
    and s2: "s2 = skip_spaces (dropWhile name_char s)"
  have "length name + length (dropWhile name_char s) = length s" using n by (metis length_append takeWhile_dropWhile_id)
  with n s2 skip_spaces_length [of "dropWhile name_char s"] have "length s2 < length s"
    by (metis add_lessD1 le_imp_less_Suc length_greater_0_conv less_add_same_cancel2 order_le_less_trans)
  with s skip_spaces_length [of input] have sh: "length s2 < length input" by simp
  then show "(s2, input) \<in> measure length" by simp
  fix e vr v r
  assume "attr_value name (skip_spaces (tl s2)) = Inr vr" "(v, r) = vr"
  with attr_value_length [of name "skip_spaces (tl s2)" v r] have "length r \<le> length (skip_spaces (tl s2))" by auto
  also have "\<dots> \<le> length (tl s2)" by (rule skip_spaces_length)
  also have "\<dots> \<le> length s2" by simp
  finally show "(r, input) \<in> measure length" using sh by simp
qed

declare parseTemplateAttributes.simps [simp del]

definition known_tags :: "string set" where
  "known_tags = set [''html'', ''head'', ''body'', ''title'', ''base'', ''link'', ''meta'', ''style'',
     ''article'', ''section'', ''nav'', ''aside'', ''h1'', ''h2'', ''h3'', ''h4'', ''h5'', ''h6'',
     ''header'', ''footer'', ''address'', ''main'', ''p'', ''hr'', ''pre'', ''blockquote'', ''ol'', ''ul'', ''menu'', ''li'',
     ''dl'', ''dt'', ''dd'', ''figure'', ''figcaption'', ''div'', ''a'', ''em'', ''strong'', ''small'', ''s'', ''cite'', ''q'',
     ''dfn'', ''abbr'', ''ruby'', ''rt'', ''rp'', ''data'', ''time'', ''code'', ''var'', ''samp'', ''kbd'', ''sub'', ''sup'',
     ''i'', ''b'', ''u'', ''mark'', ''bdi'', ''bdo'', ''span'', ''br'', ''wbr'', ''ins'', ''del'', ''picture'', ''source'',
     ''img'', ''iframe'', ''embed'', ''object'', ''video'', ''audio'', ''track'', ''map'', ''table'', ''caption'', ''colgroup'',
     ''col'', ''tbody'', ''thead'', ''tfoot'', ''tr'', ''td'', ''th'', ''form'', ''label'', ''input'', ''button'', ''select'',
     ''datalist'', ''optgroup'', ''option'', ''textarea'', ''output'', ''progress'', ''meter'', ''fieldset'', ''legend'',
     ''details'', ''summary'', ''dialog'', ''slot'', ''template'', ''canvas'', ''noscript'']"

definition isKnownHTMLTag :: "string \<Rightarrow> bool" where
  "isKnownHTMLTag tag \<longleftrightarrow> ToLower tag \<in> known_tags"

definition is_upper :: "char \<Rightarrow> bool" where
  "is_upper c \<longleftrightarrow> (let n = (of_char c :: nat) in 65 \<le> n \<and> n \<le> 90)"

definition isComponentTag :: "string \<Rightarrow> bool" where
  "isComponentTag tag \<longleftrightarrow>
     tag \<noteq> [] \<and> (is_upper (hd tag) \<or> (Contains tag ''-'' \<and> \<not> isKnownHTMLTag tag))"

definition sameTag :: "string \<Rightarrow> string \<Rightarrow> bool" where
  "sameTag a b \<longleftrightarrow> ToLower a = ToLower b"

section \<open>The tree of a template\<close>

definition parsed_element :: "string \<Rightarrow> Attribute list \<Rightarrow> elem_info" where
  "parsed_element tag attrs =
     \<lparr>el_Tag = tag, el_IsComponent = isComponentTag tag, el_Attrs = attrs, el_ScopeAttrs = [], el_static = None, el_context = None\<rparr>"

text \<open>An opening tag: the element, whether it has no content, and the rest of the source.\<close>

definition parseOpening :: "string \<Rightarrow> template_error + elem_info \<times> bool \<times> string" where
  "parseOpening s =
     (case findTagEnd None s of
        None \<Rightarrow> Inl UnclosedOpening
      | Some i \<Rightarrow>
          (let raw0 = TrimSpace (take (i - 1) (tl s));
               selfClosing = HasSuffix raw0 ''/'';
               raw = (if selfClosing then TrimSpace (TrimSuffix raw0 ''/'') else raw0);
               (tag, rest) = splitTagName raw
           in if tag = [] then Inl EmptyTag
              else (case parseTemplateAttributes rest of
                      Inl e \<Rightarrow> Inl (InTag tag e)
                    | Inr attrs \<Rightarrow> Inr (parsed_element tag attrs, selfClosing \<or> isVoidHTMLTag tag, drop (Suc i) s))))"

definition parseClosingTag :: "string \<Rightarrow> template_error + string \<times> string" where
  "parseClosingTag s =
     (case Index s ''>'' of
        None \<Rightarrow> Inl UnclosedClosing
      | Some i \<Rightarrow>
          (let raw = TrimSpace (drop 2 (take i s))
           in if raw = [] then Inl EmptyClosing else Inr (fst (splitTagName raw), drop (Suc i) s)))"

text \<open>Text up to the next tag or interpolation.\<close>

fun parseText :: "string \<Rightarrow> string \<times> string" where
  "parseText [] = ([], [])"
| "parseText (c # s) =
     (if c = CHR ''<'' \<or> HasPrefix (c # s) ''{{'' then ([], c # s)
      else case parseText s of (t, r) \<Rightarrow> (c # t, r))"

type_synonym parse_result = "(template_error + tnode list \<times> string \<times> string) option"

definition add_node :: "tnode \<Rightarrow> parse_result \<Rightarrow> parse_result" where
  "add_node node r = map_option (map_sum (\<lambda>e. e) (\<lambda>(nodes, closing, s). (node # nodes, closing, s))) r"

text \<open>\<open>parse_nodes n expected s\<close> with \<open>n\<close> calls left (\<open>None\<close> when they run out); the closing tag it
  stopped at and the rest of the source come with the nodes.\<close>

fun parse_nodes :: "nat \<Rightarrow> string \<Rightarrow> string \<Rightarrow> parse_result" where
  "parse_nodes 0 expected s = None"
| "parse_nodes (Suc n) expected s =
     (if s = [] then Some (if expected \<noteq> [] then Inl (Unclosed expected) else Inr ([], [], []))
      else if HasPrefix s ''<!--'' then
        (case Cut (drop 4 s) ''-->'' of
           None \<Rightarrow> Some (Inl UnclosedComment)
         | Some (t, r) \<Rightarrow> add_node (NComment t) (parse_nodes n expected r))
      else if HasPrefix s ''{{'' then
        (case Cut (drop 2 s) ''}}'' of
           None \<Rightarrow> Some (Inl UnclosedInterpolation)
         | Some (t, r) \<Rightarrow> add_node (NInterp (TrimSpace t)) (parse_nodes n expected r))
      else if HasPrefix s ''</'' then
        (case parseClosingTag s of
           Inl e \<Rightarrow> Some (Inl e)
         | Inr (closing, r) \<Rightarrow>
             if expected \<noteq> [] \<and> \<not> sameTag closing expected then Some (Inl (Mismatch expected closing))
             else Some (Inr ([], closing, r)))
      else if HasPrefix s ''<!'' then
        (case Cut s ''>'' of
           None \<Rightarrow> Some (Inl UnclosedDeclaration)
         | Some (t, r) \<Rightarrow> add_node (NText (t @ ''>'')) (parse_nodes n expected r))
      else if HasPrefix s ''<'' then
        (case parseOpening s of
           Inl e \<Rightarrow> Some (Inl e)
         | Inr (el, alone, r) \<Rightarrow>
             if alone then add_node (NElement el []) (parse_nodes n expected r)
             else (case parse_nodes n (el_Tag el) r of
                     Some (Inr (cs, _, r2)) \<Rightarrow> add_node (NElement el cs) (parse_nodes n expected r2)
                   | other \<Rightarrow> other))
      else (case parseText s of (t, r) \<Rightarrow> add_node (NText t) (parse_nodes n expected r)))"

declare parse_nodes.simps(2) [simp del]

definition Parse :: "string \<Rightarrow> template_error + tnode list" where
  "Parse source =
     (case parse_nodes (Suc (length source)) [] source of
        Some (Inr (nodes, closing, _)) \<Rightarrow> if closing \<noteq> [] then Inl (UnexpectedClosing closing) else Inr nodes
      | Some (Inl e) \<Rightarrow> Inl e
      | None \<Rightarrow> Inr [])"


section \<open>The parser always returns\<close>

lemma add_node_Some: "add_node node r = Some (Inr (ns, cl, rest)) \<longleftrightarrow> (\<exists>ms. ns = node # ms \<and> r = Some (Inr (ms, cl, rest)))"
  by (cases r; cases "the r") (auto simp: add_node_def)

lemma add_node_None [simp]: "add_node node r = None \<longleftrightarrow> r = None"
  by (simp add: add_node_def)

lemma Cut_length: "Cut s sep = Some (a, b) \<Longrightarrow> length b \<le> length s"
  by (drule Cut_Some) simp

lemma HasPrefix_length: "HasPrefix s p \<Longrightarrow> length p \<le> length s"
  by (auto simp: HasPrefix_iff)

lemma parseOpening_length: "parseOpening s = Inr (el, alone, r) \<Longrightarrow> s \<noteq> [] \<Longrightarrow> length r < length s"
  by (auto simp: parseOpening_def Let_def split: option.splits prod.splits sum.splits if_splits)

lemma parseClosingTag_length: "parseClosingTag s = Inr (cl, r) \<Longrightarrow> length r \<le> length s"
  by (auto simp: parseClosingTag_def Let_def split: option.splits if_splits)

lemma parseText_split: "parseText s = (t, r) \<Longrightarrow> s = t @ r"
  by (induction s arbitrary: t r) (auto split: if_splits prod.splits)

lemma parseText_progress: "s \<noteq> [] \<Longrightarrow> \<not> HasPrefix s ''<'' \<Longrightarrow> \<not> HasPrefix s ''{{'' \<Longrightarrow> parseText s = (t, r) \<Longrightarrow> length r < length s"
proof (cases s)
  case (Cons c u)
  assume "\<not> HasPrefix s ''<''" "\<not> HasPrefix s ''{{''" "parseText s = (t, r)"
  moreover obtain t' r' where "parseText u = (t', r')" by fastforce
  moreover from this have "u = t' @ r'" by (rule parseText_split)
  ultimately show ?thesis using Cons by (auto simp: HasPrefix_def)
qed simp

lemma next_token:
  obtains (k1) "s = []" | (k2) "HasPrefix s ''<!--''" | (k3) "\<not> HasPrefix s ''<!--''" "HasPrefix s ''{{''"
  | (k4) "\<not> HasPrefix s ''<!--''" "\<not> HasPrefix s ''{{''" "HasPrefix s ''</''"
  | (k5) "\<not> HasPrefix s ''<!--''" "\<not> HasPrefix s ''{{''" "\<not> HasPrefix s ''</''" "HasPrefix s ''<!''"
  | (k6) "s \<noteq> []" "\<not> HasPrefix s ''<!--''" "\<not> HasPrefix s ''{{''" "\<not> HasPrefix s ''</''" "\<not> HasPrefix s ''<!''" "HasPrefix s ''<''"
  | (k7) "s \<noteq> []" "\<not> HasPrefix s ''<!--''" "\<not> HasPrefix s ''{{''" "\<not> HasPrefix s ''</''" "\<not> HasPrefix s ''<!''" "\<not> HasPrefix s ''<''"
  by blast

lemma parse_nodes_rest: "parse_nodes n expected s = Some (Inr (ns, cl, r)) \<Longrightarrow> length r \<le> length s"
proof (induction n arbitrary: expected s ns cl r)
  case (Suc n)
  show ?case
  proof (cases rule: next_token [of s])
    case k1
    with Suc.prems show ?thesis by (auto simp: parse_nodes.simps(2) split: if_splits)
  next
    case k2
    then have "s \<noteq> []" by (auto simp: HasPrefix_def)
    with k2 Suc.prems obtain t q ms where "Cut (drop 4 s) ''-->'' = Some (t, q)" "parse_nodes n expected q = Some (Inr (ms, cl, r))"
      by (auto simp: parse_nodes.simps(2) add_node_Some split: option.splits)
    with Suc.IH Cut_length show ?thesis by fastforce
  next
    case k3
    then have "s \<noteq> []" by (auto simp: HasPrefix_def)
    with k3 Suc.prems obtain t q ms where "Cut (drop 2 s) ''}}'' = Some (t, q)" "parse_nodes n expected q = Some (Inr (ms, cl, r))"
      by (auto simp: parse_nodes.simps(2) add_node_Some split: option.splits)
    with Suc.IH Cut_length show ?thesis by fastforce
  next
    case k4
    then have "s \<noteq> []" by (auto simp: HasPrefix_def)
    with k4 Suc.prems show ?thesis
      by (auto simp: parse_nodes.simps(2) split: sum.splits if_splits dest: parseClosingTag_length)
  next
    case k5
    then have "s \<noteq> []" by (auto simp: HasPrefix_def)
    with k5 Suc.prems obtain t q ms where "Cut s ''>'' = Some (t, q)" "parse_nodes n expected q = Some (Inr (ms, cl, r))"
      by (auto simp: parse_nodes.simps(2) add_node_Some split: option.splits)
    with Suc.IH Cut_length show ?thesis by fastforce
  next
    case k6
    with Suc.prems obtain el alone q where o: "parseOpening s = Inr (el, alone, q)"
      by (auto simp: parse_nodes.simps(2) split: sum.splits)
    have q: "length q < length s" using parseOpening_length [OF o k6(1)] .
    show ?thesis
    proof (cases alone)
      case True
      with k6 o Suc.prems obtain ms where "parse_nodes n expected q = Some (Inr (ms, cl, r))"
        by (auto simp: parse_nodes.simps(2) add_node_Some)
      with Suc.IH q show ?thesis by fastforce
    next
      case False
      with k6 o Suc.prems obtain cs c2 r2 ms where
        "parse_nodes n (el_Tag el) q = Some (Inr (cs, c2, r2))" "parse_nodes n expected r2 = Some (Inr (ms, cl, r))"
        by (auto simp: parse_nodes.simps(2) add_node_Some split: option.splits sum.splits)
      with Suc.IH q show ?thesis by (meson le_trans less_imp_le)
    qed
  next
    case k7
    obtain t q where p: "parseText s = (t, q)" by fastforce
    with k7 Suc.prems obtain ms where "parse_nodes n expected q = Some (Inr (ms, cl, r))"
      by (auto simp: parse_nodes.simps(2) add_node_Some)
    with Suc.IH parseText_split [OF p] show ?thesis by fastforce
  qed
qed simp

lemma parse_nodes_total: "length s < n \<Longrightarrow> parse_nodes n expected s \<noteq> None"
proof (induction n arbitrary: expected s)
  case (Suc n)
  have IH: "parse_nodes n e q \<noteq> None" if "length q < length s" for e q using Suc that by simp
  show ?case
  proof (cases rule: next_token [of s])
    case k1
    then show ?thesis by (simp add: parse_nodes.simps(2))
  next
    case k2
    then have "s \<noteq> []" by (auto simp: HasPrefix_def)
    then have "length b < length s" if "Cut (drop 4 s) ''-->'' = Some (a, b)" for a b using Cut_length [OF that] by (cases s) auto
    with k2 IH \<open>s \<noteq> []\<close> show ?thesis by (auto simp: parse_nodes.simps(2) simp del: not_None_eq split: option.splits)
  next
    case k3
    then have "s \<noteq> []" by (auto simp: HasPrefix_def)
    then have "length b < length s" if "Cut (drop 2 s) ''}}'' = Some (a, b)" for a b using Cut_length [OF that] by (cases s) auto
    with k3 IH \<open>s \<noteq> []\<close> show ?thesis by (auto simp: parse_nodes.simps(2) simp del: not_None_eq split: option.splits)
  next
    case k4
    then have "s \<noteq> []" by (auto simp: HasPrefix_def)
    with k4 show ?thesis by (auto simp: parse_nodes.simps(2) split: sum.splits)
  next
    case k5
    then have "s \<noteq> []" by (auto simp: HasPrefix_def)
    moreover have "length b < length s" if "Cut s ''>'' = Some (a, b)" for a b using Cut_shorter [OF that] by simp
    ultimately show ?thesis using k5 IH by (auto simp: parse_nodes.simps(2) simp del: not_None_eq split: option.splits)
  next
    case k6
    show ?thesis
    proof (cases "parseOpening s")
      case (Inr o3)
      obtain el alone q where o: "parseOpening s = Inr (el, alone, q)" using Inr by (cases o3) auto
      have q: "length q < length s" using parseOpening_length [OF o k6(1)] .
      from IH [OF q] obtain r where r: "parse_nodes n (el_Tag el) q = Some r" by blast
      have "parse_nodes n expected r2 \<noteq> None" if "r = Inr (cs, c2, r2)" for cs c2 r2
        using parse_nodes_rest [of n "el_Tag el" q cs c2 r2] r that q IH [of r2 expected] by simp
      with r k6 o IH [OF q] show ?thesis by (auto simp: parse_nodes.simps(2) simp del: not_None_eq split: sum.splits)
    qed (use k6 in \<open>simp add: parse_nodes.simps(2)\<close>)
  next
    case k7
    obtain t q where p: "parseText s = (t, q)" by fastforce
    with k7 IH [of q] parseText_progress [OF k7(1) k7(6) k7(3) p] show ?thesis by (simp add: parse_nodes.simps(2))
  qed
qed simp

lemma parse_nodes_Suc: "parse_nodes n expected s = Some r \<Longrightarrow> parse_nodes (Suc n) expected s = Some r"
proof (induction n arbitrary: expected s r)
  case (Suc n)
  have IH: "parse_nodes (Suc n) e q = parse_nodes n e q" if "parse_nodes n e q \<noteq> None" for e q
    using that Suc.IH by fastforce
  have add: "add_node node (parse_nodes (Suc n) e q) = Some r'" if "add_node node (parse_nodes n e q) = Some r'" for e q node r'
    using IH [of e q] that by (auto simp: add_node_def)
  note eq = parse_nodes.simps(2) [of _ expected s]
  show ?case
  proof (cases rule: next_token [of s])
    case k1
    with Suc.prems show ?thesis by (simp add: parse_nodes.simps(2))
  next
    case k2
    then have "s \<noteq> []" by (auto simp: HasPrefix_def)
    with k2 Suc.prems show ?thesis
      by (subst eq; subst (asm) eq) (auto split: option.splits prod.splits intro: add)
  next
    case k3
    then have "s \<noteq> []" by (auto simp: HasPrefix_def)
    with k3 Suc.prems show ?thesis
      by (subst eq; subst (asm) eq) (auto split: option.splits prod.splits intro: add)
  next
    case k4
    then have "s \<noteq> []" by (auto simp: HasPrefix_def)
    with k4 Suc.prems show ?thesis by (subst eq; subst (asm) eq) (auto split: option.splits prod.splits)
  next
    case k5
    then have "s \<noteq> []" by (auto simp: HasPrefix_def)
    with k5 Suc.prems show ?thesis
      by (subst eq; subst (asm) eq) (auto split: option.splits prod.splits intro: add)
  next
    case k6
    show ?thesis
    proof (cases "parseOpening s")
      case (Inr o3)
      obtain el alone q where o: "parseOpening s = Inr (el, alone, q)" using Inr by (cases o3) auto
      show ?thesis
      proof (cases alone)
        case True
        with k6 o Suc.prems show ?thesis by (subst eq; subst (asm) eq) (auto intro: add)
      next
        case False
        then obtain r1 where r1: "parse_nodes n (el_Tag el) q = Some r1"
          using k6 o Suc.prems by (auto simp: eq split: option.splits)
        with IH [of "el_Tag el" q] have r2: "parse_nodes (Suc n) (el_Tag el) q = Some r1" by simp
        show ?thesis
        proof (cases r1)
          case (Inl e)
          with r1 r2 False k6 o Suc.prems show ?thesis by (auto simp: eq)
        next
          case (Inr c)
          obtain cs c2 q2 where "c = (cs, c2, q2)" by (cases c) auto
          with Inr r1 False k6 o Suc.prems have "add_node (NElement el cs) (parse_nodes n expected q2) = Some r" by (simp add: eq)
          from add [OF this] \<open>c = _\<close> Inr r2 False k6 o show ?thesis by (subst eq) simp
        qed
      qed
    qed (use k6 Suc.prems in \<open>simp add: eq\<close>)
  next
    case k7
    with Suc.prems show ?thesis by (subst eq; subst (asm) eq) (auto split: prod.splits intro: add)
  qed
qed simp

lemma parse_nodes_more: "parse_nodes n expected s = Some r \<Longrightarrow> n \<le> m \<Longrightarrow> parse_nodes m expected s = Some r"
  by (induction m) (auto simp: le_Suc_eq intro: parse_nodes_Suc)

lemma Parse_eq:
  assumes "parse_nodes n [] s = Some (Inr (ns, [], r))"
  shows "Parse s = Inr ns"
proof -
  from parse_nodes_total [of s "Suc (length s)" "[]"] obtain q where q: "parse_nodes (Suc (length s)) [] s = Some q" by auto
  from parse_nodes_more [OF assms, of "max n (Suc (length s))"] parse_nodes_more [OF q, of "max n (Suc (length s))"]
  have "q = Inr (ns, [], r)" by simp
  with q show ?thesis by (simp add: Parse_def)
qed


section \<open>Printing templates\<close>

text \<open>What the parser reads back: names of plain characters, values in double quotes without a quote or
  backslash, texts that end where the next node begins.\<close>

definition plain_char :: "char \<Rightarrow> bool" where
  "plain_char c \<longleftrightarrow> \<not> space_byte c \<and> \<not> quote_char c \<and> c \<notin> set ''<>/=!{''"

definition print_attr :: "Attribute \<Rightarrow> string" where
  "print_attr a = '' '' @ at_Name a @ (if at_Boolean a then [] else ''='' @ quoted (at_Value a))"

fun print_node :: "tnode \<Rightarrow> string" where
  "print_node (NText t) = t"
| "print_node (NInterp e) = ''{{ '' @ e @ '' }}''"
| "print_node (NComment t) = ''<!--'' @ t @ ''-->''"
| "print_node (NElement el cs) =
     ''<'' @ el_Tag el @ concat (map print_attr (el_Attrs el)) @ ''>'' @
     (if isVoidHTMLTag (el_Tag el) then [] else concat (map print_node cs) @ ''</'' @ el_Tag el @ ''>'')"

definition name_ok :: "string \<Rightarrow> bool" where
  "name_ok s \<longleftrightarrow> s \<noteq> [] \<and> list_all plain_char s"

definition attr_ok :: "Attribute \<Rightarrow> bool" where
  "attr_ok a \<longleftrightarrow> name_ok (at_Name a) \<and> a = named_attr (at_Name a) (if at_Boolean a then None else Some (at_Value a)) \<and>
     list_all (\<lambda>c. c \<noteq> CHR 0x22 \<and> c \<noteq> CHR 0x5C) (at_Value a)"

definition plain_text :: "string \<Rightarrow> bool" where
  "plain_text t \<longleftrightarrow> t \<noteq> [] \<and> CHR ''<'' \<notin> set t \<and> \<not> Contains t ''{{'' \<and> last t \<noteq> CHR ''{''"

definition markup_decl :: "string \<Rightarrow> bool" where
  "markup_decl t \<longleftrightarrow> HasPrefix t ''<!'' \<and> \<not> HasPrefix t ''<!--'' \<and> t \<noteq> [] \<and> last t = CHR ''>'' \<and> CHR ''>'' \<notin> set (butlast t)"

fun plain_node :: "tnode \<Rightarrow> bool" where
  "plain_node (NText t) \<longleftrightarrow> plain_text t"
| "plain_node n \<longleftrightarrow> False"

fun texts_apart :: "tnode list \<Rightarrow> bool" where
  "texts_apart (a # b # ns) \<longleftrightarrow> \<not> (plain_node a \<and> plain_node b) \<and> texts_apart (b # ns)"
| "texts_apart ns \<longleftrightarrow> True"

fun node_ok :: "tnode \<Rightarrow> bool" where
  "node_ok (NText t) \<longleftrightarrow> plain_text t \<or> markup_decl t"
| "node_ok (NInterp e) \<longleftrightarrow> TrimSpace e = e \<and> \<not> Contains e ''}}''"
| "node_ok (NComment t) \<longleftrightarrow> \<not> Contains t ''-->''"
| "node_ok (NElement el cs) \<longleftrightarrow>
     name_ok (el_Tag el) \<and> list_all attr_ok (el_Attrs el) \<and> el = parsed_element (el_Tag el) (el_Attrs el) \<and>
     (isVoidHTMLTag (el_Tag el) \<longrightarrow> cs = []) \<and> list_all node_ok cs \<and> texts_apart cs"

lemma plain_charD:
  "plain_char c \<Longrightarrow> \<not> is_space c" "plain_char c \<Longrightarrow> \<not> space_byte c" "plain_char c \<Longrightarrow> name_char c" "plain_char c \<Longrightarrow> \<not> quote_char c"
  "plain_char c \<Longrightarrow> c \<noteq> CHR ''>''" "plain_char c \<Longrightarrow> c \<noteq> CHR ''/''" "plain_char c \<Longrightarrow> c \<noteq> CHR ''!''" "plain_char c \<Longrightarrow> c \<noteq> CHR ''=''"
  by (auto simp: plain_char_def space_byte_def name_char_def)

lemma TrimSpace_iff: "TrimSpace s = s \<longleftrightarrow> s = [] \<or> \<not> is_space (hd s) \<and> \<not> is_space (last s)"
proof (cases s rule: rev_cases)
  case (snoc ys y)
  show ?thesis
  proof
    assume ts: "TrimSpace s = s"
    have len: "length (dropWhile is_space s) = length s"
      using arg_cong [OF ts, of length] length_dropWhile_le [of is_space s] length_dropWhile_le [of is_space "rev (dropWhile is_space s)"]
      by (simp add: TrimSpace_def trim_left_where_def trim_right_where_def)
    have hd: "\<not> is_space (hd s)"
    proof
      assume "is_space (hd s)"
      moreover have "s \<noteq> []" using snoc by simp
      ultimately have "dropWhile is_space s = dropWhile is_space (tl s)" by (cases s) auto
      with len length_dropWhile_le [of is_space "tl s"] snoc show False by simp
    qed
    moreover have "s \<noteq> []" using snoc by simp
    ultimately have "dropWhile is_space s = s" by (cases s) auto
    with ts have "rev (dropWhile is_space (y # rev ys)) = s" by (simp add: TrimSpace_def trim_left_where_def trim_right_where_def snoc)
    moreover have "length (dropWhile is_space (rev ys)) \<le> length ys" using length_dropWhile_le [of is_space "rev ys"] by simp
    ultimately have "\<not> is_space y" using snoc by (auto dest: arg_cong [where f = length])
    with hd snoc show "s = [] \<or> \<not> is_space (hd s) \<and> \<not> is_space (last s)" by simp
  next
    assume "s = [] \<or> \<not> is_space (hd s) \<and> \<not> is_space (last s)"
    then have h: "\<not> is_space (hd s)" "\<not> is_space y" using snoc by auto
    moreover have "s \<noteq> []" using snoc by simp
    ultimately have "dropWhile is_space s = s" by (cases s) auto
    with h snoc show "TrimSpace s = s" by (simp add: TrimSpace_def trim_left_where_def trim_right_where_def)
  qed
qed (simp add: TrimSpace_def trim_left_where_def trim_right_where_def)

lemma TrimSpace_around: "TrimSpace s = s \<Longrightarrow> TrimSpace ('' '' @ s @ '' '') = s"
proof -
  assume "TrimSpace s = s"
  then have s: "s = [] \<or> \<not> is_space (hd s) \<and> \<not> is_space (last s)" by (simp only: TrimSpace_iff)
  show ?thesis
  proof (cases s rule: rev_cases)
    case (snoc ys y)
    with s have h: "\<not> is_space (hd s)" "\<not> is_space y" by auto
    moreover have "s \<noteq> []" using snoc by simp
    ultimately have "dropWhile is_space (s @ '' '') = s @ '' ''" by (cases s) auto
    moreover have "is_space CHR '' ''" by (simp add: is_space_def)
    ultimately show ?thesis using h snoc by (simp add: TrimSpace_def trim_left_where_def trim_right_where_def)
  qed (simp add: TrimSpace_def trim_left_where_def trim_right_where_def is_space_def)
qed

lemma list_one: "length l = Suc 0 \<Longrightarrow> \<exists>a. l = [a]"
  by (cases l) auto

lemma list_two: "length l = 2 \<Longrightarrow> \<exists>a b. l = [a, b]"
  by (cases l; cases "tl l") auto

lemma Index_first: "(\<And>i. i < length t \<Longrightarrow> \<not> HasPrefix (drop i t @ p @ r) p) \<Longrightarrow> Index (t @ p @ r) p = Some (length t)"
proof (induction t)
  case Nil
  show ?case by (cases "p @ r") (auto simp del: append_eq_Cons_conv simp: HasPrefix_iff dest: sym)
next
  case (Cons c t)
  have "Index (t @ p @ r) p = Some (length t)" using Cons.IH Cons.prems [of "Suc _"] by simp
  with Cons.prems [of 0] show ?case by simp
qed

lemma Cut_first: "(\<And>i. i < length t \<Longrightarrow> \<not> HasPrefix (drop i t @ p @ r) p) \<Longrightarrow> Cut (t @ p @ r) p = Some (t, r)"
  by (simp add: Cut_def Index_first)

lemma drop_contains: "\<not> Contains t p \<Longrightarrow> i + length p \<le> length t \<Longrightarrow> \<not> HasPrefix (drop i t @ r) p"
  by (metis Contains_iff HasPrefix_append_left HasPrefix_iff append.assoc append_take_drop_id diff_le_mono2 le_diff_conv2
      length_drop add.commute add_leD1)

lemma Cut_comment: "\<not> Contains t ''-->'' \<Longrightarrow> Cut (t @ ''-->'' @ r) ''-->'' = Some (t, r)"
proof (rule Cut_first)
  fix i assume t: "\<not> Contains t ''-->''" "i < length t"
  consider "i + 3 \<le> length t" | "i + 2 = length t" | "i + 1 = length t" using t by linarith
  then show "\<not> HasPrefix (drop i t @ ''-->'' @ r) ''-->''"
  proof cases
    case 1
    with t show ?thesis using drop_contains [of t "''-->''" i] by simp
  next
    case 2
    then have "length t - i = 2" by arith
    with list_two [of "drop i t"] obtain a b where "drop i t = [a, b]" by auto
    then show ?thesis by (simp add: HasPrefix_def)
  next
    case 3
    then have "length t - i = Suc 0" by arith
    with list_one [of "drop i t"] obtain a where "drop i t = [a]" by auto
    then show ?thesis by (simp add: HasPrefix_def)
  qed
qed

lemma Cut_interp: "\<not> Contains e ''}}'' \<Longrightarrow> Cut ('' '' @ e @ '' }}'' @ r) ''}}'' = Some ('' '' @ e @ '' '', r)"
proof -
  assume e: "\<not> Contains e ''}}''"
  have "Cut (('' '' @ e @ '' '') @ ''}}'' @ r) ''}}'' = Some ('' '' @ e @ '' '', r)"
  proof (rule Cut_first)
    fix i assume i: "i < length ('' '' @ e @ '' '')"
    consider "i = 0" | j where "i = Suc j" "j + 2 \<le> length e" | j where "i = Suc j" "j + 1 = length e" | "i = Suc (length e)"
      using i by (cases i) (auto, linarith)
    then show "\<not> HasPrefix (drop i ('' '' @ e @ '' '') @ ''}}'' @ r) ''}}''"
    proof cases
      case 1
      then show ?thesis by (simp add: HasPrefix_def)
    next
      case 2
      with e drop_contains [of e "''}}''" j "'' '' @ ''}}'' @ r"] show ?thesis by simp
    next
      case 3
      then have "length e - j = Suc 0" by arith
      with list_one [of "drop j e"] obtain a where "drop j e = [a]" by auto
      moreover have "j - length e = 0" using 3(2) by arith
      ultimately have "drop (Suc j) ('' '' @ e @ '' '') = [a] @ '' ''" by simp
      with 3(1) show ?thesis by (simp add: HasPrefix_def)
    next
      case 4
      then show ?thesis by (simp add: HasPrefix_def)
    qed
  qed
  then show ?thesis by simp
qed

lemma Cut_char: "c \<notin> set t \<Longrightarrow> Cut (t @ c # r) [c] = Some (t, r)"
proof -
  assume "c \<notin> set t"
  then have "\<not> HasPrefix (drop i t @ [c] @ r) [c]" if "i < length t" for i
    using that in_set_dropD [of c i t] by (cases "drop i t") (auto simp: HasPrefix_def)
  from Cut_first [of t "[c]" r, OF this] show ?thesis by simp
qed


section \<open>Reading tags back\<close>

lemma findTagEnd_plain: "list_all plain_char u \<Longrightarrow> findTagEnd None (u @ s) = map_option (\<lambda>i. i + length u) (findTagEnd None s)"
  by (induction u) (auto simp: plain_charD option.map_comp comp_def option.map_ident)

lemma findTagEnd_inside:
  "list_all (\<lambda>c. c \<noteq> CHR 0x22 \<and> c \<noteq> CHR 0x5C) v \<Longrightarrow>
     findTagEnd (Some CHR 0x22) (v @ CHR 0x22 # d # s) = map_option (\<lambda>i. i + Suc (length v)) (findTagEnd None (d # s))"
proof (induction v)
  case (Cons c v)
  then show ?case by (cases v) (auto simp: option.map_comp comp_def)
qed simp

lemma findTagEnd_attr:
  assumes "attr_ok a"
  shows "findTagEnd None (print_attr a @ e # t) = map_option (\<lambda>i. i + length (print_attr a)) (findTagEnd None (e # t))"
proof -
  have n: "list_all plain_char (at_Name a)" and v: "list_all (\<lambda>c. c \<noteq> CHR 0x22 \<and> c \<noteq> CHR 0x5C) (at_Value a)"
    using assms by (auto simp: attr_ok_def name_ok_def)
  have "findTagEnd None (CHR ''='' # quoted (at_Value a) @ e # t) = map_option (\<lambda>i. i + length (CHR ''='' # quoted (at_Value a))) (findTagEnd None (e # t))"
    using findTagEnd_inside [OF v, of e t] by (simp add: quote_char_def option.map_comp comp_def)
  then show ?thesis
    by (cases "at_Boolean a") (simp_all add: print_attr_def findTagEnd_plain [OF n] quote_char_def option.map_comp comp_def add.assoc add.commute add.left_commute)
qed

lemma findTagEnd_attrs:
  "list_all attr_ok as \<Longrightarrow>
     findTagEnd None (concat (map print_attr as) @ d # s) = map_option (\<lambda>i. i + length (concat (map print_attr as))) (findTagEnd None (d # s))"
proof (induction "as")
  case (Cons a as)
  obtain e t where e: "concat (map print_attr as) @ d # s = e # t" by (cases "concat (map print_attr as)") auto
  from Cons have a: "attr_ok a" and IH: "findTagEnd None (e # t) = map_option (\<lambda>i. i + length (concat (map print_attr as))) (findTagEnd None (d # s))"
    by (simp_all add: e)
  have "findTagEnd None (concat (map print_attr (a # as)) @ d # s) = findTagEnd None (print_attr a @ e # t)"
    by (simp add: e)
  then show ?case using findTagEnd_attr [OF a] IH
    by (simp add: option.map_comp comp_def add.assoc add.commute add.left_commute del: findTagEnd.simps)
qed (simp add: option.map_ident)

lemma skip_spaces_twice [simp]: "skip_spaces (skip_spaces s) = skip_spaces s"
  by (simp add: skip_spaces_def dropWhile_idem)

lemma parse_attributes_skip: "parseTemplateAttributes (skip_spaces s) = parseTemplateAttributes s"
  by (subst (1 2) parseTemplateAttributes.simps) simp

lemma takeWhile_stop: "list_all P u \<Longrightarrow> s = [] \<or> \<not> P (hd s) \<Longrightarrow> takeWhile P (u @ s) = u \<and> dropWhile P (u @ s) = s"
  by (cases s) (auto simp: list_all_iff)

lemma space_char: "space_byte CHR '' ''" "is_space CHR '' ''" "\<not> name_char CHR '' ''" "\<not> name_char CHR ''=''" "\<not> space_byte CHR ''=''"
  "quote_char CHR 0x22" "\<not> space_byte CHR 0x22" "\<not> quote_char CHR '' ''"
  by (simp_all add: space_byte_def is_space_def name_char_def quote_char_def)

lemma attrs_start: "concat (map print_attr as) = [] \<or> hd (concat (map print_attr as)) = CHR '' ''"
  by (cases "as") (auto simp: print_attr_def)

lemma name_okD: "name_ok s \<Longrightarrow> s \<noteq> []" "name_ok s \<Longrightarrow> list_all plain_char s" "name_ok s \<Longrightarrow> plain_char (hd s)" "name_ok s \<Longrightarrow> plain_char (last s)"
  by (cases s) (auto simp: name_ok_def list_all_iff)

lemma skip_name: "name_ok n \<Longrightarrow> skip_spaces (n @ s) = n @ s"
  by (cases n) (auto simp: name_ok_def skip_spaces_def plain_charD)

text \<open>After the printed attributes the next thing is the end or another attribute's name.\<close>

lemma skip_attrs: "list_all attr_ok as \<Longrightarrow> skip_spaces (concat (map print_attr as)) = [] \<or> plain_char (hd (skip_spaces (concat (map print_attr as))))"
proof (cases "as")
  case (Cons a bs)
  assume "list_all attr_ok as"
  with Cons have n: "name_ok (at_Name a)" by (simp add: attr_ok_def)
  then have "skip_spaces (concat (map print_attr as)) = at_Name a @ drop (Suc (length (at_Name a))) (concat (map print_attr as))"
    using skip_name [OF n] Cons by (simp add: print_attr_def skip_spaces_def space_char)
  with name_okD [OF n] show ?thesis by simp
qed (simp add: skip_spaces_def)

lemma parse_printed_attrs: "list_all attr_ok as \<Longrightarrow> parseTemplateAttributes (concat (map print_attr as)) = Inr as"
proof (induction "as")
  case Nil
  show ?case by (subst parseTemplateAttributes.simps) (simp add: skip_spaces_def)
next
  case (Cons a as)
  let ?rest = "concat (map print_attr as)"
  have n: "name_ok (at_Name a)" and v: "list_all (\<lambda>c. c \<noteq> CHR 0x22 \<and> c \<noteq> CHR 0x5C) (at_Value a)"
    and a: "a = named_attr (at_Name a) (if at_Boolean a then None else Some (at_Value a))"
    using Cons.prems by (simp_all add: attr_ok_def)
  have as: "list_all attr_ok as" using Cons.prems by simp
  have nc: "list_all name_char (at_Name a)" using name_okD(2) [OF n] by (auto simp: list_all_iff plain_charD)
  have IH: "parseTemplateAttributes ?rest = Inr as" using Cons.IH as by simp
  show ?case
  proof (cases "at_Boolean a")
    case True
    have s: "skip_spaces (concat (map print_attr (a # as))) = at_Name a @ ?rest"
      using True skip_name [OF n] by (simp add: print_attr_def skip_spaces_def space_char)
    have t: "takeWhile name_char (at_Name a @ ?rest) = at_Name a" "dropWhile name_char (at_Name a @ ?rest) = ?rest"
      using takeWhile_stop [OF nc, of ?rest] attrs_start [of "as"] space_char by auto
    have h: "skip_spaces ?rest = [] \<or> hd (skip_spaces ?rest) \<noteq> CHR ''=''"
      using skip_attrs [OF as] plain_charD(8) by auto
    show ?thesis
      using True a IH name_okD(1) [OF n] h parse_attributes_skip [of ?rest]
      by (subst parseTemplateAttributes.simps) (simp only: s t Let_def, simp)
  next
    case False
    let ?val = "quoted (at_Value a) @ ?rest"
    have s: "skip_spaces (concat (map print_attr (a # as))) = at_Name a @ CHR ''='' # ?val"
      using False skip_name [OF n] by (simp add: print_attr_def skip_spaces_def space_char)
    have t: "takeWhile name_char (at_Name a @ CHR ''='' # ?val) = at_Name a" "dropWhile name_char (at_Name a @ CHR ''='' # ?val) = CHR ''='' # ?val"
      using takeWhile_stop [OF nc, of "CHR ''='' # ?val"] space_char by auto
    have q: "skip_spaces (CHR ''='' # ?val) = CHR ''='' # ?val" "skip_spaces ?val = ?val" by (simp_all add: skip_spaces_def space_char)
    have w: "takeWhile (\<lambda>d. d \<noteq> CHR 0x22) (at_Value a @ CHR 0x22 # ?rest) = at_Value a" "dropWhile (\<lambda>d. d \<noteq> CHR 0x22) (at_Value a @ CHR 0x22 # ?rest) = CHR 0x22 # ?rest"
      using takeWhile_stop [of "\<lambda>d. d \<noteq> CHR 0x22" "at_Value a" "CHR 0x22 # ?rest"] v by (auto simp: list_all_iff)
    have av: "attr_value (at_Name a) ?val = Inr (at_Value a, ?rest)"
      using w by (simp add: attr_value_def space_char)
    show ?thesis
      using False a IH name_okD(1) [OF n] av
      by (subst parseTemplateAttributes.simps) (simp only: s t q Let_def, simp add: q [simplified])
  qed
qed


lemma attrs_last: "list_all attr_ok as \<Longrightarrow> as \<noteq> [] \<Longrightarrow> \<not> is_space (last (concat (map print_attr as))) \<and> last (concat (map print_attr as)) \<noteq> CHR ''/''"
proof (induction "as" rule: rev_induct)
  case (snoc a as)
  then have n: "name_ok (at_Name a)" by (simp add: attr_ok_def)
  have "\<not> is_space CHR 0x22" by (simp add: is_space_def)
  with name_okD(1) [OF n] plain_charD(1,6) [OF name_okD(4) [OF n]] show ?case
    by (cases "at_Boolean a") (auto simp: print_attr_def)
qed simp

lemma TrimSpace_attrs: "list_all attr_ok as \<Longrightarrow> parseTemplateAttributes (TrimSpace (concat (map print_attr as))) = Inr as"
proof (cases "as")
  case Nil
  then show ?thesis using parse_printed_attrs [of "[]"] by (simp add: TrimSpace_def trim_left_where_def trim_right_where_def)
next
  case (Cons a bs)
  assume ok: "list_all attr_ok as"
  let ?A = "concat (map print_attr as)" and ?B = "tl (concat (map print_attr as))"
  from ok Cons have n: "name_ok (at_Name a)" by (simp add: attr_ok_def)
  have A: "?A = CHR '' '' # ?B" "?B \<noteq> []" "plain_char (hd ?B)" "skip_spaces ?B = ?B"
    using Cons name_okD [OF n] skip_name [OF n] by (simp_all add: print_attr_def)
  have "TrimSpace ?A = TrimSpace ?B" using A(1) by (metis TrimSpace_def dropWhile.simps(2) space_char(2) trim_left_where_def)
  also have "\<dots> = ?B"
    using A attrs_last [OF ok] Cons plain_charD(1) by (subst TrimSpace_iff) (metis last_ConsR list.distinct(1))
  also have "\<dots> = skip_spaces ?A" using A by (metis dropWhile.simps(2) skip_spaces_def space_char(1))
  finally show ?thesis using parse_printed_attrs [OF ok] by (simp add: parse_attributes_skip)
qed

lemma HasSuffix_slash: "s \<noteq> [] \<Longrightarrow> last s \<noteq> CHR ''/'' \<Longrightarrow> \<not> HasSuffix s ''/''"
  by (auto simp: HasSuffix_iff)

lemma parse_printed_opening:
  assumes tag: "name_ok tag" and attrs: "list_all attr_ok as"
  shows "parseOpening (''<'' @ tag @ concat (map print_attr as) @ ''>'' @ r) = Inr (parsed_element tag as, isVoidHTMLTag tag, r)"
proof -
  let ?A = "concat (map print_attr as)" and ?s = "''<'' @ tag @ concat (map print_attr as) @ ''>'' @ r"
  have "findTagEnd None ?s = map_option (\<lambda>i. i + length (''<'' @ tag)) (findTagEnd None (?A @ CHR ''>'' # r))"
    using findTagEnd_plain [OF name_okD(2) [OF tag], of "?A @ CHR ''>'' # r"]
    by (simp add: quote_char_def option.map_comp comp_def)
  then have e: "findTagEnd None ?s = Some (Suc (length (tag @ ?A)))"
    using findTagEnd_attrs [OF attrs, of "CHR ''>''" r] by (simp add: quote_char_def)
  have l: "\<not> is_space (last (tag @ ?A)) \<and> last (tag @ ?A) \<noteq> CHR ''/''"
  proof (cases "as")
    case Nil
    then show ?thesis using name_okD(4) [OF tag] by (simp add: plain_charD)
  next
    case (Cons a bs)
    then have "?A \<noteq> []" by (simp add: print_attr_def)
    then show ?thesis using attrs_last [OF attrs] Cons by simp
  qed
  have raw: "TrimSpace (tag @ ?A) = tag @ ?A"
    using l name_okD [OF tag] by (subst TrimSpace_iff) (simp add: plain_charD)
  have "list_all (\<lambda>c. \<not> space_byte c) tag" using name_okD(2) [OF tag] by (auto simp: list_all_iff plain_charD)
  moreover have "?A = [] \<or> space_byte (hd ?A)" using attrs_start [of "as"] space_char(1) by auto
  ultimately have "splitTagName (tag @ ?A) = (tag, TrimSpace ?A)"
    using takeWhile_stop [of "\<lambda>c. \<not> space_byte c" tag ?A] by (simp add: splitTagName_def)
  moreover have "\<not> HasSuffix (tag @ ?A) ''/''" using l name_okD(1) [OF tag] by (intro HasSuffix_slash) auto
  ultimately show ?thesis
    using e raw name_okD(1) [OF tag] TrimSpace_attrs [OF attrs] by (simp add: parseOpening_def Let_def)
qed

lemma Index_char: "c \<notin> set t \<Longrightarrow> Index (t @ c # r) [c] = Some (length t)"
  by (induction t) (auto simp: HasPrefix_def)

lemma parse_printed_closing:
  assumes tag: "name_ok tag"
  shows "parseClosingTag (''</'' @ tag @ ''>'' @ r) = Inr (tag, r)"
proof -
  have "CHR ''>'' \<notin> set (''</'' @ tag)" using name_okD(2) [OF tag] plain_charD(5) by (auto simp: list_all_iff)
  from Index_char [OF this, of r] have "Index (''</'' @ tag @ ''>'' @ r) ''>'' = Some (length (''</'' @ tag))" by simp
  moreover have "TrimSpace tag = tag" using name_okD [OF tag] by (subst TrimSpace_iff) (simp add: plain_charD)
  moreover have "list_all (\<lambda>c. \<not> space_byte c) tag" using name_okD(2) [OF tag] by (auto simp: list_all_iff plain_charD)
  then have "fst (splitTagName tag) = tag" by (simp add: splitTagName_def list_all_iff)
  ultimately show ?thesis using name_okD(1) [OF tag] by (simp add: parseClosingTag_def Let_def)
qed


section \<open>Parsing what was printed\<close>

definition stops :: "string \<Rightarrow> bool" where
  "stops s \<longleftrightarrow> s = [] \<or> HasPrefix s ''<'' \<or> HasPrefix s ''{{''"

lemma open_brace:
  "t \<noteq> [] \<Longrightarrow> \<not> Contains t ''{{'' \<Longrightarrow> last t \<noteq> CHR ''{'' \<Longrightarrow> \<not> HasPrefix (t @ s) ''{{''"
  by (cases t; cases "tl t") (auto simp: HasPrefix_def)

lemma parseText_printed:
  "CHR ''<'' \<notin> set t \<Longrightarrow> \<not> Contains t ''{{'' \<Longrightarrow> t = [] \<or> last t \<noteq> CHR ''{'' \<Longrightarrow> stops s \<Longrightarrow> parseText (t @ s) = (t, s)"
proof (induction t)
  case Nil
  then show ?case by (cases s) (auto simp: stops_def HasPrefix_def)
next
  case (Cons c t)
  have "\<not> HasPrefix (c # t @ s) ''{{''" using open_brace [of "c # t" s] Cons.prems by simp
  with Cons show ?case by (auto split: if_splits)
qed

lemma less_prefix: "HasPrefix s ''<!--'' \<Longrightarrow> HasPrefix s ''<''" "HasPrefix s ''</'' \<Longrightarrow> HasPrefix s ''<''" "HasPrefix s ''<!'' \<Longrightarrow> HasPrefix s ''<''"
  by (auto simp: HasPrefix_iff)

lemma starts_stop: "node_ok node \<Longrightarrow> \<not> plain_node node \<Longrightarrow> stops (print_node node @ s)"
  by (cases node) (auto simp: stops_def markup_decl_def HasPrefix_iff)

lemma printed_nonempty: "node_ok node \<Longrightarrow> print_node node \<noteq> []"
  by (cases node) (auto simp: plain_text_def markup_decl_def)

lemma printed_text_step:
  assumes "plain_text t" "stops s"
  shows "parse_nodes (Suc n) e (t @ s) = add_node (NText t) (parse_nodes n e s)"
proof -
  from assms(1) have "\<not> HasPrefix (t @ s) ''<''" by (cases t) (auto simp: plain_text_def HasPrefix_def)
  moreover have "\<not> HasPrefix (t @ s) ''{{''" using assms(1) open_brace by (auto simp: plain_text_def)
  moreover have "parseText (t @ s) = (t, s)" using assms parseText_printed by (simp add: plain_text_def)
  moreover have "t @ s \<noteq> []" using assms(1) by (simp add: plain_text_def)
  ultimately show ?thesis using less_prefix [of "t @ s"] by (auto simp: parse_nodes.simps(2))
qed

lemma printed_decl_step:
  assumes "markup_decl t"
  shows "parse_nodes (Suc n) e (t @ s) = add_node (NText t) (parse_nodes n e s)"
proof -
  from assms obtain u where u: "t = ''<!'' @ u" "u \<noteq> []" "last u = CHR ''>''" "CHR ''>'' \<notin> set (butlast t)" "\<not> HasPrefix t ''<!--''"
    by (auto simp: markup_decl_def HasPrefix_iff split: if_splits)
  have "\<not> HasPrefix (u @ s) ''--''"
  proof (cases u; cases "tl u")
    fix a l assume "u = a # l" "tl u = []"
    with u(3) show ?thesis by (simp add: HasPrefix_def)
  next
    fix a l b l' assume "u = a # l" "tl u = b # l'"
    with u(1,5) show ?thesis by (auto simp: HasPrefix_def)
  qed (use u in auto)
  then have "\<not> HasPrefix (t @ s) ''<!--''" using u(1) by (auto simp: HasPrefix_def)
  moreover have "HasPrefix (t @ s) ''<!''" "\<not> HasPrefix (t @ s) ''</''" "\<not> HasPrefix (t @ s) ''{{''" "t @ s \<noteq> []"
    using u(1) by (simp_all add: HasPrefix_def)
  moreover have e: "butlast t @ ''>'' = t" using u(1-3) append_butlast_last_id [of u] by auto
  moreover have "Cut (t @ s) ''>'' = Some (butlast t, s)" using Cut_char [OF u(4), of s] e by (metis append.assoc append_Cons append_Nil)
  ultimately show ?thesis by (simp add: parse_nodes.simps(2) del: append_is_Nil_conv)
qed

lemma printed_interp_step:
  "node_ok (NInterp t) \<Longrightarrow> parse_nodes (Suc n) e (print_node (NInterp t) @ s) = add_node (NInterp t) (parse_nodes n e s)"
  using Cut_interp [of t s] TrimSpace_around [of t] by (simp add: parse_nodes.simps(2) HasPrefix_def)

lemma printed_comment_step:
  "node_ok (NComment t) \<Longrightarrow> parse_nodes (Suc n) e (print_node (NComment t) @ s) = add_node (NComment t) (parse_nodes n e s)"
  using Cut_comment [of t s] by (simp add: parse_nodes.simps(2) HasPrefix_def)

lemma printed_closing_step: "name_ok tag \<Longrightarrow> parse_nodes (Suc n) tag (''</'' @ tag @ ''>'' @ s) = Some (Inr ([], tag, s))"
  using parse_printed_closing [of tag s] by (simp add: parse_nodes.simps(2) HasPrefix_def sameTag_def)

lemma printed_opening_step:
  assumes "name_ok (el_Tag el)" "list_all attr_ok (el_Attrs el)" "el = parsed_element (el_Tag el) (el_Attrs el)"
  shows "parse_nodes (Suc n) e (''<'' @ el_Tag el @ concat (map print_attr (el_Attrs el)) @ ''>'' @ s) =
    (if isVoidHTMLTag (el_Tag el) then add_node (NElement el []) (parse_nodes n e s)
     else case parse_nodes n (el_Tag el) s of
            Some (Inr (cs, _, r2)) \<Rightarrow> add_node (NElement el cs) (parse_nodes n e r2) | other \<Rightarrow> other)"
proof -
  obtain c tag where t: "el_Tag el = c # tag" "plain_char c" using name_okD [OF assms(1)] by (cases "el_Tag el") auto
  let ?s = "''<'' @ el_Tag el @ concat (map print_attr (el_Attrs el)) @ ''>'' @ s"
  have "\<not> HasPrefix ?s ''</''" "\<not> HasPrefix ?s ''<!''" "\<not> HasPrefix ?s ''<!--''" "\<not> HasPrefix ?s ''{{''" "HasPrefix ?s ''<''"
    using t plain_charD(6,7) [OF t(2)] by (auto simp: HasPrefix_def)
  moreover have "parseOpening ?s = Inr (el, isVoidHTMLTag (el_Tag el), s)"
    using parse_printed_opening [OF assms(1,2), of s] assms(3) by simp
  ultimately show ?thesis by (subst parse_nodes.simps(2)) simp
qed

text \<open>A node at the head of what is left.\<close>

lemma parse_printed_node:
  shows "node_ok node \<Longrightarrow> (plain_node node \<Longrightarrow> stops s) \<Longrightarrow> parse_nodes n e s = Some (Inr (ns, cl, r)) \<Longrightarrow>
     \<exists>m. parse_nodes m e (print_node node @ s) = Some (Inr (node # ns, cl, r))"
proof (induction node arbitrary: s n e ns cl r)
  case (NText t)
  then show ?case
    using printed_text_step [of t s n e] printed_decl_step [of t n e s]
    by (intro exI [of _ "Suc n"]) (auto simp: add_node_def)
next
  case (NInterp t)
  then show ?case
    using printed_interp_step [of t n e s] by (intro exI [of _ "Suc n"]) (simp add: add_node_def del: print_node.simps)
next
  case (NComment t)
  then show ?case
    using printed_comment_step [of t n e s] by (intro exI [of _ "Suc n"]) (simp add: add_node_def del: print_node.simps)
next
  case (NElement el cs)
  let ?tag = "el_Tag el"
  from NElement.prems(1) have ok: "name_ok ?tag" "list_all attr_ok (el_Attrs el)" "el = parsed_element ?tag (el_Attrs el)" by auto
  show ?case
  proof (cases "isVoidHTMLTag ?tag")
    case True
    with NElement.prems(1) have "cs = []" by simp
    with True NElement.prems(3) printed_opening_step [OF ok, of n e s] show ?thesis
      by (intro exI [of _ "Suc n"]) (simp add: add_node_def)
  next
    case False
    let ?tail = "''</'' @ ?tag @ ''>'' @ s"
    have "\<exists>m. parse_nodes m ?tag (concat (map print_node ds) @ ?tail) = Some (Inr (ds, ?tag, s))"
      if "set ds \<subseteq> set cs" "list_all node_ok ds" "texts_apart ds" for ds
      using that
    proof (induction ds)
      case Nil
      show ?case using printed_closing_step [OF ok(1), of 0 s] by (intro exI [of _ "Suc 0"]) simp
    next
      case (Cons d ds)
      have "texts_apart ds" using Cons.prems(3) by (cases ds) auto
      with Cons obtain m where m: "parse_nodes m ?tag (concat (map print_node ds) @ ?tail) = Some (Inr (ds, ?tag, s))" by auto
      have "stops (concat (map print_node ds) @ ?tail)" if "plain_node d"
      proof (cases ds)
        case Nil
        then show ?thesis by (simp add: stops_def HasPrefix_def)
      next
        case (Cons d' ds')
        with that Cons.prems have "node_ok d'" "\<not> plain_node d'" by auto
        from starts_stop [OF this] Cons show ?thesis by simp
      qed
      from NElement.IH [OF _ _ this m] Cons.prems show ?case by auto
    qed
    from this [of cs] NElement.prems(1) obtain m where
      m: "parse_nodes m ?tag (concat (map print_node cs) @ ?tail) = Some (Inr (cs, ?tag, s))" by auto
    let ?k = "max m n"
    have "parse_nodes ?k ?tag (concat (map print_node cs) @ ?tail) = Some (Inr (cs, ?tag, s))" "parse_nodes ?k e s = Some (Inr (ns, cl, r))"
      using parse_nodes_more [OF m, of ?k] parse_nodes_more [OF NElement.prems(3), of ?k] by auto
    then show ?thesis
      using False printed_opening_step [OF ok, of ?k e "concat (map print_node cs) @ ?tail"]
      by (intro exI [of _ "Suc ?k"]) (simp add: add_node_def)
  qed
qed

text \<open>C34: The parser reads back every template that can be written down: for a tree of elements, components,
  texts, declarations, comments and interpolations whose names, values and texts contain nothing that
  ends them early, parsing what it prints to gives the tree again, with the flags of the
  attributes and the kinds of the elements set.\<close>

theorem template_roundtrip:
  assumes "list_all node_ok nodes" and "texts_apart nodes"
  shows "Parse (concat (map print_node nodes)) = Inr nodes"
proof -
  have "\<exists>m. parse_nodes m [] (concat (map print_node ds)) = Some (Inr (ds, [], []))" if "list_all node_ok ds" "texts_apart ds" for ds
    using that
  proof (induction ds)
    case Nil
    show ?case by (intro exI [of _ "Suc 0"]) (simp add: parse_nodes.simps(2))
  next
    case (Cons d ds)
    have "texts_apart ds" using Cons.prems(2) by (cases ds) auto
    with Cons obtain m where m: "parse_nodes m [] (concat (map print_node ds)) = Some (Inr (ds, [], []))" by auto
    have "stops (concat (map print_node ds))" if "plain_node d"
    proof (cases ds)
      case Nil
      then show ?thesis by (simp add: stops_def)
    next
      case (Cons d' ds')
      with that Cons.prems have "node_ok d'" "\<not> plain_node d'" by auto
      from starts_stop [OF this] Cons show ?thesis by simp
    qed
    from parse_printed_node [OF _ this m] Cons.prems show ?case by simp
  qed
  with assms obtain m where "parse_nodes m [] (concat (map print_node nodes)) = Some (Inr (nodes, [], []))" by blast
  then show ?thesis by (rule Parse_eq)
qed


definition demo_nodes :: "tnode list" where
  "demo_nodes =
     [NText ''<!doctype html>'',
      NElement (parsed_element ''main'' [named_attr ''class'' (Some ''a > b''), named_attr ''hidden'' None])
        [NText ''hi '', NInterp ''user.name'', NComment '' note '',
         NElement (parsed_element ''UserCard'' [named_attr '':title'' (Some ''t''), named_attr ''@click'' (Some ''go'')]) [],
         NElement (parsed_element ''br'' []) []]]"

lemma parsed_element_fields [simp]: "el_Tag (parsed_element tag as) = tag" "el_Attrs (parsed_element tag as) = as"
  "el_ScopeAttrs (parsed_element tag as) = []" "el_static (parsed_element tag as) = None" "el_context (parsed_element tag as) = None"
  by (simp_all add: parsed_element_def)

theorem template_roundtrip_witness:
  "Parse (concat (map print_node demo_nodes)) = Inr demo_nodes \<and>
   concat (map print_node demo_nodes) =
     ''<!doctype html><main class='' @ quoted ''a > b'' @ '' hidden>hi {{ user.name }}<!-- note --><UserCard :title='' @ quoted ''t'' @
     '' @click='' @ quoted ''go'' @ ''></UserCard><br></main>''"
proof -
  have parts: "markup_decl ''<!doctype html>''" "name_ok ''main'' \<and> name_ok ''UserCard'' \<and> name_ok ''br''" "isVoidHTMLTag ''br'' \<and> \<not> isVoidHTMLTag ''main'' \<and> \<not> isVoidHTMLTag ''UserCard''"
    "list_all attr_ok [named_attr ''class'' (Some ''a > b''), named_attr ''hidden'' None, named_attr '':title'' (Some ''t''), named_attr ''@click'' (Some ''go'')]"
    "plain_text ''hi ''" "TrimSpace ''user.name'' = ''user.name''" "\<not> Contains ''user.name'' ''}}''" "\<not> Contains '' note '' ''-->''"
    by code_simp+
  have "list_all node_ok demo_nodes" unfolding demo_nodes_def using parts by simp
  moreover have "texts_apart demo_nodes" by (simp add: demo_nodes_def)
  moreover have "concat (map print_node demo_nodes) =
     ''<!doctype html><main class='' @ quoted ''a > b'' @ '' hidden>hi {{ user.name }}<!-- note --><UserCard :title='' @ quoted ''t'' @
     '' @click='' @ quoted ''go'' @ ''></UserCard><br></main>''" by code_simp
  ultimately show ?thesis using template_roundtrip [of demo_nodes] by blast
qed

text \<open>\<^verbatim>\<open>findTagEnd\<close> skips the byte after a backslash in a value, \<^verbatim>\<open>parseTemplateAttributes\<close> does not: a value
  that ends in a backslash hides the end of its tag.\<close>

theorem backslash_hides_tag_end:
  "parseTemplateAttributes (''title='' @ quoted [CHR 0x5C]) = Inr [named_attr ''title'' (Some [CHR 0x5C])] \<and>
   (case Parse (''<p title='' @ quoted [CHR 0x5C] @ ''>hi</p>'') of Inl e \<Rightarrow> e = UnclosedOpening | Inr ns \<Rightarrow> False)"
  by code_simp

text \<open>A value without quotes ends at the byte 0xA0, which is part of characters like the accented a.\<close>

theorem unquoted_value_cut:
  "parseTemplateAttributes (''title='' @ [CHR 0xC3, CHR 0xA0] @ ''z'') =
     Inr [named_attr ''title'' (Some [CHR 0xC3]), named_attr ''z'' None]"
  by code_simp

section \<open>What parsed nodes are like\<close>

fun pristine :: "tnode \<Rightarrow> bool" where
  "pristine (NElement el cs) \<longleftrightarrow> el = parsed_element (el_Tag el) (el_Attrs el) \<and> list_all pristine cs"
| "pristine n \<longleftrightarrow> True"

lemma parseOpening_pristine: "parseOpening s = Inr (el, alone, r) \<Longrightarrow> el = parsed_element (el_Tag el) (el_Attrs el)"
  by (auto simp: parseOpening_def Let_def parsed_element_def split: option.splits prod.splits sum.splits if_splits)

lemma parse_nodes_pristine: "parse_nodes n e s = Some (Inr (ns, cl, r)) \<Longrightarrow> list_all pristine ns"
proof (induction n arbitrary: e s ns cl r)
  case (Suc n)
  have add: "list_all pristine ns" if "add_node node (parse_nodes n e' q) = Some (Inr (ns, cl, r))" "pristine node" for e' q node
    using Suc.IH that by (auto simp: add_node_Some)
  note eq = parse_nodes.simps(2)
  show ?case
  proof (cases rule: next_token [of s])
    case k6
    with Suc.prems obtain el alone q where o: "parseOpening s = Inr (el, alone, q)" by (auto simp: eq split: sum.splits)
    show ?thesis
    proof (cases alone)
      case True
      with k6 o Suc.prems parseOpening_pristine [OF o] show ?thesis by (auto simp: eq intro: add)
    next
      case False
      with k6 o Suc.prems obtain cs c2 q2 where
        "parse_nodes n (el_Tag el) q = Some (Inr (cs, c2, q2))" "add_node (NElement el cs) (parse_nodes n e q2) = Some (Inr (ns, cl, r))"
        by (auto simp: eq split: option.splits sum.splits)
      with parseOpening_pristine [OF o] Suc.IH add show ?thesis by simp
    qed
  next
    case k1
    with Suc.prems show ?thesis by (simp add: eq split: if_splits)
  next
    case k2
    then have "s \<noteq> []" by (auto simp: HasPrefix_def)
    with k2 Suc.prems show ?thesis by (simp add: eq split: option.splits prod.splits) (rule add, auto)
  next
    case k3
    then have "s \<noteq> []" by (auto simp: HasPrefix_def)
    with k3 Suc.prems show ?thesis by (simp add: eq split: option.splits prod.splits) (rule add, auto)
  next
    case k4
    then have "s \<noteq> []" by (auto simp: HasPrefix_def)
    with k4 Suc.prems show ?thesis by (simp add: eq split: sum.splits prod.splits if_splits)
  next
    case k5
    then have "s \<noteq> []" by (auto simp: HasPrefix_def)
    with k5 Suc.prems show ?thesis by (simp add: eq split: option.splits prod.splits) (rule add, auto)
  next
    case k7
    with Suc.prems show ?thesis by (simp add: eq split: prod.splits) (rule add, auto)
  qed
qed simp

lemma Parse_pristine: "Parse s = Inr ns \<Longrightarrow> list_all pristine ns"
  by (auto simp: Parse_def split: option.splits sum.splits if_splits dest: parse_nodes_pristine)

end
