(* ===== verification/WebCss.thy ===== *)
theory WebCss imports WebTemplate begin

text \<open>
  Scoped styles (\<^verbatim>\<open>web_components.go\<close>): the rules of a style sheet are found by their braces, and every
  selector is narrowed to the elements of its component. A position in the source is the rest of it.
\<close>

section \<open>Finding the braces\<close>

datatype css_state = Plain | Quoted char | Comment

fun findCSSOpenBrace :: "css_state \<Rightarrow> string \<Rightarrow> nat option" where
  "findCSSOpenBrace st [] = None"
| "findCSSOpenBrace Plain (c # s) =
     (if c = CHR ''/'' \<and> s \<noteq> [] \<and> hd s = CHR ''*'' then map_option (\<lambda>i. i + 2) (findCSSOpenBrace Comment (tl s))
      else if quote_char c then map_option Suc (findCSSOpenBrace (Quoted c) s)
      else if c = CHR ''{'' then Some 0
      else map_option Suc (findCSSOpenBrace Plain s))"
| "findCSSOpenBrace Comment (c # s) =
     (if c = CHR ''*'' \<and> s \<noteq> [] \<and> hd s = CHR ''/'' then map_option (\<lambda>i. i + 2) (findCSSOpenBrace Plain (tl s))
      else map_option Suc (findCSSOpenBrace Comment s))"
| "findCSSOpenBrace (Quoted q) (c # s) =
     (if c = CHR 0x5C then map_option (\<lambda>i. i + 2) (findCSSOpenBrace (Quoted q) (tl s))
      else map_option Suc (findCSSOpenBrace (if c = q then Plain else Quoted q) s))"

text \<open>From the opening brace, with the braces open so far.\<close>

fun findMatchingBrace :: "int \<Rightarrow> css_state \<Rightarrow> string \<Rightarrow> nat option" where
  "findMatchingBrace depth st [] = None"
| "findMatchingBrace depth Plain (c # s) =
     (if c = CHR ''/'' \<and> s \<noteq> [] \<and> hd s = CHR ''*'' then map_option (\<lambda>i. i + 2) (findMatchingBrace depth Comment (tl s))
      else if quote_char c then map_option Suc (findMatchingBrace depth (Quoted c) s)
      else if c = CHR ''{'' then map_option Suc (findMatchingBrace (depth + 1) Plain s)
      else if c = CHR ''}'' then
        (if depth - 1 = 0 then Some 0 else map_option Suc (findMatchingBrace (depth - 1) Plain s))
      else map_option Suc (findMatchingBrace depth Plain s))"
| "findMatchingBrace depth Comment (c # s) =
     (if c = CHR ''*'' \<and> s \<noteq> [] \<and> hd s = CHR ''/'' then map_option (\<lambda>i. i + 2) (findMatchingBrace depth Plain (tl s))
      else map_option Suc (findMatchingBrace depth Comment s))"
| "findMatchingBrace depth (Quoted q) (c # s) =
     (if c = CHR 0x5C then map_option (\<lambda>i. i + 2) (findMatchingBrace depth (Quoted q) (tl s))
      else map_option Suc (findMatchingBrace depth (if c = q then Plain else Quoted q) s))"

section \<open>Selectors\<close>

text \<open>The pieces between the commas outside of quotes, parentheses and brackets; \<open>part\<close> is read already.\<close>

fun split_selectors :: "nat \<Rightarrow> nat \<Rightarrow> char option \<Rightarrow> string \<Rightarrow> string \<Rightarrow> string list" where
  "split_selectors paren bracket q part [] = [part]"
| "split_selectors paren bracket (Some q) part (c # s) =
     (if c = CHR 0x5C then
        (case s of [] \<Rightarrow> [part @ [c]] | d # t \<Rightarrow> split_selectors paren bracket (Some q) (part @ [c, d]) t)
      else split_selectors paren bracket (if c = q then None else Some q) (part @ [c]) s)"
| "split_selectors paren bracket None part (c # s) =
     (if quote_char c then split_selectors paren bracket (Some c) (part @ [c]) s
      else if c = CHR ''('' then split_selectors (paren + 1) bracket None (part @ [c]) s
      else if c = CHR '')'' then split_selectors (paren - 1) bracket None (part @ [c]) s
      else if c = CHR ''['' then split_selectors paren (bracket + 1) None (part @ [c]) s
      else if c = CHR '']'' then split_selectors paren (bracket - 1) None (part @ [c]) s
      else if c = CHR '','' \<and> paren = 0 \<and> bracket = 0 then part # split_selectors paren bracket None [] s
      else split_selectors paren bracket None (part @ [c]) s)"

definition splitCSSSelectors :: "string \<Rightarrow> string list" where
  "splitCSSSelectors s = split_selectors 0 0 None [] s"

definition combinator :: "char \<Rightarrow> bool" where
  "combinator c \<longleftrightarrow> c = CHR ''>'' \<or> c = CHR ''+'' \<or> c = CHR ''~''"

text \<open>Where the last compound selector starts: after the last combinator, or at what follows the last
  white space that is not around one. \<open>i\<close> is the position, \<open>start\<close> the answer so far.\<close>

fun last_compound :: "nat \<Rightarrow> nat \<Rightarrow> nat \<Rightarrow> char option \<Rightarrow> nat \<Rightarrow> string \<Rightarrow> nat" where
  "last_compound i paren bracket q start [] = start"
| "last_compound i paren bracket (Some q) start (c # s) =
     (if c = CHR 0x5C then last_compound (i + 2) paren bracket (Some q) start (tl s)
      else last_compound (i + 1) paren bracket (if c = q then None else Some q) start s)"
| "last_compound i paren bracket None start (c # s) =
     (if quote_char c then last_compound (i + 1) paren bracket (Some c) start s
      else if c = CHR ''('' then last_compound (i + 1) (paren + 1) bracket None start s
      else if c = CHR '')'' then last_compound (i + 1) (paren - 1) bracket None start s
      else if c = CHR ''['' then last_compound (i + 1) paren (bracket + 1) None start s
      else if c = CHR '']'' then last_compound (i + 1) paren (bracket - 1) None start s
      else if paren = 0 \<and> bracket = 0 \<and> combinator c then last_compound (i + 1) paren bracket None (i + 1) s
      else if paren = 0 \<and> bracket = 0 \<and> space_byte c then
        (let r = skip_spaces (c # s)
         in last_compound (i + 1) paren bracket None
              (if r \<noteq> [] \<and> \<not> combinator (hd r) then i + (length (c # s) - length r) else start) s)
      else last_compound (i + 1) paren bracket None start s)"

text \<open>The first colon outside of quotes, parentheses and brackets, or the end.\<close>

fun first_colon :: "nat \<Rightarrow> nat \<Rightarrow> char option \<Rightarrow> string \<Rightarrow> nat" where
  "first_colon paren bracket q [] = 0"
| "first_colon paren bracket (Some q) (c # s) =
     (if c = CHR 0x5C then Suc (if s = [] then 0 else Suc (first_colon paren bracket (Some q) (tl s)))
      else Suc (first_colon paren bracket (if c = q then None else Some q) s))"
| "first_colon paren bracket None (c # s) =
     (if quote_char c then Suc (first_colon paren bracket (Some c) s)
      else if c = CHR ''['' then Suc (first_colon paren (bracket + 1) None s)
      else if c = CHR '']'' then Suc (first_colon paren (bracket - 1) None s)
      else if c = CHR ''('' then Suc (first_colon (paren + 1) bracket None s)
      else if c = CHR '')'' then Suc (first_colon (paren - 1) bracket None s)
      else if c = CHR '':'' \<and> paren = 0 \<and> bracket = 0 then 0
      else Suc (first_colon paren bracket None s))"

definition appendScopeToFinalCompound :: "string \<Rightarrow> string \<Rightarrow> string" where
  "appendScopeToFinalCompound selector scopeID =
     (let lastStart = last_compound 0 0 0 None 0 selector;
          compound = trim_left_where is_space (drop lastStart selector);
          at = first_colon 0 0 None compound
      in if compound = [] then selector
         else take lastStart selector @ take at compound @ ''['' @ scopeID @ '']'' @ drop at compound)"

definition scopeOneSelector :: "string \<Rightarrow> string \<Rightarrow> string" where
  "scopeOneSelector selector scopeID =
     (if selector = [] then selector
      else if HasPrefix selector '':global('' \<and> HasSuffix selector '')''
      then TrimSuffix (TrimPrefix selector '':global('') '')''
      else appendScopeToFinalCompound selector scopeID)"

definition rewriteSelectorList :: "string \<Rightarrow> string \<Rightarrow> string" where
  "rewriteSelectorList header scopeID =
     takeWhile space_byte header @
     Join (map (\<lambda>p. scopeOneSelector (TrimSpace p) scopeID) (splitCSSSelectors (skip_spaces header))) '', ''"

section \<open>Rules\<close>

lemma findCSSOpenBrace_less: "findCSSOpenBrace st s = Some i \<Longrightarrow> i < length s"
  by (induction st s arbitrary: i rule: findCSSOpenBrace.induct) (fastforce split: if_splits)+

lemma findMatchingBrace_less: "findMatchingBrace depth st s = Some i \<Longrightarrow> i < length s"
  by (induction depth st s arbitrary: i rule: findMatchingBrace.induct) (fastforce split: if_splits)+

definition nested_at_rule :: "string \<Rightarrow> bool" where
  "nested_at_rule trimmed \<longleftrightarrow>
     (let lower = ToLower trimmed
      in HasPrefix lower ''@media'' \<or> HasPrefix lower ''@supports'' \<or> HasPrefix lower ''@layer'' \<or> HasPrefix lower ''@container'')"

function rewriteCSSRules :: "string \<Rightarrow> string \<Rightarrow> string" where
  "rewriteCSSRules css scopeID =
     (case findCSSOpenBrace Plain css of
        None \<Rightarrow> css
      | Some start \<Rightarrow>
          (case findMatchingBrace 0 Plain (drop start css) of
             None \<Rightarrow> css
           | Some n \<Rightarrow>
               let header = take start css; body = take (n - 1) (drop (Suc start) css); trimmed = TrimSpace header
               in (if HasPrefix trimmed ''@''
                   then header @ ''{'' @ (if nested_at_rule trimmed then rewriteCSSRules body scopeID else body) @ ''}''
                   else rewriteSelectorList header scopeID @ ''{'' @ body @ ''}'') @
                  rewriteCSSRules (drop (start + n + 1) css) scopeID))"
  by auto
termination
  by (relation "measure (length \<circ> fst)") (auto dest!: findCSSOpenBrace_less findMatchingBrace_less)

declare rewriteCSSRules.simps [simp del]

definition scopeCSS :: "string \<Rightarrow> string \<Rightarrow> string" where
  "scopeCSS css scopeID = rewriteCSSRules css scopeID"


section \<open>Balanced text\<close>

text \<open>Text without braces, and text whose braces match; braces in strings and comments do not count.\<close>

inductive balanced :: "bool \<Rightarrow> string \<Rightarrow> bool" for braces :: bool where
  nothing: "balanced braces []"
| plain: "\<not> quote_char c \<Longrightarrow> c \<notin> set ''{}/'' \<Longrightarrow> balanced braces b \<Longrightarrow> balanced braces (c # b)"
| slash: "b \<noteq> [] \<Longrightarrow> hd b \<noteq> CHR ''*'' \<Longrightarrow> balanced braces b \<Longrightarrow> balanced braces (CHR ''/'' # b)"
| quoted: "quote_char q \<Longrightarrow> \<forall>c\<in>set v. c \<noteq> q \<and> c \<noteq> CHR 0x5C \<Longrightarrow> balanced braces b \<Longrightarrow> balanced braces (q # v @ q # b)"
| comment: "\<not> Contains v ''*/'' \<Longrightarrow> balanced braces b \<Longrightarrow> balanced braces (''/*'' @ v @ ''*/'' @ b)"
| block: "braces \<Longrightarrow> balanced braces a \<Longrightarrow> balanced braces b \<Longrightarrow> balanced braces (''{'' @ a @ ''}'' @ b)"

lemma quote_chars: "quote_char q \<Longrightarrow> q \<noteq> CHR ''/'' \<and> q \<noteq> CHR ''*'' \<and> q \<noteq> CHR ''{'' \<and> q \<noteq> CHR ''}'' \<and> q \<noteq> CHR 0x5C"
  "\<not> quote_char CHR ''/''" "\<not> quote_char CHR ''{''" "\<not> quote_char CHR ''}''"
  by (auto simp: quote_char_def)

definition shift :: "nat \<Rightarrow> nat option \<Rightarrow> nat option" where
  "shift k r = map_option (\<lambda>i. i + k) r"

lemma shift_simps [simp]:
  "map_option Suc r = shift (Suc 0) r" "map_option (\<lambda>i. Suc (Suc i)) r = shift (Suc (Suc 0)) r" "map_option (\<lambda>i. i + 2) r = shift (Suc (Suc 0)) r"
  "shift 0 r = r" "shift k (shift l r) = shift (k + l) r" "shift k (Some i) = Some (i + k)" "shift k None = None"
  by (cases r; auto simp: shift_def)+

lemma open_quoted:
  "\<forall>c\<in>set v. c \<noteq> q \<and> c \<noteq> CHR 0x5C \<Longrightarrow> quote_char q \<Longrightarrow>
     findCSSOpenBrace (Quoted q) (v @ q # s) = shift (Suc (length v)) (findCSSOpenBrace Plain s)"
  by (induction v) (auto dest: quote_chars(1))

lemma matching_quoted:
  "\<forall>c\<in>set v. c \<noteq> q \<and> c \<noteq> CHR 0x5C \<Longrightarrow> quote_char q \<Longrightarrow>
     findMatchingBrace d (Quoted q) (v @ q # s) = shift (Suc (length v)) (findMatchingBrace d Plain s)"
  by (induction v) (auto dest: quote_chars(1))

lemma star_slash: "\<not> Contains (c # v) ''*/'' \<Longrightarrow> \<not> (c = CHR ''*'' \<and> hd (v @ CHR ''*'' # s) = CHR ''/'')"
  by (cases v) (auto simp: HasPrefix_def)

lemma open_comment: "\<not> Contains v ''*/'' \<Longrightarrow> findCSSOpenBrace Comment (v @ ''*/'' @ s) = shift (length v + 2) (findCSSOpenBrace Plain s)"
proof (induction v)
  case (Cons c v)
  with star_slash [OF Cons.prems, of "''/'' @ s"] show ?case by auto
qed simp

lemma matching_comment: "\<not> Contains v ''*/'' \<Longrightarrow> findMatchingBrace d Comment (v @ ''*/'' @ s) = shift (length v + 2) (findMatchingBrace d Plain s)"
proof (induction v)
  case (Cons c v)
  with star_slash [OF Cons.prems, of "''/'' @ s"] show ?case by auto
qed simp

lemma open_flat: "balanced False h \<Longrightarrow> findCSSOpenBrace Plain (h @ s) = shift (length h) (findCSSOpenBrace Plain s)"
proof (induction h rule: balanced.induct)
  case (slash b)
  then show ?case by (cases b) (auto simp: quote_chars)
next
  case (quoted q v b)
  then show ?case using open_quoted [of v q "b @ s"] quote_chars(1) [OF quoted(1)] by simp
next
  case (comment v b)
  then show ?case using open_comment [of v "b @ s"] by (simp add: quote_chars)
qed auto

lemma matching_balanced:
  "balanced True b \<Longrightarrow> d \<ge> 1 \<Longrightarrow> findMatchingBrace d Plain (b @ s) = shift (length b) (findMatchingBrace d Plain s)"
proof (induction b arbitrary: d s rule: balanced.induct)
  case (slash b)
  then show ?case by (cases b) (auto simp: quote_chars)
next
  case (quoted q v b)
  then show ?case using matching_quoted [of v q d "b @ s"] quote_chars(1) [OF quoted(1)] by simp
next
  case (comment v b)
  then show ?case using matching_comment [of v d "b @ s"] by (simp add: quote_chars)
next
  case (block a b)
  then show ?case by (simp add: quote_chars add.commute add.left_commute)
qed auto


lemma flat_balanced: "balanced False h \<Longrightarrow> balanced True h"
proof (induction h rule: balanced.induct)
  case (block a b)
  then show ?case by simp
qed (rule balanced.intros; assumption)+

lemma balanced_append: "balanced br a \<Longrightarrow> balanced br b \<Longrightarrow> balanced br (a @ b)"
proof (induction a rule: balanced.induct)
  case (slash c)
  then show ?case using balanced.slash [of "c @ b" br] by simp
next
  case (quoted q v c)
  then show ?case using balanced.quoted [of q v br "c @ b"] by simp
next
  case (comment v c)
  then show ?case using balanced.comment [of v br "c @ b"] by simp
next
  case (block c d)
  then show ?case using balanced.block [of br c "d @ b"] by simp
next
  case (plain c d)
  then show ?case using balanced.plain [of c br "d @ b"] by simp
qed simp

lemma balanced_chars: "\<forall>c\<in>set s. \<not> quote_char c \<and> c \<notin> set ''{}/'' \<Longrightarrow> balanced br s"
proof (induction s)
  case (Cons c s)
  then have "\<not> quote_char c" "c \<notin> set ''{}/''" "balanced br s" by simp_all
  then show ?case by (rule balanced.plain)
qed (rule balanced.nothing)

section \<open>Selectors one by one\<close>

text \<open>A selector as what precedes its last compound, and that compound.\<close>

type_synonym selector = "string \<times> string"

definition compound_char :: "char \<Rightarrow> bool" where
  "compound_char c \<longleftrightarrow> \<not> space_byte c \<and> \<not> combinator c \<and> \<not> quote_char c \<and> c \<notin> set ''()[]{},/@'' \<and> c \<noteq> CHR 0x5C"

definition prefix_char :: "char \<Rightarrow> bool" where
  "prefix_char c \<longleftrightarrow> compound_char c \<or> c = CHR '' '' \<or> combinator c"

fun selector_ok :: "selector \<Rightarrow> bool" where
  "selector_ok (p, c) \<longleftrightarrow>
     c \<noteq> [] \<and> list_all compound_char c \<and> list_all prefix_char p \<and>
     (p = [] \<or> hd p \<noteq> CHR '' '' \<and> (last p = CHR '' '' \<or> combinator (last p)))"

fun print_selector :: "selector \<Rightarrow> string" where
  "print_selector (p, c) = p @ c"

fun scoped_selector :: "string \<Rightarrow> selector \<Rightarrow> selector" where
  "scoped_selector ident (p, c) = (p, takeWhile (\<lambda>x. x \<noteq> CHR '':'') c @ ''['' @ ident @ '']'' @ dropWhile (\<lambda>x. x \<noteq> CHR '':'') c)"

lemma compound_charD:
  "compound_char c \<Longrightarrow> \<not> space_byte c" "compound_char c \<Longrightarrow> \<not> is_space c" "compound_char c \<Longrightarrow> \<not> combinator c" "compound_char c \<Longrightarrow> \<not> quote_char c"
  "compound_char c \<Longrightarrow> c \<notin> set ''()[]{},/@''"
  by (auto simp: compound_char_def space_byte_def)

lemma prefix_charD:
  assumes "prefix_char c"
  shows "\<not> quote_char c" "c \<notin> set ''()[]{},/@''"
proof -
  from assms consider "compound_char c" | "c = CHR '' ''" | "c = CHR ''>''" | "c = CHR ''+''" | "c = CHR ''~''"
    unfolding prefix_char_def combinator_def by blast
  then have "\<not> quote_char c \<and> c \<notin> set ''()[]{},/@''"
  proof cases
    case 1
    then show ?thesis using compound_charD by blast
  qed (simp_all add: quote_char_def)
  then show "\<not> quote_char c" "c \<notin> set ''()[]{},/@''" by blast+
qed

lemma last_compound_of_compound: "list_all compound_char c \<Longrightarrow> last_compound i 0 0 None start c = start"
proof (induction c arbitrary: i)
  case (Cons x c)
  then have "compound_char x" by simp
  with Cons compound_charD [OF this] show ?case by simp
qed simp

lemma last_compound_prefix:
  "list_all prefix_char p \<Longrightarrow> p \<noteq> [] \<Longrightarrow> last p = CHR '' '' \<or> combinator (last p) \<Longrightarrow> c \<noteq> [] \<Longrightarrow> list_all compound_char c \<Longrightarrow>
     last_compound i 0 0 None start (p @ c) = i + length p"
proof (induction p arbitrary: i start)
  case (Cons x p)
  have x: "prefix_char x" using Cons.prems by simp
  obtain start' where step: "last_compound i 0 0 None start ((x # p) @ c) = last_compound (i + 1) 0 0 None start' (p @ c)"
    "p = [] \<Longrightarrow> start' = i + 1"
  proof (cases "combinator x")
    case True
    then have "last_compound i 0 0 None start ((x # p) @ c) = last_compound (i + 1) 0 0 None (i + 1) (p @ c)"
      using prefix_charD [OF x] by simp
    then show ?thesis using that by blast
  next
    case False
    show ?thesis
    proof (cases "x = CHR '' ''")
      case True
      obtain d c' where c: "c = d # c'" "compound_char d" using Cons.prems by (cases c) auto
      have r: "skip_spaces (x # c) = c" using True c compound_charD [OF c(2)] by (simp add: skip_spaces_def space_char)
      let ?r = "skip_spaces (x # p @ c)"
      let ?start = "if ?r \<noteq> [] \<and> \<not> combinator (hd ?r) then i + (length (x # p @ c) - length ?r) else start"
      have "last_compound i 0 0 None start ((x # p) @ c) = last_compound (i + 1) 0 0 None ?start (p @ c)"
        using True by (simp add: quote_char_def combinator_def space_char Let_def)
      moreover have "p = [] \<Longrightarrow> ?start = i + 1" using r c compound_charD(3) [OF c(2)] by simp
      ultimately show ?thesis using that by blast
    next
      case nospace: False
      with False x have "compound_char x" by (simp add: prefix_char_def)
      from compound_charD [OF this] False have "last_compound i 0 0 None start ((x # p) @ c) = last_compound (i + 1) 0 0 None start (p @ c)" by simp
      moreover have "p \<noteq> []" using Cons.prems(3) False nospace by auto
      ultimately show ?thesis using that by blast
    qed
  qed
  show ?case
  proof (cases "p = []")
    case True
    with step last_compound_of_compound [OF Cons.prems(5)] show ?thesis by simp
  next
    case False
    with Cons.IH [of "i + 1" start'] Cons.prems step show ?thesis by simp
  qed
qed simp

lemma first_colon_compound: "list_all compound_char c \<Longrightarrow> first_colon 0 0 None c = length (takeWhile (\<lambda>x. x \<noteq> CHR '':'') c)"
proof (induction c)
  case (Cons x c)
  then have "compound_char x" by simp
  with Cons compound_charD [OF this] show ?case by simp
qed simp

lemma scope_selector: "selector_ok sel \<Longrightarrow> scopeOneSelector (print_selector sel) ident = print_selector (scoped_selector ident sel)"
proof -
  assume ok: "selector_ok sel"
  obtain p c where sel: "sel = (p, c)" by (cases sel) auto
  from ok sel have c: "c \<noteq> []" "list_all compound_char c" "list_all prefix_char p"
    and p: "p = [] \<or> hd p \<noteq> CHR '' '' \<and> (last p = CHR '' '' \<or> combinator (last p))" by auto
  have "CHR ''('' \<notin> set (p @ c)" using c prefix_charD(2) compound_charD(5) by (fastforce simp: list_all_iff)
  moreover have "CHR ''('' \<in> set (p @ c)" if "HasPrefix (p @ c) '':global(''"
  proof -
    from that obtain t where "p @ c = '':global('' @ t" unfolding HasPrefix_iff by blast
    then show ?thesis by (simp only: set_append) simp
  qed
  ultimately have "\<not> HasPrefix (p @ c) '':global(''" by blast
  moreover have "last_compound 0 0 0 None 0 (p @ c) = length p"
  proof (cases "p = []")
    case True
    then show ?thesis using last_compound_of_compound [OF c(2)] by simp
  next
    case False
    with p c last_compound_prefix [of p c 0 0] show ?thesis by simp
  qed
  moreover have "trim_left_where is_space c = c" using c compound_charD(2) by (cases c) (auto simp: trim_left_where_def)
  ultimately show ?thesis
    using c sel first_colon_compound [OF c(2)]
    by (simp add: scopeOneSelector_def appendScopeToFinalCompound_def Let_def takeWhile_eq_take [symmetric] dropWhile_eq_drop [symmetric])
qed


lemma selector_chars: "selector_ok sel \<Longrightarrow> list_all prefix_char (print_selector sel)"
  by (cases sel) (auto simp: prefix_char_def list_all_iff)

lemma selector_ends:
  "selector_ok sel \<Longrightarrow> print_selector sel \<noteq> [] \<and> \<not> space_byte (hd (print_selector sel)) \<and> compound_char (last (print_selector sel))"
proof -
  assume ok: "selector_ok sel"
  obtain p c where sel: "sel = (p, c)" by (cases sel) auto
  from ok sel have c: "c \<noteq> []" "list_all compound_char c" "list_all prefix_char p" "p = [] \<or> hd p \<noteq> CHR '' ''" by auto
  have "\<not> space_byte (hd (p @ c))"
  proof (cases p)
    case Nil
    then show ?thesis using c compound_charD(1) by (cases c) auto
  next
    case (Cons x q)
    with c have "prefix_char x" "x \<noteq> CHR '' ''" by auto
    then have "compound_char x \<or> combinator x" by (simp add: prefix_char_def)
    moreover have "\<not> space_byte x" if "combinator x" using that by (auto simp: combinator_def space_byte_def is_space_def)
    ultimately show ?thesis using Cons compound_charD(1) by auto
  qed
  with c sel show ?thesis by (simp add: list_all_iff)
qed

lemma split_plain: "list_all prefix_char p \<Longrightarrow> split_selectors 0 0 None part (p @ s) = split_selectors 0 0 None (part @ p) s"
proof (induction p arbitrary: part)
  case (Cons x p)
  then have "prefix_char x" by simp
  from prefix_charD [OF this] Cons show ?case by simp
qed simp

lemma split_join:
  "sels \<noteq> [] \<Longrightarrow> list_all selector_ok sels \<Longrightarrow>
     split_selectors 0 0 None part (Join (map print_selector sels) '', '') =
     (part @ print_selector (hd sels)) # map (\<lambda>s. CHR '' '' # print_selector s) (tl sels)"
proof (induction sels arbitrary: part)
  case (Cons s sels)
  have p: "list_all prefix_char (print_selector s)" using Cons.prems selector_chars by simp
  show ?case
  proof (cases sels)
    case Nil
    then show ?thesis using split_plain [OF p, of part "[]"] by simp
  next
    case (Cons s2 rest)
    have comma: "\<not> quote_char CHR '',''" "\<not> quote_char CHR '' ''" "\<not> combinator CHR '' ''" by (simp_all add: quote_char_def combinator_def)
    have "split_selectors 0 0 None part (Join (map print_selector (s # sels)) '', '') =
        split_selectors 0 0 None (part @ print_selector s) ('', '' @ Join (map print_selector sels) '', '')"
      using Cons split_plain [OF p, of part "'', '' @ Join (map print_selector sels) '', ''"] by simp
    also have "\<dots> = (part @ print_selector s) # split_selectors 0 0 None '' '' (Join (map print_selector sels) '', '')"
      using comma by simp
    finally show ?thesis using Cons.IH [of "'' ''"] Cons.prems Cons by simp
  qed
qed simp

lemma TrimSpace_skip: "is_space c \<Longrightarrow> TrimSpace (c # s) = TrimSpace s"
  by (simp add: TrimSpace_def trim_left_where_def)

lemma TrimSpace_selector: "selector_ok sel \<Longrightarrow> TrimSpace (print_selector sel) = print_selector sel"
  using selector_ends [of sel] compound_charD(2) by (subst TrimSpace_iff) (auto simp: space_byte_def)

lemma joined_start: "sels \<noteq> [] \<Longrightarrow> list_all selector_ok sels \<Longrightarrow>
  Join (map print_selector sels) '', '' \<noteq> [] \<and> hd (Join (map print_selector sels) '', '') = hd (print_selector (hd sels))"
  using selector_ends [of "hd sels"] by (cases sels; cases "tl sels") auto

lemma rewrite_selectors:
  assumes ws: "list_all is_space ws" and sels: "sels \<noteq> []" "list_all selector_ok sels"
  shows "rewriteSelectorList (ws @ Join (map print_selector sels) '', '') ident =
    ws @ Join (map (print_selector \<circ> scoped_selector ident) sels) '', ''"
proof -
  let ?J = "Join (map print_selector sels) '', ''"
  have J: "?J \<noteq> []" "\<not> space_byte (hd ?J)"
    using joined_start [OF sels] selector_ends [of "hd sels"] sels by (cases sels; auto)+
  have sp: "list_all space_byte ws" using ws by (auto simp: list_all_iff space_byte_def)
  have t: "takeWhile space_byte (ws @ ?J) = ws" "skip_spaces (ws @ ?J) = ?J"
    using takeWhile_stop [OF sp, of ?J] J by (auto simp: skip_spaces_def)
  have one: "scopeOneSelector (TrimSpace (print_selector s)) ident = print_selector (scoped_selector ident s)" if "s \<in> set sels" for s
    using that sels(2) TrimSpace_selector scope_selector by (auto simp: list_all_iff)
  have "map (\<lambda>p. scopeOneSelector (TrimSpace p) ident) (splitCSSSelectors ?J) = map (print_selector \<circ> scoped_selector ident) sels"
    unfolding splitCSSSelectors_def split_join [OF sels] using one sels(1)
    by (cases sels) (auto simp: TrimSpace_skip space_char)
  then show ?thesis by (simp add: rewriteSelectorList_def t)
qed

section \<open>Style sheets\<close>

text \<open>A sheet as its rules: selectors with declarations, at-rules that hold rules, and others, each with
  the white space before it.\<close>

datatype css_rule =
  StyleRule string "selector list" string
| GroupRule string "css_rule list" string
| AtRule string string

fun print_rule :: "css_rule \<Rightarrow> string" where
  "print_rule (StyleRule ws sels body) = ws @ Join (map print_selector sels) '', '' @ ''{'' @ body @ ''}''"
| "print_rule (GroupRule header rules tail) = header @ ''{'' @ concat (map print_rule rules) @ tail @ ''}''"
| "print_rule (AtRule header body) = header @ ''{'' @ body @ ''}''"

fun scope_rule :: "string \<Rightarrow> css_rule \<Rightarrow> css_rule" where
  "scope_rule ident (StyleRule ws sels body) = StyleRule ws (map (scoped_selector ident) sels) body"
| "scope_rule ident (GroupRule header rules tail) = GroupRule header (map (scope_rule ident) rules) tail"
| "scope_rule ident (AtRule header body) = AtRule header body"

fun rule_ok :: "css_rule \<Rightarrow> bool" where
  "rule_ok (StyleRule ws sels body) \<longleftrightarrow> list_all is_space ws \<and> sels \<noteq> [] \<and> list_all selector_ok sels \<and> balanced True body"
| "rule_ok (GroupRule header rules tail) \<longleftrightarrow>
     balanced False header \<and> HasPrefix (TrimSpace header) ''@'' \<and> nested_at_rule (TrimSpace header) \<and> list_all rule_ok rules \<and> balanced False tail"
| "rule_ok (AtRule header body) \<longleftrightarrow>
     balanced False header \<and> HasPrefix (TrimSpace header) ''@'' \<and> \<not> nested_at_rule (TrimSpace header) \<and> balanced True body"

lemma rewrite_one:
  assumes h: "balanced False header" and b: "balanced True body"
  shows "rewriteCSSRules (header @ ''{'' @ body @ ''}'' @ s) ident =
    (if HasPrefix (TrimSpace header) ''@''
     then header @ ''{'' @ (if nested_at_rule (TrimSpace header) then rewriteCSSRules body ident else body) @ ''}''
     else rewriteSelectorList header ident @ ''{'' @ body @ ''}'') @ rewriteCSSRules s ident"
proof -
  have "findCSSOpenBrace Plain (header @ ''{'' @ body @ ''}'' @ s) = Some (length header)"
    using open_flat [OF h] by (simp add: quote_chars)
  moreover have "findMatchingBrace 0 Plain (''{'' @ body @ ''}'' @ s) = Some (Suc (length body))"
    using matching_balanced [OF b, of 1 "''}'' @ s"] by (simp add: quote_chars)
  ultimately show ?thesis
    by (subst rewriteCSSRules.simps) (simp add: Let_def)
qed

lemma rewrite_tail: "balanced False t \<Longrightarrow> rewriteCSSRules t ident = t"
  using open_flat [of t "[]"] by (subst rewriteCSSRules.simps) simp

lemma header_balanced:
  assumes ws: "list_all is_space ws" and sels: "list_all selector_ok sels"
  shows "balanced br (ws @ Join (map print_selector sels) '', '')"
proof -
  have "\<forall>c\<in>set (ws @ Join (map print_selector sels) '', ''). \<not> quote_char c \<and> c \<notin> set ''{}/''"
  proof
    fix c assume "c \<in> set (ws @ Join (map print_selector sels) '', '')"
    with set_Join [of "map print_selector sels" "'', ''"] consider "c \<in> set ws" | s where "s \<in> set sels" "c \<in> set (print_selector s)" | "c = CHR '',''" | "c = CHR '' ''" by auto
    then show "\<not> quote_char c \<and> c \<notin> set ''{}/''"
    proof cases
      case 1
      with ws have "is_space c" by (auto simp: list_all_iff)
      then show ?thesis by (auto simp: is_space_def quote_char_def)
    next
      case 2
      with sels selector_chars [of s] have "prefix_char c" by (auto simp: list_all_iff)
      from prefix_charD [OF this] show ?thesis by simp
    qed (simp_all add: quote_char_def)
  qed
  then show ?thesis by (rule balanced_chars)
qed

lemma rule_balanced: "rule_ok r \<Longrightarrow> balanced True (print_rule r)"
proof (induction r)
  case (StyleRule ws sels body)
  have ws: "list_all is_space ws" and sels: "list_all selector_ok sels" using StyleRule by simp_all
  from balanced_append [OF header_balanced [OF ws sels] balanced.block [OF _ _ balanced.nothing]] StyleRule show ?case by simp
next
  case (GroupRule header rules tail)
  have "balanced True (concat (map print_rule rs))" if "set rs \<subseteq> set rules" for rs
    using that
  proof (induction rs)
    case (Cons r rs)
    with GroupRule have "balanced True (print_rule r)" by (auto simp: list_all_iff)
    from balanced_append [OF this] Cons show ?case by simp
  qed (simp add: balanced.nothing)
  from balanced_append [OF this [OF subset_refl] flat_balanced] GroupRule.prems
  have "balanced True (concat (map print_rule rules) @ tail)" by simp
  from balanced_append [OF flat_balanced balanced.block [OF _ this balanced.nothing]] GroupRule.prems show ?case by simp
next
  case (AtRule header body)
  then show ?case using balanced_append [OF flat_balanced balanced.block [OF _ _ balanced.nothing], of header body] by simp
qed


lemma TrimSpace_starts: "list_all is_space ws \<Longrightarrow> s \<noteq> [] \<Longrightarrow> \<not> is_space (hd s) \<Longrightarrow> \<exists>r. TrimSpace (ws @ s) = hd s # r"
proof -
  assume ws: "list_all is_space ws" and s: "s \<noteq> []" "\<not> is_space (hd s)"
  obtain c t where c: "s = c # t" "\<not> is_space c" using s by (cases s) auto
  have "dropWhile is_space (ws @ s) = s" using ws c by (simp add: dropWhile_append list_all_iff dropWhile_eq_Nil_conv [symmetric] del: dropWhile_eq_Nil_conv)
  moreover have "rev (dropWhile is_space (rev t @ [c])) = c # rev (dropWhile is_space (rev t))"
    using c(2) by (cases "dropWhile is_space (rev t) = []") (auto simp: dropWhile_append)
  ultimately show ?thesis using c by (simp add: TrimSpace_def trim_left_where_def trim_right_where_def)
qed

lemma rewrite_style:
  assumes "rule_ok (StyleRule ws sels body)"
  shows "rewriteCSSRules (print_rule (StyleRule ws sels body) @ s) ident =
    print_rule (scope_rule ident (StyleRule ws sels body)) @ rewriteCSSRules s ident"
proof -
  let ?h = "ws @ Join (map print_selector sels) '', ''"
  from assms have ok: "list_all is_space ws" "sels \<noteq> []" "list_all selector_ok sels" "balanced True body" by auto
  obtain s1 rest where s1: "sels = s1 # rest" "selector_ok s1" using ok by (cases sels) auto
  have start: "Join (map print_selector sels) '', '' \<noteq> []" "hd (Join (map print_selector sels) '', '') = hd (print_selector s1)"
    using joined_start [OF ok(2,3)] s1 by auto
  have "print_selector s1 \<noteq> []" "\<not> space_byte (hd (print_selector s1))" "hd (print_selector s1) \<noteq> CHR ''@''"
    using selector_ends [OF s1(2)] selector_chars [OF s1(2)] prefix_charD(2) [of "hd (print_selector s1)"]
    by (auto simp: list_all_iff)
  with TrimSpace_starts [OF ok(1) start(1)] start obtain r where "TrimSpace ?h = hd (print_selector s1) # r" "hd (print_selector s1) \<noteq> CHR ''@''"
    by (auto simp: space_byte_def)
  then have "\<not> HasPrefix (TrimSpace ?h) ''@''" by (simp add: HasPrefix_def)
  with rewrite_one [OF header_balanced [OF ok(1,3)] ok(4), of s ident] rewrite_selectors [OF ok(1-3), of ident]
  show ?thesis by simp
qed




section \<open>What escapes the scope\<close>

text \<open>An escaped colon is taken for a pseudo-class: the attribute lands inside the class name.\<close>

theorem escaped_colon_split:
  "scopeCSS (''.sm'' @ [CHR 0x5C] @ '':p-4{a:b}'') ''d'' = ''.sm'' @ [CHR 0x5C] @ ''[d]:p-4{a:b}''"
  by code_simp

text \<open>An apostrophe in a comment opens a string: the selectors behind it are not split.\<close>

theorem apostrophe_in_comment:
  "scopeCSS (''/*don'' @ [CHR 0x27] @ ''t*/ .x, .y{a:b}'') ''d'' = ''/*don'' @ [CHR 0x27] @ ''t*/ .x, .y[d]{a:b}''"
  by code_simp

text \<open>An at-rule without braces takes the selector that follows it with it.\<close>

theorem import_hides_rule: "scopeCSS ''@import url(x);.a{b:c}'' ''d'' = ''@import url(x);.a{b:c}''"
  by code_simp

text \<open>A selector that starts with \<^verbatim>\<open>:global(\<close> and happens to end in a parenthesis loses both.\<close>

theorem global_prefix_broken: "scopeCSS '':global(.a) .b:not(.c){x:y}'' ''d'' = ''.a) .b:not(.c{x:y}''"
  by code_simp

end
