(* ===== verification/WebFiles.thy ===== *)
theory WebFiles imports WebCss WebRoutes begin

text \<open>
  Component files (\<^verbatim>\<open>web_components.go\<close>, \<^verbatim>\<open>web_framework.go\<close>): the blocks of a file, what its comments
  declare, the component's name, and the registry of all components. A file is its path relative to
  the root with its contents; hashing, regular expressions and \<^verbatim>\<open>html/template\<close> are parameters.
\<close>

section \<open>Blocks\<close>

record Block =
  b_Content :: string
  b_Attrs :: "(string \<times> string) list"

text \<open>The first \<^verbatim>\<open><name\<close> that is followed by white space, \<^verbatim>\<open>>\<close> or the end.\<close>

function find_block :: "string \<Rightarrow> string \<Rightarrow> nat option" where
  "find_block name s =
     (let needle = CHR ''<'' # name
      in case Index s needle of
           None \<Rightarrow> None
         | Some i \<Rightarrow>
             let after = drop (i + length needle) s
             in if after = [] \<or> space_byte (hd after) \<or> hd after = CHR ''>'' then Some i
                else map_option (\<lambda>j. i + length needle + j) (find_block name after))"
  by auto
termination
proof (relation "measure (\<lambda>(name, s). length s)", simp)
  fix name s needle i after
  assume "needle = CHR ''<'' # name" "Index s needle = Some i" "after = drop (i + length needle) s"
  with Index_Some [of s needle i] show "((name, after), name, s) \<in> measure (\<lambda>(name, s). length s)" by simp
qed

declare find_block.simps [simp del]

text \<open>Start, name, attributes and the start of the contents of the next block.\<close>

definition findNextTopLevelBlock :: "string \<Rightarrow> (nat \<times> string \<times> string \<times> nat) option" where
  "findNextTopLevelBlock s =
     (case fold (\<lambda>name best. case find_block name s of
                    None \<Rightarrow> best
                  | Some i \<Rightarrow> (case best of None \<Rightarrow> Some (i, name) | Some (j, n) \<Rightarrow> if i < j then Some (i, name) else best))
            [''template'', ''script'', ''style'', ''head''] None of
        None \<Rightarrow> None
      | Some (start, name) \<Rightarrow>
          (case findTagEnd None (drop start s) of
             None \<Rightarrow> None
           | Some n \<Rightarrow>
               (let nameEnd = start + 1 + length name; openEnd = start + n
                in Some (start, name, TrimSpace (take (openEnd - nameEnd) (drop nameEnd s)), openEnd + 1))))"

definition parseBlockAttributes :: "string \<Rightarrow> (string \<times> string) list" where
  "parseBlockAttributes input =
     (case parseTemplateAttributes input of
        Inl e \<Rightarrow> []
      | Inr attrs \<Rightarrow> fold (\<lambda>a m. AList.update (at_Name a) (at_Value a) m) attrs [])"

datatype file_error =
  UnclosedBlock string | MultipleTemplates | MultipleSetups | ServerScript string | UnsupportedScript string
| TemplateError template_error

lemma findNextTopLevelBlock_start: "findNextTopLevelBlock s = Some (start, name, attrs, contentStart) \<Longrightarrow> 0 < contentStart"
  by (auto simp: findNextTopLevelBlock_def Let_def split: option.splits prod.splits)

function parseSFCBlocks :: "string \<Rightarrow> file_error + (string \<times> Block) list" where
  "parseSFCBlocks s =
     (if s = [] then Inr []
      else case findNextTopLevelBlock s of
        None \<Rightarrow> Inr []
      | Some (start, name, attrs, contentStart) \<Rightarrow>
          (let content = drop contentStart s; closeTag = ''</'' @ name @ ''>''
           in case Cut content closeTag of
                None \<Rightarrow> Inl (UnclosedBlock name)
              | Some (body, r) \<Rightarrow>
                  map_sum (\<lambda>e. e) (\<lambda>bs. (name, \<lparr>b_Content = body, b_Attrs = parseBlockAttributes attrs\<rparr>) # bs) (parseSFCBlocks r)))"
  by auto
termination
proof (relation "measure length", simp)
  fix s :: string and m4 m3 m2 start name attrs contentStart content closeTag br body r
  assume "s \<noteq> []" "findNextTopLevelBlock s = Some m4" "(start, m3) = m4" "(name, m2) = m3" "(attrs, contentStart) = m2"
    "content = drop contentStart s" "Cut content closeTag = Some br" "(body, r) = br"
  with findNextTopLevelBlock_start [of s start name attrs contentStart] Cut_length [of content closeTag body r]
  have "0 < contentStart" "length r \<le> length s - contentStart" by auto
  with \<open>s \<noteq> []\<close> show "(r, s) \<in> measure length" by (cases s) auto
qed

declare parseSFCBlocks.simps [simp del]

section \<open>Declarations in comments\<close>

definition comment_words :: "string \<Rightarrow> string list" where
  "comment_words s =
     Fields (trim_right_where (\<lambda>c. c \<in> set (CHR 0x09 # ''-*/ '')) (trim_left_where (\<lambda>c. c \<in> set (CHR 0x09 # ''-*/ '')) (TrimSpace s)))"

fun meta_lines :: "string list \<Rightarrow> string \<Rightarrow> string" where
  "meta_lines [] key = []"
| "meta_lines (line # lines) key =
     (case Index line key of
        None \<Rightarrow> meta_lines lines key
      | Some i \<Rightarrow> (case comment_words (drop (i + length key) line) of w # _ \<Rightarrow> w | [] \<Rightarrow> meta_lines lines key))"

definition parseMetaValue :: "string \<Rightarrow> string \<Rightarrow> string" where
  "parseMetaValue source key = meta_lines (Split (CHR 0x0A) source) key"

definition last_index :: "char \<Rightarrow> string \<Rightarrow> nat option" where
  "last_index c s = (if c \<in> set s then Some (length s - 1 - length (takeWhile (\<lambda>x. x \<noteq> c) (rev s))) else None)"

text \<open>\<^verbatim>\<open>path#Export\<close> in a line with \<^verbatim>\<open>@server\<close>.\<close>

definition server_ref :: "string \<Rightarrow> (string \<times> string) option" where
  "server_ref line =
     (case Index line ''@server'' of
        None \<Rightarrow> None
      | Some i \<Rightarrow>
          (case comment_words (drop (i + 7) line) of
             [] \<Rightarrow> None
           | spec # _ \<Rightarrow>
               (case last_index (CHR ''#'') spec of
                  None \<Rightarrow> None
                | Some j \<Rightarrow> if j = 0 \<or> j = length spec - 1 then None else Some (take j spec, drop (Suc j) spec))))"

definition parseServerRefs :: "string \<Rightarrow> (string \<times> string) list" where
  "parseServerRefs source = List.map_filter server_ref (Split (CHR 0x0A) source)"

section \<open>Names\<close>

definition letter_or_digit :: "char \<Rightarrow> bool" where
  "letter_or_digit c \<longleftrightarrow> letter c \<or> is_digit c"

definition normalizeComponentLookup :: "string \<Rightarrow> string" where
  "normalizeComponentLookup name = map lower_char (filter letter_or_digit name)"

fun capitalize :: "string \<Rightarrow> string" where
  "capitalize [] = []"
| "capitalize (c # w) = upper_char c # w"

definition toPascalCase :: "string \<Rightarrow> string" where
  "toPascalCase v = concat (map capitalize (FieldsFunc v (\<lambda>c. \<not> letter_or_digit c)))"

fun name_parts :: "string \<Rightarrow> string list \<Rightarrow> string" where
  "name_parts result [] = result"
| "name_parts result (part # parts) =
     (if HasPrefix (ToLower part) (ToLower result) then name_parts part parts
      else if HasSuffix (ToLower result) (ToLower part) then name_parts result parts
      else name_parts (result @ part) parts)"

definition NuxtComponentName :: "string \<Rightarrow> string" where
  "NuxtComponentName relativePath =
     (let path = TrimSuffix (TrimSuffix (TrimSuffix (TrimSuffix relativePath (file_Ext relativePath)) ''.client'') ''.server'') ''.global'';
          parts = map toPascalCase
            (filter (\<lambda>p. p \<noteq> [] \<and> \<not> (HasPrefix p ''('' \<and> HasSuffix p '')'')) (Split (CHR ''/'') path))
      in case parts of [] \<Rightarrow> [] | p # ps \<Rightarrow> name_parts p ps)"

datatype ComponentMode = ModeUniversal | ModeServer | ModeClient

definition componentModeFromPath :: "string \<Rightarrow> ComponentMode" where
  "componentModeFromPath path =
     (let base = ToLower (path_Base path)
      in if HasSuffix base ''.client.gosh'' then ModeClient
         else if HasSuffix base ''.server.gosh'' then ModeServer
         else ModeUniversal)"

section \<open>Templates of a component\<close>

fun applyScope :: "string \<Rightarrow> tnode \<Rightarrow> tnode" where
  "applyScope scopeID (NElement el cs) =
     NElement (if el_IsComponent el then el else el\<lparr>el_ScopeAttrs := appendUnique (el_ScopeAttrs el) scopeID\<rparr>) (map (applyScope scopeID) cs)"
| "applyScope scopeID n = n"

text \<open>The source and the expressions of a \<^verbatim>\<open>script\<close> or \<^verbatim>\<open>style\<close> element with interpolations.\<close>

fun raw_source :: "nat \<Rightarrow> tnode list \<Rightarrow> (string \<times> string list) option" where
  "raw_source k [] = Some ([], [])"
| "raw_source k (NText t # ns) = map_option (\<lambda>(s, es). (t @ s, es)) (raw_source k ns)"
| "raw_source k (NInterp e # ns) = map_option (\<lambda>(s, es). (''{{.V'' @ Itoa_nat k @ ''}}'' @ s, e # es)) (raw_source (Suc k) ns)"
| "raw_source k (n # ns) = None"

text \<open>\<open>compile\<close> is \<^verbatim>\<open>html/template\<close>: from the source to a function of the values of its expressions.\<close>

type_synonym compile = "string \<Rightarrow> (rval list \<Rightarrow> string option) option"

definition prepareRawTextExpressions :: "compile \<Rightarrow> elem_info \<Rightarrow> tnode list \<Rightarrow> elem_info" where
  "prepareRawTextExpressions compile el cs =
     (if ToLower (el_Tag el) \<noteq> ''script'' \<and> ToLower (el_Tag el) \<noteq> ''style'' then el
      else case raw_source 0 cs of
             None \<Rightarrow> el
           | Some (source, expressions) \<Rightarrow>
               if expressions = [] then el
               else (case compile (''<'' @ el_Tag el @ ''>'' @ source @ ''</'' @ el_Tag el @ ''>'') of
                       None \<Rightarrow> el
                     | Some execute \<Rightarrow>
                         el\<lparr>el_context := Some (expressions, \<lambda>vs. map_option
                              (\<lambda>body. drop (length (el_Tag el) + 2) (take (length body - length (el_Tag el) - 3) body)) (execute vs))\<rparr>))"

fun raw_texts :: "compile \<Rightarrow> tnode \<Rightarrow> tnode" where
  "raw_texts compile (NElement el cs) = NElement (prepareRawTextExpressions compile el cs) (map (raw_texts compile) cs)"
| "raw_texts compile n = n"

fun has_runtime_action :: "tnode \<Rightarrow> bool" where
  "has_runtime_action (NElement el cs) \<longleftrightarrow>
     list_ex (\<lambda>a. at_Event a \<or> HasPrefix (ToLower (at_Name a)) ''data-gosh-on-'') (el_Attrs el) \<or> list_ex has_runtime_action cs"
| "has_runtime_action n \<longleftrightarrow> False"

definition componentHasRuntimeAction :: "tnode list \<Rightarrow> bool" where
  "componentHasRuntimeAction nodes = list_ex has_runtime_action nodes"


section \<open>Components\<close>

record StyleBlock =
  st_Content :: string
  st_Attrs :: "(string \<times> string) list"
  st_Scoped :: bool
  st_Module :: bool
  st_Lang :: string

record SourceComponent = Component +
  s_RelativePath :: string
  s_Mode :: ComponentMode
  s_ServerRefs :: "(string \<times> string) list"
  s_Layout :: string
  s_Head :: string
  s_TemplateSource :: string
  s_ScriptSetup :: "Block option"
  s_Styles :: "StyleBlock list"

text \<open>\<open>scope_hash\<close> is the hexadecimal start of the hash of a path, \<open>declared\<close> the helpers that the regular
  expression finds declared in a script, \<open>frame\<close> the renderer used for static fragments.\<close>

record file_env =
  scope_hash :: "string \<Rightarrow> string"
  declared :: "string \<Rightarrow> string list"
  compiler :: compile
  fragments :: env

definition makeScopeID :: "file_env \<Rightarrow> string \<Rightarrow> string" where
  "makeScopeID V relativePath = ''data-v-'' @ scope_hash V relativePath"

definition setup_helpers :: "string list" where
  "setup_helpers = [''useRoot'', ''useElement'', ''onMounted'', ''onUnmounted'', ''useEvent'', ''useStore'', ''watchStore'',
     ''useResponseStream'', ''useNDJSONStream'', ''emit'']"

definition setupScriptSource :: "file_env \<Rightarrow> string \<Rightarrow> string" where
  "setupScriptSource V source =
     ''export function mount(ctx){const __gosh=ctx.runtime.createComponentAPI(ctx);'' @
     concat (map (\<lambda>name. ''const '' @ name @ ''=__gosh.'' @ name @ '';'') (filter (\<lambda>name. name \<notin> set (declared V source)) setup_helpers)) @
     source @ ''}''"

record file_parts =
  f_template :: "string option"
  f_setup :: "Block option"
  f_scripts :: "Block list"
  f_head :: string
  f_styles :: "StyleBlock list"

definition no_parts :: file_parts where
  "no_parts = \<lparr>f_template = None, f_setup = None, f_scripts = [], f_head = [], f_styles = []\<rparr>"

definition has_attr :: "string \<Rightarrow> Block \<Rightarrow> bool" where
  "has_attr name b \<longleftrightarrow> map_of (b_Attrs b) name \<noteq> None"

fun collect_blocks :: "(string \<times> Block) list \<Rightarrow> file_parts \<Rightarrow> file_error + file_parts" where
  "collect_blocks [] p = Inr p"
| "collect_blocks ((name, b) # bs) p =
     (if name = ''template'' then
        (if f_template p \<noteq> None then Inl MultipleTemplates else collect_blocks bs (p\<lparr>f_template := Some (b_Content b)\<rparr>))
      else if name = ''script'' then
        (if has_attr ''setup'' b then
           (if f_setup p \<noteq> None then Inl MultipleSetups else collect_blocks bs (p\<lparr>f_setup := Some b\<rparr>))
         else collect_blocks bs (p\<lparr>f_scripts := f_scripts p @ [b]\<rparr>))
      else if name = ''head'' then collect_blocks bs (p\<lparr>f_head := f_head p @ b_Content b\<rparr>)
      else if name = ''style'' then
        collect_blocks bs (p\<lparr>f_styles := f_styles p @
          [\<lparr>st_Content = b_Content b, st_Attrs = b_Attrs b, st_Scoped = has_attr ''scoped'' b, st_Module = has_attr ''module'' b,
            st_Lang = (case map_of (b_Attrs b) ''lang'' of Some l \<Rightarrow> l | None \<Rightarrow> [])\<rparr>]\<rparr>)
      else collect_blocks bs p)"

text \<open>The nodes of a component's template before its metadata is prepared.\<close>

definition scoped_template :: "file_env \<Rightarrow> string \<Rightarrow> tnode list \<Rightarrow> tnode list" where
  "scoped_template V scopeID nodes =
     map (raw_texts (compiler V)) (if scopeID \<noteq> [] then map (applyScope scopeID) nodes else nodes)"

definition template_nodes :: "string \<Rightarrow> template_error + tnode list" where
  "template_nodes source = (if TrimSpace source = [] then Inr [] else Parse source)"

definition ParseComponentFile :: "file_env \<Rightarrow> string \<Rightarrow> string \<Rightarrow> file_error + SourceComponent" where
  "ParseComponentFile V relativePath source =
     (case parseSFCBlocks source of
        Inl e \<Rightarrow> Inl e
      | Inr blocks \<Rightarrow>
     (case collect_blocks blocks no_parts of
        Inl e \<Rightarrow> Inl e
      | Inr p \<Rightarrow>
          (let mode = componentModeFromPath relativePath;
               templateSource = (case f_template p of Some t \<Rightarrow> t | None \<Rightarrow> []);
               scopeID = (if list_ex st_Scoped (f_styles p) then makeScopeID V relativePath else [])
           in if f_scripts p \<noteq> [] then Inl (if mode = ModeServer then ServerScript relativePath else UnsupportedScript relativePath)
              else case template_nodes templateSource of
                     Inl e \<Rightarrow> Inl (TemplateError e)
                   | Inr nodes \<Rightarrow>
                       let template = map (prepare (fragments V)) (scoped_template V scopeID nodes)
                       in Inr \<lparr>c_Name = NuxtComponentName relativePath, c_Client = (mode = ModeClient),
                            c_HasRuntimeAction = componentHasRuntimeAction template, c_ScopeID = scopeID, c_Template = template,
                            c_Scripts = [],
                            c_PreparedSetup = (case f_setup p of
                               Some b \<Rightarrow> if TrimSpace (b_Content b) \<noteq> [] then setupScriptSource V (b_Content b) else []
                             | None \<Rightarrow> []),
                            s_RelativePath = relativePath, s_Mode = mode, s_ServerRefs = parseServerRefs source,
                            s_Layout = parseMetaValue source ''@layout'', s_Head = f_head p, s_TemplateSource = templateSource,
                            s_ScriptSetup = f_setup p, s_Styles = f_styles p\<rparr>)))"

definition with_newline :: "string \<Rightarrow> string" where
  "with_newline s = (if HasSuffix s [CHR 0x0A] then [] else [CHR 0x0A])"

definition GlobalCSS :: "SourceComponent \<Rightarrow> string" where
  "GlobalCSS c = concat (map (\<lambda>st. st_Content st @ with_newline (st_Content st))
     (filter (\<lambda>st. \<not> st_Scoped st \<and> TrimSpace (st_Content st) \<noteq> []) (s_Styles c)))"

definition ScopedCSS :: "SourceComponent \<Rightarrow> string" where
  "ScopedCSS c =
     (if c_ScopeID c = [] then []
      else concat (map (\<lambda>st. scopeCSS (st_Content st) (c_ScopeID c) @ with_newline (st_Content st))
        (filter (\<lambda>st. st_Scoped st \<and> TrimSpace (st_Content st) \<noteq> []) (s_Styles c))))"

definition CSS :: "SourceComponent option \<Rightarrow> string" where
  "CSS c = (case c of None \<Rightarrow> [] | Some c \<Rightarrow> GlobalCSS c @ ScopedCSS c)"

section \<open>The registry\<close>

record Components =
  items :: "(string \<times> SourceComponent) list"
  names :: "string list"

datatype load_error = InFile string file_error | DuplicateComponent string string string

fun load_files :: "file_env \<Rightarrow> (string \<times> string) list \<Rightarrow> Components \<Rightarrow> load_error + Components" where
  "load_files V [] cs = Inr cs"
| "load_files V ((path, source) # files) cs =
     (if ToLower (file_Ext path) \<noteq> ''.gosh'' then load_files V files cs
      else case ParseComponentFile V path source of
             Inl e \<Rightarrow> Inl (InFile path e)
           | Inr c \<Rightarrow>
               (let key = normalizeComponentLookup (c_Name c)
                in case map_of (items cs) key of
                     Some previous \<Rightarrow> Inl (DuplicateComponent (c_Name c) (s_RelativePath previous) path)
                   | None \<Rightarrow> load_files V files \<lparr>items = (key, c) # items cs, names = names cs @ [c_Name c]\<rparr>))"

definition LoadComponents :: "file_env \<Rightarrow> (string \<times> string) list \<Rightarrow> load_error + Components" where
  "LoadComponents V files =
     map_sum (\<lambda>e. e) (\<lambda>cs. cs\<lparr>names := sort (names cs)\<rparr>) (load_files V files \<lparr>items = [], names = []\<rparr>)"

definition Components_Get :: "Components \<Rightarrow> string \<Rightarrow> SourceComponent option" where
  "Components_Get cs name = map_of (items cs) (normalizeComponentLookup name)"

definition Components_Has :: "Components \<Rightarrow> string \<Rightarrow> bool" where
  "Components_Has cs name \<longleftrightarrow> Components_Get cs name \<noteq> None"

definition Components_Must :: "Components \<Rightarrow> string \<Rightarrow> SourceComponent WebRender.outcome" where
  "Components_Must cs name = (case Components_Get cs name of Some c \<Rightarrow> Ret c | None \<Rightarrow> Panics)"

section \<open>A component's template renders as it was written\<close>

lemma static_raw: "staticRenderTree (NElement el cs) \<Longrightarrow> prepareRawTextExpressions compile el cs = el"
proof -
  assume "staticRenderTree (NElement el cs)"
  then have "list_all staticRenderTree cs" by simp
  then have "raw_source k cs = None \<or> (\<exists>s. raw_source k cs = Some (s, []))" for k
    by (induction k cs rule: raw_source.induct) auto
  from this [of 0] show ?thesis by (auto simp: prepareRawTextExpressions_def split: option.splits)
qed

lemma raw_fields [simp]: "el_Tag (prepareRawTextExpressions compile el cs) = el_Tag el" "el_Attrs (prepareRawTextExpressions compile el cs) = el_Attrs el"
  "el_IsComponent (prepareRawTextExpressions compile el cs) = el_IsComponent el" "el_static (prepareRawTextExpressions compile el cs) = el_static el"
  by (auto simp: prepareRawTextExpressions_def split: option.splits)

lemma static_tree_fields:
  "el_Tag a = el_Tag b \<Longrightarrow> el_Attrs a = el_Attrs b \<Longrightarrow> el_IsComponent a = el_IsComponent b \<Longrightarrow>
     staticRenderTree (NElement a cs) = staticRenderTree (NElement b cs)"
  by (simp add: elementIsSlot_def elementIsClientOnly_def)

lemma raw_static: "staticRenderTree (raw_texts compile n) = staticRenderTree n"
proof (induction n)
  case (NElement el cs)
  then have "list_all staticRenderTree (map (raw_texts compile) cs) = list_all staticRenderTree cs" by (auto simp: list_all_iff)
  then show ?case by (simp add: elementIsSlot_def elementIsClientOnly_def)
qed simp_all

lemma scope_static: "staticRenderTree (applyScope ident n) = staticRenderTree n"
proof (induction n)
  case (NElement el cs)
  then have "list_all staticRenderTree (map (applyScope ident) cs) = list_all staticRenderTree cs" by (auto simp: list_all_iff)
  then show ?case by (simp add: elementIsSlot_def elementIsClientOnly_def)
qed simp_all

lemma raw_fresh: "fresh n \<Longrightarrow> fresh (raw_texts compile n)"
proof (induction n)
  case (NElement el cs)
  have st: "list_all staticRenderTree (map (raw_texts compile) cs) = list_all staticRenderTree cs"
    by (simp add: raw_static list_all_iff)
  have "el_context (prepareRawTextExpressions compile el cs) = None" if "staticRenderTree (NElement el cs)"
    using static_raw [OF that, of compile] NElement.prems that by simp
  then show ?case using NElement st by (auto simp: list_all_iff elementIsSlot_def elementIsClientOnly_def)
qed simp_all

lemma scope_fresh: "fresh n \<Longrightarrow> fresh (applyScope ident n)"
proof (induction n)
  case (NElement el cs)
  have "list_all staticRenderTree (map (applyScope ident) cs) = list_all staticRenderTree cs"
    by (simp add: scope_static list_all_iff)
  then show ?case using NElement by (auto simp: list_all_iff elementIsSlot_def elementIsClientOnly_def)
qed simp_all

lemma pristine_fresh: "pristine n \<Longrightarrow> fresh n"
proof (induction n)
  case (NElement el cs)
  then have "el_static el = None" "el_context el = None" using parsed_element_fields(4,5) [of "el_Tag el" "el_Attrs el"] by auto
  with NElement show ?case by (auto simp: list_all_iff)
qed simp_all

lemma scoped_fresh: "template_nodes source = Inr nodes \<Longrightarrow> list_all fresh (scoped_template V ident nodes)"
  using Parse_pristine [of source nodes]
  by (auto simp: template_nodes_def scoped_template_def list_all_iff raw_fresh scope_fresh pristine_fresh split: if_splits)

text \<open>C33: A component file whose template parses to some nodes renders as these nodes do: with the scope
  attributes applied and the raw text elements compiled, the template that \<^verbatim>\<open>ParseComponentFile\<close>
  keeps (static parts rendered in advance) writes the same text, draws the same tokens and keeps the
  same states in every scope, slot and state.\<close>

theorem component_renders_source:
  assumes component: "ParseComponentFile V path source = Inr c" and parsed: "template_nodes (s_TemplateSource c) = Inr nodes"
    and E: "fresh_env E" and x: "fresh_context x"
  shows "render_nodes (prep_env (fragments V) E) n (prep_context (fragments V) x) ch (c_Template c) (prep_state (fragments V) s) =
    prep_result (fragments V) (render_nodes E n x ch (scoped_template V (c_ScopeID c) nodes) s)"
proof -
  have "c_Template c = map (prepare (fragments V)) (scoped_template V (c_ScopeID c) nodes)"
    using component parsed by (auto simp: ParseComponentFile_def Let_def split: sum.splits if_splits)
  with render_prep [OF E x scoped_fresh [OF parsed]] show ?thesis by simp
qed

definition demo_file_env :: file_env where
  "demo_file_env = \<lparr>scope_hash = (\<lambda>p. ''00''), declared = (\<lambda>s. []), compiler = (\<lambda>s. None), fragments = demo_env (\<lambda>t. None)\<rparr>"

definition demo_source :: string where
  "demo_source = ''<template><p>hi</p><b>{{ x }}</b></template><style scoped>p{a:b}</style>''"

text \<open>C36: Loading the components succeeds only when no two names are the same to a look-up (letters and digits
  without regard to case); then every file's component is found under its name in any of these
  spellings, and nothing else is.\<close>

theorem registry_complete:
  assumes "LoadComponents V files = Inr cs"
  shows "Components_Get cs name = Some c \<longleftrightarrow>
    (\<exists>(path, source)\<in>set files. ToLower (file_Ext path) = ''.gosh'' \<and> ParseComponentFile V path source = Inr c \<and>
       normalizeComponentLookup (c_Name c) = normalizeComponentLookup name)"
proof -
  have "map_of (items cs') k = Some c \<longleftrightarrow> map_of (items cs0) k = Some c \<or>
      (\<exists>(path, source)\<in>set files. ToLower (file_Ext path) = ''.gosh'' \<and> ParseComponentFile V path source = Inr c \<and>
         normalizeComponentLookup (c_Name c) = k)"
    if "load_files V files cs0 = Inr cs'" for cs0 cs' k
    using that
  proof (induction V files cs0 rule: load_files.induct)
    case (2 V path source files cs0)
    show ?case
    proof (cases "ToLower (file_Ext path) = ''.gosh''")
      case True
      with 2(3) obtain d where d: "ParseComponentFile V path source = Inr d" by (auto split: sum.splits)
      let ?k = "normalizeComponentLookup (c_Name d)"
      have fresh: "map_of (items cs0) ?k = None" using 2(3) True d by (auto simp: Let_def split: option.splits)
      with 2(3) True d have "load_files V files \<lparr>items = (?k, d) # items cs0, names = names cs0 @ [c_Name d]\<rparr> = Inr cs'"
        by (simp add: Let_def)
      from 2(2) [OF _ d refl fresh this] True d fresh show ?thesis by auto
    qed (use 2 in auto)
  qed simp
  moreover obtain cs' where "load_files V files \<lparr>items = [], names = []\<rparr> = Inr cs'" "items cs = items cs'"
    using assms by (cases "load_files V files \<lparr>items = [], names = []\<rparr>") (auto simp: LoadComponents_def)
  ultimately show ?thesis by (simp add: Components_Get_def)
qed


section \<open>Blocks are read back\<close>

type_synonym block = "string \<times> Attribute list \<times> string"

fun print_block :: "string \<times> block \<Rightarrow> string" where
  "print_block (gap, name, attrs, content) =
     gap @ ''<'' @ name @ concat (map print_attr attrs) @ ''>'' @ content @ ''</'' @ name @ ''>''"

fun block_ok :: "string \<times> block \<Rightarrow> bool" where
  "block_ok (gap, name, attrs, content) \<longleftrightarrow>
     CHR ''<'' \<notin> set gap \<and> name \<in> {''template'', ''script'', ''style'', ''head''} \<and> list_all attr_ok attrs \<and>
     \<not> Contains content (''</'' @ name @ ''>'')"

fun block_of :: "string \<times> block \<Rightarrow> string \<times> Block" where
  "block_of (gap, name, attrs, content) =
     (name, \<lparr>b_Content = content, b_Attrs = fold (\<lambda>a m. AList.update (at_Name a) (at_Value a) m) attrs []\<rparr>)"

lemma Cut_unique:
  assumes "c \<notin> set q" and "\<not> Contains t (c # q)"
  shows "Cut (t @ (c # q) @ r) (c # q) = Some (t, r)"
proof (rule Cut_first)
  fix i assume i: "i < length t"
  show "\<not> HasPrefix (drop i t @ (c # q) @ r) (c # q)"
  proof (cases "i + length (c # q) \<le> length t")
    case True
    with assms(2) drop_contains [of t "c # q" i "(c # q) @ r"] show ?thesis by simp
  next
    case False
    show ?thesis
    proof
      assume "HasPrefix (drop i t @ (c # q) @ r) (c # q)"
      then obtain u where u: "drop i t @ (c # q) @ r = (c # q) @ u" by (auto simp: HasPrefix_iff)
      let ?j = "length t - i"
      have "((c # q) @ u) ! ?j = c" unfolding u [symmetric] by (simp add: nth_append)
      moreover have "0 < ?j" "?j < length (c # q)" using i False by auto
      then have "((c # q) @ u) ! ?j = q ! (?j - 1)" "?j - 1 < length q" by (auto simp: nth_append nth_Cons')
      ultimately show False using assms(1) nth_mem by metis
    qed
  qed
qed

lemma find_block_at:
  "find_block name s = Some i \<Longrightarrow>
     \<exists>after. drop i s = CHR ''<'' # name @ after \<and> (after = [] \<or> space_byte (hd after) \<or> hd after = CHR ''>'')"
proof (induction name s arbitrary: i rule: find_block.induct)
  case (1 name s)
  let ?needle = "CHR ''<'' # name"
  from 1(2) obtain k where k: "Index s ?needle = Some k" by (subst (asm) find_block.simps) (auto simp: Let_def split: option.splits)
  let ?after = "drop (k + length ?needle) s"
  have len: "length (take k s) = k" using Index_Some [OF k] by simp
  have at: "drop k s = ?needle @ ?after"
    using arg_cong [OF Index_at [OF k], of "drop k"] len by (metis append_eq_conv_conj)
  show ?case
  proof (cases "?after = [] \<or> space_byte (hd ?after) \<or> hd ?after = CHR ''>''")
    case True
    with 1(2) k have "i = k" by (subst (asm) find_block.simps) (auto simp: Let_def)
    with at True show ?thesis by auto
  next
    case False
    with 1(2) k obtain j where j: "find_block name ?after = Some j" "i = k + length ?needle + j"
      by (subst (asm) find_block.simps) (auto simp: Let_def)
    from 1(1) [OF refl k refl False j(1)] j(2) show ?thesis by (simp add: add.commute add.left_commute)
  qed
qed

definition word_char :: "char \<Rightarrow> bool" where
  "word_char c \<longleftrightarrow> \<not> space_byte c \<and> c \<noteq> CHR ''>''"

lemma block_names: "name \<in> {''template'', ''script'', ''style'', ''head''} \<Longrightarrow> name_ok name \<and> list_all word_char name \<and> CHR ''<'' \<notin> set name"
  by (elim insertE; simp add: name_ok_def plain_char_def word_char_def space_byte_def is_space_def quote_char_def)

lemma find_own_block:
  assumes gap: "CHR ''<'' \<notin> set gap" and A: "space_byte (hd A) \<or> hd A = CHR ''>''"
  shows "find_block name (gap @ CHR ''<'' # name @ A) = Some (length gap)"
proof -
  have "Index (gap @ (CHR ''<'' # name) @ A) (CHR ''<'' # name) = Some (length gap)"
  proof (rule Index_first)
    fix i assume "i < length gap"
    then show "\<not> HasPrefix (drop i gap @ (CHR ''<'' # name) @ A) (CHR ''<'' # name)"
      using gap in_set_dropD [of "CHR ''<''" i gap] by (cases "drop i gap") (auto simp: HasPrefix_def)
  qed
  then show ?thesis using A by (subst find_block.simps) simp
qed

lemma find_other_block:
  assumes gap: "CHR ''<'' \<notin> set gap" and A: "A \<noteq> []" "space_byte (hd A) \<or> hd A = CHR ''>''"
    and other: "name \<noteq> m" "list_all word_char name" "list_all word_char m" and i: "find_block m (gap @ CHR ''<'' # name @ A) = Some i"
  shows "length gap < i"
proof -
  from find_block_at [OF i] obtain r where r: "drop i (gap @ CHR ''<'' # name @ A) = CHR ''<'' # m @ r"
    "r = [] \<or> space_byte (hd r) \<or> hd r = CHR ''>''" by blast
  have "\<not> i < length gap"
  proof
    assume "i < length gap"
    with r gap in_set_dropD [of "CHR ''<''" i gap] show False by (cases "drop i gap") auto
  qed
  moreover have "i \<noteq> length gap"
  proof
    assume "i = length gap"
    with r have e: "name @ A = m @ r" by simp
    have "takeWhile word_char (name @ A) = name" using takeWhile_stop [OF other(2), of A] A by (auto simp: word_char_def)
    moreover have "takeWhile word_char (m @ r) = m" using takeWhile_stop [OF other(3), of r] r(2) by (auto simp: word_char_def)
    ultimately show False using e other(1) by simp
  qed
  ultimately show ?thesis by simp
qed

lemma findTagEnd_printed:
  "name_ok tag \<Longrightarrow> list_all attr_ok as \<Longrightarrow>
     findTagEnd None (CHR ''<'' # tag @ concat (map print_attr as) @ CHR ''>'' # r) = Some (Suc (length (tag @ concat (map print_attr as))))"
  using findTagEnd_plain [of tag "concat (map print_attr as) @ CHR ''>'' # r"] findTagEnd_attrs [of "as" "CHR ''>''" r] name_okD(2) [of tag]
  by (simp add: quote_char_def option.map_comp comp_def)


lemma next_block:
  assumes ok: "block_ok (gap, name, attrs, content)"
  shows "findNextTopLevelBlock (print_block (gap, name, attrs, content) @ s) =
    Some (length gap, name, TrimSpace (concat (map print_attr attrs)), length gap + length (CHR ''<'' # name @ concat (map print_attr attrs) @ ''>''))"
proof -
  let ?A = "concat (map print_attr attrs)" and ?names = "{''template'', ''script'', ''style'', ''head''}"
  let ?r = "content @ ''</'' @ name @ ''>'' @ s"
  let ?s = "gap @ CHR ''<'' # name @ ?A @ CHR ''>'' # ?r"
  have gap: "CHR ''<'' \<notin> set gap" and name: "name \<in> ?names" and attrs: "list_all attr_ok attrs" using ok by auto
  have A: "?A @ CHR ''>'' # ?r \<noteq> []" "space_byte (hd (?A @ CHR ''>'' # ?r)) \<or> hd (?A @ CHR ''>'' # ?r) = CHR ''>''"
    using attrs_start [of attrs] space_char(1) by (cases ?A; auto)+
  have own: "find_block name ?s = Some (length gap)" using find_own_block [OF gap A(2), of name] by simp
  have other: "find_block m ?s = None \<or> (\<exists>i. find_block m ?s = Some i \<and> length gap < i)" if "m \<in> ?names" "m \<noteq> name" for m
    using find_other_block [OF gap A(1,2), of name m] block_names [OF name] block_names [OF that(1)] that(2) by (cases "find_block m ?s") auto
  have best: "fold (\<lambda>name best. case find_block name ?s of
                    None \<Rightarrow> best
                  | Some i \<Rightarrow> (case best of None \<Rightarrow> Some (i, name) | Some (j, n) \<Rightarrow> if i < j then Some (i, name) else best))
            [''template'', ''script'', ''style'', ''head''] None = Some (length gap, name)"
    using name own other [of "''template''"] other [of "''script''"] other [of "''style''"] other [of "''head''"]
    by (elim insertE) (auto split: option.split)
  have e: "findTagEnd None (drop (length gap) ?s) = Some (Suc (length (name @ ?A)))"
    using findTagEnd_printed [OF conjunct1 [OF block_names [OF name]] attrs, of ?r] by simp
  have "print_block (gap, name, attrs, content) @ s = ?s" by simp
  then show ?thesis
    unfolding findNextTopLevelBlock_def using best e by (simp add: Let_def)
qed

lemma no_block: "CHR ''<'' \<notin> set t \<Longrightarrow> findNextTopLevelBlock t = None"
proof -
  assume t: "CHR ''<'' \<notin> set t"
  have "find_block name t = None" for name
  proof (cases "find_block name t")
    case (Some i)
    from find_block_at [OF this] obtain r where "drop i t = CHR ''<'' # r" by auto
    with t in_set_dropD [of "CHR ''<''" i t] show ?thesis by simp
  qed simp
  then show ?thesis by (simp add: findNextTopLevelBlock_def)
qed

text \<open>A component file is read back as it is written: for any sequence of template, script, style and
  head blocks with text between them, the blocks that \<^verbatim>\<open>parseSFCBlocks\<close> finds are those, in order, with
  their contents untouched and their attributes as a map.\<close>

theorem blocks_roundtrip:
  assumes "list_all block_ok bs" and "CHR ''<'' \<notin> set tail"
  shows "parseSFCBlocks (concat (map print_block bs) @ tail) = Inr (map block_of bs)"
  using assms(1)
proof (induction bs)
  case Nil
  show ?case using no_block [OF assms(2)] by (subst parseSFCBlocks.simps) simp
next
  case (Cons b bs)
  obtain gap name attrs content where b: "b = (gap, name, attrs, content)" by (cases b) auto
  let ?A = "concat (map print_attr attrs)" and ?rest = "concat (map print_block bs) @ tail"
  from Cons.prems b have ok: "block_ok (gap, name, attrs, content)" by simp
  then have attrs: "list_all attr_ok attrs" and name: "CHR ''<'' \<notin> set name" and content: "\<not> Contains content (''</'' @ name @ ''>'')"
    using block_names [of name] by auto
  have "drop (length gap + length (CHR ''<'' # name @ ?A @ ''>'')) (print_block b @ ?rest) = content @ (''</'' @ name @ ''>'') @ ?rest"
    unfolding b by simp
  moreover have "Cut (content @ (''</'' @ name @ ''>'') @ ?rest) (''</'' @ name @ ''>'') = Some (content, ?rest)"
    using Cut_unique [of "CHR ''<''" "''/'' @ name @ ''>''" content ?rest] name content by simp
  moreover have "print_block b @ ?rest \<noteq> []" unfolding b by simp
  moreover have "parseSFCBlocks ?rest = Inr (map block_of bs)" using Cons by simp
  ultimately show ?case
    using next_block [OF ok, of ?rest] TrimSpace_attrs [OF attrs]
    by (subst parseSFCBlocks.simps) (simp add: b Let_def parseBlockAttributes_def)
qed

theorem blocks_roundtrip_witness:
  "parseSFCBlocks demo_source = Inr [(''template'', \<lparr>b_Content = ''<p>hi</p><b>{{ x }}</b>'', b_Attrs = []\<rparr>),
     (''style'', \<lparr>b_Content = ''p{a:b}'', b_Attrs = [(''scoped'', [])]\<rparr>)]"
proof -
  let ?bs = "[([], ''template'', [], ''<p>hi</p><b>{{ x }}</b>''), ([], ''style'', [named_attr ''scoped'' None], ''p{a:b}'')]"
  have "list_all block_ok ?bs" by code_simp
  from blocks_roundtrip [OF this, of "[]"] show ?thesis
    by (simp add: demo_source_def print_attr_def named_attr_def)
qed


theorem component_renders_source_witness:
  "\<exists>c nodes. ParseComponentFile demo_file_env ''card.gosh'' demo_source = Inr c \<and> template_nodes (s_TemplateSource c) = Inr nodes \<and>
     (let E = demo_env (\<lambda>t. None); x = empty_context\<lparr>x_scope := [[(''x'', RStr ''1'')]]\<rparr> in
      render_nodes (prep_env E E) 0 (prep_context E x) (Chain False False) (c_Template c) (prep_state E empty_state) =
        prep_result E (render_nodes E 0 x (Chain False False) (scoped_template demo_file_env (c_ScopeID c) nodes) empty_state))"
proof -
  let ?E = "demo_env (\<lambda>t. None)" and ?x = "empty_context\<lparr>x_scope := [[(''x'', RStr ''1'')]]\<rparr>"
  have "case ParseComponentFile demo_file_env ''card.gosh'' demo_source of
      Inl e \<Rightarrow> False | Inr c \<Rightarrow> (case template_nodes (s_TemplateSource c) of Inl e \<Rightarrow> False | Inr nodes \<Rightarrow> True)"
    by code_simp
  then obtain c nodes where c: "ParseComponentFile demo_file_env ''card.gosh'' demo_source = Inr c" "template_nodes (s_TemplateSource c) = Inr nodes"
    by (auto split: sum.splits)
  have "fresh_env ?E" "fresh_context ?x" by (simp_all add: fresh_env_def demo_env_def fresh_context_def empty_context_def)
  from component_renders_source [OF c this, of 0 "Chain False False" empty_state] c show ?thesis
    by (auto simp: demo_file_env_def Let_def)
qed

theorem registry_complete_witness:
  "let files = [(''base/user-card.gosh'', demo_source), (''readme.txt'', [])] in
     \<exists>cs. LoadComponents demo_file_env files = Inr cs \<and> Components_Has cs ''BaseUserCard'' \<and> \<not> Components_Has cs ''readme'' \<and>
       (\<forall>c. Components_Get cs ''base-user-card'' = Some c \<longleftrightarrow>
          (\<exists>(path, source)\<in>set files. ToLower (file_Ext path) = ''.gosh'' \<and> ParseComponentFile demo_file_env path source = Inr c \<and>
             normalizeComponentLookup (c_Name c) = normalizeComponentLookup ''base-user-card''))"
proof -
  let ?files = "[(''base/user-card.gosh'', demo_source), (''readme.txt'', [])]"
  have "case LoadComponents demo_file_env ?files of
      Inl e \<Rightarrow> False | Inr cs \<Rightarrow> (case Components_Get cs ''BaseUserCard'' of None \<Rightarrow> False | Some c \<Rightarrow> True) \<and>
        (case Components_Get cs ''readme'' of None \<Rightarrow> True | Some c \<Rightarrow> False)"
    by code_simp
  then obtain cs where cs: "LoadComponents demo_file_env ?files = Inr cs" "Components_Has cs ''BaseUserCard''" "\<not> Components_Has cs ''readme''"
    by (auto simp: Components_Has_def split: sum.splits option.splits)
  from registry_complete [OF cs(1), of "''base-user-card''"] cs show ?thesis unfolding Let_def by blast
qed

text \<open>A template element inside the template of a file ends it: the first closing tag counts.\<close>

theorem nested_template_cut:
  "(case parseSFCBlocks ''<template><template #a>x</template>y</template>'' of
      Inr [(name, b)] \<Rightarrow> name = ''template'' \<and> b_Content b = ''<template #a>x'' | _ \<Rightarrow> False)"
  by code_simp

text \<open>Two files whose names differ only in the folder may be one component: the name of the second part is
  swallowed when the folder's name ends with it.\<close>

theorem folder_swallows_name:
  "NuxtComponentName ''user-card/card.gosh'' = ''UserCard'' \<and> NuxtComponentName ''user-card.gosh'' = ''UserCard''"
  by code_simp

end
