(* ===== verification/WebStyles.thy ===== *)
theory WebStyles imports WebCss WebRoutes begin

text \<open>
  Styles and markup on their way into a page (\<^verbatim>\<open>web_framework.go\<close>): style sheets cut into units and
  packed into chunks, style attributes turned into rules with a nonce, nonces for trusted markup, and
  the white space between tags. Hashes and the regular expression for attributes are parameters.
\<close>

section \<open>Units of a style sheet\<close>

definition unit_line :: "string \<Rightarrow> string list" where
  "unit_line s = (let u = TrimSpace s in if u = [] then [] else [u @ [CHR 0x0A]])"

text \<open>\<open>part\<close> is what was read since the last unit ended.\<close>

fun split_units :: "nat \<Rightarrow> css_state \<Rightarrow> string \<Rightarrow> string \<Rightarrow> string list" where
  "split_units depth st part [] = unit_line part"
| "split_units depth Comment part (c # s) =
     (if c = CHR ''*'' \<and> s \<noteq> [] \<and> hd s = CHR ''/'' then split_units depth Plain (part @ [c, hd s]) (tl s)
      else split_units depth Comment (part @ [c]) s)"
| "split_units depth (Quoted q) part (c # s) =
     (if c = CHR 0x5C then split_units depth (Quoted q) (part @ c # take 1 s) (tl s)
      else split_units depth (if c = q then Plain else Quoted q) (part @ [c]) s)"
| "split_units depth Plain part (c # s) =
     (if c = CHR ''/'' \<and> s \<noteq> [] \<and> hd s = CHR ''*'' then split_units depth Comment (part @ [c, hd s]) (tl s)
      else if quote_char c then split_units depth (Quoted c) (part @ [c]) s
      else if c = CHR ''{'' then split_units (depth + 1) Plain (part @ [c]) s
      else if c = CHR ''}'' then
        (if depth - 1 = 0 then unit_line (part @ [c]) @ split_units 0 Plain [] s
         else split_units (depth - 1) Plain (part @ [c]) s)
      else if c = CHR '';'' \<and> depth = 0 then unit_line (part @ [c]) @ split_units 0 Plain [] s
      else split_units depth Plain (part @ [c]) s)"

definition splitCSSUnits :: "string \<Rightarrow> string list" where
  "splitCSSUnits css = split_units 0 Plain [] css"

section \<open>Chunks\<close>

fun pack :: "int \<Rightarrow> string list \<Rightarrow> string list \<Rightarrow> string list list" where
  "pack maxSize current [] = (if current = [] then [] else [current])"
| "pack maxSize current (u # us) =
     (if 0 < length (concat current) \<and> maxSize < int (length (concat current) + length u)
      then current # pack maxSize [u] us
      else pack maxSize (current @ [u]) us)"

text \<open>The last chunk takes units of the one before it until it is large enough.\<close>

function rebalance :: "int \<Rightarrow> int \<Rightarrow> string list \<Rightarrow> string list \<Rightarrow> string list list" where
  "rebalance minSize maxSize prev final =
     (if 1 < length prev \<and> int (length (concat final)) < minSize \<and>
         \<not> (maxSize < int (length (concat final) + length (last prev)) \<or>
            int (length (concat prev)) - int (length (last prev)) < minSize)
      then rebalance minSize maxSize (butlast prev) (last prev # final)
      else [prev, final])"
  by auto
termination by (relation "measure (\<lambda>(a, b, prev, final). length prev)") auto

declare rebalance.simps [simp del]

definition with_line_end :: "string \<Rightarrow> string" where
  "with_line_end s = (if HasSuffix s [CHR 0x0A] then s else s @ [CHR 0x0A])"

definition css_limits :: "int \<Rightarrow> int \<Rightarrow> int \<times> int" where
  "css_limits mn mx =
     (let minSize = (if mn \<le> 0 then 4096 else mn); maxSize = (if mx \<le> 0 then 65536 else mx)
      in (minSize, if maxSize < minSize then minSize else maxSize))"

definition buildCSSChunks :: "string list \<Rightarrow> bool \<Rightarrow> int \<Rightarrow> int \<Rightarrow> string list" where
  "buildCSSChunks parts split mn mx =
     (let full = concat (map with_line_end (filter (\<lambda>p. TrimSpace p \<noteq> []) parts));
          (minSize, maxSize) = css_limits mn mx
      in if TrimSpace full = [] then []
         else if \<not> split \<or> int (length full) \<le> maxSize then [full]
         else let units = concat (map splitCSSUnits parts)
           in if units = [] then [full]
              else let chunks = pack maxSize [] units;
                       chunks2 = (if 1 < length chunks \<and> int (length (concat (last chunks))) < minSize
                         then butlast (butlast chunks) @ rebalance minSize maxSize (last (butlast chunks)) (last chunks)
                         else chunks)
                in map concat chunks2)"

section \<open>Nothing is lost\<close>

definition visible :: "string \<Rightarrow> string" where
  "visible s = filter (\<lambda>c. \<not> is_space c) s"

lemma visible_simps [simp]:
  "visible [] = []" "visible (s @ t) = visible s @ visible t" "visible (c # s) = (if is_space c then visible s else c # visible s)"
  by (simp_all add: visible_def)

lemma visible_hd: "s \<noteq> [] \<Longrightarrow> (if is_space (hd s) then visible (tl s) else hd s # visible (tl s)) = visible s"
  by (cases s) auto

lemma visible_take: "visible (take (Suc 0) s) @ visible (tl s) = visible s"
  by (cases s) auto

lemma visible_dropWhile: "visible (dropWhile is_space s) = visible s"
  by (induction s) auto

lemma visible_TrimSpace: "visible (TrimSpace s) = visible s"
  unfolding TrimSpace_def trim_left_where_def trim_right_where_def
  by (metis rev_filter rev_rev_ident visible_def visible_dropWhile)

lemma TrimSpace_empty: "TrimSpace s = [] \<Longrightarrow> visible s = []"
  by (metis visible_simps(1) visible_TrimSpace)

lemma visible_unit_line: "visible (concat (unit_line s)) = visible s"
  using visible_TrimSpace [of s] TrimSpace_empty [of s] by (simp add: unit_line_def Let_def is_space_def [of "CHR 0x0A"])

lemma visible_split_units: "visible (concat (split_units depth st part s)) = visible part @ visible s"
proof (induction depth st part s rule: split_units.induct)
  case (2 depth part c s)
  then show ?case using visible_hd [of s] by auto
next
  case (3 depth q part c s)
  then show ?case using visible_take [of s] by simp
next
  case (4 depth part c s)
  then show ?case using visible_hd [of s] by (auto simp: visible_unit_line)
qed (simp add: visible_unit_line)

lemma concat_pack: "concat (pack maxSize current us) = current @ us"
  by (induction us arbitrary: current) auto

lemma concat_rebalance: "concat (rebalance mn mx prev final) = prev @ final"
proof (induction mn mx prev final rule: rebalance.induct)
  case (1 mn mx prev final)
  have "butlast prev @ [last prev] = prev" if "1 < length prev" using that by (intro append_butlast_last_id) auto
  with 1 show ?case by (subst rebalance.simps) (auto simp flip: append_assoc)
qed

lemma visible_concat: "visible (concat ss) = concat (map visible ss)"
  by (induction ss) auto

lemma visible_full: "visible (concat (map with_line_end (filter (\<lambda>p. TrimSpace p \<noteq> []) parts))) = visible (concat parts)"
proof (induction parts)
  case (Cons p parts)
  have "visible (with_line_end p) = visible p" by (simp add: with_line_end_def is_space_def [of "CHR 0x0A"])
  with Cons TrimSpace_empty [of p] show ?case by simp
qed simp

lemma concat_concat: "concat (map concat xss) = concat (concat xss)"
  by (induction xss) auto

lemma visible_units: "visible (concat (concat (map splitCSSUnits parts))) = visible (concat parts)"
  by (induction parts) (auto simp: splitCSSUnits_def visible_split_units)

lemma last_two: "1 < length xs \<Longrightarrow> xs = butlast (butlast xs) @ [last (butlast xs), last xs]"
  by (metis append.assoc append_Cons append_Nil append_butlast_last_id length_butlast length_greater_0_conv
      less_numeral_extra(3) list.size(3) not_less_zero zero_less_diff)

text \<open>Cutting styles into chunks loses nothing and moves nothing: whatever the limits, the chunks one
  after the other hold the same visible characters in the same order as the parts they were made of.\<close>

theorem css_chunks_complete:
  "visible (concat (buildCSSChunks parts split mn mx)) = visible (concat parts)"
proof -
  let ?full = "concat (map with_line_end (filter (\<lambda>p. TrimSpace p \<noteq> []) parts))"
  let ?units = "concat (map splitCSSUnits parts)"
  obtain minSize maxSize where l: "css_limits mn mx = (minSize, maxSize)" by fastforce
  let ?chunks = "pack maxSize [] ?units"
  have packed: "visible (concat (concat ?chunks)) = visible (concat parts)" by (simp add: concat_pack visible_units)
  have "visible (concat (concat (butlast (butlast ?chunks) @ rebalance minSize maxSize (last (butlast ?chunks)) (last ?chunks)))) = visible (concat parts)"
    if "1 < length ?chunks"
  proof -
    have "concat (butlast (butlast ?chunks) @ rebalance minSize maxSize (last (butlast ?chunks)) (last ?chunks)) = concat ?chunks"
      using arg_cong [OF last_two [OF that], of concat] by (simp add: concat_rebalance)
    with packed show ?thesis by simp
  qed
  with packed visible_full [of parts] TrimSpace_empty [of ?full] l show ?thesis
    by (auto simp: buildCSSChunks_def Let_def concat_concat)
qed

lemma units_not_empty: "u \<in> set (split_units depth st part s) \<Longrightarrow> u \<noteq> []"
  by (induction depth st part s rule: split_units.induct) (auto simp: unit_line_def Let_def split: if_splits)

definition fits :: "int \<Rightarrow> string list \<Rightarrow> string list \<Rightarrow> bool" where
  "fits maxSize units c \<longleftrightarrow> set c \<subseteq> set units \<and> (int (length (concat c)) \<le> maxSize \<or> (\<exists>u. c = [u]))"

lemma pack_fits:
  assumes "\<forall>u\<in>set units. u \<noteq> []" "set us \<subseteq> set units" "current = [] \<or> fits maxSize units current"
  shows "\<forall>c\<in>set (pack maxSize current us). fits maxSize units c"
  using assms(2,3)
proof (induction us arbitrary: current)
  case (Cons u us)
  have u: "fits maxSize units [u]" using Cons.prems by (auto simp: fits_def)
  show ?case
  proof (cases "0 < length (concat current) \<and> maxSize < int (length (concat current) + length u)")
    case True
    with Cons u show ?thesis by auto
  next
    case False
    have "current = [] \<or> 0 < length (concat current)" using Cons.prems(2) assms(1) by (cases current) (auto simp: fits_def)
    with False u Cons.prems have "fits maxSize units (current @ [u])" by (auto simp: fits_def)
    with False Cons.IH Cons.prems u show ?thesis by auto
  qed
qed auto

lemma fits_butlast: "fits maxSize units c \<Longrightarrow> 1 < length c \<Longrightarrow> fits maxSize units (butlast c)"
  by (cases c rule: rev_cases) (auto simp: fits_def)

lemma rebalance_fits:
  assumes "fits maxSize units prev" "fits maxSize units final"
  shows "\<forall>c\<in>set (rebalance minSize maxSize prev final). fits maxSize units c"
  using assms
proof (induction minSize maxSize prev final rule: rebalance.induct)
  case (1 mn mx prev final)
  show ?case
  proof (cases "1 < length prev \<and> int (length (concat final)) < mn \<and>
      \<not> (mx < int (length (concat final) + length (last prev)) \<or> int (length (concat prev)) - int (length (last prev)) < mn)")
    case True
    then have "last prev \<in> set prev" by (intro last_in_set) auto
    with True "1.prems" have "fits mx units (last prev # final)" by (auto simp: fits_def)
    moreover have "rebalance mn mx prev final = rebalance mn mx (butlast prev) (last prev # final)"
      using True by (subst rebalance.simps) (rule if_P)
    ultimately show ?thesis using "1.IH" True "1.prems"(1) fits_butlast [of mx units prev] by simp
  next
    case False
    then have "rebalance mn mx prev final = [prev, final]" by (subst rebalance.simps) (rule if_not_P)
    with "1.prems" show ?thesis by simp
  qed
qed

text \<open>Chunks are small: when styles are split, every chunk keeps to the maximum (at least the minimum, with
  the defaults for limits that are not positive), or it is one rule that cannot be divided, or no rule
  was found at all.\<close>

theorem css_chunk_size:
  assumes "chunk \<in> set (buildCSSChunks parts True mn mx)"
  shows "int (length chunk) \<le> snd (css_limits mn mx) \<or> chunk \<in> set (concat (map splitCSSUnits parts))
    \<or> concat (map splitCSSUnits parts) = []"
proof -
  obtain minSize maxSize where l: "css_limits mn mx = (minSize, maxSize)" by fastforce
  let ?units = "concat (map splitCSSUnits parts)"
  let ?chunks = "pack maxSize [] ?units"
  have ne: "\<forall>u\<in>set ?units. u \<noteq> []" by (auto simp: splitCSSUnits_def dest: units_not_empty)
  have p: "\<forall>c\<in>set ?chunks. fits maxSize ?units c" by (rule pack_fits [OF ne]) auto
  have r: "\<forall>c\<in>set (butlast (butlast ?chunks) @ rebalance minSize maxSize (last (butlast ?chunks)) (last ?chunks)). fits maxSize ?units c"
    if "1 < length ?chunks"
  proof -
    have s: "set ?chunks = set (butlast (butlast ?chunks)) \<union> {last (butlast ?chunks), last ?chunks}"
      using arg_cong [OF last_two [OF that], of set] by simp
    with p have "\<forall>c\<in>set (rebalance minSize maxSize (last (butlast ?chunks)) (last ?chunks)). fits maxSize ?units c"
      by (intro rebalance_fits) auto
    with p s show ?thesis by auto
  qed
  have small: "int (length (concat c)) \<le> maxSize \<or> concat c \<in> set ?units" if "fits maxSize ?units c" for c
    using that by (auto simp: fits_def)
  from assms l p r show ?thesis
    by (auto simp: buildCSSChunks_def Let_def dest!: small split: if_splits)
qed

section \<open>Style attributes\<close>

definition isHTMLSpace :: "char \<Rightarrow> bool" where
  "isHTMLSpace c \<longleftrightarrow> c = CHR '' '' \<or> c = CHR 0x09 \<or> c = CHR 0x0D \<or> c = CHR 0x0A"

definition isHTMLNameChar :: "char \<Rightarrow> bool" where
  "isHTMLNameChar c \<longleftrightarrow> letter c \<or> is_digit c \<or> c = CHR ''-'' \<or> c = CHR ''_'' \<or> c = CHR '':''"

definition equalFoldASCIIWord :: "string \<Rightarrow> string \<Rightarrow> bool" where
  "equalFoldASCIIWord value word \<longleftrightarrow> map lower_char value = word"

definition assigned :: "string \<Rightarrow> bool" where
  "assigned s = (case dropWhile isHTMLSpace s of [] \<Rightarrow> False | c # r \<Rightarrow> c = CHR ''='')"

text \<open>\<open>before\<close> is the character before the rest that is looked at, if there is one.\<close>

fun has_attribute :: "string \<Rightarrow> (char option \<Rightarrow> bool) \<Rightarrow> char option \<Rightarrow> string \<Rightarrow> bool" where
  "has_attribute word allowed before [] = False"
| "has_attribute word allowed before (c # s) =
     ((5 < length (c # s) \<and> equalFoldASCIIWord (take 5 (c # s)) word \<and> allowed before \<and> assigned (drop 5 (c # s)))
      \<or> has_attribute word allowed (Some c) s)"

definition hasHTMLNonceAttribute :: "string \<Rightarrow> bool" where
  "hasHTMLNonceAttribute tag =
     has_attribute ''nonce'' (\<lambda>b. case b of None \<Rightarrow> True | Some c \<Rightarrow> \<not> isHTMLNameChar c) None tag"

definition hasInlineStyleAttribute :: "string \<Rightarrow> bool" where
  "hasInlineStyleAttribute markup =
     has_attribute ''style'' (\<lambda>b. case b of None \<Rightarrow> False | Some c \<Rightarrow> isHTMLSpace c) None markup"

definition css_name_char :: "char \<Rightarrow> bool" where
  "css_name_char c \<longleftrightarrow> letter c \<or> is_digit c \<or> c = CHR ''-''"

definition cssDeclarationName :: "string \<Rightarrow> bool" where
  "cssDeclarationName name \<longleftrightarrow>
     (HasPrefix name ''--'' \<and> drop 2 name \<noteq> [] \<and> list_all (\<lambda>c. css_name_char c \<or> c = CHR ''_'') (drop 2 name)) \<or>
     (let n = TrimPrefix name ''-'' in n \<noteq> [] \<and> letter (hd n) \<and> list_all css_name_char (tl n))"

definition unsafe_style_value :: "string \<Rightarrow> bool" where
  "unsafe_style_value raw \<longleftrightarrow>
     (let lower = ToLower raw
      in list_ex (\<lambda>c. c \<in> {CHR ''{'', CHR ''}'', CHR ''<'', CHR ''>''}) raw \<or> Contains lower ''expression('' \<or>
         Contains lower ''javascript:'' \<or> Contains lower ''-moz-binding'' \<or> Contains lower ''behavior:'')"

text \<open>One declaration: \<open>Some []\<close> when it is skipped, \<open>None\<close> when it spoils the attribute.\<close>

definition safe_declaration :: "string \<Rightarrow> string list option" where
  "safe_declaration d =
     (let (name0, raw0, found) = (case Cut d '':'' of None \<Rightarrow> (d, [], False) | Some (a, b) \<Rightarrow> (a, b, True));
          name = TrimSpace name0; raw = TrimSpace raw0
      in if name = [] \<and> raw = [] then Some []
         else if \<not> found \<or> \<not> cssDeclarationName name \<or> raw = [] then None
         else if unsafe_style_value raw then None
         else Some [name @ '':'' @ raw])"

fun safe_declarations :: "string list \<Rightarrow> string list option" where
  "safe_declarations [] = Some []"
| "safe_declarations (d # ds) =
     (case safe_declaration d of None \<Rightarrow> None | Some x \<Rightarrow> map_option ((@) x) (safe_declarations ds))"

definition safeStyleDeclarations :: "string \<Rightarrow> string option" where
  "safeStyleDeclarations s = map_option (\<lambda>ds. Join ds '';'') (safe_declarations (Split (CHR '';'') s))"

lemma css_name_char_cases: "css_name_char c \<or> c = CHR ''_'' \<Longrightarrow> \<not> is_space c \<and> c \<noteq> CHR '';'' \<and> c \<noteq> CHR '':''"
  by (auto simp: css_name_char_def letter_def is_digit_def is_space_def Let_def)

lemma css_name_chars:
  assumes "cssDeclarationName n" "c \<in> set n"
  shows "css_name_char c \<or> c = CHR ''_''"
proof -
  consider "HasPrefix n ''--''" "list_all (\<lambda>c. css_name_char c \<or> c = CHR ''_'') (drop 2 n)"
    | "TrimPrefix n ''-'' \<noteq> []" "letter (hd (TrimPrefix n ''-''))" "list_all css_name_char (tl (TrimPrefix n ''-''))"
    using assms(1) by (auto simp: cssDeclarationName_def Let_def)
  then show ?thesis
  proof cases
    case 1
    then obtain r where "n = ''--'' @ r" by (auto simp: HasPrefix_iff)
    with 1 assms(2) show ?thesis by (auto simp: list_all_iff css_name_char_def)
  next
    case 2
    then obtain a r where ar: "TrimPrefix n ''-'' = a # r" "letter a" "list_all css_name_char r" by (cases "TrimPrefix n ''-''") auto
    then have "n = a # r \<or> n = ''-'' @ a # r" by (auto simp: TrimPrefix_def HasPrefix_iff split: if_splits)
    with ar assms(2) show ?thesis by (auto simp: list_all_iff css_name_char_def)
  qed
qed

lemma css_name_plain:
  assumes "cssDeclarationName n"
  shows "n \<noteq> []" "TrimSpace n = n" "CHR '':'' \<notin> set n" "CHR '';'' \<notin> set n"
    "list_all (\<lambda>c. c \<notin> {CHR ''{'', CHR ''}'', CHR ''<'', CHR ''>''}) n"
proof -
  show ne: "n \<noteq> []" using assms by (auto simp: cssDeclarationName_def TrimPrefix_def HasPrefix_def Let_def)
  have c: "css_name_char c \<or> c = CHR ''_''" if "c \<in> set n" for c using css_name_chars [OF assms that] .
  show "CHR '':'' \<notin> set n" "CHR '';'' \<notin> set n" using c css_name_char_cases by blast+
  show "TrimSpace n = n" using c [OF hd_in_set [OF ne]] c [OF last_in_set [OF ne]] css_name_char_cases by (simp add: TrimSpace_iff)
  show "list_all (\<lambda>c. c \<notin> {CHR ''{'', CHR ''}'', CHR ''<'', CHR ''>''}) n"
    unfolding list_all_iff
  proof
    fix x assume "x \<in> set n"
    from c [OF this] show "x \<notin> {CHR ''{'', CHR ''}'', CHR ''<'', CHR ''>''}"
      by (auto simp: css_name_char_def letter_def is_digit_def Let_def)
  qed
qed

lemma TrimSpace_idem: "TrimSpace (TrimSpace s) = TrimSpace s"
proof -
  let ?l = "dropWhile is_space s"
  let ?t = "rev (dropWhile is_space (rev ?l))"
  have "\<not> is_space (last ?t)" if "?t \<noteq> []" using that hd_dropWhile [of is_space "rev ?l"] by (simp add: last_rev)
  moreover have "\<not> is_space (hd ?t)" if "?t \<noteq> []"
  proof -
    have l: "?l = ?t @ rev (takeWhile is_space (rev ?l))"
      by (metis rev_append rev_rev_ident takeWhile_dropWhile_id)
    with that have "hd ?t = hd ?l" by (metis hd_append2)
    moreover have "?l \<noteq> []" using that by (metis dropWhile.simps(1) rev.simps(1))
    ultimately show ?thesis using hd_dropWhile [of is_space s] by simp
  qed
  ultimately have "TrimSpace ?t = ?t" by (auto simp: TrimSpace_iff)
  then show ?thesis by (simp add: TrimSpace_def trim_left_where_def trim_right_where_def)
qed

lemma set_TrimSpace: "set (TrimSpace s) \<subseteq> set s"
proof
  fix c assume "c \<in> set (TrimSpace s)"
  then have "c \<in> set (dropWhile is_space (rev (dropWhile is_space s)))" by (simp add: TrimSpace_def trim_left_where_def trim_right_where_def)
  then have "c \<in> set (dropWhile is_space s)" by (metis set_dropWhileD set_rev)
  then show "c \<in> set s" by (rule set_dropWhileD)
qed

definition stable_declaration :: "string \<Rightarrow> bool" where
  "stable_declaration d \<longleftrightarrow> safe_declaration d = Some [d] \<and> CHR '';'' \<notin> set d
    \<and> list_all (\<lambda>c. c \<notin> {CHR ''{'', CHR ''}'', CHR ''<'', CHR ''>''}) d"

lemma safe_declaration_stable:
  assumes "safe_declaration d = Some x" "CHR '';'' \<notin> set d"
  shows "list_all stable_declaration x"
proof (cases "x = []")
  case False
  show ?thesis
  proof (cases "Cut d '':''")
    case None
    with False assms(1) show ?thesis by (auto simp: safe_declaration_def Let_def split: if_splits)
  next
    case (Some ab)
    obtain a raw0 where ab: "ab = (a, raw0)" by fastforce
    define name where "name = TrimSpace a"
    have x: "x = [name @ '':'' @ TrimSpace raw0]" and n: "cssDeclarationName name"
      and raw: "TrimSpace raw0 \<noteq> []" "\<not> unsafe_style_value (TrimSpace raw0)"
      using False assms(1) Some ab by (auto simp: name_def safe_declaration_def Let_def split: if_splits)
    have s: "set raw0 \<subseteq> set d" using Cut_Some [OF Some [unfolded ab]] by auto
    have semi: "CHR '';'' \<notin> set (TrimSpace raw0)" using s assms(2) set_TrimSpace [of raw0] by blast
    have "Cut (name @ CHR '':'' # TrimSpace raw0) '':'' = Some (name, TrimSpace raw0)" using css_name_plain [OF n] by (simp add: Cut_char)
    then have "safe_declaration (name @ '':'' @ TrimSpace raw0) = Some [name @ '':'' @ TrimSpace raw0]"
      using css_name_plain [OF n] n raw by (simp add: safe_declaration_def TrimSpace_idem)
    moreover have "list_all (\<lambda>c. c \<notin> {CHR ''{'', CHR ''}'', CHR ''<'', CHR ''>''}) (TrimSpace raw0)"
      using raw(2) by (auto simp: unsafe_style_value_def Let_def list_ex_iff list_all_iff)
    ultimately show ?thesis using css_name_plain [OF n] semi x by (simp add: stable_declaration_def)
  qed
qed simp

lemma safe_declarations_stable:
  "safe_declarations ds = Some xs \<Longrightarrow> list_all (\<lambda>d. CHR '';'' \<notin> set d) ds \<Longrightarrow> list_all stable_declaration xs"
proof (induction ds arbitrary: xs)
  case (Cons d ds)
  then obtain x ys where "safe_declaration d = Some x" "safe_declarations ds = Some ys" "xs = x @ ys" by (auto split: option.splits)
  with Cons safe_declaration_stable [of d x] show ?case by simp
qed simp

lemma stable_declarations: "list_all stable_declaration xs \<Longrightarrow> safe_declarations xs = Some xs"
  by (induction xs) (auto simp: stable_declaration_def)

lemma safe_style_parts:
  assumes "safeStyleDeclarations s = Some t"
  obtains xs where "t = Join xs '';''" "list_all stable_declaration xs"
proof -
  from assms obtain xs where xs: "safe_declarations (Split (CHR '';'') s) = Some xs" "t = Join xs '';''"
    by (auto simp: safeStyleDeclarations_def)
  moreover have "list_all (\<lambda>d. CHR '';'' \<notin> set d) (Split (CHR '';'') s)" by (auto simp: list_all_iff dest: Split_no_sep)
  ultimately show thesis using that safe_declarations_stable by blast
qed

text \<open>Filtering the declarations of a style attribute is stable: what the filter lets through, it lets
  through unchanged when it is filtered again, so a rule never depends on how often markup passed.\<close>

theorem safe_style_stable:
  assumes "safeStyleDeclarations s = Some t"
  shows "safeStyleDeclarations t = Some t"
proof -
  from assms obtain xs where xs: "t = Join xs '';''" "list_all stable_declaration xs" by (rule safe_style_parts)
  show ?thesis
  proof (cases "xs = []")
    case True
    with xs show ?thesis by (simp add: safeStyleDeclarations_def safe_declaration_def Cut_def TrimSpace_def trim_left_where_def trim_right_where_def)
  next
    case False
    then have "Split (CHR '';'') t = xs" unfolding xs(1) using xs(2) by (intro Split_Join) (auto simp: list_all_iff stable_declaration_def)
    with xs stable_declarations [of xs] show ?thesis by (simp add: safeStyleDeclarations_def)
  qed
qed

theorem safe_style_stable_witness:
  "safeStyleDeclarations ''color:red;width:1px'' = Some ''color:red;width:1px''"
  by (rule safe_style_stable [of "'' color : red ;; width: 1px;''"]) code_simp

text \<open>No text of a style attribute can end the rule that it becomes part of, or the style element.\<close>

lemma safe_style_enclosed:
  assumes "safeStyleDeclarations s = Some t"
  shows "c \<in> set t \<Longrightarrow> c \<notin> {CHR ''{'', CHR ''}'', CHR ''<'', CHR ''>''}"
proof -
  from assms obtain xs where xs: "t = Join xs '';''" "list_all stable_declaration xs" by (rule safe_style_parts)
  then have "set t \<subseteq> (\<Union>p\<in>set xs. set p) \<union> {CHR '';''}" using set_Join [of xs "'';''"] by simp
  moreover assume "c \<in> set t"
  ultimately show ?thesis using xs(2) by (auto simp: list_all_iff stable_declaration_def)
qed

text \<open>The blocked features are looked for in the value, where a property name never is.\<close>

lemma binding_property_passes:
  "safeStyleDeclarations ''behavior:url(x.htc);-moz-binding:url(y)'' = Some ''behavior:url(x.htc);-moz-binding:url(y)''"
  by code_simp

section \<open>Style attributes become rules\<close>

text \<open>White space of the regular expressions.\<close>

definition re_space :: "char \<Rightarrow> bool" where
  "re_space c \<longleftrightarrow> c = CHR '' '' \<or> c = CHR 0x09 \<or> c = CHR 0x0A \<or> c = CHR 0x0C \<or> c = CHR 0x0D"

text \<open>The letter s without regard to case, which folds to the long s as well.\<close>

fun strip_s :: "string \<Rightarrow> string option" where
  "strip_s [] = None"
| "strip_s (c # s) =
     (if lower_char c = CHR ''s'' then Some s
      else if c = CHR 0xC5 \<and> s \<noteq> [] \<and> hd s = CHR 0xBF then Some (tl s) else None)"

text \<open>A match at the front: the value and what follows it.\<close>

definition style_match :: "string \<Rightarrow> (string \<times> string) option" where
  "style_match s =
     (case s of [] \<Rightarrow> None
      | c # r \<Rightarrow>
        if \<not> re_space c then None
        else case strip_s r of None \<Rightarrow> None
        | Some r1 \<Rightarrow>
          if \<not> equalFoldASCIIWord (take 4 r1) ''tyle'' then None
          else case dropWhile re_space (drop 4 r1) of [] \<Rightarrow> None
          | e # r2 \<Rightarrow>
            if e \<noteq> CHR ''='' then None
            else case dropWhile re_space r2 of [] \<Rightarrow> None
            | q # r3 \<Rightarrow>
              if q \<noteq> CHR 0x22 then None
              else case dropWhile (\<lambda>c. c \<noteq> CHR 0x22) r3 of [] \<Rightarrow> None
              | _ # r4 \<Rightarrow> Some (takeWhile (\<lambda>c. c \<noteq> CHR 0x22) r3, r4))"

lemma length_dropWhile_Cons: "dropWhile P s = c # r \<Longrightarrow> length r < length s"
  using length_dropWhile_le [of P s] by simp

lemma strip_s_length: "strip_s s = Some r \<Longrightarrow> length r < length s"
  by (cases s) (auto split: if_splits)

lemma style_match_length: "style_match s = Some (v, r) \<Longrightarrow> length r < length s"
  unfolding style_match_def
  by (auto split: list.splits if_splits option.splits dest!: length_dropWhile_Cons strip_s_length)

text \<open>The new markup and the rules in the order in which they were met; \<open>hash\<close> is the code's \<^verbatim>\<open>hashText\<close>
  and \<open>unescape\<close> is \<^verbatim>\<open>html.UnescapeString\<close>.\<close>

function replace_styles :: "(string \<Rightarrow> string) \<Rightarrow> (string \<Rightarrow> string) \<Rightarrow> string \<Rightarrow> string \<times> (string \<times> string) list" where
  "replace_styles hash unescape s =
     (case style_match s of
        Some (v, r) \<Rightarrow>
          let (out, rules) = replace_styles hash unescape r
          in (case safeStyleDeclarations (unescape v) of
                None \<Rightarrow> (out, rules)
              | Some d \<Rightarrow>
                  if d = [] then (out, rules)
                  else let sid = ''s'' @ take 12 (hash d)
                    in ('' data-gosh-style='' @ [CHR 0x22] @ sid @ [CHR 0x22] @ out, (sid, d) # rules))
      | None \<Rightarrow> (case s of [] \<Rightarrow> ([], [])
                  | c # r \<Rightarrow> let (out, rules) = replace_styles hash unescape r in (c # out, rules)))"
  by pat_completeness auto
termination by (relation "measure (\<lambda>(h, u, s). length s)") (auto dest: style_match_length)

declare replace_styles.simps [simp del]

text \<open>The table of rules, a later one with the same name replacing an earlier one, in the order of names.\<close>

definition style_rules :: "(string \<times> string) list \<Rightarrow> string" where
  "style_rules rules =
     concat (map (\<lambda>i. ''[data-gosh-style='' @ [CHR 0x22] @ i @ [CHR 0x22] @ '']{'' @ the (map_of (rev rules) i) @ ''}'')
       (sort (remdups (map fst rules))))"

fun drop_comments_fuel :: "nat \<Rightarrow> string \<Rightarrow> string" where
  "drop_comments_fuel 0 s = s"
| "drop_comments_fuel (Suc n) s =
     (case Cut s ''/*'' of None \<Rightarrow> s
      | Some (a, b) \<Rightarrow> case Cut b ''*/'' of None \<Rightarrow> s | Some (_, r) \<Rightarrow> a @ drop_comments_fuel n r)"

definition css_mark :: "char \<Rightarrow> bool" where
  "css_mark c \<longleftrightarrow> c = CHR ''{'' \<or> c = CHR ''}'' \<or> c = CHR '':'' \<or> c = CHR '';'' \<or> c = CHR '','' \<or> c = CHR ''>''"

text \<open>White space around the marks: \<open>after\<close> says that a mark was just written.\<close>

fun squeeze :: "bool \<Rightarrow> string \<Rightarrow> string" where
  "squeeze after [] = []"
| "squeeze after (c # s) =
     (if css_mark c then c # squeeze True s
      else if re_space c \<and> (after \<or> (case dropWhile re_space s of [] \<Rightarrow> False | d # _ \<Rightarrow> css_mark d)) then squeeze after s
      else c # squeeze False s)"

definition minifyCSS :: "string \<Rightarrow> string" where
  "minifyCSS css =
     TrimSpace (ReplaceAll (squeeze False (Join (Fields (drop_comments_fuel (length css) css)) '' '')) '';}'' ''}'')"

definition nonceStylesForHTML :: "(string \<Rightarrow> string) \<Rightarrow> (string \<Rightarrow> string) \<Rightarrow> string \<Rightarrow> string \<times> string" where
  "nonceStylesForHTML hash unescape markup =
     (if \<not> hasInlineStyleAttribute markup then (markup, [])
      else let (out, rules) = replace_styles hash unescape markup
        in if rules = [] then (out, []) else (out, minifyCSS (style_rules rules)))"

text \<open>Attributes that are dropped can bring another one together, which nobody filtered.\<close>

lemma dropped_attribute_joins:
  "fst (nonceStylesForHTML (\<lambda>d. d) (\<lambda>v. v) (''<p x='' @ '' sty style='' @ [CHR 0x22] @ ''{'' @ [CHR 0x22] @ ''le='' @ [CHR 0x22] @ ''{}'' @ [CHR 0x22] @ ''>''))
     = ''<p x= style='' @ [CHR 0x22] @ ''{}'' @ [CHR 0x22] @ ''>''"
  by code_simp

text \<open>A descendant with a pseudo class is no longer one, and texts in quotes are pressed as well.\<close>

lemma minify_changes_selector: "minifyCSS ''nav :hover{color:red;}'' = ''nav:hover{color:red}''"
  by code_simp

lemma minify_changes_text:
  "minifyCSS (''a{content:'' @ [CHR 0x22] @ ''to : /* x */ b'' @ [CHR 0x22] @ ''}'') = ''a{content:'' @ [CHR 0x22] @ ''to:b'' @ [CHR 0x22] @ ''}''"
  by code_simp

section \<open>White space between tags\<close>

text \<open>The position of the end of the tag whose first character was read.\<close>

fun tag_end :: "char option \<Rightarrow> string \<Rightarrow> nat option" where
  "tag_end q [] = None"
| "tag_end (Some q) (c # s) = map_option Suc (tag_end (if c = q then None else Some q) s)"
| "tag_end None (c # s) =
     (if c = CHR 0x27 \<or> c = CHR 0x22 then map_option Suc (tag_end (Some c) s)
      else if c = CHR ''>'' then Some 0 else map_option Suc (tag_end None s))"

definition htmlTagName :: "string \<Rightarrow> string \<times> bool" where
  "htmlTagName source =
     (let s = TrimSpace source
      in if s = [] \<or> hd s = CHR ''!'' \<or> hd s = CHR ''?'' then ([], False)
         else let closing = (hd s = CHR ''/''); s' = (if closing then TrimSpace (tl s) else s)
           in (ToLower (takeWhile (\<lambda>c. \<not> (isHTMLSpace c \<or> c = CHR ''/'')) s'), closing))"

definition raw_tags :: "string list" where
  "raw_tags = [''pre'', ''script'', ''style'', ''textarea'']"

definition line_space :: "char \<Rightarrow> bool" where
  "line_space c \<longleftrightarrow> c = CHR 0x0D \<or> c = CHR 0x0A \<or> c = CHR 0x09"

text \<open>\<open>rawTag\<close> is the element whose text is copied, empty outside of one.\<close>

function compact :: "string \<Rightarrow> string \<Rightarrow> string \<Rightarrow> string" where
  "compact rawTag out [] = out"
| "compact rawTag out (c # r) =
     (if rawTag \<noteq> [] \<and> c = CHR ''<'' \<and> \<not> HasPrefix (ToLower (c # r)) (''</'' @ rawTag) then compact rawTag (out @ [c]) r
      else if c \<noteq> CHR ''<'' then
        (if line_space c then compact rawTag (if out \<noteq> [] \<and> last out \<noteq> CHR '' '' then out @ '' '' else out) r
         else compact rawTag (out @ [c]) r)
      else case tag_end None r of
        None \<Rightarrow> out @ c # r
      | Some k \<Rightarrow>
          let (tag, closing) = htmlTagName (take k r); out' = out @ c # take (Suc k) r; r' = drop (Suc k) r;
              raw' = (if closing \<and> tag = rawTag then [] else if \<not> closing \<and> tag \<in> set raw_tags then tag else rawTag)
          in if raw' \<noteq> [] then compact raw' out' r'
             else let r2 = dropWhile isHTMLSpace r'
               in if r2 \<noteq> r' \<and> r2 \<noteq> [] \<and> hd r2 = CHR ''<'' then compact [] out' r2 else compact [] out' r')"
  by pat_completeness auto
termination
  by (relation "measure (\<lambda>(rawTag, out, s). length s)")
    (auto simp: less_Suc_eq_le intro: le_trans [OF length_dropWhile_le])

declare compact.simps [simp del]

definition compactHTMLIntertagWhitespace :: "string \<Rightarrow> string" where
  "compactHTMLIntertagWhitespace document =
     (if \<not> list_ex line_space document then document else compact [] [] document)"

lemma visible_dropWhile_html: "visible (dropWhile isHTMLSpace s) = visible s"
  by (induction s) (auto simp: isHTMLSpace_def is_space_def)

lemma visible_compact: "visible (compact rawTag out s) = visible out @ visible s"
proof (induction "length s" arbitrary: rawTag out s rule: less_induct)
  case (less s)
  show ?case
  proof (cases s)
    case Nil
    then show ?thesis by (simp add: compact.simps)
  next
    case (Cons c r)
    have IH: "visible (compact raw o1 x) = visible o1 @ visible x" if "length x \<le> length r" for raw o1 x
      using less that Cons by simp
    have space: "is_space c" if "line_space c" using that by (auto simp: line_space_def is_space_def)
    have blank: "visible '' '' = []" by (simp add: is_space_def)
    consider (copied) "rawTag \<noteq> [] \<and> c = CHR ''<'' \<and> \<not> HasPrefix (ToLower (c # r)) (''</'' @ rawTag)"
      | (other) "c \<noteq> CHR ''<''"
      | (tag) "\<not> (rawTag \<noteq> [] \<and> c = CHR ''<'' \<and> \<not> HasPrefix (ToLower (c # r)) (''</'' @ rawTag))" "c = CHR ''<''"
      by blast
    then show ?thesis
    proof cases
      case copied
      then have "compact rawTag out (c # r) = compact rawTag (out @ [c]) r" by (subst compact.simps(2)) (rule if_P)
      with Cons IH [of r] show ?thesis by simp
    next
      case other
      then have "compact rawTag out (c # r) = (if line_space c then compact rawTag (if out \<noteq> [] \<and> last out \<noteq> CHR '' '' then out @ '' '' else out) r
         else compact rawTag (out @ [c]) r)" by (subst compact.simps(2)) simp
      with Cons IH [of r] space blank show ?thesis by simp
    next
      case tag
      show ?thesis
      proof (cases "tag_end None r")
        case None
        with tag have "compact rawTag out (c # r) = out @ c # r" by (subst compact.simps(2)) auto
        with Cons show ?thesis by simp
      next
        case (Some k)
        obtain name closing where t: "htmlTagName (take k r) = (name, closing)" by fastforce
        have split: "visible (take (Suc k) r) @ visible (drop (Suc k) r) = visible r"
          by (metis append_take_drop_id visible_simps(2))
        define raw' where "raw' = (if closing \<and> name = rawTag then [] else if \<not> closing \<and> name \<in> set raw_tags then name else rawTag)"
        define out' where "out' = out @ c # take (Suc k) r"
        define r' where "r' = drop (Suc k) r"
        define r2 where "r2 = dropWhile isHTMLSpace r'"
        have r2: "visible r2 = visible r'" by (simp add: r2_def visible_dropWhile_html)
        have le: "length r' \<le> length r" "length r2 \<le> length r" unfolding r2_def r'_def
          using length_dropWhile_le [of isHTMLSpace "drop (Suc k) r"] by simp_all
        have step: "compact rawTag out (c # r) =
            (if raw' \<noteq> [] then compact raw' out' r' else if r2 \<noteq> r' \<and> r2 \<noteq> [] \<and> hd r2 = CHR ''<'' then compact [] out' r2 else compact [] out' r')"
          using tag Some t unfolding raw'_def r2_def r'_def out'_def by (subst compact.simps(2)) (auto simp: Let_def)
        have all: "visible (compact rawTag out (c # r)) = visible out' @ visible r'"
          unfolding step using IH [OF le(1)] IH [OF le(2)] r2 by simp
        have "visible out' = visible out @ visible [c] @ visible (take (Suc k) r)" unfolding out'_def by simp
        then have "visible out' @ visible r' = visible out @ visible [c] @ visible r" using split by (simp add: r'_def)
        with all show ?thesis unfolding Cons by simp
      qed
    qed
  qed
qed

text \<open>Pressing the white space of a document takes nothing else away: the visible characters of the
  result are those of the document, in the same order, whatever its tags look like.\<close>

theorem compact_keeps_text: "visible (compactHTMLIntertagWhitespace document) = visible document"
  by (simp add: compactHTMLIntertagWhitespace_def visible_compact)

text \<open>The lines of preformatted text become one, and a line comment swallows the script after it.\<close>

lemma preformatted_lines_lost:
  "compactHTMLIntertagWhitespace (''<pre>a'' @ [CHR 0x0A] @ ''b</pre>'') = ''<pre>a b</pre>''"
  "compactHTMLIntertagWhitespace (''<script>// set'' @ [CHR 0x0A] @ ''x=1</script>'') = ''<script>// set x=1</script>''"
  by code_simp+

section \<open>Nonces\<close>

definition first_tag :: "string \<Rightarrow> (nat \<times> string) option" where
  "first_tag s =
     (case (Index s ''<script'', Index s ''<style'') of
        (None, None) \<Rightarrow> None
      | (Some i, None) \<Rightarrow> Some (i, ''script'')
      | (None, Some j) \<Rightarrow> Some (j, ''style'')
      | (Some i, Some j) \<Rightarrow> if j < i then Some (j, ''style'') else Some (i, ''script''))"

definition has_nonce :: "string \<Rightarrow> bool" where
  "has_nonce head \<longleftrightarrow> Contains head '' nonce='' \<or> Contains head ('' nonce'' @ [CHR 0x09] @ ''='')"

function add_nonce :: "string \<Rightarrow> string \<Rightarrow> string" where
  "add_nonce n s =
     (case first_tag s of None \<Rightarrow> s
      | Some (i, tag) \<Rightarrow>
          case Index (drop i s) ''>'' of None \<Rightarrow> s
          | Some e \<Rightarrow>
              let head = take (Suc e) (drop i s); prefix = CHR ''<'' # tag
              in take i s
                 @ (if \<not> has_nonce head then prefix @ '' nonce='' @ [CHR 0x22] @ n @ [CHR 0x22] @ TrimPrefix head prefix else head)
                 @ add_nonce n (drop (Suc e) (drop i s)))"
  by pat_completeness auto
termination by (relation "measure (\<lambda>(n, s). length s)") (auto dest: Index_Some)

declare add_nonce.simps [simp del]

definition addNonceToTrustedHTML :: "string \<Rightarrow> string \<Rightarrow> string" where
  "addNonceToTrustedHTML body nonce = (if nonce = [] \<or> body = [] then body else add_nonce (EscapeString nonce) body)"

text \<open>The heads of the tags that need a nonce.\<close>

function tag_heads :: "string \<Rightarrow> string list" where
  "tag_heads s =
     (case first_tag s of None \<Rightarrow> []
      | Some (i, tag) \<Rightarrow>
          case Index (drop i s) ''>'' of None \<Rightarrow> []
          | Some e \<Rightarrow> take (Suc e) (drop i s) # tag_heads (drop (Suc e) (drop i s)))"
  by pat_completeness auto
termination by (relation "measure length") (auto dest: Index_Some)

declare tag_heads.simps [simp del]

lemma first_tag_Nil [simp]: "first_tag [] = None"
  by (simp add: first_tag_def)

lemma first_tag_Cons:
  "first_tag (c # s) =
     (if HasPrefix (c # s) ''<script'' then Some (0, ''script'') else if HasPrefix (c # s) ''<style'' then Some (0, ''style'')
      else map_option (\<lambda>(i, t). (Suc i, t)) (first_tag s))"
  by (cases "Index s ''<script''"; cases "Index s ''<style''")
    (auto simp: first_tag_def HasPrefix_def)

lemma first_tag_SomeD:
  "first_tag s = Some (i, tag) \<Longrightarrow> tag \<in> {''script'', ''style''} \<and> i < length s \<and> HasPrefix (drop i s) (CHR ''<'' # tag)"
proof (induction s arbitrary: i)
  case (Cons c s)
  then show ?case by (auto simp: first_tag_Cons split: if_splits)
qed simp

lemma HasPrefix_inner:
  assumes "\<not> HasPrefix (c # u @ CHR ''<'' # v) (CHR ''<'' # w)" "CHR ''<'' \<notin> set w"
  shows "\<not> HasPrefix (c # u @ CHR ''<'' # v') (CHR ''<'' # w)"
proof
  assume "HasPrefix (c # u @ CHR ''<'' # v') (CHR ''<'' # w)"
  then obtain r where r: "c = CHR ''<''" "u @ CHR ''<'' # v' = w @ r" by (auto simp: HasPrefix_iff)
  have "length w \<le> length u"
  proof (rule ccontr)
    assume "\<not> length w \<le> length u"
    then have "(u @ CHR ''<'' # v') ! length u \<in> set w" using r(2) by (simp add: nth_append)
    with assms(2) show False by simp
  qed
  then have "take (length w) u = w" using arg_cong [OF r(2), of "take (length w)"] by simp
  with assms(1) r(1) \<open>length w \<le> length u\<close> show False by (simp add: HasPrefix_def)
qed

lemma first_tag_keep:
  "first_tag s = Some (i, tag) \<Longrightarrow> HasPrefix t (CHR ''<'' # tag) \<Longrightarrow> first_tag (take i s @ t) = Some (i, tag)"
proof (induction s arbitrary: i)
  case (Cons c s)
  obtain v' where t: "t = CHR ''<'' # v'" using Cons.prems(2) by (auto simp: HasPrefix_iff)
  show ?case
  proof (cases i)
    case 0
    have tags: "tag = ''script'' \<or> tag = ''style''" using Cons.prems(1) first_tag_SomeD [of "c # s"] by auto
    obtain w where w: "t = (CHR ''<'' # tag) @ w" using Cons.prems(2) by (auto simp: HasPrefix_iff)
    from tags show ?thesis
    proof
      assume "tag = ''script''"
      with w 0 show ?thesis by (simp add: first_tag_Cons HasPrefix_def)
    next
      assume "tag = ''style''"
      with w 0 show ?thesis by (simp add: first_tag_Cons HasPrefix_def)
    qed
  next
    case (Suc j)
    with Cons.prems(1) have s: "first_tag s = Some (j, tag)" and no: "\<not> HasPrefix (c # s) ''<script''" "\<not> HasPrefix (c # s) ''<style''"
      by (auto simp: first_tag_Cons split: if_splits)
    obtain v where "drop j s = CHR ''<'' # v" using first_tag_SomeD [OF s] by (auto simp: HasPrefix_iff)
    then have "s = take j s @ CHR ''<'' # v" by (metis append_take_drop_id)
    with no t have "\<not> HasPrefix (c # take j s @ t) ''<script''" "\<not> HasPrefix (c # take j s @ t) ''<style''"
      using HasPrefix_inner [of c "take j s" v "''script''" v'] HasPrefix_inner [of c "take j s" v "''style''" v'] by simp_all
    with Cons.IH [OF s Cons.prems(2)] Suc show ?thesis by (simp add: first_tag_Cons)
  qed
qed simp

lemma Index_char_split:
  "Index x [c] = Some e \<Longrightarrow> \<exists>h. x = h @ c # drop (Suc e) x \<and> c \<notin> set h \<and> length h = e"
proof (induction x arbitrary: e)
  case (Cons d x)
  show ?case
  proof (cases "d = c")
    case True
    with Cons.prems show ?thesis by (intro exI [of _ "[]"]) (simp add: HasPrefix_def)
  next
    case False
    with Cons.prems obtain f where f: "Index x [c] = Some f" "e = Suc f" by (cases "Index x [c]") (auto simp: HasPrefix_def)
    then obtain h where "x = h @ c # drop (Suc f) x" "c \<notin> set h" "length h = f" using Cons.IH by blast
    with f False show ?thesis by (intro exI [of _ "d # h"]) simp
  qed
qed simp

definition nonced_head :: "string \<Rightarrow> string \<Rightarrow> string \<Rightarrow> string" where
  "nonced_head n tag h =
     (if \<not> has_nonce (h @ ''>'') then (CHR ''<'' # tag) @ '' nonce='' @ [CHR 0x22] @ n @ [CHR 0x22] @ drop (Suc (length tag)) h else h)"

lemma add_nonce_none:
  "first_tag s = None \<or> (\<exists>i tag. first_tag s = Some (i, tag) \<and> Index (drop i s) ''>'' = None) \<Longrightarrow> add_nonce n s = s \<and> tag_heads s = []"
  by (subst add_nonce.simps, subst tag_heads.simps) auto

lemma tag_heads_step:
  assumes "first_tag s = Some (i, tag)" "drop i s = h @ CHR ''>'' # r" "CHR ''>'' \<notin> set h"
  shows "tag_heads s = (h @ ''>'') # tag_heads r"
  using assms by (subst tag_heads.simps) (simp add: Index_char)

lemma prefix_before: "HasPrefix (h @ c # r) p \<Longrightarrow> c \<notin> set p \<Longrightarrow> \<exists>k. h = p @ k"
proof (induction h arbitrary: p)
  case Nil
  then show ?case by (cases p) (auto simp: HasPrefix_def)
next
  case (Cons d h)
  then show ?case by (cases p) (auto simp: HasPrefix_def)
qed

lemma add_nonce_step:
  assumes "first_tag s = Some (i, tag)" "drop i s = h @ CHR ''>'' # r" "CHR ''>'' \<notin> set h"
  shows "add_nonce n s = take i s @ nonced_head n tag h @ CHR ''>'' # add_nonce n r"
proof -
  have tag: "CHR ''>'' \<notin> set (CHR ''<'' # tag)" "HasPrefix (h @ CHR ''>'' # r) (CHR ''<'' # tag)" using first_tag_SomeD [OF assms(1)] assms(2) by auto
  from prefix_before [OF tag(2,1)] obtain k where h: "h = (CHR ''<'' # tag) @ k" ..
  have trim: "TrimPrefix (h @ ''>'') (CHR ''<'' # tag) = drop (Suc (length tag)) h @ ''>''" unfolding h by (simp add: TrimPrefix_def HasPrefix_def)
  have parts: "Index (drop i s) ''>'' = Some (length h)" "take (Suc (length h)) (drop i s) = h @ ''>''" "drop (Suc (length h)) (drop i s) = r"
    unfolding assms(2) using assms(3) by (simp_all add: Index_char)
  show ?thesis by (subst add_nonce.simps) (simp add: assms(1) parts trim nonced_head_def Let_def del: drop_drop)
qed

lemma has_nonce_end: "has_nonce h \<Longrightarrow> has_nonce (h @ t)"
  by (auto simp: has_nonce_def Contains_iff) (metis append.assoc append_Cons append_Nil)+

lemma has_nonce_at: "has_nonce (a @ '' nonce='' @ b)"
  by (auto simp: has_nonce_def Contains_iff)

lemma nonced_head_facts:
  assumes "CHR ''>'' \<notin> set n" "CHR ''>'' \<notin> set h" "tag \<in> {''script'', ''style''}"
  shows "CHR ''>'' \<notin> set (nonced_head n tag h)" "has_nonce (nonced_head n tag h @ ''>'')"
proof -
  show "CHR ''>'' \<notin> set (nonced_head n tag h)" using assms by (auto simp: nonced_head_def dest: in_set_dropD)
  show "has_nonce (nonced_head n tag h @ ''>'')"
    using has_nonce_at [of "CHR ''<'' # tag" "CHR 0x22 # n @ CHR 0x22 # drop (Suc (length tag)) h @ ''>''"] by (simp add: nonced_head_def)
qed

lemma nonced_head_prefix: "h = (CHR ''<'' # tag) @ k \<Longrightarrow> HasPrefix (nonced_head n tag h @ r') (CHR ''<'' # tag)"
  by (simp add: nonced_head_def HasPrefix_def)

lemma add_nonce_heads: "CHR ''>'' \<notin> set n \<Longrightarrow> list_all has_nonce (tag_heads (add_nonce n s))"
proof (induction "length s" arbitrary: s rule: less_induct)
  case (less s)
  show ?case
  proof (cases "first_tag s = None \<or> (\<exists>i tag. first_tag s = Some (i, tag) \<and> Index (drop i s) ''>'' = None)")
    case True
    with add_nonce_none show ?thesis by simp
  next
    case False
    then obtain i tag where f: "first_tag s = Some (i, tag)" by (cases "first_tag s") auto
    with False obtain e where e: "Index (drop i s) ''>'' = Some e" by (cases "Index (drop i s) ''>''") simp_all
    from Index_char_split [OF e] obtain h r where hr: "drop i s = h @ CHR ''>'' # r" "CHR ''>'' \<notin> set h" by blast
    note tag = first_tag_SomeD [OF f]
    have "length r < length (drop i s)" using hr by simp
    then have IH: "list_all has_nonce (tag_heads (add_nonce n r))" using less by simp
    have "HasPrefix (h @ CHR ''>'' # r) (CHR ''<'' # tag)" "CHR ''>'' \<notin> set (CHR ''<'' # tag)" using tag hr by auto
    from prefix_before [OF this] obtain k where k: "h = (CHR ''<'' # tag) @ k" ..
    define h' where "h' = nonced_head n tag h"
    define out where "out = add_nonce n s"
    have out: "out = take i s @ h' @ CHR ''>'' # add_nonce n r" unfolding out_def h'_def by (rule add_nonce_step [OF f hr])
    have h': "CHR ''>'' \<notin> set h'" "has_nonce (h' @ ''>'')"
      unfolding h'_def using nonced_head_facts [of n h tag] less.prems hr(2) tag by simp_all
    have "HasPrefix (h' @ CHR ''>'' # add_nonce n r) (CHR ''<'' # tag)" unfolding h'_def by (rule nonced_head_prefix [OF k])
    from first_tag_keep [OF f this] have first: "first_tag out = Some (i, tag)" by (simp add: out)
    have "drop i out = h' @ CHR ''>'' # add_nonce n r" using tag by (simp add: out)
    from tag_heads_step [OF first this h'(1)] h'(2) IH show ?thesis by (simp add: out_def)
  qed
qed

lemma EscapeString_no_gt: "CHR ''>'' \<notin> set (EscapeString s)"
  by (auto simp: EscapeString_def escape_char_def split: if_splits)

text \<open>After \<open>addNonceToTrustedHTML\<close> every script and style tag carries a nonce: each tag that the scan
  finds in the result has one in its head, whatever the markup was.\<close>

theorem trusted_tags_nonced:
  assumes "nonce \<noteq> []"
  shows "list_all has_nonce (tag_heads (addNonceToTrustedHTML body nonce))"
proof (cases "body = []")
  case True
  then show ?thesis by (simp add: addNonceToTrustedHTML_def tag_heads.simps)
next
  case False
  with assms add_nonce_heads [OF EscapeString_no_gt] show ?thesis by (simp add: addNonceToTrustedHTML_def)
qed

theorem trusted_tags_nonced_witness:
  "tag_heads (addNonceToTrustedHTML ''<script src=x></script>'' ''n'') \<noteq> []
   \<and> list_all has_nonce (tag_heads (addNonceToTrustedHTML ''<script src=x></script>'' ''n''))"
proof
  show "tag_heads (addNonceToTrustedHTML ''<script src=x></script>'' ''n'') \<noteq> []" by code_simp
  show "list_all has_nonce (tag_heads (addNonceToTrustedHTML ''<script src=x></script>'' ''n''))" by (rule trusted_tags_nonced) simp
qed

text \<open>The scan looks for the words anywhere in a head, and for tags in small letters only.\<close>

lemma nonce_in_title_counts:
  "addNonceToTrustedHTML (''<script title='' @ [CHR 0x22] @ ''a nonce='' @ [CHR 0x22] @ ''>'') ''n''
     = ''<script title='' @ [CHR 0x22] @ ''a nonce='' @ [CHR 0x22] @ ''>''"
  "addNonceToTrustedHTML ''<SCRIPT>x</SCRIPT>'' ''n'' = ''<SCRIPT>x</SCRIPT>''"
  by code_simp+

section \<open>Registered styles\<close>

record style_tables =
  finalCSS :: "(string \<times> string) list"
  styles :: "(string \<times> string) list"

definition registerStyle :: "(string \<Rightarrow> string) \<Rightarrow> string \<Rightarrow> style_tables \<Rightarrow> string \<times> style_tables" where
  "registerStyle hash css st =
     (if TrimSpace css = [] then ([], st)
      else let css' = minifyCSS css; rawID = hash css';
               processed = (case map_of (finalCSS st) rawID of Some p \<Rightarrow> p | None \<Rightarrow> css');
               st1 = (case map_of (finalCSS st) rawID of Some _ \<Rightarrow> st | None \<Rightarrow> st\<lparr>finalCSS := AList.update rawID css' (finalCSS st)\<rparr>);
               sid = hash processed
        in (''/_gosh/style/'' @ sid @ ''.css'', st1\<lparr>styles := AList.update sid processed (styles st1)\<rparr>))"

text \<open>Without collisions of the hash the address of a style leads to its text.\<close>

definition styles_ok :: "(string \<Rightarrow> string) \<Rightarrow> style_tables \<Rightarrow> bool" where
  "styles_ok hash st \<longleftrightarrow> list_all (\<lambda>(k, css). k = hash css) (finalCSS st) \<and> list_all (\<lambda>(k, css). k = hash css) (styles st)"

lemma list_all_update: "list_all P m \<Longrightarrow> P (k, v) \<Longrightarrow> list_all P (AList.update k v m)"
  by (induction m) auto

lemma list_all_lookup: "list_all P m \<Longrightarrow> map_of m k = Some v \<Longrightarrow> P (k, v)"
  by (auto simp: list_all_iff dest: map_of_SomeD)

lemma registerStyle_ok:
  assumes "styles_ok hash st"
  shows "styles_ok hash (snd (registerStyle hash css st))"
proof (cases "map_of (finalCSS st) (hash (minifyCSS css))")
  case None
  with assms show ?thesis by (simp add: registerStyle_def styles_ok_def Let_def list_all_update)
next
  case (Some p)
  with assms show ?thesis by (simp add: registerStyle_def styles_ok_def Let_def list_all_update)
qed

lemma registered_style_found:
  assumes "inj hash" "styles_ok hash st" "TrimSpace css \<noteq> []"
  shows "fst (registerStyle hash css st) = ''/_gosh/style/'' @ hash (minifyCSS css) @ ''.css''"
    and "map_of (styles (snd (registerStyle hash css st))) (hash (minifyCSS css)) = Some (minifyCSS css)"
proof -
  have "p = minifyCSS css" if "map_of (finalCSS st) (hash (minifyCSS css)) = Some p" for p
    using assms(1,2) list_all_lookup [OF _ that] by (auto simp: styles_ok_def dest: injD)
  with assms(3) show "fst (registerStyle hash css st) = ''/_gosh/style/'' @ hash (minifyCSS css) @ ''.css''"
    and "map_of (styles (snd (registerStyle hash css st))) (hash (minifyCSS css)) = Some (minifyCSS css)"
    by (auto simp: registerStyle_def Let_def split: option.splits)
qed

end
