(* ===== verification/WebPages.thy ===== *)
theory WebPages imports WebCache begin

text \<open>
  Rendered pages between the local cache, the cache shared by several instances, and the renderer
  (\<^verbatim>\<open>web_framework.go\<close>, \<^verbatim>\<open>renderPageCached\<close>): a step relation over concurrent requests, background updates,
  other instances and invalidations. A missing tag version counts as the version 0 that a read stores
  for it; an entry that cannot be decoded counts as none. \<open>W\<close> says that a shared cache is configured.
\<close>

section \<open>The shared cache\<close>

record 'r sharedRenderCacheEntry =
  se_Result :: "'r RenderResult"
  se_Stored :: int
  se_TagVersions :: "(string \<times> string) list"

record ('r, 'v, 'p) page_caches =
  routeCache :: "('r, 'v, 'p) renderCache"
  shared :: "(string \<times> 'r sharedRenderCacheEntry) list"
  versions :: "(string \<times> string) list"

definition tag_version :: "(string \<times> string) list \<Rightarrow> string \<Rightarrow> string" where
  "tag_version vs tag = (case map_of vs tag of Some v \<Rightarrow> v | None \<Rightarrow> ''0'')"

definition webCacheTagVersions :: "bool \<Rightarrow> (string \<times> string) list \<Rightarrow> string list \<Rightarrow> (string \<times> string) list" where
  "webCacheTagVersions W vs tgs =
     (if W then map (\<lambda>t. (t, tag_version vs t)) (remdups (filter (\<lambda>t. t \<noteq> []) tgs)) else [])"

definition versions_current :: "(string \<times> string) list \<Rightarrow> (string \<times> string) list \<Rightarrow> bool" where
  "versions_current vs tvs \<longleftrightarrow> list_all (\<lambda>(t, v). tag_version vs t = v) tvs"

definition localRenderCacheValid :: "bool \<Rightarrow> (string \<times> string) list \<Rightarrow> ('r, 'v, 'p) cacheEntry \<Rightarrow> bool" where
  "localRenderCacheValid W vs e \<longleftrightarrow> \<not> W \<or> versions_current vs (TagVersions e)"

definition sharedRenderGet ::
  "bool \<Rightarrow> string \<Rightarrow> int \<Rightarrow> int \<Rightarrow> int \<Rightarrow> ('r, 'v, 'p) page_caches \<Rightarrow> ('r RenderResult \<times> string) option" where
  "sharedRenderGet W key now ttl swr c =
     (if \<not> W then None
      else case map_of (shared c) key of None \<Rightarrow> None
      | Some e \<Rightarrow>
          if \<not> versions_current (versions c) (se_TagVersions e) then None
          else if now - se_Stored e < ttl * second then Some (se_Result e, ''shared-hit'')
          else if swr > 0 \<and> now - se_Stored e < (ttl + swr) * second then Some (se_Result e, ''shared-stale'')
          else None)"

definition sharedRenderSet ::
  "bool \<Rightarrow> string \<Rightarrow> int \<Rightarrow> 'r RenderResult \<Rightarrow> ('r, 'v, 'p) page_caches \<Rightarrow> ('r, 'v, 'p) page_caches" where
  "sharedRenderSet W key now result c =
     (if W then c\<lparr>shared := AList.update key
          \<lparr>se_Result = result, se_Stored = now, se_TagVersions = webCacheTagVersions W (versions c) (CacheTags result)\<rparr> (shared c)\<rparr>
      else c)"

definition invalidateSharedRenderTags :: "bool \<Rightarrow> string \<Rightarrow> string list \<Rightarrow> ('r, 'v, 'p) page_caches \<Rightarrow> ('r, 'v, 'p) page_caches" where
  "invalidateSharedRenderTags W stamp tgs c =
     (if W then c\<lparr>versions := fold (\<lambda>t vs. if t = [] then vs else AList.update t stamp vs) tgs (versions c)\<rparr> else c)"

definition setRouteCache ::
  "bool \<Rightarrow> (string list \<Rightarrow> string list) \<Rightarrow> int \<Rightarrow> string \<Rightarrow> 'r RenderResult \<Rightarrow> ('r, 'v, 'p) page_caches \<Rightarrow> ('r, 'v, 'p) page_caches" where
  "setRouteCache W iter now key result c =
     c\<lparr>routeCache := setWithTagVersions iter now key result (webCacheTagVersions W (versions c) (CacheTags result)) (routeCache c)\<rparr>"

section \<open>The look at the caches\<close>

definition page_ttl :: "(string \<times> RouteRule) list \<Rightarrow> web_request \<Rightarrow> int" where
  "page_ttl rules r = fst (routeTTL (fst (routeRule rules (w_path r))))"

definition page_swr :: "(string \<times> RouteRule) list \<Rightarrow> web_request \<Rightarrow> int" where
  "page_swr rules r = snd (routeTTL (fst (routeRule rules (w_path r))))"

definition page_static :: "(string \<times> RouteRule) list \<Rightarrow> web_request \<Rightarrow> bool" where
  "page_static rules r = PublicStatic (fst (routeRule rules (w_path r)))"

definition page_cached :: "(string \<times> RouteRule) list \<Rightarrow> web_request \<Rightarrow> bool" where
  "page_cached rules r \<longleftrightarrow>
     snd (routeRule rules (w_path r)) \<and> cacheablePageRequest r (page_static rules r) \<and> page_ttl rules r > 0"

definition local_entry :: "bool \<Rightarrow> string \<Rightarrow> ('r, 'v, 'p) page_caches \<Rightarrow> ('r, 'v, 'p) cacheEntry option" where
  "local_entry W key c =
     (case rc_get key (routeCache c) of
        None \<Rightarrow> None
      | Some e \<Rightarrow> if localRenderCacheValid W (versions c) e then Some e else None)"

definition shared_lookup ::
  "bool \<Rightarrow> (string list \<Rightarrow> string list) \<Rightarrow> (string \<times> RouteRule) list \<Rightarrow> web_request \<Rightarrow> int \<Rightarrow> ('r, 'v, 'p) page_caches \<Rightarrow>
     ('r RenderResult \<times> string \<times> bool) option \<times> ('r, 'v, 'p) page_caches" where
  "shared_lookup W iter rules r now c =
     (case sharedRenderGet W (webRouteCacheKey r) now (page_ttl rules r) (page_swr rules r) c of
        None \<Rightarrow> (None, c)
      | Some (res, state) \<Rightarrow>
          let c1 = setRouteCache W iter now (routeRenderCacheKey r) res c;
              (begun, rc) = (if state = ''shared-stale'' then beginRevalidate (routeRenderCacheKey r) (routeCache c1) else (False, routeCache c1))
          in (Some (res, state, begun), c1\<lparr>routeCache := rc\<rparr>))"

text \<open>The answer, the state it is labelled with and whether a background update starts.\<close>

definition render_lookup ::
  "bool \<Rightarrow> (string list \<Rightarrow> string list) \<Rightarrow> (string \<times> RouteRule) list \<Rightarrow> web_request \<Rightarrow> int \<Rightarrow> ('r, 'v, 'p) page_caches \<Rightarrow>
     ('r RenderResult \<times> string \<times> bool) option \<times> ('r, 'v, 'p) page_caches" where
  "render_lookup W iter rules r now c =
     (case local_entry W (routeRenderCacheKey r) c of
        None \<Rightarrow> shared_lookup W iter rules r now c
      | Some e \<Rightarrow>
          if now - Stored e < page_ttl rules r * second then (Some (Result e, ''hit'', False), c)
          else if page_swr rules r > 0 \<and> now - Stored e < (page_ttl rules r + page_swr rules r) * second then
            let (begun, rc) = beginRevalidate (routeRenderCacheKey r) (routeCache c)
            in (Some (Result e, ''stale'', begun), c\<lparr>routeCache := rc\<rparr>)
          else shared_lookup W iter rules r now c)"

text \<open>The look of a flight before it renders.\<close>

definition flight_hit :: "bool \<Rightarrow> (string \<times> RouteRule) list \<Rightarrow> web_request \<Rightarrow> int \<Rightarrow> ('r, 'v, 'p) page_caches \<Rightarrow> 'r RenderResult option" where
  "flight_hit W rules r now c =
     (case local_entry W (routeRenderCacheKey r) c of
        None \<Rightarrow> None
      | Some e \<Rightarrow> if now - Stored e < page_ttl rules r * second then Some (Result e) else None)"

definition store_rendered ::
  "bool \<Rightarrow> (string list \<Rightarrow> string list) \<Rightarrow> int \<Rightarrow> web_request \<Rightarrow> 'e + 'r RenderResult \<Rightarrow> ('r, 'v, 'p) page_caches \<Rightarrow> ('r, 'v, 'p) page_caches" where
  "store_rendered W iter now r out c =
     (case out of Inl e \<Rightarrow> c
      | Inr res \<Rightarrow> sharedRenderSet W (webRouteCacheKey r) now res (setRouteCache W iter now (routeRenderCacheKey r) res c))"

section \<open>Concurrent requests\<close>

record ('e, 'r) page_answer =
  pa_request :: web_request
  pa_state :: string
  pa_result :: "'e + 'r RenderResult"
  pa_now :: int

record ('e, 'r, 'v, 'p) page_run =
  pr_caches :: "('r, 'v, 'p) page_caches"
  pr_missed :: "web_request list"
  pr_flights :: "(string \<times> (web_request \<times> int) \<times> web_request list) list"
  pr_updates :: "web_request list"
  pr_answers :: "('e, 'r) page_answer list"
  pr_clock :: int

text \<open>The server takes path and address from the same request line.\<close>

definition asked :: "(string \<Rightarrow> string) \<Rightarrow> web_request \<Rightarrow> bool" where
  "asked path_of r \<longleftrightarrow> w_path r = path_of (w_uri r) \<and> w_uri r \<noteq> [] \<and> hd (w_uri r) = CHR ''/''"

definition reply :: "web_request list \<Rightarrow> string \<Rightarrow> 'e + 'r RenderResult \<Rightarrow> int \<Rightarrow> ('e, 'r, 'v, 'p) page_run \<Rightarrow> ('e, 'r, 'v, 'p) page_run" where
  "reply rs state out now s =
     s\<lparr>pr_answers := map (\<lambda>r. \<lparr>pa_request = r, pa_state = state, pa_result = out, pa_now = now\<rparr>) rs @ pr_answers s, pr_clock := now\<rparr>"

text \<open>
  The steps of \<^verbatim>\<open>renderPageCached\<close> between which other requests may run. \<open>H r t0 t1 out\<close> says that a
  rendering of \<open>r\<close> from \<open>t0\<close> to \<open>t1\<close> may end in \<open>out\<close>, an error or a result. \<open>Peer\<close> is another instance
  that stores its rendering, \<open>Invalidate\<close> an action of this instance or another one, \<open>Forget\<close> the end
  of an entry or of a tag's version in the shared cache.
\<close>

inductive page_step ::
  "(web_request \<Rightarrow> int \<Rightarrow> int \<Rightarrow> 'e + 'r RenderResult \<Rightarrow> bool) \<Rightarrow> bool \<Rightarrow> (string \<Rightarrow> string) \<Rightarrow> (string \<times> RouteRule) list \<Rightarrow>
     ('e, 'r, 'v, 'p) page_run \<Rightarrow> ('e, 'r, 'v, 'p) page_run \<Rightarrow> bool" for H W path_of rules where
  Direct: "\<not> page_cached rules r \<Longrightarrow> H r t0 now out \<Longrightarrow> pr_clock s \<le> now \<Longrightarrow>
     page_step H W path_of rules s (reply [r] ''bypass'' out now s)"
| Found: "asked path_of r \<Longrightarrow> page_cached rules r \<Longrightarrow> pr_clock s \<le> now \<Longrightarrow>
     render_lookup W iter rules r now (pr_caches s) = (Some (res, state, begun), c) \<Longrightarrow>
     page_step H W path_of rules s
       (reply [r] state (Inr res) now (s\<lparr>pr_caches := c, pr_updates := (if begun then r # pr_updates s else pr_updates s)\<rparr>))"
| Missed: "asked path_of r \<Longrightarrow> page_cached rules r \<Longrightarrow> pr_clock s \<le> now \<Longrightarrow>
     render_lookup W iter rules r now (pr_caches s) = (None, c) \<Longrightarrow>
     page_step H W path_of rules s (s\<lparr>pr_missed := r # pr_missed s, pr_clock := now\<rparr>)"
| Lead_found: "pr_missed s = ms1 @ r # ms2 \<Longrightarrow> pr_clock s \<le> now \<Longrightarrow> map_of (pr_flights s) (routeRenderCacheKey r) = None \<Longrightarrow>
     flight_hit W rules r now (pr_caches s) = Some res \<Longrightarrow>
     page_step H W path_of rules s (reply [r] ''miss'' (Inr res) now (s\<lparr>pr_missed := ms1 @ ms2\<rparr>))"
| Lead: "pr_missed s = ms1 @ r # ms2 \<Longrightarrow> pr_clock s \<le> now \<Longrightarrow> map_of (pr_flights s) (routeRenderCacheKey r) = None \<Longrightarrow>
     flight_hit W rules r now (pr_caches s) = None \<Longrightarrow>
     page_step H W path_of rules s
       (s\<lparr>pr_missed := ms1 @ ms2, pr_flights := (routeRenderCacheKey r, (r, now), []) # pr_flights s, pr_clock := now\<rparr>)"
| Join: "pr_missed s = ms1 @ r # ms2 \<Longrightarrow> pr_clock s \<le> now \<Longrightarrow> map_of (pr_flights s) (routeRenderCacheKey r) = Some (leader, waiting) \<Longrightarrow>
     page_step H W path_of rules s
       (s\<lparr>pr_missed := ms1 @ ms2, pr_flights := AList.update (routeRenderCacheKey r) (leader, r # waiting) (pr_flights s), pr_clock := now\<rparr>)"
| Finish: "map_of (pr_flights s) k = Some ((leader, t0), waiting) \<Longrightarrow> pr_clock s \<le> now \<Longrightarrow> H leader t0 now out \<Longrightarrow>
     page_step H W path_of rules s
       (reply (leader # waiting) ''miss'' out now
         (s\<lparr>pr_caches := store_rendered W iter now leader out (pr_caches s), pr_flights := AList.delete k (pr_flights s)\<rparr>))"
| Update: "pr_updates s = us1 @ r # us2 \<Longrightarrow> pr_clock s \<le> now \<Longrightarrow> H r t0 now out \<Longrightarrow> c = store_rendered W iter now r out (pr_caches s) \<Longrightarrow>
     page_step H W path_of rules s
       (s\<lparr>pr_caches := c\<lparr>routeCache := endRevalidate (routeRenderCacheKey r) (routeCache c)\<rparr>, pr_updates := us1 @ us2, pr_clock := now\<rparr>)"
| Peer: "asked path_of r \<Longrightarrow> page_cached rules r \<Longrightarrow> pr_clock s \<le> now \<Longrightarrow> H r t0 now (Inr res) \<Longrightarrow>
     page_step H W path_of rules s (s\<lparr>pr_caches := sharedRenderSet W (webRouteCacheKey r) now res (pr_caches s), pr_clock := now\<rparr>)"
| Invalidate: "pr_clock s \<le> now \<Longrightarrow>
     c = (if here then (pr_caches s)\<lparr>routeCache := invalidateTags tgs (routeCache (pr_caches s))\<rparr> else pr_caches s) \<Longrightarrow>
     page_step H W path_of rules s (s\<lparr>pr_caches := invalidateSharedRenderTags W stamp tgs c, pr_clock := now\<rparr>)"
| Forget: "pr_clock s \<le> now \<Longrightarrow>
     page_step H W path_of rules s
       (s\<lparr>pr_caches := (pr_caches s)\<lparr>shared := AList.delete k (shared (pr_caches s)), versions := AList.delete t (versions (pr_caches s))\<rparr>, pr_clock := now\<rparr>)"

definition page_start :: "int \<Rightarrow> ('e, 'r, 'v, 'p) page_run" where
  "page_start n = \<lparr>pr_caches = \<lparr>routeCache = newRenderCache n, shared = [], versions = []\<rparr>, pr_missed = [], pr_flights = [],
     pr_updates = [], pr_answers = [], pr_clock = 0\<rparr>"

inductive page_reach ::
  "(web_request \<Rightarrow> int \<Rightarrow> int \<Rightarrow> 'e + 'r RenderResult \<Rightarrow> bool) \<Rightarrow> bool \<Rightarrow> (string \<Rightarrow> string) \<Rightarrow> (string \<times> RouteRule) list \<Rightarrow> int \<Rightarrow>
     ('e, 'r, 'v, 'p) page_run \<Rightarrow> bool" for H W path_of rules n where
  Start: "page_reach H W path_of rules n (page_start n)"
| Step: "page_reach H W path_of rules n s \<Longrightarrow> page_step H W path_of rules s s' \<Longrightarrow> page_reach H W path_of rules n s'"

section \<open>The invariant\<close>

definition lifetime :: "(string \<times> RouteRule) list \<Rightarrow> web_request \<Rightarrow> int" where
  "lifetime rules r = (page_ttl rules r + max 0 (page_swr rules r)) * second"

text \<open>\<open>res\<close> was rendered until \<open>t\<close> for a request with the key \<open>k\<close> that may use the cache.\<close>

definition rendered_for ::
  "(web_request \<Rightarrow> int \<Rightarrow> int \<Rightarrow> 'e + 'r RenderResult \<Rightarrow> bool) \<Rightarrow> (string \<Rightarrow> string) \<Rightarrow> (string \<times> RouteRule) list \<Rightarrow>
     (web_request \<Rightarrow> string) \<Rightarrow> string \<Rightarrow> web_request \<Rightarrow> int \<Rightarrow> 'r RenderResult \<Rightarrow> bool" where
  "rendered_for H path_of rules key k r t res \<longleftrightarrow>
     (\<exists>t0. H r t0 t (Inr res)) \<and> asked path_of r \<and> page_cached rules r \<and> key r = k"

definition local_ok where
  "local_ok H path_of rules k e \<longleftrightarrow>
     (\<exists>r t. rendered_for H path_of rules routeRenderCacheKey k r t (Result e) \<and> Stored e - t < lifetime rules r)"

definition shared_ok where
  "shared_ok H path_of rules k e \<longleftrightarrow> (\<exists>r. rendered_for H path_of rules webRouteCacheKey k r (se_Stored e) (se_Result e))"

definition caches_ok where
  "caches_ok H path_of rules c \<longleftrightarrow>
     (\<forall>(k, e)\<in>set (rc_items (routeCache c)). local_ok H path_of rules k e) \<and>
     (\<forall>(k, e)\<in>set (shared c). shared_ok H path_of rules k e)"

definition waiting_ok where
  "waiting_ok path_of rules r \<longleftrightarrow> asked path_of r \<and> page_cached rules r"

definition answer_ok where
  "answer_ok H path_of rules a \<longleftrightarrow>
     (if pa_state a = ''bypass'' then \<exists>t0. H (pa_request a) t0 (pa_now a) (pa_result a)
      else waiting_ok path_of rules (pa_request a) \<and>
        (\<forall>res. pa_result a = Inr res \<longrightarrow>
           (\<exists>r t. rendered_for H path_of rules routeRenderCacheKey (routeRenderCacheKey (pa_request a)) r t res \<and>
              pa_now a - t < 2 * lifetime rules r)))"

definition page_ok where
  "page_ok H path_of rules s \<longleftrightarrow>
     caches_ok H path_of rules (pr_caches s) \<and>
     (\<forall>r\<in>set (pr_missed s). waiting_ok path_of rules r) \<and>
     (\<forall>r\<in>set (pr_updates s). waiting_ok path_of rules r) \<and>
     (\<forall>(k, (l, t0), ws)\<in>set (pr_flights s). \<forall>r\<in>set (l # ws). waiting_ok path_of rules r \<and> routeRenderCacheKey r = k) \<and>
     (\<forall>a\<in>set (pr_answers s). answer_ok H path_of rules a)"

lemma asked_uri: "asked path_of r \<Longrightarrow> \<exists>u. w_uri r = CHR ''/'' # u"
  by (cases "w_uri r") (auto simp: asked_def)

lemma same_page:
  assumes "asked path_of r" "asked path_of r'"
    and "routeRenderCacheKey r = routeRenderCacheKey r' \<or> webRouteCacheKey r = webRouteCacheKey r'"
  shows "tenantIDFromRequest (w_tenant r) = tenantIDFromRequest (w_tenant r')" "w_uri r = w_uri r'" "w_path r = w_path r'"
proof -
  obtain u u' where u: "w_uri r = CHR ''/'' # u" "w_uri r' = CHR ''/'' # u'" using assms(1,2) asked_uri by blast
  from assms(3) have "\<exists>x. CHR ''/'' \<notin> set x \<and> (tenantIDFromRequest (w_tenant r) @ x) @ CHR ''/'' # u = (tenantIDFromRequest (w_tenant r') @ x) @ CHR ''/'' # u'"
  proof
    assume "routeRenderCacheKey r = routeRenderCacheKey r'"
    with u show ?thesis by (intro exI [of _ "''|''"]) (simp add: routeRenderCacheKey_def)
  next
    assume "webRouteCacheKey r = webRouteCacheKey r'"
    with u show ?thesis by (intro exI [of _ "'':''"]) (simp add: webRouteCacheKey_def)
  qed
  then obtain x where x: "CHR ''/'' \<notin> set x" "(tenantIDFromRequest (w_tenant r) @ x) @ CHR ''/'' # u = (tenantIDFromRequest (w_tenant r') @ x) @ CHR ''/'' # u'" by blast
  from split_at_slash [OF x(2)] x(1) tenant_no_slash have "tenantIDFromRequest (w_tenant r) @ x = tenantIDFromRequest (w_tenant r') @ x \<and> u = u'" by simp
  with u show "tenantIDFromRequest (w_tenant r) = tenantIDFromRequest (w_tenant r')" "w_uri r = w_uri r'" by simp_all
  with assms(1,2) show "w_path r = w_path r'" by (simp add: asked_def)
qed

lemma same_keys:
  "asked path_of r \<Longrightarrow> asked path_of r' \<Longrightarrow> routeRenderCacheKey r = routeRenderCacheKey r' \<longleftrightarrow> webRouteCacheKey r = webRouteCacheKey r'"
proof -
  assume a: "asked path_of r" "asked path_of r'"
  show ?thesis
  proof
    assume "routeRenderCacheKey r = routeRenderCacheKey r'"
    with same_page(1,2) [OF a] show "webRouteCacheKey r = webRouteCacheKey r'" by (simp add: webRouteCacheKey_def)
  next
    assume "webRouteCacheKey r = webRouteCacheKey r'"
    with same_page(1,2) [OF a] show "routeRenderCacheKey r = routeRenderCacheKey r'" by (simp add: routeRenderCacheKey_def)
  qed
qed

lemma same_path_rules:
  "w_path r = w_path r' \<Longrightarrow> page_ttl rules r = page_ttl rules r' \<and> page_swr rules r = page_swr rules r' \<and> lifetime rules r = lifetime rules r' \<and> page_static rules r = page_static rules r'"
  by (simp add: page_ttl_def page_swr_def lifetime_def page_static_def)

lemma lifetime_bounds:
  "page_cached rules r \<Longrightarrow> 0 < lifetime rules r"
  "now - t < page_ttl rules r * second \<Longrightarrow> now - t < lifetime rules r"
  "page_swr rules r > 0 \<Longrightarrow> now - t < (page_ttl rules r + page_swr rules r) * second \<Longrightarrow> now - t < lifetime rules r"
proof -
  have s: "0 < second" by (simp add: second_def)
  have le: "page_ttl rules r * second \<le> lifetime rules r" unfolding lifetime_def using s by (intro mult_right_mono) auto
  show "page_cached rules r \<Longrightarrow> 0 < lifetime rules r"
    by (rule less_le_trans [OF mult_pos_pos [OF _ s] le]) (simp add: page_cached_def)
  show "now - t < page_ttl rules r * second \<Longrightarrow> now - t < lifetime rules r" using le by simp
  show "page_swr rules r > 0 \<Longrightarrow> now - t < (page_ttl rules r + page_swr rules r) * second \<Longrightarrow> now - t < lifetime rules r"
    by (simp add: lifetime_def)
qed

lemma set_items:
  "set (rc_items (setWithTagVersions iter now key res tvs c)) \<subseteq>
     insert (key, \<lparr>Result = res, Document = None, Stored = now, TagVersions = tvs\<rparr>) (set (rc_items c))"
proof -
  define c1 where "c1 = (if length (rc_items c) \<ge> rc_maxEntries c then drop_item (oldest_key (rc_items c) (iter (map fst (rc_items c))) [] 0) c else c)"
  have "set (rc_items c1) \<subseteq> set (rc_items c)" by (auto simp: c1_def drop_item_def)
  moreover have "rc_items (setWithTagVersions iter now key res tvs c) =
      AList.update key \<lparr>Result = res, Document = None, Stored = now, TagVersions = tvs\<rparr> (rc_items c1)"
    by (simp add: setWithTagVersions_def Let_def c1_def)
  ultimately show ?thesis using set_update_entries [of key "\<lparr>Result = res, Document = None, Stored = now, TagVersions = tvs\<rparr>" "rc_items c1"] by auto
qed

lemma revalidate_items [simp]:
  "beginRevalidate key c = (b, c') \<Longrightarrow> rc_items c' = rc_items c" "rc_items (endRevalidate key c) = rc_items c"
  by (auto simp: beginRevalidate_def endRevalidate_def split: if_splits)

lemma invalidate_items: "set (rc_items (invalidateTags tgs c)) \<subseteq> set (rc_items c)"
proof (induction tgs c rule: invalidateTags.induct)
  case (2 tag tgs c)
  then show ?case by (fastforce simp: Let_def)
qed simp

lemma all_pairs: "set xs \<subseteq> insert (k, e) (set ys) \<Longrightarrow> \<forall>(k, e)\<in>set ys. P k e \<Longrightarrow> P k e \<Longrightarrow> \<forall>(k, e)\<in>set xs. P k e"
  by blast

lemma caches_ok_set:
  fixes c :: "('r, 'v, 'p) page_caches"
  assumes "caches_ok H path_of rules c"
    and "local_ok H path_of rules key (\<lparr>Result = res, Document = None, Stored = now, TagVersions = webCacheTagVersions W (versions c) (CacheTags res)\<rparr> :: ('r, 'v, 'p) cacheEntry)"
  shows "caches_ok H path_of rules (setRouteCache W iter now key res c)"
proof -
  have "\<forall>(k, e)\<in>set (rc_items (setWithTagVersions iter now key res (webCacheTagVersions W (versions c) (CacheTags res)) (routeCache c))). local_ok H path_of rules k e"
    by (rule all_pairs [OF set_items]) (use assms in \<open>simp_all add: caches_ok_def\<close>)
  with assms(1) show ?thesis by (simp add: caches_ok_def setRouteCache_def)
qed

lemma caches_ok_shared:
  assumes "caches_ok H path_of rules c" "rendered_for H path_of rules webRouteCacheKey key r now res"
  shows "caches_ok H path_of rules (sharedRenderSet W key now res c)"
proof -
  let ?e = "\<lparr>se_Result = res, se_Stored = now, se_TagVersions = webCacheTagVersions W (versions c) (CacheTags res)\<rparr>"
  have "shared_ok H path_of rules key ?e" using assms(2) unfolding shared_ok_def by (intro exI [of _ r]) simp
  with assms(1) have "\<forall>(k, e)\<in>set (AList.update key ?e (shared c)). shared_ok H path_of rules k e"
    by (intro all_pairs [OF set_update_entries]) (simp_all add: caches_ok_def)
  with assms(1) show ?thesis by (cases W) (simp_all add: caches_ok_def sharedRenderSet_def)
qed

lemma caches_ok_store:
  fixes c :: "('r, 'v, 'p) page_caches"
  assumes "caches_ok H path_of rules c" "waiting_ok path_of rules r" "H r t0 now out"
  shows "caches_ok H path_of rules (store_rendered W iter now r out c)"
proof (cases out)
  case (Inr res)
  have r: "rendered_for H path_of rules key (key r) r now res" for key
    using assms(2,3) Inr by (auto simp: rendered_for_def waiting_ok_def)
  have "0 < lifetime rules r" using assms(2) lifetime_bounds(1) by (auto simp: waiting_ok_def)
  with r [of routeRenderCacheKey] have "local_ok H path_of rules (routeRenderCacheKey r) (\<lparr>Result = res, Document = None, Stored = now, TagVersions = tvs\<rparr> :: ('r, 'v, 'p) cacheEntry)" for tvs
    unfolding local_ok_def by (intro exI [of _ r] exI [of _ now]) simp
  from caches_ok_shared [OF caches_ok_set [OF assms(1) this] r] Inr show ?thesis by (simp add: store_rendered_def)
qed (use assms(1) in \<open>simp add: store_rendered_def\<close>)

lemma local_entry_ok:
  assumes "caches_ok H path_of rules c" "local_entry W key c = Some e"
  shows "local_ok H path_of rules key e"
  using assms by (auto simp: local_entry_def rc_get_def caches_ok_def split: option.splits if_splits dest!: map_of_SomeD)

lemma rendered_same:
  assumes "rendered_for H path_of rules key k r' t res" "asked path_of r" "key \<in> {routeRenderCacheKey, webRouteCacheKey}" "k = key r"
  shows "lifetime rules r' = lifetime rules r" "rendered_for H path_of rules routeRenderCacheKey (routeRenderCacheKey r) r' t res"
proof -
  have a: "asked path_of r'" "routeRenderCacheKey r' = routeRenderCacheKey r \<or> webRouteCacheKey r' = webRouteCacheKey r"
    using assms by (auto simp: rendered_for_def)
  from same_path_rules [OF same_page(3) [OF a(1) assms(2) a(2)]] show "lifetime rules r' = lifetime rules r" by simp
  have "routeRenderCacheKey r' = routeRenderCacheKey r" using a same_keys [OF a(1) assms(2)] by blast
  with assms(1) show "rendered_for H path_of rules routeRenderCacheKey (routeRenderCacheKey r) r' t res" by (simp add: rendered_for_def)
qed

lemma caches_ok_routeCache: "rc_items rc = rc_items (routeCache c) \<Longrightarrow> caches_ok H path_of rules (c\<lparr>routeCache := rc\<rparr>) = caches_ok H path_of rules c"
  by (simp add: caches_ok_def)

lemma sharedRenderGet_age:
  "sharedRenderGet W key now (page_ttl rules r) (page_swr rules r) c = Some (res, state) \<Longrightarrow>
     \<exists>e. map_of (shared c) key = Some e \<and> res = se_Result e \<and> now - se_Stored e < lifetime rules r \<and> state \<noteq> ''bypass''"
  by (auto simp: sharedRenderGet_def split: if_splits option.splits intro: lifetime_bounds)

definition answerable where
  "answerable H path_of rules r now res \<longleftrightarrow>
     (\<exists>r' t. rendered_for H path_of rules routeRenderCacheKey (routeRenderCacheKey r) r' t res \<and> now - t < 2 * lifetime rules r')"

lemma shared_lookup_ok:
  fixes c :: "('r, 'v, 'p) page_caches"
  assumes "caches_ok H path_of rules c" "waiting_ok path_of rules r" "shared_lookup W iter rules r now c = (Some (res, state, begun), c')"
  shows "caches_ok H path_of rules c' \<and> state \<noteq> ''bypass'' \<and> answerable H path_of rules r now res"
proof -
  have a: "asked path_of r" "page_cached rules r" using assms(2) by (auto simp: waiting_ok_def)
  obtain st where g: "sharedRenderGet W (webRouteCacheKey r) now (page_ttl rules r) (page_swr rules r) c = Some (res, st)" and st: "st = state"
    and c': "rc_items (routeCache c') = rc_items (routeCache (setRouteCache W iter now (routeRenderCacheKey r) res c))" "shared c' = shared (setRouteCache W iter now (routeRenderCacheKey r) res c)"
    using assms(3) by (auto simp: shared_lookup_def Let_def split: option.splits prod.splits if_splits)
  from sharedRenderGet_age [OF g] obtain e where e: "map_of (shared c) (webRouteCacheKey r) = Some e" "res = se_Result e" "now - se_Stored e < lifetime rules r" "state \<noteq> ''bypass''"
    using st by blast
  from map_of_SomeD [OF e(1)] assms(1) have "shared_ok H path_of rules (webRouteCacheKey r) e" by (auto simp: caches_ok_def)
  then obtain r' where r': "rendered_for H path_of rules webRouteCacheKey (webRouteCacheKey r) r' (se_Stored e) res" using e(2) by (auto simp: shared_ok_def)
  note s = rendered_same [OF r' a(1) _ refl, simplified]
  have l: "local_ok H path_of rules (routeRenderCacheKey r) (\<lparr>Result = res, Document = None, Stored = now, TagVersions = tvs\<rparr> :: ('r, 'v, 'p) cacheEntry)" for tvs
    unfolding local_ok_def using s e(3) by (intro exI [of _ r'] exI [of _ "se_Stored e"]) simp
  have "answerable H path_of rules r now res"
    unfolding answerable_def using s e(3) lifetime_bounds(1) [OF a(2)] by (intro exI [of _ r'] exI [of _ "se_Stored e"]) simp
  moreover have "caches_ok H path_of rules c'" using caches_ok_set [OF assms(1) l] c' by (simp add: caches_ok_def)
  ultimately show ?thesis using e(4) by simp
qed

lemma local_answerable:
  assumes "caches_ok H path_of rules c" "waiting_ok path_of rules r" "local_entry W (routeRenderCacheKey r) c = Some e" "now - Stored e < lifetime rules r"
  shows "answerable H path_of rules r now (Result e)"
proof -
  have a: "asked path_of r" using assms(2) by (auto simp: waiting_ok_def)
  from local_entry_ok [OF assms(1,3)] obtain r' t where r': "rendered_for H path_of rules routeRenderCacheKey (routeRenderCacheKey r) r' t (Result e)"
    "Stored e - t < lifetime rules r'" by (auto simp: local_ok_def)
  with rendered_same [OF r'(1) a] assms(4) show ?thesis unfolding answerable_def by (intro exI [of _ r'] exI [of _ t]) simp
qed

lemma render_lookup_ok:
  assumes "caches_ok H path_of rules c" "waiting_ok path_of rules r" "render_lookup W iter rules r now c = (Some (res, state, begun), c')"
  shows "caches_ok H path_of rules c' \<and> state \<noteq> ''bypass'' \<and> answerable H path_of rules r now res"
proof (cases "local_entry W (routeRenderCacheKey r) c")
  case None
  with assms shared_lookup_ok show ?thesis by (simp add: render_lookup_def)
next
  case (Some e)
  consider "now - Stored e < page_ttl rules r * second"
    | "\<not> now - Stored e < page_ttl rules r * second" "page_swr rules r > 0 \<and> now - Stored e < (page_ttl rules r + page_swr rules r) * second"
    | "shared_lookup W iter rules r now c = (Some (res, state, begun), c')"
    using assms(3) Some by (auto simp: render_lookup_def split: if_splits)
  then show ?thesis
  proof cases
    case 1
    with assms Some local_answerable [OF assms(1,2) Some lifetime_bounds(2)] show ?thesis by (auto simp: render_lookup_def)
  next
    case 2
    with assms Some local_answerable [OF assms(1,2) Some lifetime_bounds(3)] show ?thesis
      by (auto simp: render_lookup_def caches_ok_routeCache split: prod.splits)
  next
    case 3
    with assms shared_lookup_ok show ?thesis by blast
  qed
qed

lemma flight_hit_ok:
  "caches_ok H path_of rules c \<Longrightarrow> waiting_ok path_of rules r \<Longrightarrow> flight_hit W rules r now c = Some res \<Longrightarrow> answerable H path_of rules r now res"
  by (auto simp: flight_hit_def split: option.splits if_splits intro!: local_answerable lifetime_bounds(2))

lemma reply_simps [simp]:
  "pr_caches (reply rs state out now s) = pr_caches s" "pr_missed (reply rs state out now s) = pr_missed s"
  "pr_flights (reply rs state out now s) = pr_flights s" "pr_updates (reply rs state out now s) = pr_updates s"
  by (simp_all add: reply_def)

lemma answers_reply:
  "(\<forall>a\<in>set (pr_answers (reply rs state out now s)). P a) \<longleftrightarrow>
     (\<forall>r\<in>set rs. P \<lparr>pa_request = r, pa_state = state, pa_result = out, pa_now = now\<rparr>) \<and> (\<forall>a\<in>set (pr_answers s). P a)"
  by (auto simp: reply_def)

lemma answer_okI:
  "waiting_ok path_of rules r \<Longrightarrow> state \<noteq> ''bypass'' \<Longrightarrow> (\<And>res. out = Inr res \<Longrightarrow> answerable H path_of rules r now res) \<Longrightarrow>
     answer_ok H path_of rules \<lparr>pa_request = r, pa_state = state, pa_result = out, pa_now = now\<rparr>"
  by (simp add: answer_ok_def answerable_def)

lemma flight_members:
  assumes "\<forall>(k, (l, t0), ws)\<in>set fs. \<forall>r\<in>set (l # ws). P k r" "map_of fs k = Some ((l, t0), ws)" "r \<in> set (l # ws)"
  shows "P k r"
  using map_of_SomeD [OF assms(2)] assms(1,3) by blast

lemma page_ok_step: "page_step H W path_of rules s s' \<Longrightarrow> page_ok H path_of rules s \<Longrightarrow> page_ok H path_of rules s'"
proof (induction rule: page_step.induct)
  case (Direct r t0 now out s)
  then show ?case by (auto simp: page_ok_def answers_reply answer_ok_def)
next
  case (Found r s now iter res state begun c)
  have w: "waiting_ok path_of rules r" using Found by (simp add: waiting_ok_def)
  have "caches_ok H path_of rules (pr_caches s)" using Found by (simp add: page_ok_def)
  from render_lookup_ok [OF this w Found(4)] Found(5) w show ?case by (auto simp: page_ok_def answers_reply intro!: answer_okI)
next
  case (Missed r s now iter c)
  then show ?case by (auto simp: page_ok_def waiting_ok_def)
next
  case (Lead_found s ms1 r ms2 now res)
  have w: "waiting_ok path_of rules r" using Lead_found by (simp add: page_ok_def)
  have "caches_ok H path_of rules (pr_caches s)" using Lead_found by (simp add: page_ok_def)
  from flight_hit_ok [OF this w Lead_found(4)] Lead_found w show ?case by (auto simp: page_ok_def answers_reply intro!: answer_okI)
next
  case (Lead s ms1 r ms2 now)
  then show ?case by (auto simp: page_ok_def)
next
  case (Join s ms1 r ms2 now leader waiting)
  obtain l t0 where l: "leader = (l, t0)" by fastforce
  let ?P = "\<lambda>k ((l, t0), ws). \<forall>r\<in>set (l # ws). waiting_ok path_of rules r \<and> routeRenderCacheKey r = k"
  have all: "\<forall>(k, x)\<in>set (pr_flights s). ?P k x" using Join by (auto simp: page_ok_def)
  have w: "waiting_ok path_of rules r" using Join by (simp add: page_ok_def)
  from map_of_SomeD [OF Join(3)] all l w have "?P (routeRenderCacheKey r) (leader, r # waiting)" by auto
  from all_pairs [OF set_update_entries all this] Join show ?case by (auto simp: page_ok_def)
next
  case (Finish s k leader t0 waiting now out iter)
  have f: "waiting_ok path_of rules x \<and> routeRenderCacheKey x = k" if "x \<in> set (leader # waiting)" for x
    by (rule flight_members [OF _ Finish(1) that]) (use Finish(4) in \<open>simp add: page_ok_def\<close>)
  have c: "caches_ok H path_of rules (store_rendered W iter now leader out (pr_caches s))"
    using Finish(4) f [of leader] Finish(3) by (intro caches_ok_store [where H = H]) (simp_all add: page_ok_def)
  have "answerable H path_of rules x now res" if "x \<in> set (leader # waiting)" "out = Inr res" for x res
  proof -
    have "page_cached rules leader" "asked path_of leader" using f [of leader] by (auto simp: waiting_ok_def)
    moreover have "routeRenderCacheKey x = routeRenderCacheKey leader" using f that(1) f [of leader] by simp
    moreover have "0 < lifetime rules leader" using calculation lifetime_bounds(1) by blast
    ultimately show ?thesis using Finish(3) that(2) unfolding answerable_def
      by (intro exI [of _ leader] exI [of _ now]) (auto simp: rendered_for_def)
  qed
  with f have "\<forall>x\<in>set (leader # waiting). answer_ok H path_of rules \<lparr>pa_request = x, pa_state = ''miss'', pa_result = out, pa_now = now\<rparr>"
    by (auto intro!: answer_okI)
  moreover have "set (AList.delete k (pr_flights s)) \<subseteq> set (pr_flights s)" by auto
  ultimately show ?case using c Finish(4) unfolding page_ok_def answers_reply by auto
next
  case (Update s us1 r us2 now t0 out c iter)
  have "caches_ok H path_of rules c"
    unfolding Update(4) using Update by (intro caches_ok_store [where H = H]) (simp_all add: page_ok_def)
  with Update show ?case by (auto simp: page_ok_def caches_ok_routeCache)
next
  case (Peer r s now t0 res)
  then have "rendered_for H path_of rules webRouteCacheKey (webRouteCacheKey r) r now res" by (auto simp: rendered_for_def)
  with Peer caches_ok_shared [OF _ this] show ?case by (auto simp: page_ok_def)
next
  case (Invalidate s now c here tgs stamp)
  have "caches_ok H path_of rules c"
    using Invalidate(2,3) invalidate_items [of tgs "routeCache (pr_caches s)"] by (cases here) (auto simp: page_ok_def caches_ok_def)
  then have "caches_ok H path_of rules (invalidateSharedRenderTags W stamp tgs c)" by (simp add: caches_ok_def invalidateSharedRenderTags_def)
  with Invalidate show ?case by (simp add: page_ok_def)
next
  case (Forget s now k t)
  have "set (AList.delete k (shared (pr_caches s))) \<subseteq> set (shared (pr_caches s))" by auto
  with Forget show ?case by (auto simp: page_ok_def caches_ok_def)
qed

lemma page_ok_reach: "page_reach H W path_of rules n s \<Longrightarrow> page_ok H path_of rules s"
proof (induction rule: page_reach.induct)
  case Start
  then show ?case by (simp add: page_ok_def page_start_def caches_ok_def newRenderCache_def)
qed (rule page_ok_step)


section \<open>Runs\<close>

definition page_rules :: "(string \<times> RouteRule) list" where
  "page_rules = [(''/**'', no_rule\<lparr>CacheMaxAge := Some 10, SWR := 10\<rparr>)]"

definition page_visitor :: web_request where
  "page_visitor = \<lparr>w_method = ''GET'', w_authorization = [], w_cookies = [], w_tenant = None, w_path = ''/x'', w_uri = ''/x''\<rparr>"

lemma page_visitor_facts:
  "asked (\<lambda>u. u) page_visitor" "page_cached page_rules page_visitor"
  "routeRenderCacheKey page_visitor = ''|/x''" "webRouteCacheKey page_visitor = ''gosh:web:route:v1::/x''"
  "page_ttl page_rules page_visitor = 10" "page_swr page_rules page_visitor = 10"
  by code_simp+

text \<open>The example's pages: the text is the second in which the rendering began.\<close>

definition rendering :: "web_request \<Rightarrow> int \<Rightarrow> int \<Rightarrow> unit + int RenderResult \<Rightarrow> bool" where
  "rendering r t0 t1 out \<longleftrightarrow> r = page_visitor \<and> t0 \<le> t1 \<and> out = Inr \<lparr>CacheTags = [''t''], rr_body = t0\<rparr>"

definition page_body :: "int \<Rightarrow> int RenderResult" where "page_body t = \<lparr>CacheTags = [''t''], rr_body = t\<rparr>"

abbreviation example_step :: "(unit, int, unit, unit) page_run \<Rightarrow> (unit, int, unit, unit) page_run \<Rightarrow> bool" where
  "example_step \<equiv> page_step rendering True (\<lambda>u. u) page_rules"

abbreviation example_reach :: "(unit, int, unit, unit) page_run \<Rightarrow> bool" where
  "example_reach \<equiv> page_reach rendering True (\<lambda>u. u) page_rules 4"

definition example_lookup where
  "example_lookup now c = render_lookup True (\<lambda>x. x) page_rules page_visitor now (c :: (int, unit, unit) page_caches)"

lemma example_found:
  assumes "pr_clock s \<le> now" "fst (example_lookup now (pr_caches s)) = Some (res, state, begun)"
  shows "example_step s (reply [page_visitor] state (Inr res) now
    (s\<lparr>pr_caches := snd (example_lookup now (pr_caches s)), pr_updates := (if begun then page_visitor # pr_updates s else pr_updates s)\<rparr>))"
  using assms page_visitor_facts(1,2)
  by (intro page_step.Found [where iter = "\<lambda>x. x"]) (auto simp: example_lookup_def intro: prod_eqI)

lemma example_missed:
  assumes "pr_clock s \<le> now" "fst (example_lookup now (pr_caches s)) = None"
  shows "example_step s (s\<lparr>pr_missed := page_visitor # pr_missed s, pr_clock := now\<rparr>)"
  using assms page_visitor_facts(1,2)
  by (intro page_step.Missed [where iter = "\<lambda>x. x" and c = "snd (example_lookup now (pr_caches s))"]) (auto simp: example_lookup_def intro: prod_eqI)

definition cold :: "(int, unit, unit) page_caches" where "cold = \<lparr>routeCache = newRenderCache 4, shared = [], versions = []\<rparr>"

text \<open>Another instance renders at second 0. This one takes the page over at second 19, as stale, and then
  counts its age from there: at second 38 it still serves it, 37 seconds old, though 20 are allowed.\<close>

definition peer_stored :: "(int, unit, unit) page_caches" where
  "peer_stored = sharedRenderSet True (webRouteCacheKey page_visitor) second (page_body second) cold"

lemma shared_page_looks:
  "fst (example_lookup (19 * second) peer_stored) = Some (page_body second, ''shared-stale'', True)"
  "fst (example_lookup (38 * second) (snd (example_lookup (19 * second) peer_stored))) = Some (page_body second, ''stale'', False)"
  by code_simp+

lemma shared_page_lives_twice:
  "\<exists>s a. example_reach s \<and> a \<in> set (pr_answers s) \<and> pa_result a = Inr (page_body second) \<and> rendering page_visitor second second (pa_result a) \<and>
     pa_now a = 38 * second \<and> pa_state a = ''stale'' \<and> lifetime page_rules (pa_request a) = 20 * second"
proof -
  let ?s0 = "page_start 4 :: (unit, int, unit, unit) page_run"
  let ?s1 = "?s0\<lparr>pr_caches := peer_stored, pr_clock := second\<rparr>"
  have "example_step ?s0 (?s0\<lparr>pr_caches := sharedRenderSet True (webRouteCacheKey page_visitor) second (page_body second) (pr_caches ?s0), pr_clock := second\<rparr>)"
    by (rule page_step.Peer [OF page_visitor_facts(1,2), where ?t0.0 = second]) (simp_all add: page_start_def rendering_def page_body_def second_def)
  then have "example_step ?s0 ?s1" by (simp add: peer_stored_def cold_def page_start_def)
  then have "example_reach ?s1" using page_reach.Start page_reach.Step by blast
  moreover obtain s2 where s2: "example_step ?s1 s2" "pr_caches s2 = snd (example_lookup (19 * second) peer_stored)" "pr_clock s2 = 19 * second"
    using example_found [of ?s1 "19 * second"] shared_page_looks(1) by (fastforce simp: reply_def second_def)
  moreover obtain s3 where "example_step s2 s3" "pr_answers s3 = \<lparr>pa_request = page_visitor, pa_state = ''stale'', pa_result = Inr (page_body second), pa_now = 38 * second\<rparr> # pr_answers s2"
    using example_found [of s2 "38 * second"] shared_page_looks(2) s2 by (fastforce simp: reply_def second_def)
  ultimately have "example_reach s3" by (meson page_reach.Step)
  with \<open>pr_answers s3 = _\<close> show ?thesis
    by (intro exI [of _ s3] exI [of _ "hd (pr_answers s3)"]) (simp add: lifetime_def page_visitor_facts rendering_def page_body_def)
qed

text \<open>A rendering begins at 1, its tag is invalidated at 2, the rendering ends at 3 and is stored under the
  new version of the tag: at 4 the next visitor gets the page of before the change as a fresh one.\<close>

definition invalidated :: "(int, unit, unit) page_caches" where
  "invalidated = invalidateSharedRenderTags True ''stamp'' [''t''] (cold\<lparr>routeCache := invalidateTags [''t''] (routeCache cold)\<rparr>)"

lemma late_looks:
  "fst (example_lookup 1 cold) = None" "flight_hit True page_rules page_visitor 1 cold = None"
  "fst (example_lookup 4 (store_rendered True (\<lambda>x. x) 3 page_visitor (Inr (page_body 1) :: unit + int RenderResult) invalidated)) = Some (page_body 1, ''hit'', False)"
  by code_simp+

lemma late_rendering_survives:
  "\<exists>s0 s1 s a. example_reach s0 \<and> pr_caches s1 = invalidated \<and> example_step s0 s1 \<and> pr_clock s1 = 2 \<and> example_step\<^sup>*\<^sup>* s1 s \<and>
     a \<in> set (pr_answers s) \<and> pa_state a = ''hit'' \<and> pa_now a = 4 \<and> pa_result a = Inr (page_body 1)"
proof -
  let ?st = "page_start 4 :: (unit, int, unit, unit) page_run"
  let ?k = "routeRenderCacheKey page_visitor"
  let ?m = "?st\<lparr>pr_missed := [page_visitor], pr_clock := 1\<rparr>"
  let ?s0 = "?st\<lparr>pr_flights := [(?k, (page_visitor, 1), [])], pr_clock := 1\<rparr>"
  let ?s1 = "?s0\<lparr>pr_caches := invalidated, pr_clock := 2\<rparr>"
  let ?stored = "store_rendered True (\<lambda>x. x) 3 page_visitor (Inr (page_body 1) :: unit + int RenderResult) invalidated"
  have cold: "pr_caches ?st = cold" by (simp add: page_start_def cold_def)
  have "example_step ?st (?st\<lparr>pr_missed := page_visitor # pr_missed ?st, pr_clock := 1\<rparr>)"
    using late_looks(1) cold by (intro example_missed) (simp_all add: page_start_def)
  then have "example_step ?st ?m" by (simp add: page_start_def)
  moreover have "example_step ?m ?s0"
    using page_step.Lead [of ?m "[]" page_visitor "[]" 1 True page_rules rendering "\<lambda>u. u"] late_looks(2) cold by (simp add: page_start_def)
  ultimately have r: "example_reach ?s0" by (meson page_reach.intros)
  have "example_step ?s0 (?s0\<lparr>pr_caches := invalidateSharedRenderTags True ''stamp'' [''t''] (cold\<lparr>routeCache := invalidateTags [''t''] (routeCache cold)\<rparr>), pr_clock := 2\<rparr>)"
    by (rule page_step.Invalidate [where here = True]) (simp_all add: page_start_def cold_def)
  then have inv: "example_step ?s0 ?s1" by (simp add: invalidated_def)
  obtain s2 where s2: "example_step ?s1 s2" "pr_caches s2 = ?stored" "pr_clock s2 = 3"
    using page_step.Finish [of ?s1 ?k page_visitor 1 "[]" 3 rendering "Inr (page_body 1)" True "\<lambda>u. u" page_rules "\<lambda>x. x"]
    by (fastforce simp: rendering_def page_body_def reply_def)
  obtain s3 where s3: "example_step s2 s3" "pr_answers s3 = \<lparr>pa_request = page_visitor, pa_state = ''hit'', pa_result = Inr (page_body 1), pa_now = 4\<rparr> # pr_answers s2"
    using example_found [of s2 4] late_looks(3) s2 by (fastforce simp: reply_def)
  have "example_step\<^sup>*\<^sup>* ?s1 s3" using s2(1) s3(1) by (meson converse_rtranclp_into_rtranclp rtranclp.rtrancl_refl)
  with r inv s3 show ?thesis
    by (intro exI [of _ ?s0] exI [of _ ?s1] exI [of _ s3] exI [of _ "hd (pr_answers s3)"]) simp
qed


text \<open>A document belongs to the rendering it was made from, but is attached to whatever entry the key has
  when it is ready: made of an old page, it is served with the entry that replaced it.\<close>

lemma old_document_on_new_entry:
  "let old = page_body 1; new = page_body 2; c0 = setWithTagVersions (\<lambda>x. x) 1 ''k'' old [] (newRenderCache 4);
       c1 = setWithTagVersions (\<lambda>x. x) 2 ''k'' new [] c0;
       c2 = setDocument (\<lambda>x. x) ''k'' (Some doc) c1
   in length (cd_Body doc) \<le> 1048576 \<longrightarrow>
      map_option (\<lambda>e. (Result e, Document e)) (rc_get ''k'' (c2 :: (int, 'v, 'p) renderCache)) = Some (new, Some doc)"
  by (simp add: Let_def setWithTagVersions_def newRenderCache_def drop_item_def setDocument_def rc_get_def doc_bytes_def make_room.simps)

end
