(* ===== verification/WebHandler.thy ===== *)
theory WebHandler imports WebPages begin

text \<open>
  The handler of pages (\<^verbatim>\<open>web_framework.go\<close>, \<^verbatim>\<open>pageHandler\<close>): redirects, prefetching, errors, documents
  from the cache or rendered for the request, their headers, and the chunks of a streamed document.
  What \<^verbatim>\<open>renderPageCached\<close>, the renderer of documents and the state store return is the environment's.
\<close>

section \<open>Requests\<close>

record ph_request = web_request +
  ph_query :: string
  ph_header :: header
  ph_host :: string
  ph_close :: bool
  ph_connection :: "string list"

definition CanonicalURL :: "string \<Rightarrow> string" where
  "CanonicalURL v =
     (if v = [] then ''/''
      else let clean = path_Clean (CHR ''/'' # TrimSpace v) in if clean \<noteq> ''/'' then TrimRight clean (CHR ''/'') else clean)"

definition isRuntimeRequest :: "ph_request \<Rightarrow> bool" where
  "isRuntimeRequest r \<longleftrightarrow>
     hget (ph_header r) ''X-Runtime'' = ''1'' \<and> hget (ph_header r) ''X-GOSH-Runtime'' = ''navigate'' \<and>
     Contains (ToLower (hget (ph_header r) ''Accept'')) ''application/x-ndjson'' \<and> hget (ph_header r) ''Sec-Fetch-Dest'' \<noteq> ''document''"

definition isSiteSearchRequest :: "ph_request \<Rightarrow> bool" where
  "isSiteSearchRequest r \<longleftrightarrow> hget (ph_header r) ''X-GOSH-Site-Search'' = ''1''"

definition requestWantsConnectionClose :: "ph_request \<Rightarrow> bool" where
  "requestWantsConnectionClose r \<longleftrightarrow>
     ph_close r \<or> list_ex (\<lambda>v. list_ex (\<lambda>t. ToLower (TrimSpace t) = ''close'') (Split (CHR '','') v)) (ph_connection r)"

text \<open>\<open>host_of\<close> is the host of a parsed URL, if it can be parsed.\<close>

definition isSameOriginNavigation :: "(string \<Rightarrow> string option) \<Rightarrow> ph_request \<Rightarrow> bool" where
  "isSameOriginNavigation host_of r \<longleftrightarrow>
     hget (ph_header r) ''Referer'' \<noteq> [] \<and>
     (case host_of (hget (ph_header r) ''Referer'') of None \<Rightarrow> False | Some h \<Rightarrow> h \<noteq> [] \<and> ToLower h = ToLower (ph_host r))"

section \<open>Responses\<close>

record response =
  rs_header :: header
  rs_status :: "nat option"
  rs_writes :: "string list"
  rs_hints :: "string list"
  rs_uncompressed :: bool

definition new_response :: "header \<Rightarrow> response" where
  "new_response h = \<lparr>rs_header = h, rs_status = None, rs_writes = [], rs_hints = [], rs_uncompressed = False\<rparr>"

definition w_set :: "string \<Rightarrow> string \<Rightarrow> response \<Rightarrow> response" where
  "w_set k v w = w\<lparr>rs_header := hset k v (rs_header w)\<rparr>"

definition w_del :: "string \<Rightarrow> response \<Rightarrow> response" where
  "w_del k w = w\<lparr>rs_header := hdel k (rs_header w)\<rparr>"

definition w_status :: "nat \<Rightarrow> response \<Rightarrow> response" where
  "w_status n w = w\<lparr>rs_status := (case rs_status w of None \<Rightarrow> Some n | Some m \<Rightarrow> Some m)\<rparr>"

definition w_write :: "string \<Rightarrow> response \<Rightarrow> response" where
  "w_write p w = (w_status 200 w)\<lparr>rs_writes := rs_writes w @ [p]\<rparr>"

section \<open>Streamed documents\<close>

text \<open>Layers of a writer, the outermost first: whether each flushes, can turn compression off, and unwraps.\<close>

fun responseSupportsFlush :: "(bool \<times> bool \<times> bool) list \<Rightarrow> bool" where
  "responseSupportsFlush [] = False"
| "responseSupportsFlush ((flusher, disabler, unwraps) # ws) = (flusher \<or> (unwraps \<and> responseSupportsFlush ws))"

fun disables_compression :: "(bool \<times> bool \<times> bool) list \<Rightarrow> bool" where
  "disables_compression [] = False"
| "disables_compression ((flusher, disabler, unwraps) # ws) = (disabler \<or> (unwraps \<and> disables_compression ws))"

definition appendNoTransform :: "string \<Rightarrow> string" where
  "appendNoTransform v =
     (if v = [] then ''no-transform'' else if Contains (ToLower v) ''no-transform'' then v else v @ '', no-transform'')"

definition ssrStreamChunkSize :: nat where "ssrStreamChunkSize = 32768"

definition first_cut :: "string \<Rightarrow> nat" where
  "first_cut body =
     (let next = min ssrStreamChunkSize (length body)
      in case Index body ''</head>'' of None \<Rightarrow> next | Some i \<Rightarrow> if i + 7 < next then i + 7 else next)"

function ssr_tail :: "string \<Rightarrow> string list" where
  "ssr_tail body = (if body = [] then [] else take ssrStreamChunkSize body # ssr_tail (drop ssrStreamChunkSize body))"
  by auto
termination by (relation "measure length") (auto simp: ssrStreamChunkSize_def)

declare ssr_tail.simps [simp del]

definition ssr_chunks :: "string \<Rightarrow> string list" where
  "ssr_chunks body = (if body = [] then [] else take (first_cut body) body # ssr_tail (drop (first_cut body) body))"

text \<open>\<open>broken\<close> is the number of chunks after which writing fails or the client is gone, if that happens.\<close>

definition writeSSRDocument ::
  "(bool \<times> bool \<times> bool) list \<Rightarrow> nat option \<Rightarrow> nat \<Rightarrow> string \<Rightarrow> bool \<Rightarrow> bool \<Rightarrow> response \<Rightarrow> response" where
  "writeSSRDocument layers broken status body stream publicStatic w =
     (if \<not> stream \<or> \<not> responseSupportsFlush layers then w_write body (w_status status w)
      else let w1 = w_set ''X-GOSH-SSR-Stream'' ''1'' (w_set ''X-Accel-Buffering'' ''no'' w);
               w2 = (if publicStatic then w_set ''Cache-Control'' (appendNoTransform (hget (rs_header w1) ''Cache-Control'')) w1
                     else w_set ''Cache-Control'' ''private, no-store, no-transform'' w1);
               w3 = (w_status status w2)\<lparr>rs_uncompressed := disables_compression layers\<rparr>
           in fold w_write (case broken of None \<Rightarrow> ssr_chunks body | Some n \<Rightarrow> take n (ssr_chunks body)) w3)"

definition writeNotModifiedForHTML :: "(string \<Rightarrow> string) \<Rightarrow> ph_request \<Rightarrow> string \<Rightarrow> response \<Rightarrow> bool \<times> response" where
  "writeNotModifiedForHTML hash r body w =
     (let etag = CHR 0x22 # hash body @ [CHR 0x22]; w1 = w_set ''ETag'' etag w
      in if hget (ph_header r) ''If-None-Match'' = etag then (True, w_status 304 w1) else (False, w1))"

definition sendEarlyHints ::
  "bool \<Rightarrow> bool \<Rightarrow> bool \<Rightarrow> (string \<Rightarrow> string option) \<Rightarrow> ph_request \<Rightarrow> string \<Rightarrow> string list \<Rightarrow> response \<Rightarrow> response" where
  "sendEarlyHints enabled styles runtime host_of r runtimeURL styleURLs w =
     (if \<not> enabled \<or> requestWantsConnectionClose r \<or> isSameOriginNavigation host_of r then w
      else let links = (if styles then map (\<lambda>u. ''<'' @ u @ ''>; rel=preload; as=style'') (filter (\<lambda>u. u \<noteq> []) styleURLs) else []) @
                       (if runtime \<and> runtimeURL \<noteq> [] then [''<'' @ runtimeURL @ ''>; rel=preload; as=script''] else [])
           in if links = [] then w else w_del ''Link'' (w\<lparr>rs_hints := rs_hints w @ links\<rparr>))"

section \<open>The handler\<close>

record ('res, 'page, 'doc) page_env =
  pe_rules :: "(string \<times> RouteRule) list"
  pe_stream :: bool
  pe_public_file :: "string \<Rightarrow> bool"
  pe_error_renderer :: bool
  pe_select :: "ph_request \<Rightarrow> string + ('page option \<times> nat)"
  pe_render :: "ph_request \<Rightarrow> 'page \<Rightarrow> (string + 'res) \<times> string"
  pe_error_status :: "string \<Rightarrow> nat"
  pe_error_page :: "ph_request \<Rightarrow> string \<Rightarrow> ('res \<times> 'page) option"
  pe_entry :: "ph_request \<Rightarrow> 'doc option option"
  pe_build :: "'page \<Rightarrow> nat \<Rightarrow> 'res \<Rightarrow> bool \<Rightarrow> string + 'doc"
  pe_materialize :: "ph_request \<Rightarrow> 'doc \<Rightarrow> string + string \<times> (header \<Rightarrow> header)"
  pe_plain :: "'res \<Rightarrow> 'res"
  pe_base :: "'res \<Rightarrow> 'page \<Rightarrow> nat \<Rightarrow> string \<Rightarrow> string \<Rightarrow> bool \<Rightarrow> string + string"
  pe_nonce :: "string + string"
  pe_bind :: "ph_request \<Rightarrow> 'res \<Rightarrow> string + string \<times> 'res \<times> (header \<Rightarrow> header)"
  pe_assets :: "'page \<Rightarrow> 'res \<Rightarrow> string \<times> string list"
  pe_hints :: "bool \<times> bool \<times> bool"
  pe_host_of :: "string \<Rightarrow> string option"
  pe_layers :: "(bool \<times> bool \<times> bool) list"
  pe_broken :: "nat option"
  pe_hash :: "string \<Rightarrow> string"
  pe_timing :: "string option"

datatype ('res, 'page) page_reply =
  Redirect string response
| Failed nat string response
| Replied response
| ContentPage response
| ServeFile response
| SearchDocument nat 'res response
| StreamPage 'page nat 'res response

definition w_headers :: "(header \<Rightarrow> header) \<Rightarrow> response \<Rightarrow> response" where
  "w_headers f w = w\<lparr>rs_header := f (rs_header w)\<rparr>"

abbreviation send_document where
  "send_document E status body stream publicStatic w \<equiv> Replied (writeSSRDocument (pe_layers E) (pe_broken E) status body stream publicStatic w)"

text \<open>\<open>pe_timing\<close> is the text of the times, when they are sent.\<close>

definition setServerTiming :: "('res, 'page, 'doc) page_env \<Rightarrow> response \<Rightarrow> response" where
  "setServerTiming E w = (case pe_timing E of None \<Rightarrow> w | Some t \<Rightarrow> w_set ''Server-Timing'' t w)"

definition html_headers :: "('res, 'page, 'doc) page_env \<Rightarrow> response \<Rightarrow> response" where
  "html_headers E w = setServerTiming E (w_set ''Content-Type'' ''text/html; charset=utf-8'' w)"

text \<open>A document of the route's entry in the cache.\<close>

definition reply_cached ::
  "('res, 'page, 'doc) page_env \<Rightarrow> ph_request \<Rightarrow> RouteRule \<Rightarrow> bool \<Rightarrow> bool \<Rightarrow> nat \<Rightarrow> 'doc \<Rightarrow> response \<Rightarrow> ('res, 'page) page_reply" where
  "reply_cached E r rule publicStatic stream status doc w =
     (case pe_materialize E r doc of
        Inl err \<Rightarrow> Failed 500 err w
      | Inr (body, f) \<Rightarrow>
          let w1 = w_set ''Cache-Control'' (if publicStatic then publicCacheControl rule else ''no-cache'') (html_headers E (w_headers f w))
          in if publicStatic \<and> w_authorization r = [] then
               (case writeNotModifiedForHTML (pe_hash E) r body w1 of
                  (True, w2) \<Rightarrow> Replied w2
                | (False, w2) \<Rightarrow> send_document E status body stream publicStatic w2)
             else send_document E status body stream publicStatic w1)"

text \<open>A document of a public static route, without state, made for this request.\<close>

definition reply_static ::
  "('res, 'page, 'doc) page_env \<Rightarrow> ph_request \<Rightarrow> RouteRule \<Rightarrow> bool \<Rightarrow> 'page \<Rightarrow> nat \<Rightarrow> 'res \<Rightarrow> response \<Rightarrow> ('res, 'page) page_reply" where
  "reply_static E r rule stream page status result w =
     (case pe_base E (pe_plain E result) page status [] [] True of
        Inl err \<Rightarrow> Failed 500 err w
      | Inr body \<Rightarrow>
          let w1 = html_headers E (w_headers setPublicStaticCSPHeaders w)
          in if w_authorization r = [] then
               (case writeNotModifiedForHTML (pe_hash E) r body (w_set ''Cache-Control'' (publicCacheControl rule) w1) of
                  (True, w2) \<Rightarrow> Replied w2
                | (False, w2) \<Rightarrow> send_document E status body stream True w2)
             else send_document E status body stream True (w_set ''Cache-Control'' ''private, no-store'' w1))"

text \<open>A document with the visitor's state.\<close>

definition reply_bound ::
  "('res, 'page, 'doc) page_env \<Rightarrow> ph_request \<Rightarrow> bool \<Rightarrow> 'page \<Rightarrow> nat \<Rightarrow> 'res \<Rightarrow> response \<Rightarrow> ('res, 'page) page_reply" where
  "reply_bound E r stream page status result w =
     (case pe_nonce E of
        Inl err \<Rightarrow> Failed 500 err w
      | Inr nonce \<Rightarrow>
          let w1 = w_headers (setCSPHeaders nonce) w
          in case pe_bind E r result of
               Inl err \<Rightarrow> Failed 500 err w1
             | Inr (token, result', f) \<Rightarrow>
                 let w2 = w_headers f w1
                 in case pe_base E result' page status nonce token False of
                      Inl err \<Rightarrow> Failed 500 err w2
                    | Inr body \<Rightarrow>
                        send_document E status body stream False
                          (setServerTiming E (w_set ''Cache-Control'' ''no-cache'' (w_set ''Content-Type'' ''text/html; charset=utf-8'' w2))))"

definition reply_document ::
  "('res, 'page, 'doc) page_env \<Rightarrow> ph_request \<Rightarrow> RouteRule \<Rightarrow> bool \<Rightarrow> bool \<Rightarrow> 'page \<Rightarrow> nat \<Rightarrow> string \<Rightarrow> 'res \<Rightarrow> response \<Rightarrow> ('res, 'page) page_reply \<times> 'doc option" where
  "reply_document E r rule publicStatic stream page status cacheState result w =
     (let fresh = (if publicStatic then reply_static E r rule stream page status result w else reply_bound E r stream page status result w)
      in if status = 200 \<and> cacheState \<noteq> ''bypass'' then
           (case pe_entry E r of
              None \<Rightarrow> (fresh, None)
            | Some (Some doc) \<Rightarrow> (reply_cached E r rule publicStatic stream status doc w, None)
            | Some None \<Rightarrow>
                (case pe_build E page status result publicStatic of
                   Inl err \<Rightarrow> (Failed 500 err w, None)
                 | Inr doc \<Rightarrow> (reply_cached E r rule publicStatic stream status doc w, Some doc)))
         else (fresh, None))"

definition reply_result ::
  "('res, 'page, 'doc) page_env \<Rightarrow> ph_request \<Rightarrow> 'page \<Rightarrow> nat \<Rightarrow> string \<Rightarrow> 'res \<Rightarrow> response \<Rightarrow> ('res, 'page) page_reply \<times> 'doc option" where
  "reply_result E r page status cacheState result w =
     (let (rule, found) = routeRule (pe_rules E) (w_path r); publicStatic = (found \<and> PublicStatic rule);
          stream = ssrStreamEnabled (pe_stream E) rule found; w1 = w_set ''X-MyelophOne-Cache'' cacheState w
      in if isSiteSearchRequest r then (SearchDocument status result w1, None)
         else let w2 = (if publicStatic then w_del ''Vary'' w1 else w_set ''Vary'' ''Accept, X-Runtime, X-GOSH-Runtime'' w1)
           in if \<not> publicStatic \<and> isRuntimeRequest r then (StreamPage page status result w2, None)
              else let (runtimeURL, styleURLs) = pe_assets E page result; (h1, h2, h3) = pe_hints E;
                       w3 = (if publicStatic then w2 else sendEarlyHints h1 h2 h3 (pe_host_of E) r runtimeURL styleURLs w2)
                in reply_document E r rule publicStatic stream page status cacheState result w3)"

text \<open>The reply, and the document that is stored with the route's entry.\<close>

definition pageHandler :: "('res, 'page, 'doc) page_env \<Rightarrow> ph_request \<Rightarrow> response \<Rightarrow> ('res, 'page) page_reply \<times> 'doc option" where
  "pageHandler E r w =
     (if 1 < length (w_path r) \<and> HasSuffix (w_path r) ''/'' then
        (Redirect (CanonicalURL (w_path r) @ (if ph_query r \<noteq> [] then ''?'' @ ph_query r else [])) w, None)
      else if w_method r \<noteq> ''GET'' then (Failed 405 ''method not allowed'' w, None)
      else
        let (rule, found) = routeRule (pe_rules E) (w_path r); prefetch = (hget (ph_header r) ''X-GOSH-Prefetch'' = ''1'') in
        if prefetch \<and> (\<not> found \<or> fst (routeTTL rule) \<le> 0 \<or> \<not> cacheablePageRequest (web_request.truncate r) (PublicStatic rule)) then
          (Replied (w_status 204 (w_set ''Cache-Control'' ''no-store'' (w_set ''X-GOSH-Prefetchable'' ''0'' w))), None)
        else
          let w1 = (if prefetch then w_set ''X-GOSH-Prefetchable'' ''1'' w else w) in
          if HasPrefix (w_path r) ''/post/'' then (ContentPage w1, None)
          else case pe_select E r of
            Inl err \<Rightarrow> (Failed 500 err w1, None)
          | Inr (None, _) \<Rightarrow> (if pe_public_file E (w_path r) then ServeFile w1 else Failed 404 ''Not Found'' w1, None)
          | Inr (Some page, status) \<Rightarrow>
              (case pe_render E r page of
                 (Inr result, cacheState) \<Rightarrow> reply_result E r page status cacheState result w1
               | (Inl err, cacheState) \<Rightarrow>
                   (case pe_error_page E r err of
                      None \<Rightarrow> (Failed 500 err w1, None)
                    | Some (result, error_page) \<Rightarrow>
                        if pe_error_renderer E then (Failed (pe_error_status E err) err w1, None)
                        else reply_result E r error_page (pe_error_status E err) cacheState result w1)))"

section \<open>Chunks\<close>

lemma take_drop_parts: "take n xs @ drop n xs = xs" by simp

lemma concat_ssr_tail: "concat (ssr_tail body) = body"
proof (induction body rule: ssr_tail.induct)
  case (1 body)
  then show ?case by (subst ssr_tail.simps) auto
qed

lemma ssr_tail_sizes: "list_all (\<lambda>c. c \<noteq> [] \<and> length c \<le> ssrStreamChunkSize) (ssr_tail body)"
proof (induction body rule: ssr_tail.induct)
  case (1 body)
  then show ?case by (subst ssr_tail.simps) (auto simp: ssrStreamChunkSize_def)
qed

lemma first_cut_bounds: "first_cut body \<le> ssrStreamChunkSize" "body \<noteq> [] \<Longrightarrow> 0 < first_cut body"
  by (auto simp: first_cut_def Let_def ssrStreamChunkSize_def split: option.splits)

lemma ssr_chunks_facts:
  "concat (ssr_chunks body) = body" "list_all (\<lambda>c. c \<noteq> [] \<and> length c \<le> ssrStreamChunkSize) (ssr_chunks body)"
  using first_cut_bounds [of body] ssr_tail_sizes [of "drop (first_cut body) body"]
  by (auto simp: ssr_chunks_def concat_ssr_tail)

lemma w_simps [simp]:
  "rs_writes (w_set k v w) = rs_writes w" "rs_writes (w_status n w) = rs_writes w" "rs_writes (w_write p w) = rs_writes w @ [p]"
  "rs_header (w_status n w) = rs_header w" "rs_header (w_write p w) = rs_header w" "rs_header (w_set k v w) = hset k v (rs_header w)"
  "rs_writes (w\<lparr>rs_uncompressed := b\<rparr>) = rs_writes w" "rs_header (w\<lparr>rs_uncompressed := b\<rparr>) = rs_header w"
  by (simp_all add: w_set_def w_status_def w_write_def)

lemma fold_writes [simp]:
  "rs_writes (fold w_write ps w) = rs_writes w @ ps" "rs_header (fold w_write ps w) = rs_header w"
  by (induction ps arbitrary: w) auto

text \<open>C39: A document reaches the client whole: streamed or not, through any stack of writers, what is
  written is the document, and no write of a streamed one is empty or longer than 32 KiB.\<close>

theorem document_written_whole:
  "concat (rs_writes (writeSSRDocument layers None status body stream publicStatic (new_response h))) = body \<and>
   (stream \<and> responseSupportsFlush layers \<longrightarrow>
      list_all (\<lambda>c. c \<noteq> [] \<and> length c \<le> 32768) (rs_writes (writeSSRDocument layers None status body stream publicStatic (new_response h))))"
  using ssr_chunks_facts [of body] by (simp add: writeSSRDocument_def new_response_def Let_def ssrStreamChunkSize_def)

theorem document_written_whole_witness:
  "list_all (\<lambda>c. c \<noteq> [] \<and> length c \<le> 32768)
     (rs_writes (writeSSRDocument [(True, False, False)] None 200 ''<head></head><body>x</body>'' True False (new_response [])))"
  using document_written_whole [of "[(True, False, False)]" 200 "''<head></head><body>x</body>''" True False "[]"] by simp

section \<open>Who may store a document\<close>

definition cache_control :: "response \<Rightarrow> string" where "cache_control w = hget (rs_header w) ''Cache-Control''"

lemma cache_control_other [simp]:
  "k \<noteq> ''Cache-Control'' \<Longrightarrow> cache_control (w_set k v w) = cache_control w"
  "cache_control (w_set ''Cache-Control'' v w) = v" "cache_control (w_status n w) = cache_control w"
  "cache_control (setServerTiming E w) = cache_control w"
  by (auto simp: cache_control_def setServerTiming_def split: option.splits)

lemma cache_control_new [simp]: "cache_control (new_response []) = []"
  by (simp add: cache_control_def new_response_def hget_def)

lemma cache_control_document:
  "cache_control (writeSSRDocument layers broken status body stream publicStatic w) =
     (if stream \<and> responseSupportsFlush layers then (if publicStatic then appendNoTransform (cache_control w) else ''private, no-store, no-transform'')
      else cache_control w)"
  by (simp add: writeSSRDocument_def Let_def cache_control_def split: option.split)

lemma not_public: "\<not> Contains ''no-cache'' ''public''" "\<not> Contains ''no-store'' ''public''" "\<not> Contains ''private, no-store'' ''public''"
    "\<not> Contains ''private, no-store, no-transform'' ''public''" "\<not> Contains (appendNoTransform ''private, no-store'') ''public''" "\<not> Contains [] ''public''"
  by code_simp+

lemma not_modified_control: "writeNotModifiedForHTML hash r body w = (b, w') \<Longrightarrow> cache_control w' = cache_control w"
  by (auto simp: writeNotModifiedForHTML_def Let_def split: if_splits)

lemma bound_not_public: "reply_bound E r stream page status result w = Replied w' \<Longrightarrow> \<not> Contains (cache_control w') ''public''"
  using not_public by (auto simp: reply_bound_def Let_def cache_control_document split: sum.splits prod.splits if_splits)

lemma static_public:
  "reply_static E r rule stream page status result w = Replied w' \<Longrightarrow> Contains (cache_control w') ''public'' \<Longrightarrow> w_authorization r = []"
  using not_public by (auto simp: reply_static_def Let_def cache_control_document split: sum.splits prod.splits if_splits)

lemma cached_public:
  "reply_cached E r rule publicStatic stream status doc w = Replied w' \<Longrightarrow> Contains (cache_control w') ''public'' \<Longrightarrow> publicStatic"
  using not_public by (auto simp: reply_cached_def Let_def cache_control_document split: sum.splits prod.splits if_splits)

lemma document_public:
  assumes "reply_document E r rule publicStatic stream page status cacheState result w = (Replied w', d)" "Contains (cache_control w') ''public''"
  shows "publicStatic \<and> (w_authorization r = [] \<or> cacheState \<noteq> ''bypass'')"
  using assms static_public [of E r rule stream page status result w w'] bound_not_public [of E r stream page status result w w']
    cached_public [of E r rule publicStatic stream status _ w w']
  by (auto simp: reply_document_def Let_def split: if_splits option.splits sum.splits)

lemma result_public:
  assumes "reply_result E r page status cacheState result w = (Replied w', d)" "Contains (cache_control w') ''public''"
  shows "snd (routeRule (pe_rules E) (w_path r)) \<and> PublicStatic (fst (routeRule (pe_rules E) (w_path r))) \<and> (w_authorization r = [] \<or> cacheState \<noteq> ''bypass'')"
proof -
  obtain rule found where rf: "routeRule (pe_rules E) (w_path r) = (rule, found)" by fastforce
  obtain h1 h2 h3 where h: "pe_hints E = (h1, h2, h3)" by (cases "pe_hints E")
  obtain ru st where a: "pe_assets E page result = (ru, st)" by fastforce
  define ps where "ps \<longleftrightarrow> found \<and> PublicStatic rule"
  have "\<not> isSiteSearchRequest r" "ps \<or> \<not> isRuntimeRequest r"
    using assms(1) by (auto simp: reply_result_def rf Let_def ps_def split: if_splits)
  with assms(1) have "\<exists>w3. reply_document E r rule ps (ssrStreamEnabled (pe_stream E) rule found) page status cacheState result w3 = (Replied w', d)"
    unfolding reply_result_def rf h a Let_def prod.case ps_def [symmetric] by (cases ps) auto
  then obtain w3 where "reply_document E r rule ps (ssrStreamEnabled (pe_stream E) rule found) page status cacheState result w3 = (Replied w', d)" ..
  from document_public [OF this assms(2)] rf ps_def show ?thesis by simp
qed


text \<open>A static page for the example: rendered for the request, without an entry in the cache.\<close>

definition static_env :: "(unit, unit, unit) page_env" where
  "static_env = \<lparr>pe_rules = [(''/**'', no_rule\<lparr>CacheMaxAge := Some 10, PublicStatic := True\<rparr>)], pe_stream = False,
     pe_public_file = (\<lambda>p. False), pe_error_renderer = False, pe_select = (\<lambda>r. Inr (Some (), 200)), pe_render = (\<lambda>r p. (Inr (), ''miss'')),
     pe_error_status = (\<lambda>e. 500), pe_error_page = (\<lambda>r e. None), pe_entry = (\<lambda>r. None), pe_build = (\<lambda>p n r b. Inl []),
     pe_materialize = (\<lambda>r d. Inl []), pe_plain = (\<lambda>r. r), pe_base = (\<lambda>r p n a b c. Inr ''<p>hi</p>''), pe_nonce = Inl [],
     pe_bind = (\<lambda>r x. Inl []), pe_assets = (\<lambda>p r. ([], [])), pe_hints = (False, False, False), pe_host_of = (\<lambda>u. None),
     pe_layers = [], pe_broken = None, pe_hash = (\<lambda>s. s), pe_timing = None\<rparr>"

definition static_visitor :: ph_request where
  "static_visitor = \<lparr>w_method = ''GET'', w_authorization = [], w_cookies = [''a''], w_tenant = None, w_path = ''/x'', w_uri = ''/x'',
     ph_query = [], ph_header = [], ph_host = ''h'', ph_close = False, ph_connection = []\<rparr>"

lemma static_reply:
  "(case fst (pageHandler static_env static_visitor (new_response [])) of Replied w \<Rightarrow> Contains (cache_control w) ''public'' | _ \<Rightarrow> False)"
  "page_cached (pe_rules static_env) (web_request.truncate static_visitor)"
  by code_simp+


section \<open>Redirects\<close>

lemma Join_plain:
  "list_all (\<lambda>p. p \<noteq> [] \<and> CHR ''/'' \<notin> set p) ps \<Longrightarrow> Join ps ''/'' \<noteq> [] \<Longrightarrow> hd (Join ps ''/'') \<noteq> CHR ''/'' \<and> last (Join ps ''/'') \<noteq> CHR ''/''"
proof (induction ps "''/''" rule: Join.induct)
  case (2 p)
  then show ?case by (auto dest: hd_in_set last_in_set)
next
  case (3 p q ps)
  then have "Join (q # ps) ''/'' \<noteq> []" by (cases ps) auto
  with 3 show ?case by (auto dest: hd_in_set)
qed simp

text \<open>A redirect to the canonical address stays on this server: the address begins with exactly one
  slash, and ends with none unless it is the root, so following it ends at once.\<close>

theorem canonical_address:
  "\<exists>t. CanonicalURL v = CHR ''/'' # t \<and> (t = [] \<or> (hd t \<noteq> CHR ''/'' \<and> last t \<noteq> CHR ''/''))"
proof (cases "v = []")
  case False
  define segs where "segs = clean_segs [] (Split (CHR ''/'') (CHR ''/'' # TrimSpace v))"
  have "\<forall>s\<in>set segs. good_seg s" unfolding segs_def using Split_no_sep by (intro clean_segs_good) (simp only: list.set ball_simps, blast)
  then have segs: "list_all (\<lambda>p. p \<noteq> [] \<and> CHR ''/'' \<notin> set p) segs" by (simp add: list_all_iff good_seg_def)
  have c: "path_Clean (CHR ''/'' # TrimSpace v) = CHR ''/'' # Join segs ''/''" by (simp add: path_Clean_def segs_def)
  have "CanonicalURL v = CHR ''/'' # Join segs ''/''"
  proof (cases "Join segs ''/'' = []")
    case True
    with False c show ?thesis by (simp add: CanonicalURL_def Let_def)
  next
    case ne: False
    then have "TrimRight (CHR ''/'' # Join segs ''/'') (CHR ''/'') = CHR ''/'' # Join segs ''/''"
      using Join_plain [OF segs ne] by (intro TrimRight_last) auto
    with False c show ?thesis by (simp add: CanonicalURL_def Let_def)
  qed
  with Join_plain [OF segs] show ?thesis by blast
qed (simp add: CanonicalURL_def)

text \<open>A backslash is kept, which browsers read as a slash: the path of \<^verbatim>\<open>/%5Cevil.com/\<close> is redirected off the server.\<close>

lemma backslash_redirect: "CanonicalURL (''/'' @ [CHR 0x5C] @ ''evil.com/'') = ''/'' @ [CHR 0x5C] @ ''evil.com''"
  by code_simp

end
