(* ===== verification/WebSearch.thy ===== *)
theory WebSearch imports WebHandler HtmlDom begin

text \<open>
  The site's search (\<^verbatim>\<open>web_site_search.go\<close>): the crawl from the known routes along the links of the pages,
  the text of a page, the queries on the index and the snippets. Parsing of HTML, URLs and runes is the
  standard library's; a slice out of range, which panics, is \<open>None\<close>.
\<close>

section \<open>The text of a page\<close>

definition skipped_tags :: "string list" where
  "skipped_tags = [''script'', ''style'', ''noscript'', ''template'', ''svg'', ''header'', ''footer'', ''nav'', ''form'', ''dialog'']"

text \<open>The attributes in their order: whether the element is hidden, and its links so far.\<close>

fun search_attrs :: "string \<Rightarrow> bool \<Rightarrow> (string \<times> string) list \<Rightarrow> bool \<times> string list" where
  "search_attrs tag hidden [] = (hidden, [])"
| "search_attrs tag hidden ((k, v) # as) =
     (let h = (hidden \<or> k = ''data-nosnippet'' \<or> (k = ''aria-hidden'' \<and> ToLower v = ''true''));
          (h', links) = search_attrs tag h as
      in (h', if tag = ''a'' \<and> k = ''href'' \<and> \<not> h then v # links else links))"

fun search_walk :: "bool \<Rightarrow> node \<Rightarrow> string \<times> string list"
  and search_walks :: "bool \<Rightarrow> node list \<Rightarrow> string \<times> string list" where
  "search_walk hidden (Node t d a cs) =
     (let tag = ToLower d in
      if t = ElementNode \<and> tag \<in> set skipped_tags then ([], [])
      else let (h, links) = (if t = ElementNode then search_attrs tag hidden a else (hidden, []));
               (text', links') = search_walks h cs
           in ((if t = TextNode \<and> \<not> h then d @ '' '' else []) @ text', links @ links'))"
| "search_walks hidden [] = ([], [])"
| "search_walks hidden (n # ns) =
     (let (t1, l1) = search_walk hidden n; (t2, l2) = search_walks hidden ns in (t1 @ t2, l1 @ l2))"

fun findHTMLElement :: "string \<Rightarrow> node \<Rightarrow> node option"
  and findHTMLElements :: "string \<Rightarrow> node list \<Rightarrow> node option" where
  "findHTMLElement tag (Node t d a cs) =
     (if t = ElementNode \<and> ToLower d = ToLower tag then Some (Node t d a cs) else findHTMLElements tag cs)"
| "findHTMLElements tag [] = None"
| "findHTMLElements tag (n # ns) = (case findHTMLElement tag n of Some x \<Rightarrow> Some x | None \<Rightarrow> findHTMLElements tag ns)"

definition siteSearchContent :: "(string \<Rightarrow> node option) \<Rightarrow> string \<Rightarrow> string \<times> string list" where
  "siteSearchContent parse source =
     (case parse source of
        None \<Rightarrow> ([], [])
      | Some root \<Rightarrow>
          let (text, links) = search_walk False (case findHTMLElement ''main'' root of Some m \<Rightarrow> m | None \<Rightarrow> root)
          in (Join (Fields text) '' '', links))"

text \<open>What is hidden stays out of the index.\<close>

lemma search_attrs_hidden: "search_attrs tag True as = (True, [])"
  by (induction as) auto

lemma search_walk_hidden: "hidden \<Longrightarrow> search_walk hidden n = ([], [])" "hidden \<Longrightarrow> search_walks hidden ns = ([], [])"
  by (induction hidden n and hidden ns rule: search_walk_search_walks.induct) (auto simp: search_attrs_hidden Let_def split: prod.splits)

lemma link_before_hidden: "search_walk False (Node ElementNode ''a'' [(''href'', ''/x''), (''aria-hidden'', ''true'')] []) = ([], [''/x''])"
  by code_simp

section \<open>The crawl\<close>

record siteSearchDocument =
  sd_Path :: string
  sd_Title :: string
  sd_Description :: string
  sd_Content :: string
  sd_Links :: "string list"
  sd_NoIndex :: bool

definition newSiteSearchDocument ::
  "(string \<Rightarrow> node option) \<Rightarrow> string \<Rightarrow> string \<Rightarrow> string \<Rightarrow> bool \<Rightarrow> string \<Rightarrow> siteSearchDocument" where
  "newSiteSearchDocument parse path title description noIndex markup =
     (let (text, links) = siteSearchContent parse markup
      in \<lparr>sd_Path = path, sd_Title = TrimSpace title, sd_Description = TrimSpace description, sd_Content = text, sd_Links = links, sd_NoIndex = noIndex\<rparr>)"

text \<open>A resolved URL: whether it is absolute or names a host, its path and its query.\<close>

type_synonym resolved = "bool \<times> string \<times> string"

definition followed :: "resolved option \<Rightarrow> string option" where
  "followed u =
     (case u of None \<Rightarrow> None
      | Some (elsewhere, path, query) \<Rightarrow>
          if elsewhere \<or> path = [] \<or> query \<noteq> [] \<or> HasPrefix path ''/_'' \<or> HasPrefix path ''/api/'' then None
          else Some (CanonicalURL path))"

text \<open>The queue is also the record of what was seen.\<close>

fun add_links :: "(string \<Rightarrow> resolved option) \<Rightarrow> nat \<Rightarrow> string list \<Rightarrow> string list \<Rightarrow> string list" where
  "add_links resolve limit [] queue = queue"
| "add_links resolve limit (href # hrefs) queue =
     (case followed (resolve href) of
        None \<Rightarrow> add_links resolve limit hrefs queue
      | Some p \<Rightarrow> if p \<notin> set queue \<and> length queue < limit then add_links resolve limit hrefs (queue @ [p])
                  else add_links resolve limit hrefs queue)"

function crawl ::
  "(string \<Rightarrow> siteSearchDocument option) \<Rightarrow> (string \<Rightarrow> string \<Rightarrow> resolved option) \<Rightarrow> nat \<Rightarrow> nat \<Rightarrow> string list \<Rightarrow>
     siteSearchDocument list \<times> string list" where
  "crawl look resolve limit index queue =
     (if index < length queue \<and> index < limit then
        (case look (queue ! index) of
           None \<Rightarrow> crawl look resolve limit (Suc index) queue
         | Some d \<Rightarrow>
             if sd_NoIndex d then crawl look resolve limit (Suc index) queue
             else let (ds, q) = crawl look resolve limit (Suc index) (add_links (resolve (queue ! index)) limit (sd_Links d) queue)
                  in (d # ds, q))
      else ([], queue))"
  by pat_completeness auto
termination by (relation "measure (\<lambda>(look, resolve, limit, index, queue). limit - index)") auto

declare crawl.simps [simp del]

definition search_limit :: "int \<Rightarrow> nat" where "search_limit n = (if n < 1 then 500 else nat n)"

text \<open>\<open>None\<close> stands for a refused method; the routes come first, then the posts.\<close>

definition siteSearchStreamHandler ::
  "string \<Rightarrow> string list \<Rightarrow> string list \<Rightarrow> int \<Rightarrow> (string \<Rightarrow> siteSearchDocument option) \<Rightarrow> (string \<Rightarrow> string \<Rightarrow> resolved option) \<Rightarrow>
     siteSearchDocument list option" where
  "siteSearchStreamHandler method routes posts maxPages look resolve =
     (if method \<noteq> ''GET'' then None
      else Some (fst (crawl look resolve (search_limit maxPages) 0 (routes @ map ((@) ''/post/'') posts))))"

text \<open>Rendering a path: a post through its handler, which answers with a status and a document, or a page.\<close>

definition renderSiteSearchPath ::
  "(string \<Rightarrow> nat \<times> siteSearchDocument option) \<Rightarrow> (string \<Rightarrow> ('page \<times> nat) option) \<Rightarrow> ('page \<Rightarrow> siteSearchDocument option) \<Rightarrow>
     string \<Rightarrow> siteSearchDocument option" where
  "renderSiteSearchPath content select render_page path =
     (if HasPrefix path ''/post/'' then (case content path of (status, d) \<Rightarrow> if status \<noteq> 200 then None else d)
      else case select path of None \<Rightarrow> None | Some (page, status) \<Rightarrow> if status \<noteq> 200 then None else render_page page)"

text \<open>The index is rebuilt from what a captured run writes; the capture's status is set by its first write.\<close>

definition captured_status :: "'d list \<Rightarrow> nat" where "captured_status ds = (if ds = [] then 0 else 200)"

definition rebuildSiteSearchIndex :: "siteSearchDocument list \<Rightarrow> siteSearchDocument list \<Rightarrow> string option \<times> siteSearchDocument list" where
  "rebuildSiteSearchIndex written index =
     (if captured_status written \<noteq> 200 then (Some (''site search index: status '' @ Itoa (int (captured_status written))), index)
      else (None, written))"

section \<open>What the crawl finds\<close>

lemma add_links_facts:
  "\<exists>new. add_links resolve limit hrefs queue = queue @ new \<and> (distinct queue \<longrightarrow> distinct (queue @ new)) \<and>
     (length (queue @ new) < limit \<longrightarrow> (\<forall>href\<in>set hrefs. \<forall>p. followed (resolve href) = Some p \<longrightarrow> p \<in> set (queue @ new)))"
proof (induction resolve limit hrefs queue rule: add_links.induct)
  case (2 resolve limit href hrefs queue)
  show ?case
  proof (cases "followed (resolve href)")
    case None
    with 2(1) show ?thesis by auto
  next
    case (Some p)
    show ?thesis
    proof (cases "p \<notin> set queue \<and> length queue < limit")
      case True
      from 2(2) [OF Some True] obtain new where "add_links resolve limit hrefs (queue @ [p]) = (queue @ [p]) @ new"
        "distinct (queue @ [p]) \<longrightarrow> distinct ((queue @ [p]) @ new)"
        "length ((queue @ [p]) @ new) < limit \<longrightarrow> (\<forall>href\<in>set hrefs. \<forall>p'. followed (resolve href) = Some p' \<longrightarrow> p' \<in> set ((queue @ [p]) @ new))"
        by blast
      with True Some show ?thesis by (intro exI [of _ "p # new"]) auto
    next
      case False
      from 2(3) [OF Some False] obtain new where "add_links resolve limit hrefs queue = queue @ new"
        "distinct queue \<longrightarrow> distinct (queue @ new)"
        "length (queue @ new) < limit \<longrightarrow> (\<forall>href\<in>set hrefs. \<forall>p'. followed (resolve href) = Some p' \<longrightarrow> p' \<in> set (queue @ new))"
        by blast
      with False Some show ?thesis by (intro exI [of _ new]) auto
    qed
  qed
qed simp

definition indexed :: "(string \<Rightarrow> siteSearchDocument option) \<Rightarrow> string \<Rightarrow> siteSearchDocument list" where
  "indexed look p = (case look p of None \<Rightarrow> [] | Some d \<Rightarrow> if sd_NoIndex d then [] else [d])"

text \<open>The links of the pages from \<open>from\<close> to \<open>to\<close> are in the queue.\<close>

definition links_seen where
  "links_seen look resolve queue i j \<longleftrightarrow>
     (\<forall>k. i \<le> k \<and> k < j \<longrightarrow> (\<forall>d\<in>set (indexed look (queue ! k)). \<forall>href\<in>set (sd_Links d). \<forall>p.
        followed (resolve (queue ! k) href) = Some p \<longrightarrow> p \<in> set queue))"

lemma crawl_facts:
  "index \<le> length queue \<Longrightarrow> crawl look resolve limit index queue = (ds, q) \<Longrightarrow>
     (\<exists>new. q = queue @ new) \<and> (distinct queue \<longrightarrow> distinct q) \<and>
     ds = concat (map (indexed look) (drop index (take limit q))) \<and>
     (length q < limit \<longrightarrow> links_seen look resolve q index (length q))"
proof (induction look resolve limit index queue arbitrary: ds q rule: crawl.induct)
  case (1 look resolve limit index queue)
  show ?case
  proof (cases "index < length queue \<and> index < limit")
    case False
    with "1.prems" have q: "q = queue" "ds = []" by (auto simp: crawl.simps [of _ _ _ index])
    have "drop index (take limit queue) = []" using False "1.prems"(1) by auto
    with q False "1.prems"(1) show ?thesis by (auto simp: links_seen_def)
  next
    case True
    let ?p = "queue ! index"
    define queue' where "queue' = (case look ?p of Some d \<Rightarrow> if sd_NoIndex d then queue else add_links (resolve ?p) limit (sd_Links d) queue | None \<Rightarrow> queue)"
    obtain ds' where rest: "crawl look resolve limit (Suc index) queue' = (ds', q)" and ds: "ds = indexed look ?p @ ds'"
      using "1.prems"(2) True by (auto simp: crawl.simps [of _ _ _ index] queue'_def indexed_def split: option.splits if_splits prod.splits)
    have more': "\<exists>more. queue' = queue @ more \<and> (distinct queue \<longrightarrow> distinct queue') \<and>
      (length queue' < limit \<longrightarrow> (\<forall>d\<in>set (indexed look ?p). \<forall>href\<in>set (sd_Links d). \<forall>p. followed (resolve ?p href) = Some p \<longrightarrow> p \<in> set queue'))"
    proof (cases "look ?p")
      case None
      then show ?thesis by (simp add: queue'_def indexed_def)
    next
      case (Some d)
      from add_links_facts [of "resolve ?p" limit "sd_Links d" queue] obtain more where
        "add_links (resolve ?p) limit (sd_Links d) queue = queue @ more" "distinct queue \<longrightarrow> distinct (queue @ more)"
        "length (queue @ more) < limit \<longrightarrow> (\<forall>href\<in>set (sd_Links d). \<forall>p. followed (resolve ?p href) = Some p \<longrightarrow> p \<in> set (queue @ more))" by blast
      with Some show ?thesis by (cases "sd_NoIndex d") (auto simp: queue'_def indexed_def)
    qed
    then obtain more where more: "queue' = queue @ more" "distinct queue \<longrightarrow> distinct queue'"
      "length queue' < limit \<longrightarrow> (\<forall>d\<in>set (indexed look ?p). \<forall>href\<in>set (sd_Links d). \<forall>p. followed (resolve ?p href) = Some p \<longrightarrow> p \<in> set queue')"
      by blast
    have le: "Suc index \<le> length queue'" using True more(1) by simp
    have IH: "(\<exists>new. q = queue' @ new) \<and> (distinct queue' \<longrightarrow> distinct q) \<and> ds' = concat (map (indexed look) (drop (Suc index) (take limit q))) \<and>
        (length q < limit \<longrightarrow> links_seen look resolve q (Suc index) (length q))"
    proof (cases "look ?p")
      case None
      with "1.IH"(1) [OF True None] le rest show ?thesis by (simp add: queue'_def)
    next
      case (Some d)
      show ?thesis
      proof (cases "sd_NoIndex d")
        case no: True
        with "1.IH"(2) [OF True Some no] le rest Some show ?thesis by (simp add: queue'_def)
      next
        case no: False
        with "1.IH"(3) [OF True Some no] le rest Some show ?thesis by (simp add: queue'_def)
      qed
    qed
    then obtain new where q: "q = queue' @ new" by blast
    have at: "q ! index = ?p" "index < length q" using q more(1) True by (auto simp: nth_append)
    have "drop index (take limit q) = q ! index # drop (Suc index) (take limit q)"
      using True at by (subst Cons_nth_drop_Suc [symmetric]) auto
    then have "ds = concat (map (indexed look) (drop index (take limit q)))" using ds IH at by simp
    moreover have "links_seen look resolve q index (length q)" if "length q < limit"
    proof -
      have "length queue' < limit" using that q by simp
      with more(3) q have "\<forall>d\<in>set (indexed look ?p). \<forall>href\<in>set (sd_Links d). \<forall>p. followed (resolve ?p href) = Some p \<longrightarrow> p \<in> set q" by auto
      with IH that at show ?thesis unfolding links_seen_def by (metis Suc_leI le_neq_implies_less)
    qed
    ultimately show ?thesis using IH more q by auto
  qed
qed


definition example_pages :: "string \<Rightarrow> siteSearchDocument option" where
  "example_pages p =
     (if p = ''/'' then Some \<lparr>sd_Path = p, sd_Title = [], sd_Description = [], sd_Content = ''home'', sd_Links = [''/a'', ''/''], sd_NoIndex = False\<rparr>
      else if p = ''/a'' then Some \<lparr>sd_Path = p, sd_Title = [], sd_Description = [], sd_Content = ''a'', sd_Links = [''/''], sd_NoIndex = False\<rparr>
      else None)"


text \<open>A site with nothing to index cannot rebuild its index: the captured status was never set.\<close>

lemma empty_site_fails: "rebuildSiteSearchIndex [] index = (Some ''site search index: status 0'', index)"
  by code_simp

section \<open>Queries\<close>

record locale_config =
  lc_Locales :: "string list"
  lc_Default :: string

definition language :: "string \<Rightarrow> string" where "language s = ToLower (hd (Split (CHR ''-'') s))"

definition siteSearchDocumentLocale :: "string \<Rightarrow> locale_config \<Rightarrow> string" where
  "siteSearchDocumentLocale path cfg =
     (let part = ToLower (hd (Split (CHR ''/'') (Trim path (CHR ''/''))))
      in if list_ex (\<lambda>l. language l = part) (lc_Locales cfg) then part else language (lc_Default cfg))"

definition hasLocalizedSibling :: "siteSearchDocument list \<Rightarrow> string \<Rightarrow> string \<Rightarrow> locale_config \<Rightarrow> bool" where
  "hasLocalizedSibling index path loc cfg =
     (let base = CHR ''/'' # Join (tl (Split (CHR ''/'') (Trim path (CHR ''/'')))) ''/''
      in list_ex (\<lambda>d. siteSearchDocumentLocale (sd_Path d) cfg = loc \<and> TrimPrefix (sd_Path d) (CHR ''/'' # loc) = base) index)"

definition word_matches :: "string list \<Rightarrow> siteSearchDocument \<Rightarrow> nat" where
  "word_matches words d =
     (let text = ToLower (sd_Title d @ '' '' @ sd_Description d @ '' '' @ sd_Content d) in length (filter (Contains text) words))"

definition search_hit :: "siteSearchDocument list \<Rightarrow> locale_config \<Rightarrow> string list \<Rightarrow> string \<Rightarrow> string \<Rightarrow> siteSearchDocument \<Rightarrow> bool" where
  "search_hit index cfg words operator loc d \<longleftrightarrow>
     \<not> ((operator = ''and'' \<and> word_matches words d \<noteq> length words) \<or> (operator \<noteq> ''and'' \<and> word_matches words d = 0)) \<and>
     \<not> (loc \<noteq> [] \<and> siteSearchDocumentLocale (sd_Path d) cfg \<noteq> loc \<and> hasLocalizedSibling index (sd_Path d) loc cfg)"

fun search_loop ::
  "(siteSearchDocument \<Rightarrow> 'r) \<Rightarrow> (siteSearchDocument \<Rightarrow> bool) \<Rightarrow> nat \<Rightarrow> siteSearchDocument list \<Rightarrow> 'r list \<Rightarrow> 'r list" where
  "search_loop entry hit limit [] results = results"
| "search_loop entry hit limit (d # ds) results =
     (if \<not> hit d then search_loop entry hit limit ds results
      else let results' = results @ [entry d]
        in if length results' = limit then results' else search_loop entry hit limit ds results')"

datatype 'r search_reply = NoContent | EmptyQuery nat | Results "'r list"

definition result_limit :: "int option \<Rightarrow> nat" where
  "result_limit n = (case n of None \<Rightarrow> 10 | Some l \<Rightarrow> if l < 1 \<or> l > 100 then 10 else nat l)"

text \<open>The query's values as they stand in the URL; a number that cannot be read is none. An entry keeps the
  number of matching words, of which the score is the inverse.\<close>

definition siteSearchQueryHandler ::
  "(siteSearchDocument \<Rightarrow> string list \<Rightarrow> string option) \<Rightarrow> bool \<Rightarrow> locale_config \<Rightarrow> siteSearchDocument list \<Rightarrow> string \<Rightarrow> string \<Rightarrow> string \<Rightarrow> string \<Rightarrow>
     (siteSearchDocument \<times> string option \<times> string \<times> nat) search_reply" where
  "siteSearchQueryHandler snippet enabled cfg index q limit operator loc =
     (if \<not> enabled then NoContent
      else let query = ToLower (TrimSpace q) in
        if query = [] then EmptyQuery (length index)
        else let words = Fields query in
          Results (search_loop (\<lambda>d. (d, snippet d words, siteSearchDocumentLocale (sd_Path d) cfg, word_matches words d))
            (search_hit index cfg words (ToLower operator) (language loc)) (result_limit (ParseInt64 limit)) index []))"

lemma search_loop_take:
  "length results < limit \<Longrightarrow> search_loop entry hit limit ds results = results @ take (limit - length results) (map entry (filter hit ds))"
proof (induction entry hit limit ds results rule: search_loop.induct)
  case (2 entry hit limit d ds results)
  show ?case
  proof (cases "hit d \<and> length (results @ [entry d]) < limit")
    case True
    with 2(2) [OF _ refl] have "search_loop entry hit limit ds (results @ [entry d]) = (results @ [entry d]) @ take (limit - length (results @ [entry d])) (map entry (filter hit ds))"
      by simp
    moreover have "limit - length results = Suc (limit - length (results @ [entry d]))" using True by (simp, arith)
    ultimately show ?thesis using True by (simp add: Let_def)
  next
    case False
    show ?thesis
    proof (cases "hit d")
      case True
      with False 2(3) have "limit - length results = Suc 0" "length (results @ [entry d]) = limit" by auto
      with True show ?thesis by (simp add: Let_def)
    next
      case no: False
      with 2(1,3) show ?thesis by simp
    qed
  qed
qed simp

text \<open>A search returns the first hits of the index, in its order and no more than the limit of the
  query, which is between 1 and 100: none that matches is passed over before one that is returned.\<close>

theorem search_results:
  assumes "siteSearchQueryHandler snippet enabled cfg index q limit operator loc = Results rs"
  shows "map fst rs = take (result_limit (ParseInt64 limit))
      (filter (search_hit index cfg (Fields (ToLower (TrimSpace q))) (ToLower operator) (language loc)) index) \<and>
    length rs \<le> 100"
proof -
  have pos: "0 < result_limit n" "result_limit n \<le> 100" for n by (auto simp: result_limit_def split: option.splits)
  have "rs = take (result_limit (ParseInt64 limit)) (map (\<lambda>d. (d, snippet d (Fields (ToLower (TrimSpace q))), siteSearchDocumentLocale (sd_Path d) cfg,
      word_matches (Fields (ToLower (TrimSpace q))) d))
    (filter (search_hit index cfg (Fields (ToLower (TrimSpace q))) (ToLower operator) (language loc)) index))"
    using assms search_loop_take [of "[]" "result_limit (ParseInt64 limit)"] pos(1)
    by (auto simp: siteSearchQueryHandler_def Let_def split: if_splits)
  with pos(2) [of "ParseInt64 limit"] show ?thesis by (simp add: take_map comp_def)
qed

definition found_page :: siteSearchDocument where
  "found_page = \<lparr>sd_Path = ''/a'', sd_Title = ''Go'', sd_Description = [], sd_Content = ''server'', sd_Links = [], sd_NoIndex = False\<rparr>"

theorem search_results_witness:
  "\<exists>rs. siteSearchQueryHandler (\<lambda>d w. None) True \<lparr>lc_Locales = [], lc_Default = ''en''\<rparr> [found_page] ''go'' ''3'' [] [] = Results rs \<and> map fst rs = [found_page]"
proof -
  have r: "siteSearchQueryHandler (\<lambda>d w. None) True \<lparr>lc_Locales = [], lc_Default = ''en''\<rparr> [found_page] ''go'' ''3'' [] [] =
      Results [(found_page, None, ''en'', 1)]" by code_simp
  have "take (result_limit (ParseInt64 ''3'')) (filter (search_hit [found_page] \<lparr>lc_Locales = [], lc_Default = ''en''\<rparr> (Fields (ToLower (TrimSpace ''go''))) (ToLower []) (language [])) [found_page]) = [found_page]"
    by code_simp
  with search_results [OF r] r show ?thesis by simp
qed

text \<open>A page of the default language without a prefix loses its first segment, so its translation is not
  recognised and both are found.\<close>

lemma unprefixed_sibling_missed:
  "hasLocalizedSibling [found_page\<lparr>sd_Path := ''/de/docs/intro''\<rparr>] ''/docs/intro'' ''de'' \<lparr>lc_Locales = [''en'', ''de''], lc_Default = ''en''\<rparr> = False"
  "hasLocalizedSibling [found_page\<lparr>sd_Path := ''/de/docs/intro''\<rparr>] ''/en/docs/intro'' ''de'' \<lparr>lc_Locales = [''en'', ''de''], lc_Default = ''en''\<rparr> = True"
  by code_simp+

section \<open>Snippets\<close>

definition rune_start :: "char \<Rightarrow> bool" where "rune_start c \<longleftrightarrow> (of_char c :: nat) div 64 \<noteq> 2"

fun back_to_rune :: "string \<Rightarrow> nat \<Rightarrow> nat" where
  "back_to_rune s 0 = 0"
| "back_to_rune s (Suc n) = (if \<not> rune_start (s ! Suc n) then back_to_rune s n else Suc n)"

lemma back_to_rune_le: "back_to_rune s n \<le> n"
  by (induction s n rule: back_to_rune.induct) auto

text \<open>The end moves back without a bound: before the first byte the access is out of range.\<close>

fun end_to_rune :: "string \<Rightarrow> nat \<Rightarrow> nat option" where
  "end_to_rune s 0 = (if length s = 0 \<or> rune_start (s ! 0) then Some 0 else None)"
| "end_to_rune s (Suc n) = (if Suc n \<ge> length s \<or> rune_start (s ! Suc n) then Some (Suc n) else end_to_rune s n)"

text \<open>\<open>decode\<close> reads the first rune of a text: whether it is white space, and its size, 0 for no rune.\<close>

function skip_word :: "(string \<Rightarrow> bool \<times> nat) \<Rightarrow> string \<Rightarrow> nat" where
  "skip_word decode s =
     (if s = [] then 0
      else case decode s of (space, sz) \<Rightarrow>
        if space \<or> sz = 0 then sz else sz + skip_word decode (drop sz s))"
  by pat_completeness auto
termination by (relation "measure (\<lambda>(d, s). length s)") auto

declare skip_word.simps [simp del]

function word_start :: "(string \<Rightarrow> bool \<times> nat) \<Rightarrow> string \<Rightarrow> nat \<Rightarrow> nat" where
  "word_start decode s e =
     (if e = 0 then 0
      else let previous = back_to_rune s (e - 1)
        in if fst (decode (take (e - previous) (drop previous s))) then e else word_start decode s previous)"
  by pat_completeness auto
termination
  by (relation "measure (\<lambda>(d, s, e). e)") (auto intro: le_less_trans [OF back_to_rune_le])

declare word_start.simps [simp del]

definition ellipsis :: string where "ellipsis = [CHR 0xE2, CHR 0x80, CHR 0xA6]"

text \<open>The text around a word found at \<open>at\<close>.\<close>

definition snippet_at :: "(string \<Rightarrow> bool \<times> nat) \<Rightarrow> string \<Rightarrow> nat \<Rightarrow> nat \<Rightarrow> string option" where
  "snippet_at decode s at len =
     (case end_to_rune s (min (length s) (at + len + 180)) of
        None \<Rightarrow> None
      | Some end1 \<Rightarrow>
          let start1 = back_to_rune s (at - 80);
              start2 = (if start1 > 0 then start1 + skip_word decode (drop start1 s) else start1);
              end2 = (if end1 < length s then word_start decode s end1 else end1)
          in if start2 > end2 then None
             else Some ((if start2 > 0 then ellipsis else []) @ take (end2 - start2) (drop start2 s) @ (if end2 < length s then ellipsis else [])))"

fun first_word :: "string \<Rightarrow> string list \<Rightarrow> (nat \<times> nat) option" where
  "first_word lower [] = None"
| "first_word lower (w # ws) = (case Index lower w of Some i \<Rightarrow> Some (i, length w) | None \<Rightarrow> first_word lower ws)"

fun snippet_of :: "(string \<Rightarrow> bool \<times> nat) \<Rightarrow> string list \<Rightarrow> string list \<Rightarrow> string \<Rightarrow> string option" where
  "snippet_of decode words [] content = Some content"
| "snippet_of decode words (s # ss) content =
     (case first_word (ToLower s) words of
        Some (i, n) \<Rightarrow> snippet_at decode s i n
      | None \<Rightarrow> snippet_of decode words ss content)"

definition serverSearchSnippet :: "(string \<Rightarrow> bool \<times> nat) \<Rightarrow> siteSearchDocument \<Rightarrow> string list \<Rightarrow> string option" where
  "serverSearchSnippet decode d words = snippet_of decode words [sd_Content d, sd_Description d, sd_Title d] (sd_Content d)"

definition ascii_rune :: "string \<Rightarrow> bool \<times> nat" where
  "ascii_rune s = (case s of [] \<Rightarrow> (False, 0) | c # r \<Rightarrow> (is_space c, 1))"

definition plain_text :: "string \<Rightarrow> bool" where "plain_text s \<longleftrightarrow> list_all (\<lambda>c. (of_char c :: nat) < 128) s"

lemma plain_rune: "plain_text s \<Longrightarrow> n < length s \<Longrightarrow> rune_start (s ! n)"
proof -
  assume "plain_text s" "n < length s"
  then have "(of_char (s ! n) :: nat) < 128" by (simp add: plain_text_def list_all_length)
  then have "(of_char (s ! n) :: nat) div 64 < 2" by (simp add: div_less_iff_less_mult)
  then show ?thesis by (simp add: rune_start_def)
qed

lemma back_plain: "plain_text s \<Longrightarrow> n < length s \<Longrightarrow> back_to_rune s n = n"
  using plain_rune by (cases n) auto

lemma end_plain: "plain_text s \<Longrightarrow> end_to_rune s n = Some n"
  using plain_rune [of s n] by (cases n) (auto simp: not_le)

lemma skip_ascii: "skip_word ascii_rune (c # s) = (if is_space c then 1 else Suc (skip_word ascii_rune s))"
  by (subst skip_word.simps) (simp add: ascii_rune_def)

lemma skip_bounds:
  "skip_word ascii_rune s \<le> length s" "k < length s \<Longrightarrow> is_space (s ! k) \<Longrightarrow> skip_word ascii_rune s \<le> Suc k"
  "list_all (\<lambda>c. \<not> is_space c) s \<Longrightarrow> skip_word ascii_rune s = length s"
proof -
  have nil: "skip_word ascii_rune [] = 0" by (simp add: skip_word.simps)
  show "skip_word ascii_rune s \<le> length s" by (induction s) (auto simp: skip_ascii nil)
  show "k < length s \<Longrightarrow> is_space (s ! k) \<Longrightarrow> skip_word ascii_rune s \<le> Suc k"
    by (induction s arbitrary: k) (auto simp: skip_ascii nil nth_Cons split: nat.splits)
  show "list_all (\<lambda>c. \<not> is_space c) s \<Longrightarrow> skip_word ascii_rune s = length s" by (induction s) (auto simp: skip_ascii nil)
qed

lemma start_plain:
  assumes "plain_text s" "e < length s"
  shows "word_start ascii_rune s (Suc e) = (if is_space (s ! e) then Suc e else word_start ascii_rune s e)"
proof -
  have "drop e s = s ! e # drop (Suc e) s" using assms(2) by (simp add: Cons_nth_drop_Suc)
  then have "take (Suc e - e) (drop e s) = [s ! e]" by simp
  then have "fst (ascii_rune (take (Suc e - e) (drop e s))) = is_space (s ! e)" by (simp add: ascii_rune_def)
  with back_plain [OF assms] show ?thesis by (subst word_start.simps) simp
qed

lemma start_bounds:
  assumes "plain_text s"
  shows "e \<le> length s \<Longrightarrow> word_start ascii_rune s e \<le> e"
    and "e \<le> length s \<Longrightarrow> k < e \<Longrightarrow> is_space (s ! k) \<Longrightarrow> Suc k \<le> word_start ascii_rune s e"
    and "e \<le> length s \<Longrightarrow> list_all (\<lambda>c. \<not> is_space c) s \<Longrightarrow> word_start ascii_rune s e = 0"
proof -
  have nil: "word_start ascii_rune s 0 = 0" by (simp add: word_start.simps)
  show "e \<le> length s \<Longrightarrow> word_start ascii_rune s e \<le> e" by (induction e) (auto simp: nil start_plain [OF assms])
  show "e \<le> length s \<Longrightarrow> k < e \<Longrightarrow> is_space (s ! k) \<Longrightarrow> Suc k \<le> word_start ascii_rune s e"
    by (induction e) (auto simp: nil start_plain [OF assms] less_Suc_eq)
  show "e \<le> length s \<Longrightarrow> list_all (\<lambda>c. \<not> is_space c) s \<Longrightarrow> word_start ascii_rune s e = 0"
    by (induction e) (auto simp: nil start_plain [OF assms] list_all_length)
qed

text \<open>A long text without blanks panics: the start runs to its end, and the end back to its front.\<close>

lemma unbroken_text_panics:
  assumes "plain_text s" "list_all (\<lambda>c. \<not> is_space c) s" "80 < at" "at < length s" "at + len + 180 < length s"
  shows "snippet_at ascii_rune s at len = None"
proof -
  have "list_all (\<lambda>c. \<not> is_space c) (drop (at - 80) s)" using assms(2) by (auto simp: list_all_iff dest: in_set_dropD)
  then have "skip_word ascii_rune (drop (at - 80) s) = length s - (at - 80)" by (simp add: skip_bounds(3))
  with assms show ?thesis using start_bounds(3) [OF assms(1), of "at + len + 180"]
    by (cases s) (simp_all add: snippet_at_def end_plain back_plain Let_def)
qed

text \<open>With blanks in reach a snippet contains its word: in a plain text that starts, or has a blank,
  within 80 characters before the word, and ends, or has one, within 180 after it, the snippet does not panic
  and holds the word as it stands in the text.\<close>

theorem snippet_holds_word:
  assumes "plain_text s" "at + len \<le> length s" "at < length s"
    and "at \<le> 80 \<or> (\<exists>k. at - 80 \<le> k \<and> k < at \<and> is_space (s ! k))"
    and "length s \<le> at + len + 180 \<or> (\<exists>k. at + len \<le> k \<and> k < at + len + 180 \<and> is_space (s ! k))"
  shows "\<exists>before after. snippet_at ascii_rune s at len = Some (before @ take len (drop at s) @ after)"
proof -
  define b where "b = (if at - 80 > 0 then at - 80 + skip_word ascii_rune (drop (at - 80) s) else at - 80)"
  define e where "e = (if at + len + 180 < length s then word_start ascii_rune s (at + len + 180) else length s)"
  have b: "b \<le> at"
  proof (cases "at \<le> 80")
    case False
    with assms(4) obtain k where k: "at - 80 \<le> k" "k < at" "is_space (s ! k)" by blast
    have "skip_word ascii_rune (drop (at - 80) s) \<le> Suc (k - (at - 80))"
      using k assms(3) by (intro skip_bounds(2)) auto
    then have "at - 80 + skip_word ascii_rune (drop (at - 80) s) \<le> at" using k(1,2) by linarith
    moreover have "b = at - 80 + skip_word ascii_rune (drop (at - 80) s)" unfolding b_def using False by (simp only: zero_less_diff if_P not_le)
    ultimately show ?thesis by simp
  qed (simp add: b_def)
  have e: "at + len \<le> e" "e \<le> length s"
  proof -
    show "at + len \<le> e"
    proof (cases "at + len + 180 < length s")
      case True
      with assms(5) obtain k where k: "at + len \<le> k" "k < at + len + 180" "is_space (s ! k)" by auto
      with start_bounds(2) [OF assms(1) _ k(2,3)] True show ?thesis by (simp add: e_def)
    qed (use assms(2) in \<open>simp add: e_def\<close>)
    show "e \<le> length s" using start_bounds(1) [OF assms(1), of "at + len + 180"] by (auto simp: e_def)
  qed
  have snip: "snippet_at ascii_rune s at len = Some ((if b > 0 then ellipsis else []) @ take (e - b) (drop b s) @ (if e < length s then ellipsis else []))"
  proof -
    have low: "back_to_rune s (at - 80) = at - 80" using assms(3) by (intro back_plain [OF assms(1)]) simp
    have stop: "(if min (length s) (at + len + 180) < length s then word_start ascii_rune s (min (length s) (at + len + 180)) else min (length s) (at + len + 180)) = e"
      by (simp add: e_def min_def)
    show ?thesis unfolding snippet_at_def end_plain [OF assms(1)] option.case Let_def low b_def [symmetric] stop using b e by simp
  qed
  have "take (e - b) (drop b s) = take (at - b) (drop b s) @ take len (drop at s) @ take (e - (at + len)) (drop (at + len) s)"
  proof -
    have "take (e - b) (drop b s) = take ((at - b) + (len + (e - (at + len)))) (drop b s)" using b e by simp
    also have "\<dots> = take (at - b) (drop b s) @ take (len + (e - (at + len))) (drop at s)" unfolding take_add using b by simp
    also have "take (len + (e - (at + len))) (drop at s) = take len (drop at s) @ take (e - (at + len)) (drop (at + len) s)"
      unfolding take_add by (simp add: add.commute)
    finally show ?thesis .
  qed
  with snip show ?thesis by (metis append.assoc)
qed

theorem snippet_holds_word_witness:
  "\<exists>before after. snippet_at ascii_rune ''a key b'' 2 3 = Some (before @ ''key'' @ after)"
proof -
  have "plain_text ''a key b''" by code_simp
  from snippet_holds_word [OF this, of 2 3] show ?thesis by simp
qed

end
