(* ===== verification/I18n.thy ===== *)
theory I18n imports GoPrelude begin

text \<open>
  Translations (\<^verbatim>\<open>i18n.go\<close>): files of messages flattened to dotted keys, the fallback to the default
  language, placeholders, plural forms, short numbers, and the language of a request. A \<^verbatim>\<open>map\<close> is an
  association list; where the code ranges over one, the order is an argument.
\<close>

section \<open>Messages\<close>

record I18n =
  messages :: "(string \<times> (string \<times> string) list) list"
  defaultLang :: string

definition NewI18n :: "string \<Rightarrow> string list \<Rightarrow> I18n" where
  "NewI18n lang langs = \<lparr>messages = map (\<lambda>l. (l, [])) langs, defaultLang = lang\<rparr>"

definition look_up :: "I18n \<Rightarrow> string \<Rightarrow> string \<Rightarrow> string" where
  "look_up i lang key =
     (case map_of (messages i) lang of None \<Rightarrow> []
      | Some msgs \<Rightarrow> case map_of msgs key of None \<Rightarrow> [] | Some v \<Rightarrow> v)"

definition HasLang :: "I18n \<Rightarrow> string \<Rightarrow> bool" where "HasLang i lang \<longleftrightarrow> map_of (messages i) lang \<noteq> None"

definition Lang :: "I18n \<Rightarrow> string \<Rightarrow> string \<Rightarrow> string" where
  "Lang i key lang =
     (if look_up i lang key \<noteq> [] then look_up i lang key
      else if look_up i (defaultLang i) key \<noteq> [] then look_up i (defaultLang i) key else key)"

text \<open>Decoded JSON; a number is kept as \<^verbatim>\<open>FormatFloat\<close> prints it.\<close>

datatype message = MObject "(string \<times> message) list" | MString string | MNumber string | MOther

fun flattenMap :: "string \<Rightarrow> message \<Rightarrow> (string \<times> string) list \<Rightarrow> (string \<times> string) list"
  and flatten_fields :: "string \<Rightarrow> (string \<times> message) list \<Rightarrow> (string \<times> string) list \<Rightarrow> (string \<times> string) list" where
  "flattenMap pre (MObject fs) result = flatten_fields pre fs result"
| "flattenMap pre (MString v) result = AList.update pre v result"
| "flattenMap pre (MNumber v) result = AList.update pre v result"
| "flattenMap pre MOther result = result"
| "flatten_fields pre [] result = result"
| "flatten_fields pre ((k, v) # fs) result =
     flatten_fields pre fs (flattenMap (if pre \<noteq> [] then pre @ ''.'' @ k else k) v result)"

text \<open>A file of the tree: its path below the root in parts, and its content; \<open>None\<close> is a parse error.\<close>

definition load_file :: "string list \<times> message option \<Rightarrow> I18n \<Rightarrow> string + I18n" where
  "load_file f i =
     (case f of (parts, content) \<Rightarrow>
        if length parts < 2 \<or> \<not> HasSuffix (last parts) ''.json'' then Inr i
        else let lang = parts ! 0; namespace = TrimSuffix (parts ! 1) ''.json'';
                 msgs = (case map_of (messages i) lang of None \<Rightarrow> [] | Some m \<Rightarrow> m)
             in case content of
                  None \<Rightarrow> Inl (''error parsing '' @ Join parts ''/'')
                | Some raw \<Rightarrow> Inr (i\<lparr>messages := AList.update lang (flattenMap namespace raw msgs) (messages i)\<rparr>))"

fun loadFromFS :: "(string list \<times> message option) list \<Rightarrow> I18n \<Rightarrow> string + I18n" where
  "loadFromFS [] i = Inr i"
| "loadFromFS (f # fs) i = (case load_file f i of Inl e \<Rightarrow> Inl e | Inr i' \<Rightarrow> loadFromFS fs i')"

section \<open>Placeholders\<close>

definition fill :: "(string \<times> string) list \<Rightarrow> string \<Rightarrow> string" where
  "fill params s = fold (\<lambda>(k, v) s. ReplaceAll s (''{'' @ k @ ''}'') v) params s"

definition Langf :: "I18n \<Rightarrow> string \<Rightarrow> string \<Rightarrow> (string \<times> string) list option \<Rightarrow> string" where
  "Langf i key lang params = (case params of None \<Rightarrow> Lang i key lang | Some ps \<Rightarrow> fill ps (Lang i key lang))"

text \<open>The text and the caller's map, in which the count stays behind; \<open>order\<close> is the order of the range.\<close>

definition finalizeString ::
  "((string \<times> string) list \<Rightarrow> (string \<times> string) list) \<Rightarrow> string \<Rightarrow> string \<Rightarrow> (string \<times> string) list option \<Rightarrow>
     string \<times> (string \<times> string) list option" where
  "finalizeString order tmpl count params =
     (let ps = AList.update ''count'' count (case params of None \<Rightarrow> [] | Some ps \<Rightarrow> ps)
      in (fill (order ps) tmpl, case params of None \<Rightarrow> None | Some _ \<Rightarrow> Some ps))"

section \<open>Plural forms\<close>

text \<open>Negation of a 64-bit integer keeps the least one.\<close>

definition neg64 :: "int \<Rightarrow> int" where "neg64 n = (if n = - (2 ^ 63) then n else - n)"

definition abs64 :: "int \<Rightarrow> int" where "abs64 n = (if n < 0 then neg64 n else n)"

text \<open>Go's remainder has the sign of the dividend.\<close>

definition go_rem :: "int \<Rightarrow> int \<Rightarrow> int" where "go_rem n m = (if n < 0 then - ((- n) mod m) else n mod m)"

definition pluralForm :: "string \<Rightarrow> int \<Rightarrow> string" where
  "pluralForm lang count =
     (let n = abs64 count in
      if lang \<in> set [''ru'', ''uk'', ''be''] then
        let mod10 = go_rem n 10; mod100 = go_rem n 100
        in if mod10 = 1 \<and> mod100 \<noteq> 11 then ''one''
           else if 2 \<le> mod10 \<and> mod10 \<le> 4 \<and> (mod100 < 10 \<or> 20 \<le> mod100) then ''few'' else ''many''
      else if n = 1 then ''one'' else ''other'')"

definition plural_text :: "I18n \<Rightarrow> string \<Rightarrow> string \<Rightarrow> int \<Rightarrow> string" where
  "plural_text i key lang count =
     (if count = 0 \<and> look_up i lang (key @ ''.zero'') \<noteq> [] then look_up i lang (key @ ''.zero'')
      else let full = key @ ''.'' @ pluralForm lang count
        in Lang i (if look_up i lang full = [] then key @ ''.other'' else full) lang)"

definition PluralLangf where
  "PluralLangf order i key lang count params = finalizeString order (plural_text i key lang count) (Itoa count) params"

text \<open>Short numbers; \<open>fixed1 n d\<close> is the quotient of two numbers printed with one decimal.\<close>

definition short_suffix :: "I18n \<Rightarrow> string \<Rightarrow> string \<Rightarrow> string \<Rightarrow> string" where
  "short_suffix i lang name fallback =
     (let s = look_up i lang (''common.numbers.'' @ name) in if s = [] then fallback else s)"

definition FormatShortCount :: "(int \<Rightarrow> int \<Rightarrow> string) \<Rightarrow> I18n \<Rightarrow> int \<Rightarrow> string \<Rightarrow> string" where
  "FormatShortCount fixed1 i count lang =
     (let n = abs64 count in
      if n < 1000 then Itoa count
      else let (d, name, fallback) =
             (if n \<ge> 1000000000000 then (1000000000000, ''trillion'', ''T'')
              else if n \<ge> 1000000000 then (1000000000, ''billion'', ''B'')
              else if n \<ge> 1000000 then (1000000, ''million'', ''M'') else (1000, ''thousand'', ''K''));
             s1 = TrimSuffix (fixed1 n d) ''.0'';
             s2 = (if lang \<in> set [''ru'', ''uk'', ''be'', ''de'', ''pl''] then ReplaceAll s1 ''.'' '','' else s1)
           in (if count < 0 then ''-'' else []) @ s2 @ short_suffix i lang name fallback)"

definition ShortPluralLangf where
  "ShortPluralLangf order fixed1 i key lang count params =
     finalizeString order (plural_text i key lang count) (FormatShortCount fixed1 i count lang) params"

section \<open>The language of a request\<close>

text \<open>\<open>ctx\<close> is the language in the context, if any; \<open>hl\<close> the query's value.\<close>

definition context_lang :: "I18n \<Rightarrow> string option \<Rightarrow> string" where
  "context_lang i ctx = (case ctx of None \<Rightarrow> defaultLang i | Some l \<Rightarrow> if l = [] then defaultLang i else l)"

definition I18nMiddleware :: "I18n \<Rightarrow> string option \<Rightarrow> string \<Rightarrow> string \<Rightarrow> string" where
  "I18nMiddleware i ctx path hl =
     (case ctx of
        Some (c # cs) \<Rightarrow> c # cs
      | _ \<Rightarrow>
        let part = hd (Split (CHR ''/'') (Trim path (CHR ''/'')));
            lang = (if part \<noteq> [] \<and> HasLang i (ToLower part) then ToLower part else defaultLang i)
        in if hl \<noteq> [] then hl else lang)"

definition L :: "I18n \<Rightarrow> string option \<Rightarrow> string \<Rightarrow> string" where "L i ctx key = Lang i key (context_lang i ctx)"

definition Lf where "Lf i ctx key params = Langf i key (context_lang i ctx) params"

definition Pluralf where "Pluralf order i ctx key count params = PluralLangf order i key (context_lang i ctx) count params"

definition ShortPluralf where
  "ShortPluralf order fixed1 i ctx key count params = ShortPluralLangf order fixed1 i key (context_lang i ctx) count params"

section \<open>Messages are found by their path\<close>

fun leaf :: "message \<Rightarrow> string list \<Rightarrow> string option" where
  "leaf (MString v) [] = Some v"
| "leaf (MNumber v) [] = Some v"
| "leaf (MObject fs) (k # ks) = (case map_of fs k of None \<Rightarrow> None | Some m \<Rightarrow> leaf m ks)"
| "leaf _ _ = None"

text \<open>No object has a key twice, and no key has a dot.\<close>

fun keys_ok :: "message \<Rightarrow> bool" where
  "keys_ok (MObject fs) = (distinct (map fst fs) \<and> list_all (\<lambda>k. CHR ''.'' \<notin> set k) (map fst fs) \<and> list_all keys_ok (map snd fs))"
| "keys_ok _ = True"

definition dotted :: "string \<Rightarrow> string list \<Rightarrow> string" where
  "dotted pre ks = pre @ concat (map ((#) (CHR ''.'')) ks)"

lemma dotted_simps: "dotted pre [] = pre" "dotted (pre @ CHR ''.'' # k) ks = dotted pre (k # ks)"
  by (simp_all add: dotted_def)

lemma Split_dotted: "CHR ''.'' \<notin> set k \<Longrightarrow> list_all (\<lambda>k. CHR ''.'' \<notin> set k) ks \<Longrightarrow> Split (CHR ''.'') (dotted k ks) = k # ks"
proof (induction ks arbitrary: k)
  case (Cons k' ks)
  have "dotted k (k' # ks) = k @ CHR ''.'' # dotted k' ks" by (simp add: dotted_def)
  with Cons show ?case by (simp add: Split_append_sep)
qed (simp add: dotted_simps)

lemma dotted_inj:
  assumes "dotted pre ks = dotted pre ks'" "list_all (\<lambda>k. CHR ''.'' \<notin> set k) ks" "list_all (\<lambda>k. CHR ''.'' \<notin> set k) ks'"
  shows "ks = ks'"
proof -
  have eq: "dotted [] ks = dotted [] ks'" using assms(1) by (simp add: dotted_def)
  have "[] # ks = Split (CHR ''.'') (dotted [] ks)" using Split_dotted [OF _ assms(2)] by (metis empty_iff list.set(1))
  also have "\<dots> = [] # ks'" unfolding eq using Split_dotted [OF _ assms(3)] by (metis empty_iff list.set(1))
  finally show ?thesis by simp
qed

lemma leaf_keys: "keys_ok m \<Longrightarrow> leaf m ks = Some v \<Longrightarrow> list_all (\<lambda>k. CHR ''.'' \<notin> set k) ks"
proof (induction m ks rule: leaf.induct)
  case (3 fs k ks)
  then obtain m where m: "map_of fs k = Some m" "leaf m ks = Some v" by (auto split: option.splits)
  from map_of_SomeD [OF m(1)] 3(2) have k: "CHR ''.'' \<notin> set k" "keys_ok m" by (auto simp: list_all_iff)
  have "list_all (\<lambda>k. CHR ''.'' \<notin> set k) ks" using 3(1) [OF m(1) k(2) m(2)] .
  with k(1) show ?case by simp
qed auto

lemma flatten_facts:
  "keys_ok m \<Longrightarrow> pre \<noteq> [] \<Longrightarrow>
     (\<forall>ks v. leaf m ks = Some v \<longrightarrow> map_of (flattenMap pre m r) (dotted pre ks) = Some v) \<and>
     (\<forall>x. (\<forall>ks. leaf m ks \<noteq> None \<longrightarrow> x \<noteq> dotted pre ks) \<longrightarrow> map_of (flattenMap pre m r) x = map_of r x)"
  "keys_ok (MObject fs) \<Longrightarrow> pre \<noteq> [] \<Longrightarrow>
     (\<forall>k ks v. leaf (MObject fs) (k # ks) = Some v \<longrightarrow> map_of (flatten_fields pre fs r) (dotted pre (k # ks)) = Some v) \<and>
     (\<forall>x. (\<forall>k ks. leaf (MObject fs) (k # ks) \<noteq> None \<longrightarrow> x \<noteq> dotted pre (k # ks)) \<longrightarrow> map_of (flatten_fields pre fs r) x = map_of r x)"
proof (induction pre m r and pre fs r rule: flattenMap_flatten_fields.induct)
  case (1 pre fs result)
  have l: "leaf (MObject fs) ks = Some v \<Longrightarrow> \<exists>k ks'. ks = k # ks'" for ks v by (cases ks) auto
  show ?case
  proof (intro conjI allI impI)
    fix ks v assume "leaf (MObject fs) ks = Some v"
    with l [OF this] 1 show "map_of (flattenMap pre (MObject fs) result) (dotted pre ks) = Some v" by auto
  next
    fix x assume "\<forall>ks. leaf (MObject fs) ks \<noteq> None \<longrightarrow> x \<noteq> dotted pre ks"
    with 1 show "map_of (flattenMap pre (MObject fs) result) x = map_of result x" by simp
  qed
next
  case (2 pre v result)
  show ?case
  proof (intro conjI allI impI)
    fix ks w assume "leaf (MString v) ks = Some w"
    then show "map_of (flattenMap pre (MString v) result) (dotted pre ks) = Some w" by (cases ks) (auto simp: dotted_simps)
  next
    fix x assume "\<forall>ks. leaf (MString v) ks \<noteq> None \<longrightarrow> x \<noteq> dotted pre ks"
    from this [rule_format, of "[]"] show "map_of (flattenMap pre (MString v) result) x = map_of result x" by (simp add: dotted_simps)
  qed
next
  case (3 pre v result)
  show ?case
  proof (intro conjI allI impI)
    fix ks w assume "leaf (MNumber v) ks = Some w"
    then show "map_of (flattenMap pre (MNumber v) result) (dotted pre ks) = Some w" by (cases ks) (auto simp: dotted_simps)
  next
    fix x assume "\<forall>ks. leaf (MNumber v) ks \<noteq> None \<longrightarrow> x \<noteq> dotted pre ks"
    from this [rule_format, of "[]"] show "map_of (flattenMap pre (MNumber v) result) x = map_of result x" by (simp add: dotted_simps)
  qed
next
  case (4 pre result)
  then show ?case by simp
next
  case (5 pre result)
  then show ?case by simp
next
  case (6 pre k m fs result)
  let ?r = "flattenMap (pre @ ''.'' @ k) m result"
  have sub: "keys_ok m" "keys_ok (MObject fs)" "CHR ''.'' \<notin> set k" "k \<notin> set (map fst fs)" using 6(3) by auto
  have IH1: "leaf m ks = Some v \<Longrightarrow> map_of ?r (dotted pre (k # ks)) = Some v"
    "(\<forall>ks. leaf m ks \<noteq> None \<longrightarrow> x \<noteq> dotted pre (k # ks)) \<Longrightarrow> map_of ?r x = map_of result x" for ks v x
    using 6(1) [OF sub(1)] 6(4) by (simp_all add: dotted_simps)
  have IH2: "leaf (MObject fs) (k' # ks) = Some v \<Longrightarrow> map_of (flatten_fields pre fs ?r) (dotted pre (k' # ks)) = Some v"
    "(\<forall>k ks. leaf (MObject fs) (k # ks) \<noteq> None \<longrightarrow> x \<noteq> dotted pre (k # ks)) \<Longrightarrow> map_of (flatten_fields pre fs ?r) x = map_of ?r x" for k' ks v x
    using 6(2) [OF sub(2) 6(4)] 6(4) by simp_all
  have step: "flatten_fields pre ((k, m) # fs) result = flatten_fields pre fs ?r" using 6(4) by simp
  show ?case unfolding step
  proof (intro conjI allI impI)
    fix k' ks v assume l: "leaf (MObject ((k, m) # fs)) (k' # ks) = Some v"
    show "map_of (flatten_fields pre fs ?r) (dotted pre (k' # ks)) = Some v"
    proof (cases "k' = k")
      case True
      with l have lm: "leaf m ks = Some v" by simp
      have "\<forall>k2 ks2. leaf (MObject fs) (k2 # ks2) \<noteq> None \<longrightarrow> dotted pre (k # ks) \<noteq> dotted pre (k2 # ks2)"
      proof (intro allI impI notI)
        fix k2 ks2 assume a: "leaf (MObject fs) (k2 # ks2) \<noteq> None" "dotted pre (k # ks) = dotted pre (k2 # ks2)"
        then obtain w where w: "leaf (MObject fs) (k2 # ks2) = Some w" by auto
        have "list_all (\<lambda>k. CHR ''.'' \<notin> set k) (k # ks)" using sub(3) leaf_keys [OF sub(1) lm] by simp
        from dotted_inj [OF a(2) this leaf_keys [OF sub(2) w]] have "k2 = k" by simp
        moreover have "map_of fs k = None" using sub(4) by (simp add: map_of_eq_None_iff)
        ultimately show False using w by simp
      qed
      from IH2(2) [OF this] IH1(1) [OF lm] True show ?thesis by simp
    next
      case False
      with l have "leaf (MObject fs) (k' # ks) = Some v" by simp
      then show ?thesis by (rule IH2(1))
    qed
  next
    fix x assume x: "\<forall>k' ks. leaf (MObject ((k, m) # fs)) (k' # ks) \<noteq> None \<longrightarrow> x \<noteq> dotted pre (k' # ks)"
    have "leaf (MObject ((k, m) # fs)) (k' # ks) = leaf (MObject fs) (k' # ks)" if "leaf (MObject fs) (k' # ks) \<noteq> None" for k' ks
    proof (cases "k' = k")
      case True
      have "map_of fs k = None" using sub(4) by (simp add: map_of_eq_None_iff)
      with that True show ?thesis by simp
    qed simp
    with x have "map_of (flatten_fields pre fs ?r) x = map_of ?r x" by (intro IH2(2)) metis
    moreover have "map_of ?r x = map_of result x" using x [rule_format, of k] by (intro IH1(2)) simp
    ultimately show "map_of (flatten_fields pre fs ?r) x = map_of result x" by simp
  qed
qed

text \<open>A file below a language's directory with a plain name, and the file system's way of writing its path.\<close>

definition lang_file :: "string \<Rightarrow> string \<Rightarrow> message \<Rightarrow> string list \<times> message option" where
  "lang_file lang ns raw = ([lang, ns @ ''.json''], Some raw)"

definition ns_ok :: "string \<Rightarrow> bool" where "ns_ok ns \<longleftrightarrow> ns \<noteq> [] \<and> CHR ''.'' \<notin> set ns"

lemma dotted_ns: "ns_ok ns \<Longrightarrow> ns_ok ns' \<Longrightarrow> list_all (\<lambda>k. CHR ''.'' \<notin> set k) ks \<Longrightarrow>
  list_all (\<lambda>k. CHR ''.'' \<notin> set k) ks' \<Longrightarrow> dotted ns ks = dotted ns' ks' \<Longrightarrow> ns = ns'"
  by (metis Split_dotted list.inject ns_ok_def)

lemma load_lang_file:
  "load_file (lang_file lang ns raw) i =
     Inr (i\<lparr>messages := AList.update lang (flattenMap ns raw (case map_of (messages i) lang of None \<Rightarrow> [] | Some m \<Rightarrow> m)) (messages i)\<rparr>)"
  by (simp add: load_file_def lang_file_def HasSuffix_def TrimSuffix_def)

lemma look_up_load:
  assumes "load_file (lang_file lang ns raw) i = Inr i'" "keys_ok raw" "ns_ok ns"
  shows "leaf raw ks = Some v \<Longrightarrow> look_up i' lang (dotted ns ks) = v"
    and "list_all (\<lambda>k. CHR ''.'' \<notin> set k) ks \<Longrightarrow> ns_ok ns' \<Longrightarrow> (lang', ns') \<noteq> (lang, ns) \<Longrightarrow>
      look_up i' lang' (dotted ns' ks) = look_up i lang' (dotted ns' ks)"
proof -
  let ?m = "case map_of (messages i) lang of None \<Rightarrow> [] | Some m \<Rightarrow> m"
  have i': "map_of (messages i') = (map_of (messages i))(lang \<mapsto> flattenMap ns raw ?m)"
    using assms(1) by (auto simp: load_lang_file update_conv')
  have ns: "ns \<noteq> []" using assms(3) by (simp add: ns_ok_def)
  note facts = flatten_facts(1) [OF assms(2) ns, of ?m]
  show "look_up i' lang (dotted ns ks) = v" if "leaf raw ks = Some v"
    using facts that by (simp add: look_up_def i')
  show "look_up i' lang' (dotted ns' ks) = look_up i lang' (dotted ns' ks)"
    if k: "list_all (\<lambda>k. CHR ''.'' \<notin> set k) ks" "ns_ok ns'" "(lang', ns') \<noteq> (lang, ns)"
  proof (cases "lang' = lang")
    case True
    have "dotted ns' ks \<noteq> dotted ns ks2" if "leaf raw ks2 \<noteq> None" for ks2
    proof
      assume "dotted ns' ks = dotted ns ks2"
      moreover from that leaf_keys [OF assms(2)] have "list_all (\<lambda>k. CHR ''.'' \<notin> set k) ks2" by blast
      ultimately have "ns' = ns" by (rule dotted_ns [OF k(2) assms(3) k(1), rotated])
      with k(3) True show False by simp
    qed
    then have "map_of (flattenMap ns raw ?m) (dotted ns' ks) = map_of ?m (dotted ns' ks)"
      by (metis (lifting) conjunct2 [OF facts])
    moreover have "look_up i' lang' (dotted ns' ks) =
      (case map_of (flattenMap ns raw ?m) (dotted ns' ks) of None \<Rightarrow> [] | Some v \<Rightarrow> v)"
      unfolding look_up_def i' True by simp
    ultimately show ?thesis unfolding look_up_def True by (cases "map_of (messages i) lang") simp_all
  qed (simp add: look_up_def i')
qed

lemma loaded_message_stays:
  assumes "loadFromFS (map (\<lambda>(l, n, r). lang_file l n r) fs) i = Inr i'"
    "list_all (\<lambda>(l, n, r). ns_ok n \<and> keys_ok r \<and> (l, n) \<noteq> (lang, ns)) fs"
    "list_all (\<lambda>k. CHR ''.'' \<notin> set k) ks" "ns_ok ns"
  shows "look_up i' lang (dotted ns ks) = look_up i lang (dotted ns ks)"
  using assms(1,2)
proof (induction fs arbitrary: i)
  case (Cons f fs)
  obtain l n r where f: "f = (l, n, r)" by (cases f)
  from Cons.prems f obtain j where j: "load_file (lang_file l n r) i = Inr j"
    "loadFromFS (map (\<lambda>(l, n, r). lang_file l n r) fs) j = Inr i'" by (auto split: sum.splits)
  from Cons.prems(2) f have ok: "keys_ok r" "ns_ok n" "(lang, ns) \<noteq> (l, n)" by auto
  from Cons.IH [OF j(2)] Cons.prems(2) look_up_load(2) [OF j(1) ok(1,2) assms(3,4) ok(3)] show ?case by simp
qed simp

lemma loaded_message:
  assumes "loadFromFS (map (\<lambda>(l, n, r). lang_file l n r) fs) i = Inr i'"
    "list_all (\<lambda>(l, n, r). ns_ok n \<and> keys_ok r) fs" "distinct (map (\<lambda>(l, n, r). (l, n)) fs)"
    "(lang, ns, raw) \<in> set fs" "leaf raw ks = Some v"
  shows "look_up i' lang (dotted ns ks) = v"
  using assms(1-4)
proof (induction fs arbitrary: i)
  case (Cons f fs)
  obtain l n r where f: "f = (l, n, r)" by (cases f)
  from Cons.prems f obtain j where j: "load_file (lang_file l n r) i = Inr j"
    "loadFromFS (map (\<lambda>(l, n, r). lang_file l n r) fs) j = Inr i'" by (auto split: sum.splits)
  from Cons.prems(2) f have ok: "keys_ok r" "ns_ok n" by auto
  show ?case
  proof (cases "(lang, ns, raw) \<in> set fs")
    case True with Cons.IH [OF j(2)] Cons.prems show ?thesis by simp
  next
    case False
    with Cons.prems(4) f have e: "l = lang" "n = ns" "r = raw" by auto
    have "(lang, ns) \<notin> set (map (\<lambda>(l, n, r). (l, n)) fs)" using Cons.prems(3) f e by simp
    then have ne: "(lang, ns, r') \<notin> set fs" for r' by force
    have "list_all (\<lambda>(l, n, r). ns_ok n \<and> keys_ok r \<and> (l, n) \<noteq> (lang, ns)) fs"
      unfolding list_all_iff
    proof
      fix x assume x: "x \<in> set fs"
      obtain l n r where xe: "x = (l, n, r)" by (cases x)
      from x xe Cons.prems(2) have "ns_ok n" "keys_ok r" by (force simp: list_all_iff)+
      with x xe ne show "case x of (l, n, r) \<Rightarrow> ns_ok n \<and> keys_ok r \<and> (l, n) \<noteq> (lang, ns)" by auto
    qed
    from loaded_message_stays [OF j(2) this leaf_keys] ok e assms(5) look_up_load(1) [OF j(1) ok, of ks v] show ?thesis by simp
  qed
qed simp

text \<open>a message of a loaded tree is found under its namespace and the keys that lead to it, in its own
  language, whatever other files and languages are loaded before or after.\<close>

theorem message_found:
  assumes "loadFromFS (map (\<lambda>(l, n, r). lang_file l n r) fs) (NewI18n def langs) = Inr i"
    "list_all (\<lambda>(l, n, r). ns_ok n \<and> keys_ok r) fs" "distinct (map (\<lambda>(l, n, r). (l, n)) fs)"
    "(lang, ns, raw) \<in> set fs" "leaf raw ks = Some v" "v \<noteq> []"
  shows "Lang i (dotted ns ks) lang = v"
  using loaded_message [OF assms(1-5)] assms(6) by (simp add: Lang_def)

definition sample_tree :: "(string \<times> string \<times> message) list" where
  "sample_tree =
     [(''en'', ''home'', MObject [(''nav'', MObject [(''back'', MString ''Back''), (''next'', MString ''Next'')])]),
      (''ru'', ''home'', MObject [(''nav'', MObject [(''back'', MString ''Nazad'')])]),
      (''en'', ''shop'', MObject [(''nav'', MObject [(''back'', MString ''Out'')])])]"

lemma sample_loads: "\<exists>i. loadFromFS (map (\<lambda>(l, n, r). lang_file l n r) sample_tree) (NewI18n ''en'' [''en'', ''ru'']) = Inr i"
  by (simp add: sample_tree_def load_lang_file)

theorem message_found_witness:
  "\<exists>i. loadFromFS (map (\<lambda>(l, n, r). lang_file l n r) sample_tree) (NewI18n ''en'' [''en'', ''ru'']) = Inr i \<and>
       Lang i ''home.nav.back'' ''ru'' = ''Nazad''"
proof -
  obtain i where i: "loadFromFS (map (\<lambda>(l, n, r). lang_file l n r) sample_tree) (NewI18n ''en'' [''en'', ''ru'']) = Inr i"
    using sample_loads by blast
  have "Lang i (dotted ''home'' [''nav'', ''back'']) ''ru'' = ''Nazad''"
    by (rule message_found [OF i, where raw = "MObject [(''nav'', MObject [(''back'', MString ''Nazad'')])]"])
      (code_simp | simp add: sample_tree_def)+
  with i show ?thesis by (auto simp: dotted_def)
qed

text \<open>A key no language has is shown itself, so a text is never blank.\<close>

lemma Lang_not_blank: "key \<noteq> [] \<Longrightarrow> Lang i key lang \<noteq> []"
  by (simp add: Lang_def)

section \<open>Plural categories\<close>

text \<open>The categories of the Unicode plural rules for Russian, Ukrainian and Belarusian cardinals.\<close>

definition cldr_east_slavic :: "nat \<Rightarrow> string" where
  "cldr_east_slavic n =
     (if n mod 10 = 1 \<and> n mod 100 \<noteq> 11 then ''one''
      else if n mod 10 \<in> {2..4} \<and> n mod 100 \<notin> {12..14} then ''few'' else ''many'')"

lemma few_range: "n mod 10 \<in> {2..4} \<Longrightarrow> n mod 100 \<notin> {12..14} \<longleftrightarrow> (n mod 100 < 10 \<or> 20 \<le> n mod 100)" for n :: nat
proof -
  assume r: "n mod 10 \<in> {2..4}"
  define q where "q = n mod 100 div 10"
  have "n mod 100 = 10 * q + n mod 100 mod 10" by (simp add: q_def)
  then have m: "n mod 100 = 10 * q + n mod 10" by (simp add: mod_mod_cancel)
  consider "q = 0" | "q = 1" | "2 \<le> q" by linarith
  then show ?thesis using r m by cases auto
qed

text \<open>the plural form of the East Slavic languages is the category of the Unicode plural rules for every
  64-bit count, the least one, whose negation overflows, included.\<close>

theorem plural_is_cldr:
  assumes "lang \<in> {''ru'', ''uk'', ''be''}" "count \<in> {- (2 ^ 63)..< 2 ^ 63}"
  shows "pluralForm lang count = cldr_east_slavic (nat \<bar>count\<bar>)"
proof (cases "count = - (2 ^ 63)")
  case True
  have "pluralForm lang (- (2 ^ 63)) = ''many''" using assms(1) by (auto simp: pluralForm_def abs64_def neg64_def go_rem_def Let_def)
  moreover have "cldr_east_slavic (nat \<bar>- (2 ^ 63)\<bar>) = ''many''" by (simp add: cldr_east_slavic_def)
  ultimately show ?thesis using True by simp
next
  case False
  define n where "n = nat \<bar>count\<bar>"
  have a: "abs64 count = int n" using False by (simp add: n_def abs64_def neg64_def)
  have m: "go_rem (int n) 10 = int (n mod 10)" "go_rem (int n) 100 = int (n mod 100)" by (simp_all add: go_rem_def zmod_int)
  have "pluralForm lang count =
    (if n mod 10 = 1 \<and> n mod 100 \<noteq> 11 then ''one''
     else if n mod 10 \<in> {2..4} \<and> (n mod 100 < 10 \<or> 20 \<le> n mod 100) then ''few'' else ''many'')"
    using assms(1) by (auto simp: pluralForm_def a m Let_def simp del: of_nat_mod)
  also have "\<dots> = cldr_east_slavic n" using few_range [of n] by (auto simp: cldr_east_slavic_def)
  finally show ?thesis by (simp only: n_def)
qed

theorem plural_is_cldr_witness: "pluralForm ''uk'' (-112) = cldr_east_slavic 112 \<and> cldr_east_slavic 112 = ''many''"
  using plural_is_cldr [of "''uk''" "-112"] by (simp add: cldr_east_slavic_def)

section \<open>What the code does not do\<close>

text \<open>Polish has the rule of English, though its cardinals have the forms few and many.\<close>

lemma polish_like_english: "pluralForm ''pl'' 2 = ''other''" "pluralForm ''pl'' 22 = ''other''"
  by (simp_all add: pluralForm_def abs64_def)

text \<open>The first segment is lowered before it is looked up: a language registered with a capital is never chosen by it.\<close>

lemma capital_language_unreachable:
  "HasLang (NewI18n ''en'' [''en'', ''zh-CN'']) ''zh-CN'' \<and>
   I18nMiddleware (NewI18n ''en'' [''en'', ''zh-CN'']) None ''/zh-CN/about'' [] = ''en''"
  by code_simp

text \<open>The form is found in the language asked for, or replaced by \<^verbatim>\<open>other\<close>, before the default language is asked;
  a default language without \<^verbatim>\<open>other\<close> shows the key.\<close>

lemma plural_shows_key:
  "plural_text \<lparr>messages = [(''en'', []), (''ru'', [(''n.one'', ''a''), (''n.few'', ''b''), (''n.many'', ''c'')])], defaultLang = ''ru''\<rparr>
     ''n'' ''en'' 5 = ''n.other''"
  by code_simp

text \<open>A value with a placeholder in it is filled again, or not, by the order of the map.\<close>

lemma fill_depends_on_order:
  "fill [(''a'', ''{b}''), (''b'', ''x'')] ''{a}'' = ''x'' \<and> fill [(''b'', ''x''), (''a'', ''{b}'')] ''{a}'' = ''{b}''"
  by code_simp

text \<open>The count is written into the caller's map and is there for the next text.\<close>

lemma count_left_behind: "snd (finalizeString order tmpl count (Some ps)) = Some (AList.update ''count'' count ps)"
  by (simp add: finalizeString_def Let_def)

text \<open>The unit is chosen before the quotient is rounded.\<close>

lemma rounds_to_next_unit: "fixed1 999960 1000 = ''1000.0'' \<Longrightarrow> FormatShortCount fixed1 (NewI18n ''en'' [''en'']) 999960 ''en'' = ''1000K''"
  by (simp add: FormatShortCount_def abs64_def short_suffix_def look_up_def NewI18n_def TrimSuffix_def HasSuffix_def)

end
