(* ===== verification/Jobs.thy ===== *)
theory Jobs imports GoPrelude begin

text \<open>
  Background jobs (\<^verbatim>\<open>cron.go\<close>) and the pool of proxies (\<^verbatim>\<open>proxymanager.go\<close>). A goroutine of the scheduler is an
  entry of \<open>loops\<close> with the place it is at; timers, clocks and the jobs' results are the choices of the step
  relation. A proxy's printed URL is a parameter \<open>shown\<close>; \<open>None\<close> is a nil pointer in a provider's list.
\<close>

section \<open>The scheduler\<close>

record 'f task =
  task_name :: string
  interval :: int
  runAt :: "(int \<times> int) option"
  task_fn :: 'f

text \<open>A loop is spawned, waits for its timer, runs its task, or has returned.\<close>

datatype phase = Spawned | Waiting | Running | Gone

record 'f cron =
  tasks :: "'f task list"
  started :: bool
  cancelled :: bool
  loops :: "('f task \<times> phase) list"
  crashed :: bool
  stop_returned :: "nat option"
  cron_log :: "string list"

definition NewCronManager :: "'f cron" where
  "NewCronManager = \<lparr>tasks = [], started = False, cancelled = False, loops = [], crashed = False, stop_returned = None, cron_log = []\<rparr>"

definition add_task :: "'f task \<Rightarrow> 'f cron \<Rightarrow> 'f cron" where
  "add_task t c = (let c1 = c\<lparr>tasks := tasks c @ [t]\<rparr> in if started c then c1\<lparr>loops := loops c1 @ [(t, Spawned)]\<rparr> else c1)"

definition AddIntervalJob :: "string \<Rightarrow> int \<Rightarrow> 'f \<Rightarrow> 'f cron \<Rightarrow> 'f cron" where
  "AddIntervalJob name iv fn = add_task \<lparr>task_name = name, interval = iv, runAt = None, task_fn = fn\<rparr>"

text \<open>\<^verbatim>\<open>time.Parse\<close> of the layout \<^verbatim>\<open>15:04\<close>: one or two digits of the hour, two of the minute.\<close>

definition digits_value :: "string \<Rightarrow> int" where
  "digits_value s = fold (\<lambda>c n. n * 10 + int (of_char c - 48)) s 0"

definition parse_clock :: "string \<Rightarrow> (int \<times> int) option" where
  "parse_clock s =
     (let (hh, r) = (case s of a # b # r \<Rightarrow> if is_digit b then ([a, b], r) else ([a], b # r) | _ \<Rightarrow> ([], s))
      in if hh = [] \<or> \<not> is_digit (hd hh) \<or> 24 \<le> digits_value hh then None
         else case r of
           [c, a, b] \<Rightarrow> if c = CHR '':'' \<and> is_digit a \<and> is_digit b \<and> digits_value [a, b] < 60
                        then Some (digits_value hh, digits_value [a, b]) else None
         | _ \<Rightarrow> None)"

definition AddDailyJob :: "string \<Rightarrow> string \<Rightarrow> 'f \<Rightarrow> 'f cron \<Rightarrow> string + 'f cron" where
  "AddDailyJob name timeStr fn c =
     (case parse_clock timeStr of
        None \<Rightarrow> Inl ''invalid time format, expected HH:MM (e.g. 15:30)''
      | Some t \<Rightarrow> Inr (add_task \<lparr>task_name = name, interval = 0, runAt = Some t, task_fn = fn\<rparr> c))"

definition Start :: "'f cron \<Rightarrow> 'f cron" where
  "Start c = (if started c then c else c\<lparr>loops := loops c @ map (\<lambda>t. (t, Spawned)) (tasks c), started := True\<rparr>)"

text \<open>\<^verbatim>\<open>executeSafely\<close>: a task returns, returns an error or panics; each is logged and none leaves the loop.\<close>

datatype task_end = Returned | Failed string | Panicked string

fun executeSafely :: "'f task \<Rightarrow> task_end \<Rightarrow> string list" where
  "executeSafely t Returned = []"
| "executeSafely t (Failed e) = [''[cron] ERROR in job '' @ task_name t @ '': '' @ e]"
| "executeSafely t (Panicked v) = [''[cron] PANIC in job '' @ task_name t @ '': '' @ v]"

definition goto :: "nat \<Rightarrow> phase \<Rightarrow> 'f cron \<Rightarrow> 'f cron" where
  "goto i p c = c\<lparr>loops := (loops c)[i := (fst (loops c ! i), p)]\<rparr>"

definition at :: "'f cron \<Rightarrow> nat \<Rightarrow> phase \<Rightarrow> bool" where
  "at c i p \<longleftrightarrow> i < length (loops c) \<and> snd (loops c ! i) = p"

datatype 'f cron_event = Call | Ready nat | Fire nat | Finish nat task_end | Quit nat | Ticker_panic nat | Stop_returns

text \<open>A ticker with an interval that is not positive panics, in the loop and outside \<^verbatim>\<open>executeSafely\<close>: the process
  ends. \<^verbatim>\<open>select\<close> may take the timer when the context is cancelled as well.\<close>

inductive cron_step :: "'f cron \<Rightarrow> 'f cron_event \<Rightarrow> 'f cron \<Rightarrow> bool" where
  add_interval: "\<not> crashed c \<Longrightarrow> cron_step c Call (AddIntervalJob name iv fn c)"
| add_daily: "\<not> crashed c \<Longrightarrow> AddDailyJob name timeStr fn c = Inr c' \<Longrightarrow> cron_step c Call c'"
| start: "\<not> crashed c \<Longrightarrow> cron_step c Call (Start c)"
| stop: "\<not> crashed c \<Longrightarrow> cron_step c Call (c\<lparr>cancelled := True\<rparr>)"
| stop_returns: "\<not> crashed c \<Longrightarrow> cancelled c \<Longrightarrow> \<forall>l\<in>set (loops c). snd l = Gone \<Longrightarrow>
    cron_step c Stop_returns (c\<lparr>stop_returned := Some (length (loops c))\<rparr>)"
| ready: "\<not> crashed c \<Longrightarrow> at c i Spawned \<Longrightarrow> runAt (fst (loops c ! i)) \<noteq> None \<or> 0 < interval (fst (loops c ! i)) \<Longrightarrow>
    cron_step c (Ready i) (goto i Waiting c)"
| ticker: "\<not> crashed c \<Longrightarrow> at c i Spawned \<Longrightarrow> runAt (fst (loops c ! i)) = None \<Longrightarrow> interval (fst (loops c ! i)) \<le> 0 \<Longrightarrow>
    cron_step c (Ticker_panic i) (c\<lparr>crashed := True\<rparr>)"
| fire: "\<not> crashed c \<Longrightarrow> at c i Waiting \<Longrightarrow> cron_step c (Fire i) (goto i Running c)"
| finish: "\<not> crashed c \<Longrightarrow> at c i Running \<Longrightarrow>
    cron_step c (Finish i r) ((goto i Waiting c)\<lparr>cron_log := cron_log c @ executeSafely (fst (loops c ! i)) r\<rparr>)"
| quit: "\<not> crashed c \<Longrightarrow> at c i Waiting \<Longrightarrow> cancelled c \<Longrightarrow> cron_step c (Quit i) (goto i Gone c)"

inductive cron_reachable :: "'f cron \<Rightarrow> bool" where
  init: "cron_reachable NewCronManager"
| step: "cron_reachable c \<Longrightarrow> cron_step c e c' \<Longrightarrow> cron_reachable c'"

inductive_cases fire_step: "cron_step c (Fire i) c'"

definition cron_inv :: "'f cron \<Rightarrow> bool" where
  "cron_inv c \<longleftrightarrow>
     (if started c then map fst (loops c) = tasks c else loops c = []) \<and>
     (case stop_returned c of None \<Rightarrow> True
      | Some n \<Rightarrow> cancelled c \<and> n \<le> length (loops c) \<and> (\<forall>i<n. snd (loops c ! i) = Gone))"

lemma map_fst_goto [simp]: "i < length xs \<Longrightarrow> map fst (xs[i := (fst (xs ! i), p)]) = map fst xs"
  by (metis list_update_id map_update nth_map fst_conv)

lemma cron_inv_goto: "cron_inv c \<Longrightarrow> at c i q \<Longrightarrow> q \<noteq> Gone \<Longrightarrow> cron_inv (goto i p c)"
  by (auto simp: cron_inv_def goto_def at_def nth_list_update split: option.splits if_splits)

lemma cron_inv_add: "cron_inv c \<Longrightarrow> cron_inv (add_task t c)"
  by (auto simp: cron_inv_def add_task_def Let_def nth_append split: option.splits if_splits)

lemma cron_inv_start: "cron_inv c \<Longrightarrow> cron_inv (Start c)"
  by (auto simp: cron_inv_def Start_def comp_def split: option.splits if_splits)

lemma cron_inv_frame: "cron_inv c \<Longrightarrow> cron_inv (c\<lparr>cancelled := True\<rparr>)" "cron_inv c \<Longrightarrow> cron_inv (c\<lparr>crashed := b\<rparr>)"
  "cron_inv c \<Longrightarrow> cron_inv (c\<lparr>cron_log := l\<rparr>)"
  by (simp_all add: cron_inv_def split: option.splits)

lemma cron_inv_step: "cron_step c e c' \<Longrightarrow> cron_inv c \<Longrightarrow> cron_inv c'"
proof (induction rule: cron_step.induct)
  case (add_interval c name iv fn) then show ?case by (simp add: AddIntervalJob_def cron_inv_add)
next
  case (add_daily c name timeStr fn c') then show ?case by (auto simp: AddDailyJob_def cron_inv_add split: option.splits)
next
  case (stop_returns c) then show ?case by (auto simp: cron_inv_def)
qed (auto intro: cron_inv_start cron_inv_frame cron_inv_goto)

lemma cron_reachable_inv: "cron_reachable c \<Longrightarrow> cron_inv c"
proof (induction rule: cron_reachable.induct)
  case init then show ?case by (simp add: cron_inv_def NewCronManager_def)
qed (rule cron_inv_step)

text \<open>whatever the order of registrations, \<^verbatim>\<open>Start\<close> and \<^verbatim>\<open>Stop\<close>, a started scheduler has exactly one loop for
  each registered job, in the order of registration, and one that is not started has none.\<close>

theorem one_loop_per_job:
  assumes "cron_reachable c"
  shows "if started c then map fst (loops c) = tasks c else loops c = []"
  using cron_reachable_inv [OF assms] unfolding cron_inv_def by (rule conjunct1)

text \<open>after \<^verbatim>\<open>Stop\<close> has returned, no job that was registered before starts again.\<close>

theorem stopped_jobs_rest:
  assumes "cron_reachable c" "stop_returned c = Some n" "cron_step c (Fire i) c'"
  shows "n \<le> i"
  using cron_reachable_inv [OF assms(1)] assms(2,3) by (auto simp: cron_inv_def at_def elim!: fire_step intro: leI)
text \<open>A run of the scheduler in which a job added after \<^verbatim>\<open>Stop\<close> returned is started.\<close>

lemma late_job_starts:
  "\<exists>c c'. cron_reachable c \<and> stop_returned c = Some 1 \<and> map (task_name \<circ> fst) (loops c) = [''a'', ''b''] \<and>
     started c \<and> cron_step (c :: unit cron) (Fire 1) c'"
proof -
  let ?c1 = "AddIntervalJob ''a'' 5 () (Start NewCronManager) :: unit cron"
  let ?c2 = "goto 0 Waiting ?c1"
  let ?c3 = "?c2\<lparr>cancelled := True\<rparr>"
  let ?c4 = "goto 0 Gone ?c3"
  let ?c5 = "?c4\<lparr>stop_returned := Some (length (loops ?c4))\<rparr>"
  let ?c6 = "AddIntervalJob ''b'' 5 () ?c5"
  let ?c7 = "goto 1 Waiting ?c6"
  note defs = AddIntervalJob_def add_task_def Start_def NewCronManager_def goto_def at_def Let_def
  have "cron_reachable ?c1" by (rule step [OF step [OF init start] add_interval]) (simp_all add: defs)
  then have "cron_reachable ?c2" by (rule step [OF _ ready]) (simp_all add: defs)
  then have "cron_reachable ?c3" by (rule step [OF _ stop]) (simp_all add: defs)
  then have "cron_reachable ?c4" by (rule step [OF _ quit]) (simp_all add: defs)
  then have "cron_reachable ?c5" by (rule step [OF _ stop_returns]) (simp_all add: defs)
  then have "cron_reachable ?c6" by (rule step [OF _ add_interval]) (simp_all add: defs)
  then have r: "cron_reachable ?c7" by (rule step [OF _ ready]) (simp_all add: defs)
  show ?thesis
  proof (intro exI conjI)
    show "cron_reachable ?c7" by (rule r)
    show "cron_step ?c7 (Fire 1) (goto 1 Running ?c7)" by (rule fire) (simp_all add: defs)
  qed (simp_all add: defs)
qed

theorem one_loop_per_job_witness:
  "\<exists>c :: unit cron. cron_reachable c \<and> stop_returned c = Some 1 \<and> map fst (loops c) = tasks c"
proof -
  obtain c :: "unit cron" where "cron_reachable c" "stop_returned c = Some 1" "started c" using late_job_starts by blast
  with one_loop_per_job [of c] show ?thesis by auto
qed

theorem stopped_jobs_rest_witness:
  "\<exists>(c :: unit cron) c'. cron_reachable c \<and> stop_returned c = Some 1 \<and> cron_step c (Fire 1) c' \<and> 1 \<le> (1 :: nat)"
proof -
  obtain c c' :: "unit cron" where "cron_reachable c" "stop_returned c = Some 1" "cron_step c (Fire 1) c'"
    using late_job_starts by blast
  with stopped_jobs_rest [of c 1 1 c'] show ?thesis by blast
qed

text \<open>A job that fails or panics waits for its next turn.\<close>

lemma panic_keeps_loop:
  assumes "\<not> crashed c" "at c i Running"
  shows "\<exists>c'. cron_step c (Finish i (Panicked v)) c' \<and> at c' i Waiting \<and>
    cron_log c' = cron_log c @ [''[cron] PANIC in job '' @ task_name (fst (loops c ! i)) @ '': '' @ v]"
  using finish [OF assms, of "Panicked v"] assms(2) by (fastforce simp: goto_def at_def)

text \<open>An interval of zero or less is registered without a complaint and ends the process.\<close>

lemma zero_interval_crashes:
  "iv \<le> 0 \<Longrightarrow> \<exists>c c' :: unit cron. cron_reachable c \<and> cron_step c (Ticker_panic 0) c' \<and> crashed c' \<and>
     c = Start (AddIntervalJob name iv () NewCronManager)"
proof -
  assume iv: "iv \<le> 0"
  note defs = AddIntervalJob_def add_task_def Start_def NewCronManager_def goto_def at_def Let_def
  let ?c = "Start (AddIntervalJob name iv () NewCronManager) :: unit cron"
  have "cron_reachable ?c" by (rule step [OF step [OF init add_interval] start]) (simp_all add: defs)
  moreover have "cron_step ?c (Ticker_panic 0) (?c\<lparr>crashed := True\<rparr>)" by (rule ticker) (simp_all add: defs iv)
  ultimately show ?thesis by (metis cron.select_convs(5) cron.surjective cron.update_convs(5))
qed

section \<open>The next daily run\<close>

text \<open>The local calendar: the day of an instant, and the instant of a day's hour and minute. Instants are
  nanoseconds.\<close>

record zone =
  day_of :: "int \<Rightarrow> int"
  date :: "int \<Rightarrow> int \<Rightarrow> int \<Rightarrow> int"

definition minute :: int where "minute = 60 * 10 ^ 9"

definition day :: int where "day = 1440 * minute"

definition next_daily :: "zone \<Rightarrow> int \<times> int \<Rightarrow> int \<Rightarrow> int" where
  "next_daily z clock now =
     (let nextRun = date z (day_of z now) (fst clock) (snd clock) in if nextRun < now then nextRun + day else nextRun)"

definition fixed_zone :: "int \<Rightarrow> zone" where
  "fixed_zone off = \<lparr>day_of = (\<lambda>t. (t + off) div day), date = (\<lambda>d h m. d * day + (h * 60 + m) * minute - off)\<rparr>"

lemma parse_clock_range: "parse_clock s = Some (h, m) \<Longrightarrow> 0 \<le> h \<and> h < 24 \<and> 0 \<le> m \<and> m < 60"
  by (auto simp: parse_clock_def digits_value_def is_digit_def Let_def split: list.splits if_splits)

definition slot :: "zone \<Rightarrow> int \<times> int \<Rightarrow> int \<Rightarrow> int" where "slot z clock d = date z d (fst clock) (snd clock)"

lemma fixed_slot: "0 \<le> h \<Longrightarrow> h < 24 \<Longrightarrow> 0 \<le> m \<Longrightarrow> m < 60 \<Longrightarrow>
  \<exists>o'. 0 \<le> o' \<and> o' < day \<and> (\<forall>d. slot (fixed_zone off) (h, m) d = d * day + o' - off)"
  by (rule exI [of _ "(h * 60 + m) * minute"]) (auto simp: slot_def fixed_zone_def day_def minute_def)

lemma next_slot_facts:
  assumes "parse_clock timeStr = Some clock"
  shows "now \<le> next_daily (fixed_zone off) clock now
    \<and> (\<exists>d. next_daily (fixed_zone off) clock now = slot (fixed_zone off) clock d)
    \<and> (\<forall>d. now \<le> slot (fixed_zone off) clock d \<longrightarrow> next_daily (fixed_zone off) clock now \<le> slot (fixed_zone off) clock d)"
proof -
  obtain h m where c: "clock = (h, m)" by (cases clock)
  from parse_clock_range assms c have "0 \<le> h" "h < 24" "0 \<le> m" "m < 60" by blast+
  from fixed_slot [OF this, of off] obtain w where w: "0 \<le> w" "w < day"
    "slot (fixed_zone off) (h, m) d = d * day + w - off" for d by blast
  define q where "q = (now + off) div day"
  have dpos: "0 < day" by (simp add: day_def minute_def)
  have q: "q * day \<le> now + off" "now + off < (q + 1) * day"
    using dpos by (simp_all add: q_def algebra_simps) (metis div_mult_mod_eq mult.commute pos_mod_sign le_add_same_cancel1, metis add.commute add_strict_left_mono div_mult_mod_eq mult.commute pos_mod_bound)
  have n: "next_daily (fixed_zone off) clock now = (if q * day + w - off < now then (q + 1) * day + w - off else q * day + w - off)"
    using w(3) [of q] by (simp add: next_daily_def c fixed_zone_def slot_def q_def Let_def algebra_simps)
  have least: "now \<le> d * day + w - off \<Longrightarrow> next_daily (fixed_zone off) clock now \<le> d * day + w - off" for d
  proof (cases "q * day + w - off < now")
    case True
    assume a: "now \<le> d * day + w - off"
    with True have "q * day < d * day" by linarith
    then have "q + 1 \<le> d" using dpos by (simp add: mult_less_cancel_right)
    then have "(q + 1) * day \<le> d * day" using dpos by (intro mult_right_mono) simp_all
    with True show ?thesis by (simp add: n)
  next
    case False
    assume a: "now \<le> d * day + w - off"
    have "q \<le> d"
    proof (rule ccontr)
      assume "\<not> q \<le> d"
      then have "d + 1 \<le> q" by simp
      then have "(d + 1) * day \<le> q * day" using dpos by (intro mult_right_mono) simp_all
      with a q(1) w(2) show False by (simp add: algebra_simps)
    qed
    then have "q * day \<le> d * day" using dpos by (intro mult_right_mono) simp_all
    with False show ?thesis by (simp add: n)
  qed
  have "now \<le> next_daily (fixed_zone off) clock now" using q(2) w(1) by (simp add: n)
  moreover have "next_daily (fixed_zone off) clock now = slot (fixed_zone off) clock (if q * day + w - off < now then q + 1 else q)"
    using n by (simp add: c w(3))
  ultimately show ?thesis using least w(3) c by (metis (no_types, lifting))
qed

text \<open>where the local clock is never set, the next daily run is the first instant from now on at which it shows
  the hour and minute of the job, for every clock the job's text can be read as.\<close>

theorem daily_next_slot:
  assumes "parse_clock timeStr = Some clock"
  shows "now \<le> next_daily (fixed_zone off) clock now
    \<and> (\<exists>d. next_daily (fixed_zone off) clock now = slot (fixed_zone off) clock d)
    \<and> (\<forall>d. now \<le> slot (fixed_zone off) clock d \<longrightarrow> next_daily (fixed_zone off) clock now \<le> slot (fixed_zone off) clock d)"
  using next_slot_facts [OF assms] .

theorem daily_next_slot_witness:
  "next_daily (fixed_zone 0) (3, 30) (5 * day + 4 * 60 * minute) \<le> slot (fixed_zone 0) (3, 30) 6"
proof -
  have p: "parse_clock ''03:30'' = Some (3, 30)" by code_simp
  have "5 * day + 4 * 60 * minute \<le> slot (fixed_zone 0) (3, 30) 6" by (simp add: slot_def fixed_zone_def day_def minute_def)
  then show ?thesis using daily_next_slot [OF p] by blast
qed

text \<open>A day with a clock set back has 25 hours: the run of the day before leads 24 hours on, an hour early, and from
  there to the same day's own slot. The job runs twice on that day.\<close>

definition autumn_zone :: zone where
  "autumn_zone =
     \<lparr>day_of = (\<lambda>t. if t < 10 * day + 60 * minute then (t + 120 * minute) div day else (t + 60 * minute) div day),
      date = (\<lambda>d h m. d * day + (h * 60 + m) * minute - (if d < 10 \<or> d = 10 \<and> h < 3 then 120 else 60) * minute)\<rparr>"

lemma daily_job_twice:
  "let r0 = slot autumn_zone (15, 30) 9; r1 = next_daily autumn_zone (15, 30) (r0 + 1); r2 = next_daily autumn_zone (15, 30) (r1 + 1)
   in day_of autumn_zone r1 = 10 \<and> day_of autumn_zone r2 = 10 \<and> r1 = date autumn_zone 10 14 30 \<and> r2 = date autumn_zone 10 15 30"
  by (simp add: slot_def next_daily_def autumn_zone_def day_def minute_def Let_def)

text \<open>The last run is not remembered: a clock that still shows the slot after a run makes it run again at once.\<close>

lemma daily_runs_again:
  assumes "parse_clock timeStr = Some clock"
  shows "next_daily (fixed_zone off) clock (slot (fixed_zone off) clock d) = slot (fixed_zone off) clock d"
  using next_slot_facts [OF assms, of "slot (fixed_zone off) clock d" off] by (blast intro: antisym)

lemma odd_clocks: "parse_clock ''9:30'' = Some (9, 30)" "parse_clock ''9:5'' = None" "parse_clock ''24:00'' = None"
  "parse_clock ''12:60'' = None" "parse_clock ''1530'' = None" "parse_clock ''12:300'' = None"
  by code_simp+

section \<open>The pool of proxies\<close>

text \<open>\<open>badDuration\<close> and the times are nanoseconds.\<close>

record 'u pool =
  badProxies :: "(string \<times> int) list"
  proxies :: "'u option list"
  badDuration :: int

definition NewProxyManager :: "int \<Rightarrow> 'u pool" where
  "NewProxyManager d = \<lparr>badProxies = [], proxies = [], badDuration = d\<rparr>"

text \<open>The providers' results, in the order in which their goroutines take the lock: a list, or an error.\<close>

definition fetched :: "(string + 'u option list) list \<Rightarrow> 'u option list" where
  "fetched rs = concat (map (\<lambda>r. case r of Inl e \<Rightarrow> [] | Inr l \<Rightarrow> l) rs)"

definition fetch_errors :: "(string + 'u option list) list \<Rightarrow> string list" where
  "fetch_errors rs = concat (map (\<lambda>r. case r of Inl e \<Rightarrow> [e] | Inr l \<Rightarrow> []) rs)"

definition UpdateSynchronously :: "(string + 'u option list) list \<Rightarrow> int \<Rightarrow> 'u pool \<Rightarrow> string option \<times> 'u pool" where
  "UpdateSynchronously rs now m =
     (case fetch_errors rs of [] \<Rightarrow> None | e # _ \<Rightarrow> Some e,
      m\<lparr>proxies := fetched rs, badProxies := filter (\<lambda>(k, t). \<not> now - t > badDuration m) (badProxies m)\<rparr>)"

definition MarkBad :: "('u \<Rightarrow> string) \<Rightarrow> 'u option \<Rightarrow> int \<Rightarrow> 'u pool \<Rightarrow> 'u pool" where
  "MarkBad shown u now m =
     (case u of None \<Rightarrow> m | Some p \<Rightarrow> m\<lparr>badProxies := AList.update (shown p) now (badProxies m)\<rparr>)"

definition usable :: "'u pool \<Rightarrow> int \<Rightarrow> string \<Rightarrow> bool" where
  "usable m now s \<longleftrightarrow> (case map_of (badProxies m) s of None \<Rightarrow> True | Some t \<Rightarrow> now - t > badDuration m)"

text \<open>The search from \<open>startIdx\<close> around the list; a nil entry is asked for its text, and that panics.\<close>

datatype 'u pick = Proxy 'u | No_proxy | Nil_panic

fun scan :: "('u \<Rightarrow> string) \<Rightarrow> 'u pool \<Rightarrow> int \<Rightarrow> 'u option list \<Rightarrow> 'u pick" where
  "scan shown m now [] = No_proxy"
| "scan shown m now (None # ps) = Nil_panic"
| "scan shown m now (Some p # ps) = (if usable m now (shown p) then Proxy p else scan shown m now ps)"

definition GetRandomProxy :: "('u \<Rightarrow> string) \<Rightarrow> nat \<Rightarrow> int \<Rightarrow> 'u pool \<Rightarrow> 'u pick" where
  "GetRandomProxy shown startIdx now m =
     (let total = length (proxies m) in
      if total = 0 then No_proxy
      else scan shown m now (map (\<lambda>i. proxies m ! ((startIdx + i) mod total)) [0..<total]))"

lemma round_is_rotate: "map (\<lambda>i. xs ! ((n + i) mod length xs)) [0..<length xs] = rotate n xs"
  by (rule nth_equalityI) (auto simp: nth_rotate add.commute)

lemma GetRandomProxy_rotate: "GetRandomProxy shown n now m = scan shown m now (rotate n (proxies m))"
  by (simp add: GetRandomProxy_def Let_def round_is_rotate)

lemma scan_Proxy: "scan shown m now ps = Proxy p \<Longrightarrow> Some p \<in> set ps \<and> usable m now (shown p)"
  by (induction shown m now ps rule: scan.induct) (auto split: if_splits)

lemma scan_some: "None \<notin> set ps \<Longrightarrow> Some p \<in> set ps \<Longrightarrow> usable m now (shown p) \<Longrightarrow> \<exists>q. scan shown m now ps = Proxy q"
  by (induction shown m now ps rule: scan.induct) auto

lemma scan_none: "None \<notin> set ps \<Longrightarrow> (scan shown m now ps = No_proxy \<longleftrightarrow> (\<forall>p. Some p \<in> set ps \<longrightarrow> \<not> usable m now (shown p)))"
  by (induction shown m now ps rule: scan.induct) auto

text \<open>a choice is a proxy of the pool that is not banned, there is none only when all of them are, and each usable
  proxy is chosen from some start.\<close>

theorem proxy_choice:
  assumes "None \<notin> set (proxies m)"
  shows "(\<forall>n p. GetRandomProxy shown n now m = Proxy p \<longrightarrow> Some p \<in> set (proxies m) \<and> usable m now (shown p))
    \<and> (\<forall>n. GetRandomProxy shown n now m = No_proxy \<longleftrightarrow> (\<forall>p. Some p \<in> set (proxies m) \<longrightarrow> \<not> usable m now (shown p)))
    \<and> (\<forall>p. Some p \<in> set (proxies m) \<and> usable m now (shown p) \<longrightarrow>
         (\<exists>n < length (proxies m). GetRandomProxy shown n now m = Proxy p))"
proof (intro conjI allI impI)
  fix n p assume "GetRandomProxy shown n now m = Proxy p"
  from scan_Proxy [OF this [unfolded GetRandomProxy_rotate]] show "Some p \<in> set (proxies m)" "usable m now (shown p)" by simp_all
next
  fix n show "GetRandomProxy shown n now m = No_proxy \<longleftrightarrow> (\<forall>p. Some p \<in> set (proxies m) \<longrightarrow> \<not> usable m now (shown p))"
    using scan_none [of "rotate n (proxies m)"] assms by (simp add: GetRandomProxy_rotate)
next
  fix p assume p: "Some p \<in> set (proxies m) \<and> usable m now (shown p)"
  then obtain n where n: "n < length (proxies m)" "proxies m ! n = Some p" by (auto simp: in_set_conv_nth)
  then have "rotate n (proxies m) = Some p # tl (rotate n (proxies m))"
    using hd_rotate_conv_nth [of "proxies m" n] by (cases "proxies m"; cases "rotate n (proxies m)") auto
  with p have "GetRandomProxy shown n now m = Proxy p" by (metis GetRandomProxy_rotate scan.simps(3))
  with n show "\<exists>n<length (proxies m). GetRandomProxy shown n now m = Proxy p" by blast
qed

theorem proxy_choice_witness:
  "GetRandomProxy id 2 10 \<lparr>badProxies = [(''a'', 8)], proxies = [Some ''a'', Some ''b''], badDuration = 5\<rparr> \<noteq> No_proxy"
proof -
  let ?m = "\<lparr>badProxies = [(''a'', 8)], proxies = [Some ''a'', Some ''b''], badDuration = 5\<rparr>"
  have "None \<notin> set (proxies ?m)" by simp
  from conjunct1 [OF conjunct2 [OF proxy_choice [OF this, of id 10]]]
  show ?thesis by (auto simp: usable_def)
qed

lemma map_of_filter_pair: "distinct (map fst xs) \<Longrightarrow>
  map_of (filter (\<lambda>(k, v). P v) xs) k = (case map_of xs k of None \<Rightarrow> None | Some v \<Rightarrow> if P v then Some v else None)"
proof (induction xs)
  case (Cons x xs)
  obtain k' v where x: "x = (k', v)" by (cases x)
  show ?case
  proof (cases "k = k'")
    case True
    with Cons.prems x have "map_of xs k = None" by (simp add: map_of_eq_None_iff)
    with Cons x True show ?thesis by simp
  qed (use Cons x in simp)
qed simp

definition pool_ok :: "'u pool \<Rightarrow> bool" where "pool_ok m \<longleftrightarrow> distinct (map fst (badProxies m))"

lemma pool_ok_ops: "pool_ok (NewProxyManager d)" "pool_ok m \<Longrightarrow> pool_ok (MarkBad shown u now m)"
  "pool_ok m \<Longrightarrow> pool_ok (snd (UpdateSynchronously rs now m))"
  by (auto simp: pool_ok_def NewProxyManager_def MarkBad_def UpdateSynchronously_def distinct_update distinct_map_filter
      split: option.splits)

text \<open>an update forgets only bans that are over: which addresses are usable is the same before and after it, at its
  time and at every later one.\<close>

theorem update_keeps_bans:
  assumes "pool_ok m" "now \<le> later"
  shows "usable (snd (UpdateSynchronously rs now m)) later s \<longleftrightarrow> usable m later s"
  using assms by (auto simp: usable_def UpdateSynchronously_def pool_ok_def map_of_filter_pair split: option.splits)

theorem update_keeps_bans_witness:
  "\<not> usable (snd (UpdateSynchronously [] 12 \<lparr>badProxies = [(''a'', 8), (''b'', 1)], proxies = [Some ()], badDuration = 5\<rparr>)) 13 ''a''"
  using update_keeps_bans [of "\<lparr>badProxies = [(''a'', 8), (''b'', 1)], proxies = [Some ()], badDuration = 5\<rparr>" 12 13 "[]" "''a''"]
  by (simp add: pool_ok_def usable_def)

text \<open>A ban lasts its time from the moment it is given, and renewing it restarts it.\<close>

lemma banned_while: "now \<le> later \<Longrightarrow> later - now \<le> badDuration m \<Longrightarrow> \<not> usable (MarkBad shown (Some p) now m) later (shown p)"
  by (simp add: MarkBad_def usable_def update_conv')

lemma ban_ends: "later - now > badDuration m \<Longrightarrow> usable (MarkBad shown (Some p) now m) later (shown p)"
  by (simp add: MarkBad_def usable_def update_conv')

text \<open>An update whose providers all fail empties the pool, and there is no proxy from then on.\<close>

lemma failed_update_empties:
  "GetRandomProxy shown n later (snd (UpdateSynchronously [Inl ''timeout''] now m)) = No_proxy"
  by (simp add: UpdateSynchronously_def fetched_def GetRandomProxy_def)

text \<open>One provider's failure is reported though the others' proxies are installed.\<close>

lemma partial_update: "UpdateSynchronously [Inr [Some p], Inl e] now m = (Some e, snd (UpdateSynchronously [Inr [Some p]] now m))"
  by (simp add: UpdateSynchronously_def fetched_def fetch_errors_def)

end
