(* ===== verification/Values.thy ===== *)
theory Values imports GoPrelude "HOL-Library.Word" begin

text \<open>
  Decoded JSON and its access by dotted paths (\<^verbatim>\<open>json.go\<close>), conversions of values (\<^verbatim>\<open>convert.go\<close>) and the slug of
  a text (\<^verbatim>\<open>transliterate.go\<close>). Floating-point numbers are a type parameter with the operations the code uses on
  them in the record \<open>floats\<close>; what a conversion to an integer gives for a number out of range is the machine's choice.
\<close>

section \<open>Values\<close>

datatype 'f gov =
    GNil
  | GMap "(string \<times> 'f gov) list"
  | GSlice "'f gov list"
  | GString string
  | GFloat64 'f
  | GInt int
  | GInt64 int
  | GBool bool
  | GNumber string
  | GSmall int
  | GUint int
  | GFloat32 'f
  | GStringer string
  | GOther string

text \<open>\<open>GSmall\<close> is an \<^verbatim>\<open>int8\<close>, \<^verbatim>\<open>int16\<close> or \<^verbatim>\<open>int32\<close>, \<open>GUint\<close> an unsigned integer of any width; \<open>GStringer\<close> and
  \<open>GOther\<close> are what \<^verbatim>\<open>String()\<close> and the format \<^verbatim>\<open>%v\<close> give.\<close>

record 'f floats =
  FormatFloat :: "'f \<Rightarrow> string"
  to_int :: "'f \<Rightarrow> int"
  of_int64 :: "int \<Rightarrow> 'f"
  ParseFloat :: "string \<Rightarrow> 'f option"
  is_zero :: "'f \<Rightarrow> bool"

section \<open>Access by path\<close>

datatype segment = Key string | Idx int | Wild

definition parse_segment :: "string \<Rightarrow> segment" where
  "parse_segment p = (if p = ''*'' then Wild else case ParseInt64 p of Some i \<Rightarrow> Idx i | None \<Rightarrow> Key p)"

definition parse_path :: "string \<Rightarrow> segment list" where
  "parse_path path = map parse_segment (Split (CHR ''.'') path)"

text \<open>The compiled path and the cache after it.\<close>

definition compilePath :: "(string \<times> segment list) list \<Rightarrow> string \<Rightarrow> segment list \<times> (string \<times> segment list) list" where
  "compilePath cache path =
     (case map_of cache path of Some v \<Rightarrow> (v, cache) | None \<Rightarrow> (parse_path path, (path, parse_path path) # cache))"

fun follow :: "segment list \<Rightarrow> 'f gov \<Rightarrow> 'f gov option" where
  "follow [] v = Some v"
| "follow (Wild # ss) (GMap m) = Some (GMap m)"
| "follow (Idx i # ss) (GMap m) = None"
| "follow (Key k # ss) (GMap m) = (case map_of m k of None \<Rightarrow> None | Some v \<Rightarrow> follow ss v)"
| "follow (Wild # ss) (GSlice l) = Some (GSlice l)"
| "follow (Idx i # ss) (GSlice l) = (if i < 0 \<or> int (length l) \<le> i then None else follow ss (l ! nat i))"
| "follow (Key k # ss) (GSlice l) = None"
| "follow (s # ss) v = None"

text \<open>\<open>None\<close> for the document is a nil map.\<close>

definition GetDotPath ::
  "(string \<times> segment list) list \<Rightarrow> (string \<times> 'f gov) list option \<Rightarrow> string \<Rightarrow> 'f gov option \<times> (string \<times> segment list) list" where
  "GetDotPath cache m path =
     (case m of None \<Rightarrow> (None, cache)
      | Some fs \<Rightarrow> if path = [] then (None, cache)
                    else case compilePath cache path of (segs, cache') \<Rightarrow> (follow segs (GMap fs), cache'))"

text \<open>An empty input is refused, and so is a document that is not an object; \<open>parsed\<close> is the decoder's result. The
  document \<^verbatim>\<open>null\<close> leaves the map nil.\<close>

definition BytesToJSON :: "(string \<Rightarrow> string + 'f gov) \<Rightarrow> string \<Rightarrow> string + (string \<times> 'f gov) list option" where
  "BytesToJSON parsed data =
     (if data = [] then Inl ''empty input''
      else case parsed data of
        Inl e \<Rightarrow> Inl e
      | Inr (GMap m) \<Rightarrow> Inr (Some m)
      | Inr GNil \<Rightarrow> Inr None
      | Inr _ \<Rightarrow> Inl ''json: cannot unmarshal into Go value of type map[string]interface {}'')"

section \<open>Typed access\<close>

text \<open>The second result is the code's; where it is \<open>False\<close> the first is not to be used and is left out.\<close>

definition value_string :: "'f floats \<Rightarrow> 'f gov \<Rightarrow> string option" where
  "value_string F v =
     (case v of
        GString s \<Rightarrow> Some s
      | GFloat64 f \<Rightarrow> Some (FormatFloat F f)
      | GInt i \<Rightarrow> Some (Itoa i)
      | GInt64 i \<Rightarrow> Some (Itoa i)
      | GBool b \<Rightarrow> Some (if b then ''true'' else ''false'')
      | GNumber s \<Rightarrow> Some s
      | _ \<Rightarrow> None)"

definition value_int :: "'f floats \<Rightarrow> 'f gov \<Rightarrow> int option" where
  "value_int F v =
     (case v of
        GInt i \<Rightarrow> Some i
      | GInt64 i \<Rightarrow> Some i
      | GFloat64 f \<Rightarrow> Some (to_int F f)
      | GString s \<Rightarrow> ParseInt64 s
      | GNumber s \<Rightarrow> ParseInt64 s
      | _ \<Rightarrow> None)"

definition value_float :: "'f floats \<Rightarrow> 'f gov \<Rightarrow> 'f option" where
  "value_float F v =
     (case v of
        GFloat64 f \<Rightarrow> Some f
      | GInt i \<Rightarrow> Some (of_int64 F i)
      | GInt64 i \<Rightarrow> Some (of_int64 F i)
      | GString s \<Rightarrow> ParseFloat F s
      | GNumber s \<Rightarrow> ParseFloat F s
      | _ \<Rightarrow> None)"

definition ParseBool :: "string \<Rightarrow> bool option" where
  "ParseBool s =
     (if s \<in> set [''1'', ''t'', ''T'', ''true'', ''TRUE'', ''True''] then Some True
      else if s \<in> set [''0'', ''f'', ''F'', ''false'', ''FALSE'', ''False''] then Some False else None)"

definition value_bool :: "'f floats \<Rightarrow> 'f gov \<Rightarrow> bool option" where
  "value_bool F v =
     (case v of
        GBool b \<Rightarrow> Some b
      | GString s \<Rightarrow> ParseBool s
      | GInt i \<Rightarrow> Some (i \<noteq> 0)
      | GInt64 i \<Rightarrow> Some (i \<noteq> 0)
      | GFloat64 f \<Rightarrow> Some (\<not> is_zero F f)
      | GNumber s \<Rightarrow> map_option (\<lambda>i. i \<noteq> 0) (ParseInt64 s)
      | _ \<Rightarrow> None)"

definition got :: "('f gov \<Rightarrow> 'a option) \<Rightarrow> (string \<times> 'f gov) list option \<Rightarrow> string \<Rightarrow> 'a option" where
  "got conv m path = (case fst (GetDotPath [] m path) of None \<Rightarrow> None | Some GNil \<Rightarrow> None | Some v \<Rightarrow> conv v)"

definition GetValue_String where "GetValue_String F = got (value_string F)"
definition GetValue_Int where "GetValue_Int F = got (value_int F)"
definition GetValue_Float where "GetValue_Float F = got (value_float F)"
definition GetValue_Bool where "GetValue_Bool F = got (value_bool F)"

definition or_default :: "'a option \<Rightarrow> 'a \<Rightarrow> 'a" where "or_default r d = (case r of None \<Rightarrow> d | Some v \<Rightarrow> v)"

definition GetValueOr_String where "GetValueOr_String F m path d = or_default (GetValue_String F m path) d"
definition GetValueOr_Int where "GetValueOr_Int F m path d = or_default (GetValue_Int F m path) d"
definition GetValueOr_Float where "GetValueOr_Float F m path d = or_default (GetValue_Float F m path) d"
definition GetValueOr_Bool where "GetValueOr_Bool F m path d = or_default (GetValue_Bool F m path) d"

text \<open>Conversion to a 64-bit integer keeps the low bits.\<close>

definition int64 :: "int \<Rightarrow> int" where "int64 i = sint (word_of_int i :: 64 word)"

definition ToInt :: "'f floats \<Rightarrow> 'f gov \<Rightarrow> string + int" where
  "ToInt F v =
     (case v of
        GInt i \<Rightarrow> Inr i
      | GSmall i \<Rightarrow> Inr i
      | GInt64 i \<Rightarrow> Inr i
      | GUint i \<Rightarrow> Inr (int64 i)
      | GFloat32 f \<Rightarrow> Inr (to_int F f)
      | GFloat64 f \<Rightarrow> Inr (to_int F f)
      | GString s \<Rightarrow> (case ParseInt64 s of None \<Rightarrow> Inl ''cannot convert string to int'' | Some n \<Rightarrow> Inr n)
      | _ \<Rightarrow> Inl ''unsupported type'')"

definition ToString :: "'f floats \<Rightarrow> ('f gov \<Rightarrow> string) \<Rightarrow> 'f gov \<Rightarrow> string" where
  "ToString F percent_v v =
     (case v of
        GString s \<Rightarrow> s
      | GInt i \<Rightarrow> Itoa i
      | GSmall i \<Rightarrow> Itoa i
      | GInt64 i \<Rightarrow> Itoa i
      | GUint i \<Rightarrow> Itoa i
      | GFloat32 f \<Rightarrow> FormatFloat F f
      | GFloat64 f \<Rightarrow> FormatFloat F f
      | GBool b \<Rightarrow> (if b then ''true'' else ''false'')
      | GStringer s \<Rightarrow> s
      | GNumber s \<Rightarrow> s
      | _ \<Rightarrow> percent_v v)"

text \<open>The error of \<^verbatim>\<open>Atoi\<close> is dropped: nothing for a text that is no number, the nearest integer for one out of range.\<close>

definition atoi :: "string \<Rightarrow> int" where 
  "atoi s =
     (case ParseInt64 s of
        Some n \<Rightarrow> n
      | None \<Rightarrow>
        let ds = (if HasPrefix s ''-'' \<or> HasPrefix s ''+'' then tl s else s)
        in if ds = [] \<or> digits_val 0 ds = None then 0 else if HasPrefix s ''-'' then - (2 ^ 63) else 2 ^ 63 - 1)"

section \<open>Every place is reached by its path\<close>

text \<open>A place in a document: the keys and positions that lead to it.\<close>

datatype pstep = Field string | Item nat

fun place :: "'f gov \<Rightarrow> pstep list \<Rightarrow> 'f gov option" where
  "place v [] = Some v"
| "place (GMap m) (Field k # ks) = (case map_of m k of None \<Rightarrow> None | Some v \<Rightarrow> place v ks)"
| "place (GSlice l) (Item n # ks) = (if n < length l then place (l ! n) ks else None)"
| "place _ _ = None"

fun written_step :: "pstep \<Rightarrow> string" where
  "written_step (Field k) = k"
| "written_step (Item n) = Itoa (int n)"

definition written_path :: "pstep list \<Rightarrow> string" where "written_path ks = Join (map written_step ks) ''.''"

text \<open>Keys that a path can name, and positions a machine integer can hold.\<close>

fun nameable :: "pstep \<Rightarrow> bool" where
  "nameable (Field k) = (CHR ''.'' \<notin> set k \<and> k \<noteq> ''*'' \<and> ParseInt64 k = None)"
| "nameable (Item n) = (int n < 2 ^ 63)"

lemma parse_written_step: "nameable k \<Longrightarrow> parse_segment (written_step k) = (case k of Field f \<Rightarrow> Key f | Item n \<Rightarrow> Idx (int n))"
proof (cases k)
  case (Item n)
  assume ok: "nameable k"
  have "Itoa (int n) \<noteq> ''*''"
  proof
    assume "Itoa (int n) = ''*''"
    then have "CHR ''*'' \<in> set (Itoa_nat n)" by (simp add: Itoa_def)
    from Itoa_nat_digits [OF this] show False by (simp add: GoPrelude.is_digit_def)
  qed
  with ok Item ParseInt64_Itoa [of "int n"] show ?thesis by (simp add: parse_segment_def)
qed (simp add: parse_segment_def)

lemma written_step_no_dot: "nameable k \<Longrightarrow> CHR ''.'' \<notin> set (written_step k)"
proof (cases k)
  case (Item n)
  have "CHR ''.'' \<notin> set (Itoa_nat n)" using Itoa_nat_digits [of "CHR ''.''" n] by (auto simp: GoPrelude.is_digit_def)
  with Item show ?thesis by (simp add: Itoa_def)
qed simp

lemma parse_written_path:
  assumes "ks \<noteq> []" "list_all nameable ks"
  shows "parse_path (written_path ks) = map (\<lambda>k. case k of Field f \<Rightarrow> Key f | Item n \<Rightarrow> Idx (int n)) ks"
proof -
  have "Split (CHR ''.'') (written_path ks) = map written_step ks"
    unfolding written_path_def using assms by (intro Split_Join) (auto simp: list_all_iff written_step_no_dot)
  with assms(2) show ?thesis by (simp add: parse_path_def parse_written_step list_all_iff)
qed

lemma follow_place:
  "follow (map (\<lambda>k. case k of Field f \<Rightarrow> Key f | Item n \<Rightarrow> Idx (int n)) ks) v = place v ks"
proof (induction ks arbitrary: v)
  case (Cons k ks) then show ?case by (cases k; cases v) (auto split: option.splits)
qed simp

text \<open>A cache holds what its paths compile to.\<close>

definition cache_ok :: "(string \<times> segment list) list \<Rightarrow> bool" where
  "cache_ok c \<longleftrightarrow> list_all (\<lambda>(p, s). s = parse_path p) c"

lemma compilePath_cached: "cache_ok c \<Longrightarrow> fst (compilePath c path) = parse_path path \<and> cache_ok (snd (compilePath c path))"
  by (auto simp: compilePath_def cache_ok_def list_all_iff split: option.splits dest: map_of_SomeD)

text \<open>with any cache built by earlier accesses, a path written from the keys and positions of a place gives what
  is at the place, and nothing when there is no such place.\<close>

theorem dot_path_reaches:
  assumes "cache_ok c" "list_all nameable ks" "ks \<noteq> []" "ks \<noteq> [Field []]"
  shows "fst (GetDotPath c (Some fs) (written_path ks)) = place (GMap fs) ks
      \<and> cache_ok (snd (GetDotPath c (Some fs) (written_path ks)))"
proof -
  have ne: "written_path ks \<noteq> []"
  proof (cases ks)
    case (Cons k ks')
    show ?thesis
    proof (cases ks')
      case Nil
      with Cons assms(4) show ?thesis by (cases k) (auto simp: written_path_def Itoa_def Itoa_nat_ne)
    qed (simp add: Cons written_path_def)
  qed (use assms(3) in simp)
  have f: "fst (compilePath c (written_path ks)) = map (\<lambda>k. case k of Field f \<Rightarrow> Key f | Item n \<Rightarrow> Idx (int n)) ks"
    using compilePath_cached [OF assms(1)] parse_written_path [OF assms(3,2)] by simp
  have "cache_ok (snd (compilePath c (written_path ks)))" using compilePath_cached [OF assms(1)] by simp
  then show ?thesis by (simp add: GetDotPath_def ne follow_place case_prod_beta f)
qed

theorem dot_path_reaches_witness:
  "fst (GetDotPath [] (Some [(''user'', GMap [(''tags'', GSlice [GString ''a'', GInt 7 :: unit gov])])]) ''user.tags.1'') = Some (GInt 7)"
proof -
  let ?ks = "[Field ''user'', Field ''tags'', Item 1]"
  have w: "written_path ?ks = ''user.tags.1''" by code_simp
  have "list_all nameable ?ks" by code_simp
  from dot_path_reaches [OF _ this, of "[]" "[(''user'', GMap [(''tags'', GSlice [GString ''a'', GInt 7 :: unit gov])])]"]
  show ?thesis unfolding w by (simp add: cache_ok_def)
qed

section \<open>What the accesses agree on\<close>

lemma int_of_shown: "0 \<le> i \<Longrightarrow> i < 2 ^ 63 \<Longrightarrow> value_string F (GInt i) = Some s \<Longrightarrow> value_int F (GString s) = Some i"
  by (auto simp: value_string_def value_int_def ParseInt64_Itoa)

lemma bool_of_shown: "value_string F (GBool b) = Some s \<Longrightarrow> value_bool F (GString s) = Some b"
  by (cases b) (auto simp: value_string_def value_bool_def ParseBool_def)

lemma convert_shown: "0 \<le> i \<Longrightarrow> i < 2 ^ 63 \<Longrightarrow> ToInt F (GString (ToString F pv (GUint i))) = Inr i"
  by (simp add: ToInt_def ToString_def ParseInt64_Itoa)

text \<open>An unsigned number beyond the range becomes a negative one without an error.\<close>

lemma large_unsigned_negative: "ToInt F (GUint (2 ^ 64 - 1)) = Inr (- 1)"
  by (simp add: ToInt_def int64_def)

text \<open>A key of digits names a position and is never found in an object; a star inside a path ends it.\<close>

lemma numeric_key_unreachable: "fst (GetDotPath [] (Some [(''200'', GString ''ok'' :: unit gov)]) ''200'') = None"
  by code_simp

lemma star_ends_path:
  "fst (GetDotPath [] (Some [(''users'', GSlice [GMap [(''name'', GString ''a'' :: unit gov)]])]) ''users.*.name'') =
     Some (GSlice [GMap [(''name'', GString ''a'')]])"
  by code_simp

section \<open>Slugs\<close>

text \<open>Runes are numbers. Lower case, the canonical decomposition, the test for a combining mark and the trimming of
  space are the Unicode tables' and stand as arguments.\<close>

record unicode =
  lower :: "nat list \<Rightarrow> nat list"
  NFD :: "nat list \<Rightarrow> nat list"
  is_mark :: "nat \<Rightarrow> bool"
  is_white :: "nat \<Rightarrow> bool"
  trim :: "nat list \<Rightarrow> nat list"

definition runes :: "string \<Rightarrow> nat list" where "runes s = map of_char s"

definition transliterationMap :: "(nat \<times> nat list) list" where
  "transliterationMap = map (map_prod id runes)
    [(1072, ''a''), (1073, ''b''), (1074, ''v''), (1075, ''g''), (1076, ''d''), (1077, ''e''), (1105, ''yo''),
     (1078, ''zh''), (1079, ''z''), (1080, ''i''), (1081, ''j''), (1082, ''k''), (1083, ''l''), (1084, ''m''),
     (1085, ''n''), (1086, ''o''), (1087, ''p''), (1088, ''r''), (1089, ''s''), (1090, ''t''), (1091, ''u''),
     (1092, ''f''), (1093, ''kh''), (1094, ''ts''), (1095, ''ch''), (1096, ''sh''), (1097, ''sch''), (1098, []),
     (1099, ''y''), (1100, []), (1101, ''e''), (1102, ''yu''), (1103, ''ya''),
     (322, ''l''),
     (945, ''a''), (946, ''b''), (947, ''g''), (948, ''d''), (949, ''e''), (950, ''z''), (951, ''h''),
     (952, ''th''), (953, ''i''), (954, ''k''), (955, ''l''), (956, ''m''), (957, ''n''), (958, ''x''),
     (959, ''o''), (960, ''p''), (961, ''r''), (963, ''s''), (962, ''s''), (964, ''t''), (965, ''y''),
     (966, ''f''), (967, ''ch''), (968, ''ps''), (969, ''o'')]"

definition map_rune :: "unicode \<Rightarrow> nat \<Rightarrow> nat list" where
  "map_rune U r =
     (case map_of transliterationMap r of
        Some v \<Rightarrow> v
      | None \<Rightarrow> concat (map (\<lambda>d. case map_of transliterationMap d of Some v \<Rightarrow> v | None \<Rightarrow> [d]) (NFD U [r])))"

definition slug_rune :: "nat \<Rightarrow> bool" where "slug_rune r \<longleftrightarrow> 97 \<le> r \<and> r \<le> 122 \<or> 48 \<le> r \<and> r \<le> 57"

fun slug_loop :: "unicode \<Rightarrow> bool \<Rightarrow> nat list \<Rightarrow> nat list" where
  "slug_loop U previousHyphen [] = []"
| "slug_loop U previousHyphen (r # rs) =
     (if is_mark U r then slug_loop U previousHyphen rs
      else if slug_rune r then r # slug_loop U False rs
      else if is_white U r \<or> r = 45 then (if previousHyphen then slug_loop U True rs else 45 # slug_loop U True rs)
      else slug_loop U previousHyphen rs)"

definition Transliterate :: "unicode \<Rightarrow> nat list \<Rightarrow> nat list" where
  "Transliterate U text = slug_loop U False (NFD U (trim U (concat (map (map_rune U) (lower U text)))))"

fun single_hyphens :: "nat list \<Rightarrow> bool" where
  "single_hyphens (a # b # rs) = (\<not> (a = 45 \<and> b = 45) \<and> single_hyphens (b # rs))"
| "single_hyphens _ = True"

definition slug :: "nat list \<Rightarrow> bool" where
  "slug rs \<longleftrightarrow> list_all (\<lambda>r. slug_rune r \<or> r = 45) rs \<and> single_hyphens rs"

lemma single_hyphens_Cons: "single_hyphens (a # rs) \<longleftrightarrow> single_hyphens rs \<and> \<not> (a = 45 \<and> rs \<noteq> [] \<and> hd rs = 45)"
  by (cases rs) auto

lemma slug_loop_slug: "slug (slug_loop U h rs) \<and> (h \<longrightarrow> slug_loop U h rs \<noteq> [] \<longrightarrow> hd (slug_loop U h rs) \<noteq> 45)"
  by (induction U h rs rule: slug_loop.induct) (auto simp: slug_def single_hyphens_Cons slug_rune_def)

text \<open>What the Unicode tables say of the runes of a slug.\<close>

definition plain_unicode :: "unicode \<Rightarrow> bool" where
  "plain_unicode U \<longleftrightarrow>
     (\<forall>rs. list_all (\<lambda>r. slug_rune r \<or> r = 45) rs \<longrightarrow> lower U rs = rs \<and> NFD U rs = rs \<and> trim U rs = rs) \<and>
     (\<forall>r. slug_rune r \<or> r = 45 \<longrightarrow> \<not> is_mark U r)"

lemma map_keys: "list_all (\<lambda>kv. 322 \<le> fst kv) transliterationMap"
  by (simp add: transliterationMap_def)

lemma concat_singles: "(\<forall>x\<in>set xs. f x = [x]) \<Longrightarrow> concat (map f xs) = xs"
  by (induction xs) auto

lemma map_rune_plain: "plain_unicode U \<Longrightarrow> slug_rune r \<or> r = 45 \<Longrightarrow> map_rune U r = [r]"
proof -
  assume a: "plain_unicode U" "slug_rune r \<or> r = 45"
  have "r \<notin> fst ` set transliterationMap" using a(2) map_keys by (fastforce simp: slug_rune_def list_all_iff)
  then have "map_of transliterationMap r = None" by (simp add: map_of_eq_None_iff)
  with a show ?thesis by (simp add: map_rune_def plain_unicode_def)
qed

lemma slug_loop_id: "plain_unicode U \<Longrightarrow> slug rs \<Longrightarrow> (h \<longrightarrow> rs \<noteq> [] \<longrightarrow> hd rs \<noteq> 45) \<Longrightarrow> slug_loop U h rs = rs"
  by (induction U h rs rule: slug_loop.induct) (auto simp: slug_def single_hyphens_Cons plain_unicode_def)

text \<open>the slug of any text has only lower-case letters, digits and hyphens, no two hyphens together, and is its
  own slug.\<close>

theorem slug_stable:
  assumes "plain_unicode U"
  shows "slug (Transliterate U text) \<and> Transliterate U (Transliterate U text) = Transliterate U text"
proof -
  let ?s = "Transliterate U text"
  have s: "slug ?s" using slug_loop_slug by (simp add: Transliterate_def)
  then have ok: "list_all (\<lambda>r. slug_rune r \<or> r = 45) ?s" by (simp add: slug_def)
  then have "concat (map (map_rune U) ?s) = ?s" using map_rune_plain [OF assms] by (intro concat_singles) (simp add: list_all_iff)
  with assms ok have "Transliterate U ?s = slug_loop U False ?s" by (simp add: Transliterate_def [of U ?s] plain_unicode_def)
  with slug_loop_id [OF assms s] s show ?thesis by simp
qed

definition ascii_unicode :: unicode where
  "ascii_unicode = \<lparr>lower = map (\<lambda>r. if 65 \<le> r \<and> r \<le> 90 then r + 32 else r), NFD = id, is_mark = (\<lambda>r. 768 \<le> r \<and> r \<le> 879),
     is_white = (\<lambda>r. r = 32 \<or> 9 \<le> r \<and> r \<le> 13), trim = (\<lambda>rs. rev (dropWhile (\<lambda>r. r = 32) (rev (dropWhile (\<lambda>r. r = 32) rs))))\<rparr>"

lemma ascii_plain: "plain_unicode ascii_unicode"
proof -
  have "dropWhile (\<lambda>r. r = 32) rs = rs" if "list_all (\<lambda>r. slug_rune r \<or> r = 45) rs" for rs
    using that by (cases rs) (auto simp: slug_rune_def)
  moreover have "list_all P (rev rs) = list_all P rs" for P and rs :: "nat list" by (simp add: list_all_iff)
  moreover have "map (\<lambda>r. if 65 \<le> r \<and> r \<le> 90 then r + 32 else r) rs = rs" if "list_all (\<lambda>r. slug_rune r \<or> r = 45) rs" for rs :: "nat list"
    using that by (induction rs) (auto simp: slug_rune_def)
  ultimately show ?thesis by (auto simp: plain_unicode_def ascii_unicode_def slug_rune_def)
qed

lemma map_rune_small: "r < 322 \<Longrightarrow> map_rune ascii_unicode r = [r]"
proof -
  assume "r < 322"
  then have "r \<notin> fst ` set transliterationMap" using map_keys by (fastforce simp: list_all_iff)
  then have "map_of transliterationMap r = None" by (simp add: map_of_eq_None_iff)
  then show ?thesis by (simp add: map_rune_def ascii_unicode_def)
qed

lemma ascii_slug: "list_all (\<lambda>r. r < 290) text \<Longrightarrow>
  Transliterate ascii_unicode text = slug_loop ascii_unicode False (trim ascii_unicode (lower ascii_unicode text))"
proof -
  assume "list_all (\<lambda>r. r < 290) text"
  then have "concat (map (map_rune ascii_unicode) (lower ascii_unicode text)) = lower ascii_unicode text"
    by (intro concat_singles) (auto simp: ascii_unicode_def [THEN arg_cong [where f = lower]] list_all_iff intro!: map_rune_small)
  then show ?thesis by (simp add: Transliterate_def) (simp add: ascii_unicode_def)
qed

theorem slug_stable_witness:
  "Transliterate ascii_unicode (runes ''Go - Server!'') = runes ''go-server'' \<and>
   Transliterate ascii_unicode (runes ''go-server'') = runes ''go-server''"
proof -
  have a: "Transliterate ascii_unicode (runes ''Go - Server!'') = runes ''go-server''"
    by (subst ascii_slug) (code_simp, code_simp)
  with slug_stable [OF ascii_plain, of "runes ''Go - Server!''"] show ?thesis by simp
qed

text \<open>Only white space is trimmed: punctuation at the ends leaves a hyphen there, and text of other scripts an empty slug.\<close>

lemma slug_ends_in_hyphen: "Transliterate ascii_unicode (runes ''- Go -'') = runes ''-go-''"
  by (subst ascii_slug) (code_simp, code_simp)

lemma slug_empty: "Transliterate ascii_unicode (runes ''?!'') = []"
  by (subst ascii_slug) (code_simp, code_simp)

end
