(* ===== verification/Mail.thy ===== *)
theory Mail imports Values begin

text \<open>
  Outgoing mail (\<^verbatim>\<open>mail.go\<close>): the bounded queue, the message as it is written to the buffer part by part, the
  folding of encoded files into lines, and the exchange with the server. What the encodings of the standard library
  give for a text, the random boundaries and the replies of the server are arguments.
\<close>

section \<open>Lines of 76 characters\<close>

definition CRLF :: string where "CRLF = [CHR 0x0D, CHR 0x0A]"

text \<open>\<^verbatim>\<open>lineWrapper.Write\<close>: the text written and the count after it. The buffer below never fails.\<close>

function lw_write :: "string \<Rightarrow> nat \<Rightarrow> string \<times> nat" where
  "lw_write p count =
     (if p = [] \<or> 76 \<le> count then ([], count)
      else let n = min (76 - count) (length p);
               c1 = count + n;
               (nl, c2) = (if 76 \<le> c1 then (CRLF, 0) else ([], c1));
               (rest', c3) = lw_write (drop n p) c2
           in (take n p @ nl @ rest', c3))"
  by pat_completeness auto
termination by (relation "measure (\<lambda>(p, c). length p)") auto

declare lw_write.simps [simp del]

fun lw_writes :: "string list \<Rightarrow> nat \<Rightarrow> string \<times> nat" where
  "lw_writes [] count = ([], count)"
| "lw_writes (p # ps) count =
     (case lw_write p count of (o1, c1) \<Rightarrow> case lw_writes ps c1 of (o2, c2) \<Rightarrow> (o1 @ o2, c2))"

text \<open>The reference: a break after every 76th character.\<close>

fun folded :: "nat \<Rightarrow> string \<Rightarrow> string" where
  "folded count [] = []"
| "folded count (x # xs) = x # (if count = 75 then CRLF @ folded 0 xs else folded (Suc count) xs)"

definition folded_count :: "nat \<Rightarrow> string \<Rightarrow> nat" where "folded_count count xs = (count + length xs) mod 76"

lemma folded_append: "count < 76 \<Longrightarrow> folded count (xs @ ys) = folded count xs @ folded (folded_count count xs) ys"
  by (induction count xs rule: folded.induct) (auto simp: folded_count_def)

lemma folded_short: "count + length xs < 76 \<Longrightarrow> folded count xs = xs"
  by (induction count xs rule: folded.induct) auto

lemma folded_full: "count + length xs = 76 \<Longrightarrow> xs \<noteq> [] \<Longrightarrow> folded count xs = xs @ CRLF"
proof (induction count xs rule: folded.induct)
  case (2 count x xs) then show ?case by (cases xs) auto
qed simp

lemma lw_write_folded: "count < 76 \<Longrightarrow> lw_write p count = (folded count p, folded_count count p)"
proof (induction p count rule: lw_write.induct)
  case (1 p count)
  show ?case
  proof (cases "p = []")
    case True with 1(2) show ?thesis by (simp add: lw_write.simps folded_count_def)
  next
    case False
    define n where "n = min (76 - count) (length p)"
    have n: "0 < n" "n \<le> length p" "count + n \<le> 76" using 1(2) False by (auto simp: n_def)
    define c2 where "c2 = (if 76 \<le> count + n then 0 else count + n)"
    have c2: "c2 < 76" "c2 = folded_count count (take n p)" using n(2,3) by (auto simp: c2_def folded_count_def)
    have f: "folded count (take n p) = take n p @ (if 76 \<le> count + n then CRLF else [])"
    proof (cases "76 \<le> count + n")
      case True
      with n False have "count + length (take n p) = 76" "take n p \<noteq> []" by auto
      with True show ?thesis by (simp add: folded_full)
    next
      case F: False
      with n have "count + length (take n p) < 76" by simp
      with F show ?thesis by (simp add: folded_short)
    qed
    have e: "lw_write p count =
      (case lw_write (drop n p) c2 of (r, c3) \<Rightarrow> (take n p @ (if 76 \<le> count + n then CRLF else []) @ r, c3))"
      using 1(2) False by (simp add: lw_write.simps [of p count] Let_def n_def [symmetric] c2_def split: prod.split)
    have ih: "lw_write (drop n p) c2 = (folded c2 (drop n p), folded_count c2 (drop n p))"
      by (rule 1(1) [OF _ n_def refl refl _ c2(1), where xaa = "if 76 \<le> count + n then CRLF else []"])
        (use 1(2) False in \<open>auto simp: c2_def\<close>)
    have "folded count p = folded count (take n p) @ folded c2 (drop n p)"
      using folded_append [OF 1(2), of "take n p" "drop n p"] c2(2) by simp
    moreover have "folded_count count p = folded_count c2 (drop n p)"
    proof -
      obtain k where "length p = n + k" using n(2) le_Suc_ex by blast
      then show ?thesis unfolding c2(2) by (simp add: folded_count_def mod_add_left_eq add.assoc [symmetric])
    qed
    ultimately show ?thesis by (simp add: e ih f)
  qed
qed

text \<open>however the encoder cuts its output into writes, the lines written are those of the whole text: a break after
  every 76 characters and nowhere else.\<close>

theorem writes_fold_lines: "lw_writes ps 0 = (folded 0 (concat ps), length (concat ps) mod 76)"
proof -
  have "count < 76 \<Longrightarrow> lw_writes ps count = (folded count (concat ps), folded_count count (concat ps))" for count
  proof (induction ps arbitrary: count)
    case (Cons p ps)
    have "folded_count count p < 76" by (simp add: folded_count_def)
    with Cons show ?case
      by (simp add: lw_write_folded folded_append) (simp add: folded_count_def add.assoc mod_add_left_eq)
  qed (simp add: folded_count_def)
  then show ?thesis by (simp add: folded_count_def)
qed

lemma folded_chars: "filter (\<lambda>c. c \<notin> set CRLF) (folded count xs) = filter (\<lambda>c. c \<notin> set CRLF) xs"
  by (induction count xs rule: folded.induct) (auto simp: CRLF_def)

section \<open>Configuration and queue\<close>

record EmailMessage =
  From :: string
  To :: "string list"
  Cc :: "string list"
  Bcc :: "string list"
  Subject :: string
  Text :: string
  HTML :: string
  Files :: "string list"
  Inline :: "string list"

record Mailer =
  queue :: "EmailMessage list"
  capacity :: int
  workers :: int
  Host :: string
  User :: string
  Pass :: string
  Sender :: string
  Port :: int

definition NewMailer :: "string \<Rightarrow> string \<Rightarrow> string \<Rightarrow> string \<Rightarrow> string \<Rightarrow> string \<Rightarrow> string \<Rightarrow> Mailer" where
  "NewMailer host port user pass sender queueSize nworkers =
     (let p = (if atoi port = 0 then 25 else atoi port);
          q = (if atoi queueSize \<le> 0 then 100 else atoi queueSize);
          w = (if atoi nworkers \<le> 0 then 1 else atoi nworkers)
      in \<lparr>queue = [], capacity = q, workers = (if host = [] then 0 else w), Host = host, User = user, Pass = pass,
          Sender = sender, Port = p\<rparr>)"

definition with_sender :: "Mailer \<Rightarrow> EmailMessage \<Rightarrow> EmailMessage" where
  "with_sender m msg = (if From msg = [] then msg\<lparr>From := Sender m\<rparr> else msg)"

definition SendEmailAsync :: "EmailMessage \<Rightarrow> Mailer \<Rightarrow> string option \<times> Mailer" where
  "SendEmailAsync msg m =
     (if Host m = [] then (Some ''smtp is not configured'', m)
      else if int (length (queue m)) < capacity m then (None, m\<lparr>queue := queue m @ [with_sender m msg]\<rparr>)
      else (Some ''email queue is full (high load), message dropped'', m))"

definition take_mail :: "Mailer \<Rightarrow> (EmailMessage \<times> Mailer) option" where
  "take_mail m = (case queue m of [] \<Rightarrow> None | x # xs \<Rightarrow> Some (x, m\<lparr>queue := xs\<rparr>))"

lemma queue_bounded: "int (length (queue m)) \<le> capacity m \<Longrightarrow> int (length (queue (snd (SendEmailAsync msg m)))) \<le> capacity m"
  by (auto simp: SendEmailAsync_def)

lemma new_queue_bounded: "int (length (queue (NewMailer h p u pw s q w))) < capacity (NewMailer h p u pw s q w)"
  by (simp add: NewMailer_def Let_def)


section \<open>The message\<close>

text \<open>A multipart writer on the buffer: its boundary, and whether it has begun a part itself. A boundary the code prints
  by hand is not known to it.\<close>

record parts_writer =
  Boundary :: string
  lastpart :: bool

definition header_lines :: "(string \<times> string) list \<Rightarrow> string" where
  "header_lines h = concat (map (\<lambda>(k, v). k @ '': '' @ v @ CRLF) h)"

definition CreatePart :: "(string \<times> string) list \<Rightarrow> parts_writer \<Rightarrow> string \<times> parts_writer" where
  "CreatePart h w = ((if lastpart w then CRLF else []) @ ''--'' @ Boundary w @ CRLF @ header_lines h @ CRLF, w\<lparr>lastpart := True\<rparr>)"

definition Close :: "parts_writer \<Rightarrow> string" where "Close w = CRLF @ ''--'' @ Boundary w @ ''--'' @ CRLF"

text \<open>The encodings, and the order in which the map of headers is printed.\<close>

record encodings =
  q_encode :: "string \<Rightarrow> string"
  quoted_printable :: "string \<Rightarrow> string"
  base64 :: "string \<Rightarrow> string list"
  TypeByExtension :: "string \<Rightarrow> string"
  print_order :: "(string \<times> string) list \<Rightarrow> (string \<times> string) list"

definition writeTextPart :: "encodings \<Rightarrow> parts_writer \<Rightarrow> string \<Rightarrow> string \<Rightarrow> string \<times> parts_writer" where
  "writeTextPart E w contentType body =
     (case CreatePart [(''Content-Transfer-Encoding'', ''quoted-printable''), (''Content-Type'', contentType)] w of
        (t, w') \<Rightarrow> (t @ quoted_printable E body, w'))"

definition base_name :: "string \<Rightarrow> string" where "base_name file = last (Split (CHR ''/'') file)"

definition Ext :: "string \<Rightarrow> string" where
  "Ext file = (case Split (CHR ''.'') (base_name file) of [x] \<Rightarrow> [] | ps \<Rightarrow> CHR ''.'' # last ps)"

text \<open>The files on disk: a path and its content.\<close>

type_synonym disk = "(string \<times> string) list"

definition writeFilePart :: "encodings \<Rightarrow> disk \<Rightarrow> parts_writer \<Rightarrow> string \<Rightarrow> string \<Rightarrow> string + string \<times> parts_writer" where
  "writeFilePart E d w file disposition =
     (case map_of d file of
        None \<Rightarrow> Inl (''open '' @ file @ '': no such file or directory'')
      | Some data \<Rightarrow>
        let fname = base_name file;
            mimeType = (if TypeByExtension E (Ext file) = [] then ''application/octet-stream'' else TypeByExtension E (Ext file));
            h = [(''Content-Disposition'', disposition @ ''; filename='' @ [CHR 0x22] @ fname @ [CHR 0x22])]
                @ (if disposition = ''inline'' then [(''Content-Id'', ''<'' @ fname @ ''>'')] else [])
                @ [(''Content-Transfer-Encoding'', ''base64''), (''Content-Type'', mimeType)]
        in case CreatePart h w of (t, w') \<Rightarrow> Inr (t @ fst (lw_writes (base64 E data) 0), w'))"

text \<open>The files of one kind, each removed once it is written. A file that cannot be removed ends an inline one only.\<close>

fun write_files :: "encodings \<Rightarrow> (string \<Rightarrow> bool) \<Rightarrow> bool \<Rightarrow> disk \<Rightarrow> parts_writer \<Rightarrow> string list \<Rightarrow>
    (string + string \<times> parts_writer) \<times> disk" where
  "write_files E removable inl d w [] = (Inr ([], w), d)"
| "write_files E removable inl d w (f # fs) =
     (case writeFilePart E d w f (if inl then ''inline'' else ''attachment'') of
        Inl e \<Rightarrow> (Inl e, d)
      | Inr (t, w') \<Rightarrow>
        if removable f \<or> \<not> inl then
          case write_files E removable inl (if removable f then AList.delete f d else d) w' fs of
            (Inl e, d') \<Rightarrow> (Inl e, d')
          | (Inr (t', w''), d') \<Rightarrow> (Inr (t @ t', w''), d')
        else (Inl (''remove '' @ f), d))"

definition message_headers :: "encodings \<Rightarrow> EmailMessage \<Rightarrow> string \<Rightarrow> (string \<times> string) list" where
  "message_headers E msg b =
     [(''From'', From msg), (''To'', Join (To msg) '', ''), (''Subject'', q_encode E (Subject msg)),
      (''MIME-Version'', ''1.0''), (''Content-Type'', ''multipart/mixed; boundary='' @ b)]
     @ (if Cc msg \<noteq> [] then [(''Cc'', Join (Cc msg) '', '')] else [])"

text \<open>The part with the HTML: the boundary of the alternatives printed by hand, then the related files.\<close>

definition html_part :: "encodings \<Rightarrow> (string \<Rightarrow> bool) \<Rightarrow> disk \<Rightarrow> string \<Rightarrow> string \<Rightarrow> EmailMessage \<Rightarrow> (string + string) \<times> disk" where
  "html_part E removable d alt rel msg =
     (case writeTextPart E \<lparr>Boundary = rel, lastpart = False\<rparr> ''text/html; charset=utf-8'' (HTML msg) of
        (t, w) \<Rightarrow> case write_files E removable True d w (Inline msg) of
          (Inl e, d') \<Rightarrow> (Inl e, d')
        | (Inr (fs, w'), d') \<Rightarrow>
            (Inr (''--'' @ alt @ CRLF @ ''Content-Type: multipart/related; boundary='' @ rel @ CRLF @ CRLF @ t @ fs @ Close w'), d'))"

text \<open>What is in the buffer when the connection is made. The alternatives are closed by a deferred call, after the
  message has been sent.\<close>

definition build_message ::
  "encodings \<Rightarrow> (string \<Rightarrow> bool) \<Rightarrow> disk \<Rightarrow> string \<times> string \<times> string \<Rightarrow> EmailMessage \<Rightarrow> (string + string) \<times> disk" where
  "build_message E removable d bs msg =
     (case bs of (mixed, alt, rel) \<Rightarrow>
        let head = header_lines (print_order E (message_headers E msg mixed)) @ CRLF
                   @ ''--'' @ mixed @ CRLF @ ''Content-Type: multipart/alternative; boundary='' @ alt @ CRLF @ CRLF;
            text_part = (if Text msg \<noteq> []
                         then fst (writeTextPart E \<lparr>Boundary = alt, lastpart = False\<rparr> ''text/plain; charset=utf-8'' (Text msg))
                         else [])
        in case (if HTML msg \<noteq> [] then html_part E removable d alt rel msg else (Inr [], d)) of
             (Inl e, d1) \<Rightarrow> (Inl e, d1)
           | (Inr h, d1) \<Rightarrow>
               (case write_files E removable False d1 \<lparr>Boundary = mixed, lastpart = False\<rparr> (Files msg) of
                  (Inl e, d2) \<Rightarrow> (Inl e, d2)
                | (Inr (fs, w), d2) \<Rightarrow> (Inr (head @ text_part @ h @ fs @ Close w), d2)))"

section \<open>The exchange with the server\<close>

datatype command =
    Dial string bool | NewClient string | StartTLS string | Auth string string | MailFrom string | Rcpt string
  | Data | Body string | EndData | Quit

definition dial_addr :: "Mailer \<Rightarrow> string" where
  "dial_addr m =
     (let h = (if CHR '':'' \<in> set (Host m) \<and> \<not> HasPrefix (Host m) ''['' then ''['' @ Host m @ '']'' else Host m)
      in h @ '':'' @ Itoa (Port m))"

definition smtp_plan :: "Mailer \<Rightarrow> bool \<Rightarrow> EmailMessage \<Rightarrow> string \<Rightarrow> command list" where
  "smtp_plan m offers_tls msg buf =
     [Dial (dial_addr m) (Port m = 465), NewClient (Host m)]
     @ (if Port m \<noteq> 465 \<and> offers_tls then [StartTLS (Host m)] else [])
     @ [Auth (User m) (Pass m), MailFrom (Sender m)]
     @ map Rcpt (To msg @ Cc msg @ Bcc msg)
     @ [Data, Body buf, EndData, Quit]"

fun error_prefix :: "command \<Rightarrow> string" where
  "error_prefix (Dial a t) = ''dial error: ''"
| "error_prefix (NewClient h) = ''smtp client error: ''"
| "error_prefix (StartTLS h) = ''starttls error: ''"
| "error_prefix (Auth u p) = ''auth error: ''"
| "error_prefix _ = []"

text \<open>The commands carried out, with the one that failed at the end, and its error.\<close>

fun exchange :: "(command \<Rightarrow> string option) \<Rightarrow> command list \<Rightarrow> command list \<times> string option" where
  "exchange reply [] = ([], None)"
| "exchange reply (c # cs) =
     (case reply c of
        Some e \<Rightarrow> ([c], Some (error_prefix c @ e))
      | None \<Rightarrow> case exchange reply cs of (tr, r) \<Rightarrow> (c # tr, r))"

definition processEmail ::
  "encodings \<Rightarrow> (string \<Rightarrow> bool) \<Rightarrow> string \<times> string \<times> string \<Rightarrow> bool \<Rightarrow> (command \<Rightarrow> string option) \<Rightarrow> Mailer \<Rightarrow> EmailMessage \<Rightarrow> disk \<Rightarrow>
     (command list \<times> string option) \<times> disk" where
  "processEmail E removable bs offers_tls reply m msg d =
     (case build_message E removable d bs msg of
        (Inl e, d') \<Rightarrow> (([], Some e), d')
      | (Inr buf, d') \<Rightarrow> (exchange reply (smtp_plan m offers_tls msg buf), d'))"

definition SendEmail ::
  "encodings \<Rightarrow> (string \<Rightarrow> bool) \<Rightarrow> string \<times> string \<times> string \<Rightarrow> bool \<Rightarrow> (command \<Rightarrow> string option) \<Rightarrow> Mailer \<Rightarrow> EmailMessage \<Rightarrow> disk \<Rightarrow>
     (command list \<times> string option) \<times> disk" where
  "SendEmail E removable bs offers_tls reply m msg d =
     (if Host m = [] then (([], Some ''smtp is not configured''), d)
      else processEmail E removable bs offers_tls reply m (with_sender m msg) d)"

text \<open>A worker sends the queued messages in turn, and logs a failure.\<close>

fun worker :: "(EmailMessage \<Rightarrow> disk \<Rightarrow> (command list \<times> string option) \<times> disk) \<Rightarrow> EmailMessage list \<Rightarrow> disk \<Rightarrow> string list \<times> disk" where
  "worker process [] d = ([], d)"
| "worker process (msg # q) d =
     (case process msg d of ((tr, r), d1) \<Rightarrow> case worker process q d1 of (l, d2) \<Rightarrow>
        ((case r of None \<Rightarrow> [] | Some e \<Rightarrow> [''Failed to send async email to ['' @ Join (To msg) '' '' @ ''] : '' @ e]) @ l, d2))"

lemma build_ignores_Bcc: "build_message E removable d bs (msg\<lparr>Bcc := x\<rparr>) = build_message E removable d bs msg"
proof -
  have "message_headers E (msg\<lparr>Bcc := x\<rparr>) b = message_headers E msg b" for b by (simp add: message_headers_def)
  moreover have "html_part E removable d alt rel (msg\<lparr>Bcc := x\<rparr>) = html_part E removable d alt rel msg" for alt rel
    by (simp add: html_part_def)
  ultimately show ?thesis by (cases bs) (simp add: build_message_def cong: if_cong sum.case_cong prod.case_cong)
qed

lemma exchange_prefix: "exchange reply cs = (tr, r) \<Longrightarrow> \<exists>rest'. cs = tr @ rest' \<and> (r = None \<longrightarrow> rest' = [])"
  by (induction reply cs arbitrary: tr r rule: exchange.induct) (fastforce split: option.splits prod.splits)+

lemma exchange_ok: "exchange reply cs = (tr, None) \<Longrightarrow> tr = cs"
  using exchange_prefix by fastforce

lemma exchange_earlier_ok: "exchange reply cs = (tr, r) \<Longrightarrow> tr = xs @ c # ys \<Longrightarrow> ys \<noteq> [] \<Longrightarrow> reply c = None"
proof (induction reply cs arbitrary: tr r xs rule: exchange.induct)
  case (2 reply c' cs)
  show ?case
  proof (cases xs)
    case Nil with 2 show ?thesis by (auto split: option.splits prod.splits)
  next
    case (Cons x xs')
    with 2(2,3,4) obtain tr' where "exchange reply cs = (tr', r)" "tr' = xs' @ c # ys" "reply c' = None"
      by (auto split: option.splits prod.splits)
    with 2(1) 2(4) show ?thesis by blast
  qed
qed simp

text \<open>a message that is sent reaches every address of To, Cc and Bcc in the envelope and no other, after the server
  has accepted each of them, and what is sent does not depend on the blind copies.\<close>

theorem mail_reaches_recipients:
  assumes "fst (SendEmail E removable bs tls reply m msg d) = (tr, None)"
  shows "(\<exists>buf. Body buf \<in> set tr \<and> fst (build_message E removable d bs (with_sender m (msg\<lparr>Bcc := []\<rparr>))) = Inr buf)
    \<and> [r. Rcpt r \<leftarrow> tr] = To msg @ Cc msg @ Bcc msg
    \<and> (\<forall>r \<in> set (To msg @ Cc msg @ Bcc msg). reply (Rcpt r) = None)"
proof -
  have ws: "with_sender m (msg\<lparr>Bcc := []\<rparr>) = (with_sender m msg)\<lparr>Bcc := []\<rparr>"
    "To (with_sender m msg) = To msg" "Cc (with_sender m msg) = Cc msg" "Bcc (with_sender m msg) = Bcc msg"
    by (simp_all add: with_sender_def)
  from assms obtain buf d' where b: "build_message E removable d bs (with_sender m msg) = (Inr buf, d')"
    and x: "exchange reply (smtp_plan m tls (with_sender m msg) buf) = (tr, None)"
    by (auto simp: SendEmail_def processEmail_def split: if_splits prod.splits sum.splits)
  from exchange_ok [OF x] have tr: "tr = smtp_plan m tls (with_sender m msg) buf" .
  have "fst (build_message E removable d bs (with_sender m (msg\<lparr>Bcc := []\<rparr>))) = Inr buf"
    using b by (simp add: ws build_ignores_Bcc)
  moreover have "Body buf \<in> set tr" by (simp add: tr smtp_plan_def)
  moreover have "[r. Rcpt r \<leftarrow> tr] = To msg @ Cc msg @ Bcc msg"
  proof -
    have "[r. Rcpt r \<leftarrow> map Rcpt rs] = rs" for rs by (induction rs) auto
    then show ?thesis by (simp add: tr smtp_plan_def ws)
  qed
  moreover have "reply (Rcpt r) = None" if r: "r \<in> set (To msg @ Cc msg @ Bcc msg)" for r
  proof -
    obtain p q where "To msg @ Cc msg @ Bcc msg = p @ r # q" using r by (meson split_list)
    then have "smtp_plan m tls (with_sender m msg) buf =
        ([Dial (dial_addr m) (Port m = 465), NewClient (Host m)]
         @ (if Port m \<noteq> 465 \<and> tls then [StartTLS (Host m)] else []) @ [Auth (User m) (Pass m), MailFrom (Sender m)] @ map Rcpt p)
        @ Rcpt r # (map Rcpt q @ [Data, Body buf, EndData, Quit])"
      by (simp add: smtp_plan_def ws)
    from exchange_earlier_ok [OF x, unfolded tr, OF this] show ?thesis by simp
  qed
  ultimately show ?thesis by blast
qed

lemma exchange_accept: "exchange (\<lambda>c. None) cs = (cs, None)"
  by (induction cs) auto

lemma build_without_files: "Files msg = [] \<Longrightarrow> Inline msg = [] \<Longrightarrow> \<exists>buf. build_message E removable d bs msg = (Inr buf, d)"
  by (cases bs) (auto simp: build_message_def html_part_def Let_def split: prod.splits)

definition plain_encodings :: encodings where
  "plain_encodings = \<lparr>q_encode = id, quoted_printable = id, base64 = (\<lambda>s. [s]), TypeByExtension = (\<lambda>_. []), print_order = id\<rparr>"

definition note_mail :: "string \<Rightarrow> string \<Rightarrow> EmailMessage" where
  "note_mail text html = \<lparr>From = ''a'', To = [''b''], Cc = [''c''], Bcc = [''d''], Subject = ''s'', Text = text, HTML = html, Files = [], Inline = []\<rparr>"

definition note_mailer :: Mailer where
  "note_mailer = NewMailer ''h'' ''465'' ''u'' ''p'' ''me'' [] []"

theorem mail_reaches_recipients_witness:
  "\<exists>tr. fst (SendEmail plain_encodings (\<lambda>_. True) (''m'', ''al'', ''re'') True (\<lambda>_. None) note_mailer (note_mail ''hi'' []) []) = (tr, None) \<and>
     [r. Rcpt r \<leftarrow> tr] = [''b'', ''c'', ''d'']"
proof -
  let ?msg = "with_sender note_mailer (note_mail ''hi'' [])"
  have "Files ?msg = []" "Inline ?msg = []" by (simp_all add: with_sender_def note_mail_def)
  from build_without_files [OF this] obtain buf
    where b: "build_message plain_encodings (\<lambda>_. True) [] (''m'', ''al'', ''re'') ?msg = (Inr buf, [])" by blast
  have "Host note_mailer = ''h''" by (simp add: note_mailer_def NewMailer_def Let_def)
  with b obtain tr where t: "fst (SendEmail plain_encodings (\<lambda>_. True) (''m'', ''al'', ''re'') True (\<lambda>_. None) note_mailer (note_mail ''hi'' []) []) = (tr, None)"
    by (auto simp: SendEmail_def processEmail_def exchange_accept)
  from mail_reaches_recipients [OF t] have "[r. Rcpt r \<leftarrow> tr] = [''b'', ''c'', ''d'']" by (simp add: note_mail_def)
  with t show ?thesis by blast
qed

section \<open>What the messages are not\<close>

text \<open>The boundary before the HTML is printed right behind the text: it does not begin a line, so a reader takes it, and
  the HTML, for more of the text.\<close>

lemma alternative_glued:
  "writeTextPart plain_encodings \<lparr>Boundary = ''al'', lastpart = False\<rparr> ''t'' ''hi'' = (t, w) \<Longrightarrow>
   html_part plain_encodings removable d ''al'' ''re'' (note_mail ''hi'' ''x'') = (Inr h, d') \<Longrightarrow>
   \<exists>a b. t @ h = a @ ''hi--al'' @ CRLF @ b"
proof -
  assume t: "writeTextPart plain_encodings \<lparr>Boundary = ''al'', lastpart = False\<rparr> ''t'' ''hi'' = (t, w)"
    and h: "html_part plain_encodings removable d ''al'' ''re'' (note_mail ''hi'' ''x'') = (Inr h, d')"
  from t obtain a where "t = a @ ''hi''" by (auto simp: writeTextPart_def CreatePart_def plain_encodings_def)
  moreover from h obtain b where "h = ''--'' @ ''al'' @ CRLF @ b"
    by (auto simp: html_part_def split: prod.splits sum.splits)
  ultimately show ?thesis by (metis append_assoc append_Cons append_Nil)
qed

text \<open>The same with an attachment behind a text: its boundary does not begin a line either.\<close>

lemma attachment_glued:
  "writeTextPart plain_encodings \<lparr>Boundary = ''al'', lastpart = False\<rparr> ''t'' ''hi'' = (t, w) \<Longrightarrow>
   writeFilePart plain_encodings d \<lparr>Boundary = ''mx'', lastpart = False\<rparr> ''f'' ''attachment'' = Inr (h, w') \<Longrightarrow>
   \<exists>a b. t @ h = a @ ''hi--mx'' @ CRLF @ b"
proof -
  assume t: "writeTextPart plain_encodings \<lparr>Boundary = ''al'', lastpart = False\<rparr> ''t'' ''hi'' = (t, w)"
    and h: "writeFilePart plain_encodings d \<lparr>Boundary = ''mx'', lastpart = False\<rparr> ''f'' ''attachment'' = Inr (h, w')"
  from t obtain a where "t = a @ ''hi''" by (auto simp: writeTextPart_def CreatePart_def plain_encodings_def)
  moreover from h obtain b where "h = ''--'' @ ''mx'' @ CRLF @ b"
    by (auto simp: writeFilePart_def CreatePart_def Let_def split: option.splits)
  ultimately show ?thesis by (metis append_assoc append_Cons append_Nil)
qed

text \<open>The message is complete when its last bytes close the mixed parts: the alternatives inside are not closed in it.\<close>

lemma alternatives_unclosed:
  "build_message plain_encodings removable d (''m'', ''al'', ''re'') (note_mail ''hi'' []) = (Inr buf, d') \<Longrightarrow>
     \<not> Contains buf ''--al--''"
proof -
  assume "build_message plain_encodings removable d (''m'', ''al'', ''re'') (note_mail ''hi'' []) = (Inr buf, d')"
  moreover have "buf' = buf \<Longrightarrow> \<not> Contains buf' ''--al--'' \<Longrightarrow> \<not> Contains buf ''--al--''" for buf' by simp
  ultimately show ?thesis
    by (auto simp: build_message_def note_mail_def plain_encodings_def message_headers_def header_lines_def writeTextPart_def
        CreatePart_def Close_def CRLF_def Let_def HasPrefix_def)
qed

lemma writeFilePart_Inr: "map_of d f = Some data \<Longrightarrow> \<exists>t w'. writeFilePart E d w f disposition = Inr (t, w')"
  by (simp add: writeFilePart_def Let_def case_prod_beta)

text \<open>The files are gone before the connection is tried: a message that cannot be sent loses them.\<close>

lemma failed_mail_loses_files:
  assumes "map_of d f = Some data" "distinct (map fst d)" "Host m \<noteq> []"
    and msg: "msg = (note_mail ''hi'' [])\<lparr>Files := [f]\<rparr>"
    and "reply (Dial (dial_addr m) (Port m = 465)) = Some e"
  shows "\<exists>d'. SendEmail E (\<lambda>_. True) bs tls reply m msg d =
      (([Dial (dial_addr m) (Port m = 465)], Some (''dial error: '' @ e)), d') \<and> map_of d' f = None"
proof -
  have ws: "with_sender m msg = msg" by (simp add: msg with_sender_def note_mail_def)
  obtain t w where w: "writeFilePart E d \<lparr>Boundary = fst bs, lastpart = False\<rparr> f ''attachment'' = Inr (t, w)"
    using writeFilePart_Inr [OF assms(1)] by blast
  have "\<exists>buf. build_message E (\<lambda>_. True) d bs msg = (Inr buf, AList.delete f d)"
    using w by (cases bs) (simp add: build_message_def msg note_mail_def Let_def)
  then obtain buf where "build_message E (\<lambda>_. True) d bs msg = (Inr buf, AList.delete f d)" by blast
  with assms(3,5) show ?thesis by (simp add: SendEmail_def ws processEmail_def smtp_plan_def)
qed

text \<open>The sender's header is printed as it is: a line break in it begins a header of its own.\<close>

lemma from_injects_header:
  "\<exists>a b. header_lines (message_headers E ((note_mail ''hi'' [])\<lparr>From := ''a'' @ CRLF @ ''Reply-To: x''\<rparr>) bd) = a @ CRLF @ ''Reply-To: x'' @ CRLF @ b"
proof -
  have "header_lines (message_headers E ((note_mail ''hi'' [])\<lparr>From := ''a'' @ CRLF @ ''Reply-To: x''\<rparr>) bd) =
    ''From: a'' @ CRLF @ ''Reply-To: x'' @ CRLF @ header_lines (tl (message_headers E (note_mail ''hi'' []) bd))"
    by (simp add: message_headers_def header_lines_def note_mail_def)
  then show ?thesis by blast
qed

end
