(* ===== verification/Database.thy ===== *)
theory Database imports GoPrelude "HOL-Library.Word" begin

text \<open>
  The database layer (\<^verbatim>\<open>db/database.go\<close>): connection settings, the retries of a connection and of a transaction,
  statistics, the query tracer, guarded queries and the pool's monitor. The driver's answers, durations and the
  context's end are arguments; times are milliseconds.
\<close>

section \<open>Errors\<close>

text \<open>An error's text and, when a PostgreSQL error is in its chain, that error's code.\<close>

record db_error =
  err_text :: string
  err_code :: "string option"

definition wrap :: "string \<Rightarrow> db_error \<Rightarrow> db_error" where "wrap t e = e\<lparr>err_text := t @ '': '' @ err_text e\<rparr>"

definition plain_error :: "string \<Rightarrow> db_error" where "plain_error t = \<lparr>err_text = t, err_code = None\<rparr>"

definition isRetryableError :: "db_error \<Rightarrow> bool" where
  "isRetryableError e \<longleftrightarrow> err_code e = Some ''40001'' \<or> err_code e = Some ''40P01''"

fun contains :: "string \<Rightarrow> string \<Rightarrow> bool" where
  "contains s substr =
     (if length s < length substr then False
      else if s = substr then True
      else if length s > length substr then (if take (length substr) s = substr then True else contains (tl s) substr)
      else False)"

declare contains.simps [simp del]

definition IsConnectionError :: "db_error option \<Rightarrow> bool" where
  "IsConnectionError err =
     (case err of None \<Rightarrow> False
      | Some e \<Rightarrow> contains (err_text e) ''connection'' \<or> contains (err_text e) ''timeout''
          \<or> contains (err_text e) ''network'' \<or> contains (err_text e) ''refused'')"

text \<open>the hand-written search is the library's, on every pair of strings, the empty ones included.\<close>

theorem contains_is_Contains: "contains s p = Contains s p"
proof (induction s)
  case Nil then show ?case by (cases p) (auto simp: contains.simps Contains_iff)
next
  case (Cons c s)
  have "contains (c # s) p \<longleftrightarrow> HasPrefix (c # s) p \<or> contains s p"
  proof (cases "length p \<le> length (c # s)")
    case True
    have "HasPrefix (c # s) p \<longleftrightarrow> take (length p) (c # s) = p" by (auto simp: HasPrefix_iff) (metis append_take_drop_id)
    moreover have "contains s p \<Longrightarrow> length p \<le> length s" by (subst (asm) contains.simps) (simp split: if_splits)
    moreover have "contains (c # s) p \<longleftrightarrow> c # s = p \<or> length p < length (c # s) \<and> (take (length p) (c # s) = p \<or> contains s p)"
      using True by (subst contains.simps) simp
    moreover have "length p = length (c # s) \<Longrightarrow> take (length p) (c # s) = c # s" by simp
    ultimately show ?thesis using True by (metis Suc_n_not_le_n length_Cons linorder_neqE_nat not_less take_all_iff)
  next
    case False
    then have "\<not> HasPrefix (c # s) p" by (auto simp: HasPrefix_iff dest: arg_cong [where f = length])
    with False show ?thesis by (simp add: contains.simps [of "c # s"] contains.simps [of s])
  qed
  with Cons show ?case by simp
qed

section \<open>Settings of the pool\<close>

definition int32 :: "int \<Rightarrow> int" where "int32 i = sint (word_of_int i :: 32 word)"

text \<open>Go's division of integers truncates towards zero.\<close>

definition quarter :: "int \<Rightarrow> int" where "quarter n = (if n < 0 then - ((- n) div 4) else n div 4)"

definition max_conns :: "int \<Rightarrow> string \<Rightarrow> int" where
  "max_conns cpus envMax =
     (let m0 = int32 (cpus * 2); m1 = (if m0 < 4 then 4 else m0); m2 = (if m1 > 32 then 32 else m1)
      in if envMax \<noteq> [] then (case ParseInt64 envMax of Some v \<Rightarrow> int32 v | None \<Rightarrow> m2) else m2)"

definition min_conns :: "int \<Rightarrow> string \<Rightarrow> int" where
  "min_conns maxConns envMin =
     (let n0 = quarter maxConns; n1 = (if n0 < 1 then 1 else n0);
          n2 = (if envMin \<noteq> [] then (case ParseInt64 envMin of Some v \<Rightarrow> int32 v | None \<Rightarrow> n1) else n1)
      in if n2 > maxConns then maxConns else n2)"

record db_config =
  DatabaseUrl :: string
  PostgresHost :: string
  PostgresUser :: string
  PostgresPassword :: string
  PostgresDb :: string
  DbExecMode :: string
  DbMaxConns :: string
  DbMinConns :: string
  DbLogMode :: string

definition data_source :: "db_config \<Rightarrow> string option" where
  "data_source c =
     (if DatabaseUrl c \<noteq> [] then Some (DatabaseUrl c)
      else if PostgresHost c = [] then None
      else Some (''postgres://'' @ PostgresUser c @ '':'' @ PostgresPassword c @ ''@'' @ PostgresHost c @ '':5432/'' @ PostgresDb c
             @ ''?sslmode=disable'' @ (if DbExecMode c \<noteq> [] then ''&default_query_exec_mode='' @ DbExecMode c else [])
             @ ''&pool_max_conns=100'' @ ''&pool_min_conns=10'' @ ''&pool_max_conn_lifetime=1h'' @ ''&pool_max_conn_idle_time=30m''
             @ ''&pool_health_check_period=1m'' @ ''&pool_prepared_statements=false''))"

text \<open>the least number of connections is never above the greatest, and without settings the pool has between four
  and thirty-two connections and keeps at least one, whatever the number of processors.\<close>

theorem pool_sizes:
  "min_conns (max_conns cpus mx) mn \<le> max_conns cpus mx
    \<and> 4 \<le> max_conns cpus [] \<and> max_conns cpus [] \<le> 32 \<and> 1 \<le> min_conns (max_conns cpus []) []"
  by (auto simp: max_conns_def min_conns_def Let_def quarter_def)

text \<open>Three attempts to create the pool, a pause of one more second after each, the last one too.\<close>

fun create_pool :: "(nat \<Rightarrow> db_error option) \<Rightarrow> nat \<Rightarrow> nat \<Rightarrow> nat list \<times> db_error option" where
  "create_pool try_new i 0 = ([], try_new (i - 1))"
| "create_pool try_new i (Suc n) =
     (case try_new i of None \<Rightarrow> ([], None)
      | Some e \<Rightarrow> case create_pool try_new (Suc i) n of (ws, r) \<Rightarrow> ((i + 1) * 1000 # ws, r))"

datatype connect_result = Skipped | Connected | Connect_failed db_error

text \<open>The result, the pauses, and whether a pool was created and its closing registered for the shutdown.\<close>

definition connectDB ::
  "db_config \<Rightarrow> (string \<Rightarrow> db_error option) \<Rightarrow> (nat \<Rightarrow> db_error option) \<Rightarrow> db_error option \<Rightarrow> connect_result \<times> nat list \<times> bool" where
  "connectDB c parse_err try_new ping_err =
     (case data_source c of
        None \<Rightarrow> (Skipped, [], False)
      | Some dsn \<Rightarrow>
        case parse_err dsn of
          Some e \<Rightarrow> (Connect_failed (wrap ''invalid db config'' e), [], False)
        | None \<Rightarrow>
          case create_pool try_new 0 3 of
            (ws, Some e) \<Rightarrow> (Connect_failed (wrap ''failed to create db pool after retries'' e), ws, False)
          | (ws, None) \<Rightarrow>
            (case ping_err of
               Some e \<Rightarrow> (Connect_failed (wrap ''database unreachable'' e), ws, True)
             | None \<Rightarrow> (Connected, ws, True)))"

lemma three_attempts: "connectDB c p try_new ping = (r, ws, b) \<Longrightarrow> length ws \<le> 3 \<and> sum_list ws \<le> 6000"
  by (auto simp: connectDB_def numeral_3_eq_3 split: option.splits prod.splits)

text \<open>The password is put into the address as it is: a sign that ends it there makes another host.\<close>

lemma password_not_escaped:
  "data_source \<lparr>DatabaseUrl = [], PostgresHost = ''db'', PostgresUser = ''u'', PostgresPassword = ''p@evil/x'', PostgresDb = ''d'',
     DbExecMode = [], DbMaxConns = [], DbMinConns = [], DbLogMode = []\<rparr> = Some dsn \<Longrightarrow> HasPrefix dsn ''postgres://u:p@evil/x@db:5432/''"
  by (auto simp: data_source_def HasPrefix_def)

text \<open>A pool that does not answer is not closed before the shutdown, and its user is told there is none.\<close>

lemma unreachable_pool_kept:
  "data_source c = Some dsn \<Longrightarrow> p dsn = None \<Longrightarrow> try_new 0 = None \<Longrightarrow>
     connectDB c p try_new (Some e) = (Connect_failed (wrap ''database unreachable'' e), [], True)"
  by (simp add: connectDB_def numeral_3_eq_3)

lemma huge_max_conns_wraps: "max_conns cpus ''4294967297'' = 1"
proof -
  have "ParseInt64 ''4294967297'' = Some 4294967297" by (simp add: ParseInt64_def HasPrefix_def is_digit_def digit_val_def)
  then show ?thesis by (simp add: max_conns_def int32_def)
qed


section \<open>Transactions\<close>

text \<open>What one attempt meets: the answer to \<^verbatim>\<open>BEGIN\<close>, how the function ends, the answer to \<^verbatim>\<open>COMMIT\<close>, and the context's
  error if it ends during the pause that follows.\<close>

datatype fn_end = Fn_returns "db_error option" | Fn_panics

record attempt =
  begin_err :: "db_error option"
  fn_ends :: fn_end
  commit_err :: "db_error option"
  wait_err :: "db_error option"

datatype tx_event = Begun | Ran | Committed | Commit_failed | Rolled_back | Paused nat

datatype tx_result = Tx_done "db_error option" | Tx_panics

text \<open>The deferred rollback runs on every way out; after a commit it does nothing.\<close>

definition finishTransaction :: "attempt \<Rightarrow> tx_event list \<times> tx_result" where
  "finishTransaction a =
     (case fn_ends a of
        Fn_panics \<Rightarrow> ([Ran, Rolled_back], Tx_panics)
      | Fn_returns (Some e) \<Rightarrow> ([Ran, Rolled_back], Tx_done (Some e))
      | Fn_returns None \<Rightarrow>
        case commit_err a of
          Some e \<Rightarrow> ([Ran, Commit_failed, Rolled_back], Tx_done (Some (wrap ''commit failed'' e)))
        | None \<Rightarrow> ([Ran, Committed, Rolled_back], Tx_done None))"

fun tx_loop :: "nat \<Rightarrow> attempt list \<Rightarrow> tx_event list \<times> tx_result" where
  "tx_loop n [] = ([], Tx_done None)"
| "tx_loop n (a # as) =
     (case begin_err a of
        Some e \<Rightarrow>
          if as = [] then ([], Tx_done (Some (wrap (''begin tx failed after 3 attempts'') e)))
          else (case wait_err a of
                  Some c \<Rightarrow> ([Paused (n * 100)], Tx_done (Some c))
                | None \<Rightarrow> case tx_loop (Suc n) as of (tr, r) \<Rightarrow> (Paused (n * 100) # tr, r))
      | None \<Rightarrow>
        case finishTransaction a of (tr1, r1) \<Rightarrow>
          (case r1 of
             Tx_done (Some e) \<Rightarrow>
               if isRetryableError e \<and> as \<noteq> [] then
                 (case wait_err a of
                    Some c \<Rightarrow> (Begun # tr1 @ [Paused (n * 200)], Tx_done (Some c))
                  | None \<Rightarrow> case tx_loop (Suc n) as of (tr, r) \<Rightarrow> (Begun # tr1 @ Paused (n * 200) # tr, r))
               else (Begun # tr1, r1)
           | _ \<Rightarrow> (Begun # tr1, r1)))"

text \<open>\<open>w\<close> gives what the attempts meet; there are three at most.\<close>

definition RunInTx :: "bool \<Rightarrow> (nat \<Rightarrow> attempt) \<Rightarrow> tx_event list \<times> tx_result" where
  "RunInTx has_pool w =
     (if \<not> has_pool then ([], Tx_done (Some (plain_error ''database not initialized'')))
      else tx_loop 1 [w 1, w 2, w 3])"

definition paused :: "tx_event list \<Rightarrow> nat" where
  "paused tr = sum_list (map (\<lambda>e. case e of Paused n \<Rightarrow> n | _ \<Rightarrow> 0) tr)"

definition times :: "tx_event \<Rightarrow> tx_event list \<Rightarrow> nat" where "times e tr = length (filter ((=) e) tr)"

lemma tally [simp]: "times e [] = 0" "times e (x # tr) = (if x = e then Suc (times e tr) else times e tr)"
  "times e (tr @ tr') = times e tr + times e tr'" "paused [] = 0"
  "paused (x # tr) = (case x of Paused n \<Rightarrow> n | _ \<Rightarrow> 0) + paused tr" "paused (tr @ tr') = paused tr + paused tr'"
  by (auto simp: times_def paused_def)

lemma tx_loop_cases:
  assumes "tx_loop n (a # as) = (tr, r)"
  obtains (again) pre trN where "as \<noteq> []" "tx_loop (Suc n) as = (trN, r)" "tr = pre @ trN"
      "pre \<in> {[Paused (n * 100)], [Begun, Ran, Rolled_back, Paused (n * 200)], [Begun, Ran, Commit_failed, Rolled_back, Paused (n * 200)]}"
    | (failed) "r \<noteq> Tx_done None"
      "tr \<in> {[], [Paused (n * 100)], [Begun, Ran, Rolled_back], [Begun, Ran, Commit_failed, Rolled_back],
             [Begun, Ran, Rolled_back, Paused (n * 200)], [Begun, Ran, Commit_failed, Rolled_back, Paused (n * 200)]}"
    | (committed) "r = Tx_done None" "tr = [Begun, Ran, Committed, Rolled_back]"
  using assms by (auto simp: finishTransaction_def split: option.splits fn_end.splits if_splits prod.splits)

lemma tx_loop_counts:
  "tx_loop n as = (tr, r) \<Longrightarrow> as \<noteq> [] \<Longrightarrow>
     times Committed tr = (if r = Tx_done None then 1 else 0) \<and> times Begun tr = times Rolled_back tr \<and>
     times Ran tr = times Begun tr \<and> times Begun tr \<le> length as \<and>
     (r = Tx_done None \<longrightarrow> (\<exists>tr'. tr = tr' @ [Begun, Ran, Committed, Rolled_back]))"
proof (induction as arbitrary: n tr r)
  case (Cons a as)
  from Cons.prems(1) show ?case
  proof (cases rule: tx_loop_cases)
    case (again pre trN)
    have pre: "times Committed pre = 0" "times Begun pre = times Rolled_back pre" "times Ran pre = times Begun pre" "times Begun pre \<le> 1"
      using again(4) by auto
    from Cons.IH [OF again(2,1)] have IH: "times Committed trN = (if r = Tx_done None then 1 else 0)" "times Begun trN = times Rolled_back trN"
      "times Ran trN = times Begun trN" "times Begun trN \<le> length as"
      "r = Tx_done None \<longrightarrow> (\<exists>tr'. trN = tr' @ [Begun, Ran, Committed, Rolled_back])" by blast+
    from IH(5) have "r = Tx_done None \<longrightarrow> (\<exists>tr'. tr = tr' @ [Begun, Ran, Committed, Rolled_back])"
      unfolding again(3) by (metis append_assoc)
    with pre IH(1-4) show ?thesis by (simp add: again(3))
  qed auto
qed simp

lemma tx_loop_paused: "tx_loop 1 [a, b, c] = (tr, r) \<Longrightarrow> paused tr \<le> 600"
  by (auto simp: finishTransaction_def split: option.splits fn_end.splits if_splits)

text \<open>a transaction that is reported as done was committed exactly once, by its last attempt; one that is not was
  not committed; every begun transaction is ended by a rollback call, the function runs at most three times, once per
  begun transaction, and the pauses are 0.6 seconds at most.\<close>

theorem transaction_once:
  assumes "RunInTx has_pool w = (tr, r)"
  shows "times Committed tr = (if r = Tx_done None then 1 else 0)
    \<and> times Begun tr = times Rolled_back tr \<and> times Ran tr = times Begun tr \<and> times Begun tr \<le> 3 \<and> paused tr \<le> 600
    \<and> (r = Tx_done None \<longrightarrow> (\<exists>tr'. tr = tr' @ [Begun, Ran, Committed, Rolled_back]))"
proof (cases has_pool)
  case True
  with assms have l: "tx_loop 1 [w 1, w 2, w 3] = (tr, r)" by (simp add: RunInTx_def)
  from tx_loop_counts [OF l] tx_loop_paused [OF l] show ?thesis by simp
next
  case False
  with assms show ?thesis by (auto simp: RunInTx_def)
qed

definition conflict_then_ok :: "nat \<Rightarrow> attempt" where
  "conflict_then_ok i =
     \<lparr>begin_err = None, fn_ends = Fn_returns None,
      commit_err = (if i < 3 then Some \<lparr>err_text = ''could not serialize'', err_code = Some ''40001''\<rparr> else None), wait_err = None\<rparr>"

theorem transaction_once_witness:
  "\<exists>tr. RunInTx True conflict_then_ok = (tr, Tx_done None) \<and> times Committed tr = 1 \<and> times Ran tr = 3"
proof -
  obtain tr where tr: "RunInTx True conflict_then_ok = (tr, Tx_done None)" "times Ran tr = 3"
    by (simp add: RunInTx_def conflict_then_ok_def finishTransaction_def wrap_def isRetryableError_def)
  from transaction_once [OF tr(1)] tr show ?thesis by auto
qed

section \<open>Statistics and the tracer\<close>

record db_stats =
  TotalQueries :: int
  SuccessfulQueries :: int
  FailedQueries :: int
  SlowQueries :: int
  ActiveConnections :: int
  PoolAcquired :: int
  PoolIdle :: int
  TotalConnections :: int

definition no_stats :: db_stats where
  "no_stats = \<lparr>TotalQueries = 0, SuccessfulQueries = 0, FailedQueries = 0, SlowQueries = 0, ActiveConnections = 0,
     PoolAcquired = 0, PoolIdle = 0, TotalConnections = 0\<rparr>"

definition RecordQuery :: "bool \<Rightarrow> int \<Rightarrow> int \<Rightarrow> db_stats \<Rightarrow> db_stats" where
  "RecordQuery success duration slow s =
     s\<lparr>TotalQueries := TotalQueries s + 1,
       SuccessfulQueries := SuccessfulQueries s + (if success then 1 else 0),
       FailedQueries := FailedQueries s + (if success then 0 else 1),
       SlowQueries := SlowQueries s + (if duration > slow then 1 else 0)\<rparr>"

definition RecordConnection :: "bool \<Rightarrow> db_stats \<Rightarrow> db_stats" where
  "RecordConnection acquired s =
     (if acquired then s\<lparr>ActiveConnections := ActiveConnections s + 1, PoolAcquired := PoolAcquired s + 1\<rparr>
      else s\<lparr>ActiveConnections := ActiveConnections s - 1\<rparr>)"

definition RecordIdleConnection :: "db_stats \<Rightarrow> db_stats" where "RecordIdleConnection s = s\<lparr>PoolIdle := PoolIdle s + 1\<rparr>"

definition Reset :: "db_stats \<Rightarrow> db_stats" where "Reset s = no_stats"

definition stats_ok :: "db_stats \<Rightarrow> bool" where
  "stats_ok s \<longleftrightarrow> TotalQueries s = SuccessfulQueries s + FailedQueries s \<and> 0 \<le> SlowQueries s \<and> SlowQueries s \<le> TotalQueries s \<and>
     0 \<le> SuccessfulQueries s \<and> 0 \<le> FailedQueries s"

lemma stats_ok_ops: "stats_ok (Reset s)" "stats_ok s \<Longrightarrow> stats_ok (RecordQuery b d t s)" "stats_ok s \<Longrightarrow> stats_ok (RecordConnection a s)"
  "stats_ok s \<Longrightarrow> stats_ok (RecordIdleConnection s)"
  by (auto simp: stats_ok_def Reset_def no_stats_def RecordQuery_def RecordConnection_def RecordIdleConnection_def)

text \<open>What a query's start leaves in the context, by the log mode, and what its end logs: slow queries and failed ones.\<close>

definition TraceQueryStart :: "string \<Rightarrow> string \<Rightarrow> string \<Rightarrow> string option \<times> string option" where
  "TraceQueryStart mode sql args =
     (if mode \<noteq> ''blind'' then (Some sql, if mode = ''full'' then Some args else None) else (None, None))"

definition TraceQueryEnd ::
  "string \<Rightarrow> int \<Rightarrow> (int \<Rightarrow> string) \<Rightarrow> string option \<times> string option \<Rightarrow> int \<Rightarrow> db_error option \<Rightarrow> db_stats \<Rightarrow> string list \<times> db_stats" where
  "TraceQueryEnd mode slow show_time ctx duration err s =
     (let isSlow = duration > slow; isError = (err \<noteq> None); s' = RecordQuery (\<not> isError) duration slow s
      in if \<not> isSlow \<and> \<not> isError then ([], s')
         else let sqlQuery = (case fst ctx of None \<Rightarrow> [] | Some q \<Rightarrow> q); args = (case snd ctx of None \<Rightarrow> ''[]'' | Some a \<Rightarrow> a);
                  msg = (if mode = ''blind'' then ''Time: '' @ show_time duration @ '' | SQL: [HIDDEN]''
                         else if mode = ''full'' then ''Time: '' @ show_time duration @ '' | SQL: '' @ sqlQuery @ '' | Args: '' @ args
                         else ''Time: '' @ show_time duration @ '' | SQL: '' @ sqlQuery)
              in (case err of
                    Some e \<Rightarrow> [''[SQL ERROR] '' @ msg @ '' | Err: '' @ err_text e]
                  | None \<Rightarrow> [''[SQL SLOW] '' @ msg], s'))"

definition traced where
  "traced mode slow show_time sql args duration err s =
     TraceQueryEnd mode slow show_time (TraceQueryStart mode sql args) duration err s"

text \<open>the log of a query in the blind mode tells neither its text nor its arguments, and in any mode but the full
  one not its arguments.\<close>

theorem log_hides_queries:
  "traced ''blind'' slow show_time sql args duration err s = traced ''blind'' slow show_time sql' args' duration err s
    \<and> (mode \<noteq> ''full'' \<longrightarrow> traced mode slow show_time sql args duration err s = traced mode slow show_time sql args' duration err s)"
  by (simp add: traced_def TraceQueryStart_def)

section \<open>Guarded queries\<close>

text \<open>The guard of a missing querier, and the time a query is given where its context has no deadline (in seconds).\<close>

definition query_deadline :: "int option \<Rightarrow> int \<Rightarrow> int \<Rightarrow> int" where
  "query_deadline ctx_deadline now timeout = (case ctx_deadline of Some d \<Rightarrow> d | None \<Rightarrow> now + timeout)"

definition guarded :: "int \<Rightarrow> bool \<Rightarrow> int option \<Rightarrow> int \<Rightarrow> (int \<Rightarrow> db_error + 'r) \<Rightarrow> db_error + 'r" where
  "guarded timeout has_q ctx_deadline now run =
     (if \<not> has_q then Inl (plain_error ''database querier is nil'') else run (query_deadline ctx_deadline now timeout))"

definition Select where "Select = guarded 10"
definition Get where "Get = guarded 5"
definition Exec where "Exec = guarded 30"

fun batch_items :: "(nat \<Rightarrow> db_error option) \<Rightarrow> nat \<Rightarrow> nat \<Rightarrow> db_error option" where
  "batch_items exec i 0 = None"
| "batch_items exec i (Suc n) =
     (case exec i of Some e \<Rightarrow> Some (wrap (''batch item '' @ Itoa (int i) @ '' failed'') e) | None \<Rightarrow> batch_items exec (Suc i) n)"

definition SendBatch :: "bool \<Rightarrow> int option \<Rightarrow> int \<Rightarrow> (int \<Rightarrow> nat \<Rightarrow> db_error option) \<Rightarrow> nat \<Rightarrow> db_error option" where
  "SendBatch has_q ctx_deadline now exec n =
     (if \<not> has_q then Some (plain_error ''database querier is nil'')
      else batch_items (exec (query_deadline ctx_deadline now 60)) 0 n)"

lemma batch_stops_at_first: "batch_items exec i n = Some e \<Longrightarrow>
  \<exists>k e0. i \<le> k \<and> k < i + n \<and> exec k = Some e0 \<and> (\<forall>j. i \<le> j \<and> j < k \<longrightarrow> exec j = None) \<and>
     e = wrap (''batch item '' @ Itoa (int k) @ '' failed'') e0"
proof (induction exec i n rule: batch_items.induct)
  case (2 exec i n)
  show ?case
  proof (cases "exec i")
    case None
    with 2 obtain k e0 where "Suc i \<le> k" "k < Suc i + n" "exec k = Some e0" "\<forall>j. Suc i \<le> j \<and> j < k \<longrightarrow> exec j = None"
      "e = wrap (''batch item '' @ Itoa (int k) @ '' failed'') e0" by auto
    moreover from this(4) None have "\<forall>j. i \<le> j \<and> j < k \<longrightarrow> exec j = None" by (metis Suc_leI le_neq_implies_less)
    ultimately show ?thesis by (intro exI [of _ k] exI [of _ e0]) simp
  next
    case (Some e0) with 2 show ?thesis by (intro exI [of _ i] exI [of _ e0]) auto
  qed
qed simp

section \<open>The pool's monitor\<close>

record monitor =
  monitoring :: bool
  stop_closed :: bool
  monitor_loops :: nat
  monitor_panicked :: bool

definition NewPoolMonitor :: monitor where
  "NewPoolMonitor = \<lparr>monitoring = False, stop_closed = False, monitor_loops = 0, monitor_panicked = False\<rparr>"

definition monitor_Start :: "monitor \<Rightarrow> monitor" where
  "monitor_Start m = (if monitoring m then m else m\<lparr>monitoring := True, monitor_loops := monitor_loops m + 1\<rparr>)"

text \<open>Closing a closed channel panics.\<close>

definition monitor_Stop :: "monitor \<Rightarrow> monitor" where
  "monitor_Stop m =
     (if \<not> monitoring m then m
      else if stop_closed m then m\<lparr>monitoring := False, monitor_panicked := True\<rparr>
      else m\<lparr>monitoring := False, stop_closed := True\<rparr>)"

text \<open>A loop returns when it sees the channel closed.\<close>

definition loop_returns :: "monitor \<Rightarrow> monitor option" where
  "loop_returns m = (if stop_closed m \<and> 0 < monitor_loops m then Some (m\<lparr>monitor_loops := monitor_loops m - 1\<rparr>) else None)"

definition checkPoolHealth :: "int \<Rightarrow> int \<Rightarrow> int \<Rightarrow> int \<Rightarrow> db_stats \<Rightarrow> bool \<times> db_stats" where
  "checkPoolHealth acquired idle conns maxc s =
     (5 * acquired > 4 * maxc, s\<lparr>ActiveConnections := acquired, PoolIdle := idle, TotalConnections := conns\<rparr>)"

lemma monitor_once: "\<not> monitor_panicked (monitor_Stop (monitor_Start (monitor_Start NewPoolMonitor)))"
  "monitor_loops (monitor_Start (monitor_Start NewPoolMonitor)) = 1"
  by (simp_all add: NewPoolMonitor_def monitor_Start_def monitor_Stop_def)

text \<open>A monitor that is started again watches nothing, and stopping it again panics.\<close>

lemma second_stop_panics:
  "monitor_panicked (monitor_Stop (monitor_Start (monitor_Stop (monitor_Start NewPoolMonitor)))) \<and>
   loop_returns (monitor_Start (monitor_Stop (monitor_Start NewPoolMonitor))) \<noteq> None"
  by (simp add: NewPoolMonitor_def monitor_Start_def monitor_Stop_def loop_returns_def)

section \<open>The health check\<close>

definition HealthCheckDB :: "bool \<Rightarrow> db_error option \<Rightarrow> int \<Rightarrow> int \<Rightarrow> db_error option \<Rightarrow> (nat \<Rightarrow> attempt) \<Rightarrow> db_error option" where
  "HealthCheckDB has_pool ping_err acquired maxc read_err w =
     (if \<not> has_pool then Some (plain_error ''database not connected'')
      else case ping_err of Some e \<Rightarrow> Some (wrap ''db ping failed'' e)
      | None \<Rightarrow>
        if acquired \<ge> maxc
        then Some (plain_error (''db pool saturated: '' @ Itoa acquired @ ''/'' @ Itoa maxc @ '' connections''))
        else case read_err of Some e \<Rightarrow> Some (wrap ''db read check failed'' e)
        | None \<Rightarrow> case RunInTx True w of
            (tr, Tx_done (Some e)) \<Rightarrow> Some (wrap ''db transaction check failed'' e) | _ \<Rightarrow> None)"

text \<open>A health check of a pool in full use fails though the database answers.\<close>

lemma full_pool_unhealthy: "HealthCheckDB True None 10 10 None w \<noteq> None"
  by (simp add: HealthCheckDB_def)

end
