(* ===== verification/WebRuntime.thy ===== *)
theory WebRuntime imports Values begin

text \<open>
  The run time of page logic (\<^verbatim>\<open>web/runtime/runtime.go\<close>, \<^verbatim>\<open>types.go\<close>, \<^verbatim>\<open>production.go\<close> and the two variants of
  \<^verbatim>\<open>production_config\<close>): layers of settings, modules and handlers, and the context a page's logic works on. Settings are
  kept as the JSON object the structure is written to; decoding one back into the structure is an argument.
\<close>

section \<open>Settings\<close>

datatype jv = JNull | JBool bool | JNum int | JStr string | JArr "jv list" | JObj "(string \<times> jv) list"

text \<open>\<^verbatim>\<open>mergeObject\<close>: objects on both sides are merged, everything else is replaced. \<open>src\<close> is ranged over.\<close>

fun mergeObject :: "(string \<times> jv) list \<Rightarrow> (string \<times> jv) list \<Rightarrow> (string \<times> jv) list" where
  "mergeObject dst [] = dst"
| "mergeObject dst ((key, JObj source) # src) =
     (case map_of dst key of
        Some (JObj target) \<Rightarrow> mergeObject (AList.update key (JObj (mergeObject target source)) dst) src
      | _ \<Rightarrow> mergeObject (AList.update key (JObj source) dst) src)"
| "mergeObject dst ((key, v) # src) = mergeObject (AList.update key v dst) src"

text \<open>What is set at a path of keys, unless it is an object.\<close>

fun setting :: "(string \<times> jv) list \<Rightarrow> string list \<Rightarrow> jv option" where
  "setting fs [] = None"
| "setting fs (k # ks) =
     (case map_of fs k of
        None \<Rightarrow> None
      | Some (JObj gs) \<Rightarrow> setting gs ks
      | Some v \<Rightarrow> if ks = [] then Some v else None)"

text \<open>A patch says nothing of a path: no key of it is set before the path leaves the patch's objects.\<close>

fun silent :: "(string \<times> jv) list \<Rightarrow> string list \<Rightarrow> bool" where
  "silent fs [] = False"
| "silent fs (k # ks) =
     (case map_of fs k of
        None \<Rightarrow> True
      | Some (JObj gs) \<Rightarrow> silent gs ks
      | Some v \<Rightarrow> False)"

fun keys_once :: "jv \<Rightarrow> bool" where
  "keys_once (JObj fs) = (distinct (map fst fs) \<and> list_all keys_once (map snd fs))"
| "keys_once (JArr vs) = list_all keys_once vs"
| "keys_once _ = True"

definition merged_value :: "jv option \<Rightarrow> jv \<Rightarrow> jv" where
  "merged_value old v =
     (case v of
        JObj source \<Rightarrow> (case old of Some (JObj target) \<Rightarrow> JObj (mergeObject target source) | _ \<Rightarrow> JObj source)
      | _ \<Rightarrow> v)"

lemma mergeObject_Cons: "mergeObject dst ((key, v) # src) = mergeObject (AList.update key (merged_value (map_of dst key) v) dst) src"
  by (cases v) (auto simp: merged_value_def split: option.splits jv.splits)

lemma map_of_merge:
  "distinct (map fst src) \<Longrightarrow>
   map_of (mergeObject dst src) k = (case map_of src k of None \<Rightarrow> map_of dst k | Some v \<Rightarrow> Some (merged_value (map_of dst k) v))"
proof (induction src arbitrary: dst)
  case (Cons kv src)
  obtain k' v where kv: "kv = (k', v)" by (cases kv)
  from Cons kv have "k' \<notin> fst ` set src" "distinct (map fst src)" by auto
  with Cons.IH [of "AList.update k' (merged_value (map_of dst k') v) dst"] show ?case
    unfolding kv mergeObject_Cons by (auto simp: map_of_eq_None_iff [THEN iffD2] split: option.splits)
qed simp

lemma merge_setting:
  "keys_once (JObj src) \<Longrightarrow>
     (\<forall>v. setting src ks = Some v \<longrightarrow> setting (mergeObject dst src) ks = Some v) \<and>
     (silent src ks \<longrightarrow> setting (mergeObject dst src) ks = setting dst ks)"
proof (induction ks arbitrary: dst src)
  case (Cons k ks)
  have d: "distinct (map fst src)" using Cons.prems by simp
  show ?case
  proof (cases "map_of src k")
    case None
    then show ?thesis by (simp add: map_of_merge [OF d])
  next
    case (Some v)
    from map_of_SomeD [OF Some] Cons.prems have ok: "keys_once v" by (auto simp: list_all_iff)
    show ?thesis
    proof (cases v)
      case (JObj source)
      show ?thesis
      proof (cases "\<exists>target. map_of dst k = Some (JObj target)")
        case True
        then obtain target where "map_of dst k = Some (JObj target)" by blast
        with Some JObj Cons.IH [of source target] ok show ?thesis
          by (simp add: map_of_merge [OF d] merged_value_def)
      next
        case False
        then have m: "map_of (mergeObject dst src) k = Some (JObj source)"
          using Some JObj by (auto simp: map_of_merge [OF d] merged_value_def split: option.splits jv.splits)
        have "silent source ks \<Longrightarrow> setting source ks = None"
        proof -
          have "silent gs ks' \<Longrightarrow> setting gs ks' = None" for gs ks'
            by (induction gs ks' rule: silent.induct) (auto split: option.splits jv.splits)
          then show "silent source ks \<Longrightarrow> setting source ks = None" .
        qed
        moreover have "silent source ks \<Longrightarrow> ks \<noteq> []" by (cases ks) auto
        ultimately show ?thesis using Some JObj m False by (auto split: option.splits jv.splits)
      qed
    qed (use Some in \<open>auto simp: map_of_merge [OF d] merged_value_def\<close>)
  qed
qed simp

text \<open>after a file of settings is merged, what it sets is set, and where it is silent the settings below it stay.\<close>

theorem settings_layered:
  assumes "keys_once (JObj patch)"
  shows "(setting patch ks = Some v \<longrightarrow> setting (mergeObject base patch) ks = Some v)
    \<and> (silent patch ks \<longrightarrow> setting (mergeObject base patch) ks = setting base ks)"
  using merge_setting [OF assms] by blast

theorem settings_layered_witness:
  "setting (mergeObject [(''render'', JObj [(''splitCss'', JBool True), (''earlyHints'', JBool True)])]
     [(''render'', JObj [(''splitCss'', JBool False)])]) [''render'', ''earlyHints''] = Some (JBool True)"
proof -
  have "keys_once (JObj [(''render'', JObj [(''splitCss'', JBool False)])])" by simp
  from settings_layered [OF this, of "[''render'', ''earlyHints'']"]
  show ?thesis by simp
qed


section \<open>Loading the settings\<close>

text \<open>The environment of the process and the files in reach: absent, unreadable, or with the fields of an object. \<open>decoded\<close>
  is what the structure holds after decoding, and the decoder's error.\<close>

datatype settings_file = Absent | Unreadable string | Broken string | Fields "(string \<times> jv) list"

record runtime_cfg =
  Environment :: string
  body :: "(string \<times> jv) list"

record surroundings =
  config_file :: "string \<Rightarrow> settings_file"
  LookupEnv :: "string \<Rightarrow> string option"
  decoded :: "(string \<times> jv) list \<Rightarrow> (string \<times> jv) list \<times> string option"
  production_build :: bool

definition defaultConfig :: runtime_cfg where
  "defaultConfig =
     \<lparr>Environment = ''Development'',
      body =
        [(''runtime'', JObj [(''enabled'', JBool False), (''cacheTTL'', JNum 0), (''webVitals'', JBool False), (''prefetchDelay'', JNum 65),
            (''prefetchMaxConcurrent'', JNum 2), (''prefetchOnHover'', JBool False), (''viewTransitions'', JBool True)]),
         (''render'', JObj [(''defaultLayout'', JStr ''default''), (''earlyHints'', JBool True), (''serverTiming'', JBool False),
            (''preloadRuntime'', JBool True), (''preloadPageStyles'', JBool True), (''splitCss'', JBool True),
            (''cssMinChunkSize'', JNum 4096), (''cssMaxChunkSize'', JNum 65536), (''spaLoadingTemplate'', JBool False)]),
         (''tailwind'', JObj [(''minify'', JBool True)]),
         (''siteSearch'', JObj [(''enabled'', JBool False),
            (''shortcut'', JObj [(''key'', JStr []), (''ctrlOrMeta'', JBool False), (''shift'', JBool False)]),
            (''minQueryLength'', JNum 2), (''limit'', JNum 10), (''maxPages'', JNum 500), (''cacheTtl'', JNum 1800000), (''serverSearch'', JBool False)]),
         (''quickCommands'', JObj [(''enabled'', JBool False),
            (''shortcut'', JObj [(''key'', JStr []), (''ctrlOrMeta'', JBool False), (''shift'', JBool False)]), (''items'', JNull)]),
         (''content'', JObj [(''layout'', JStr [])]),
         (''preloader'', JObj []),
         (''cookieControl'', JObj [(''enabled'', JBool True), (''cookieName'', JStr ''privacy-preferences''), (''maxAgeDays'', JNum 365),
            (''declineReaskDays'', JNum 30), (''banner'', JObj []), (''settings'', JObj [])]),
         (''cookieScripts'', JObj [(''necessary'', JArr []), (''analytics'', JArr []), (''marketing'', JArr []), (''functional'', JArr []), (''notices'', JArr [])]),
         (''ssrStream'', JBool False), (''routeRules'', JObj []), (''componentRules'', JObj []),
         (''images'', JObj [(''optimize'', JBool True), (''jpegQuality'', JNum 82)]),
         (''build'', JObj [(''includeFiles'', JNull)]),
         (''locales'', JNull), (''defaultLocale'', JStr []), (''seo'', JObj [(''image'', JStr ''/assets/seo/goserver-cat.jpg'')]), (''values'', JObj [])]\<rparr>"

definition environment :: "surroundings \<Rightarrow> string" where
  "environment S =
     (if production_build S then ''Production''
      else let env = (\<lambda>n. case LookupEnv S n of None \<Rightarrow> [] | Some v \<Rightarrow> TrimSpace v);
               value1 = (if env ''APP_ENV'' = [] then env ''MYELOPHONE_ENV'' else env ''APP_ENV'')
           in if ToLower value1 = ''prod'' \<or> ToLower value1 = ''production'' then ''Production'' else ''Development'')"

definition mergeConfig :: "surroundings \<Rightarrow> string \<Rightarrow> runtime_cfg \<Rightarrow> runtime_cfg \<times> string option" where
  "mergeConfig S path c =
     (case config_file S path of
        Absent \<Rightarrow> (c, None)
      | Unreadable e \<Rightarrow> (c, Some e)
      | Broken e \<Rightarrow> (c, Some e)
      | Fields patch \<Rightarrow> (case decoded S (mergeObject (body c) patch) of (b, e) \<Rightarrow> (c\<lparr>body := b\<rparr>, e)))"

definition mergePlaygroundConfig :: "surroundings \<Rightarrow> runtime_cfg \<Rightarrow> runtime_cfg \<times> string option" where
  "mergePlaygroundConfig S c =
     (if ToLower (Environment c) \<noteq> ''development'' then (c, None) else mergeConfig S ''web/playground/websettings.json'' c)"

text \<open>A switch of the environment; what is no truth value sets the switch off and is an error.\<close>

definition env_switch :: "surroundings \<Rightarrow> string \<Rightarrow> string \<Rightarrow> string \<Rightarrow> runtime_cfg \<Rightarrow> runtime_cfg \<times> string option" where
  "env_switch S name sect key c =
     (case LookupEnv S name of
        None \<Rightarrow> (c, None)
      | Some v \<Rightarrow> (c\<lparr>body := mergeObject (body c) [(sect, JObj [(key, JBool (ParseBool v = Some True))])]\<rparr>,
                    if ParseBool v = None then Some (''strconv.ParseBool: parsing '' @ v) else None))"

definition configureWebEnabled :: "surroundings \<Rightarrow> runtime_cfg \<Rightarrow> runtime_cfg \<times> string option" where
  "configureWebEnabled S c =
     (if production_build S then (c, None)
      else case LookupEnv S ''MYELOPHONE_WEB_ENABLED'' of
        None \<Rightarrow> (c, None)
      | Some v \<Rightarrow> (case ParseBool v of
          None \<Rightarrow> (c, Some (''strconv.ParseBool: parsing '' @ v))
        | Some b \<Rightarrow> (c\<lparr>body := mergeObject (body c) [(''runtime'', JObj [(''enabled'', JBool b)])]\<rparr>, None)))"

text \<open>Steps one after another up to the first error, with the settings as they are then.\<close>

fun until_error :: "(runtime_cfg \<Rightarrow> runtime_cfg \<times> string option) list \<Rightarrow> runtime_cfg \<Rightarrow> runtime_cfg \<times> string option" where
  "until_error [] c = (c, None)"
| "until_error (f # fs) c = (case f c of (c', None) \<Rightarrow> until_error fs c' | (c', Some e) \<Rightarrow> (c', Some e))"

definition load_config :: "surroundings \<Rightarrow> runtime_cfg \<times> string option" where
  "load_config S =
     (let c0 = defaultConfig\<lparr>Environment := environment S\<rparr>
      in until_error [mergeConfig S ''websettings.json'', mergeConfig S (''websettings.'' @ environment S @ ''.json''), mergePlaygroundConfig S,
           env_switch S ''MYELOPHONE_WEB_RUNTIME_WEB_VITALS'' ''runtime'' ''webVitals'',
           env_switch S ''MYELOPHONE_WEB_RENDER_SERVER_TIMING'' ''render'' ''serverTiming'', configureWebEnabled S] c0)"

text \<open>Loaded once, whatever the surroundings are later.\<close>

definition UseRuntimeConfig ::
  "surroundings \<Rightarrow> (runtime_cfg \<times> string option) option \<Rightarrow> (runtime_cfg \<times> string option) \<times> (runtime_cfg \<times> string option) option" where
  "UseRuntimeConfig S once = (let r = (case once of None \<Rightarrow> load_config S | Some r \<Rightarrow> r) in (r, Some r))"

definition MustRuntimeConfig :: "surroundings \<Rightarrow> (runtime_cfg \<times> string option) option \<Rightarrow> runtime_cfg" where
  "MustRuntimeConfig S once = fst (fst (UseRuntimeConfig S once))"

lemma config_once: "snd (UseRuntimeConfig S o1) = o2 \<Longrightarrow> fst (UseRuntimeConfig S' o2) = fst (UseRuntimeConfig S o1)"
  by (auto simp: UseRuntimeConfig_def Let_def)

text \<open>A file that does not parse is passed over by \<^verbatim>\<open>MustRuntimeConfig\<close>: the defaults are used, and the files and
  switches after it are not.\<close>

lemma broken_settings_ignored:
  "config_file S ''websettings.json'' = Broken e \<Longrightarrow> MustRuntimeConfig S None = defaultConfig\<lparr>Environment := environment S\<rparr>"
  by (simp add: MustRuntimeConfig_def UseRuntimeConfig_def load_config_def mergeConfig_def Let_def)

text \<open>A production build takes nothing from the variables that choose the environment or enable the pages.\<close>

lemma production_fixed: "production_build S \<Longrightarrow> environment S = ''Production'' \<and> configureWebEnabled S c = (c, None)"
  by (simp add: environment_def configureWebEnabled_def)

section \<open>Modules, handlers and routes\<close>

text \<open>A module is a name and its set-up on the settings. The modules are set up once.\<close>

type_synonym 'e module = "runtime_cfg \<Rightarrow> 'e option"

record 'e modules =
  registeredModules :: "'e module list"
  modules_done :: "'e option option"

definition RegisterModule :: "'e module option \<Rightarrow> 'e modules \<Rightarrow> 'e modules" where
  "RegisterModule m s = (case m of None \<Rightarrow> s | Some f \<Rightarrow> s\<lparr>registeredModules := registeredModules s @ [f]\<rparr>)"

fun setup_all :: "runtime_cfg \<Rightarrow> 'e module list \<Rightarrow> 'e option" where
  "setup_all c [] = None"
| "setup_all c (m # ms) = (case m c of Some e \<Rightarrow> Some e | None \<Rightarrow> setup_all c ms)"

definition SetupModules :: "runtime_cfg \<Rightarrow> 'e modules \<Rightarrow> 'e option \<times> 'e modules" where
  "SetupModules c s =
     (case modules_done s of
        Some r \<Rightarrow> (r, s)
      | None \<Rightarrow> let r = setup_all c (registeredModules s) in (r, s\<lparr>modules_done := Some r\<rparr>))"

text \<open>A module registered after the set-up is never set up.\<close>

lemma late_module_ignored: "SetupModules c s = (r, s') \<Longrightarrow> fst (SetupModules c' (RegisterModule m s')) = r"
  by (cases m) (auto simp: SetupModules_def RegisterModule_def Let_def split: option.splits)

definition RegisterHandler :: "string \<Rightarrow> 'h \<Rightarrow> (string \<times> 'h) list \<Rightarrow> (string \<times> 'h) list" where
  "RegisterHandler export h hs = AList.update export h hs"

definition Resolve :: "string \<Rightarrow> (string \<times> 'h) list \<Rightarrow> 'h option" where "Resolve export hs = map_of hs export"

record 'h server_route =
  rt_method :: string
  rt_path :: string
  rt_handler :: "'h option"

definition RegisterServerRoute :: "'h server_route \<Rightarrow> 'h server_route list \<Rightarrow> 'h server_route list" where
  "RegisterServerRoute r rs = (if rt_method r = [] \<or> rt_path r = [] \<or> rt_handler r = None then rs else rs @ [r])"

text \<open>The status of an error: the code of the first \<^verbatim>\<open>HTTPError\<close> in its chain, if it has one.\<close>

definition ErrorStatus :: "int option \<Rightarrow> int" where
  "ErrorStatus http_code = (case http_code of Some n \<Rightarrow> if n \<noteq> 0 then n else 500 | None \<Rightarrow> 500)"

section \<open>The context of a page's logic\<close>

record 'a seo_input =
  Title :: "'a option"
  TitleKey :: string
  seo_params :: "'a option"
  Description :: "'a option"
  DescriptionKey :: string
  Image :: string
  NoIndex :: "bool option"

record preloader_input =
  Enabled :: "bool option"
  Transparent :: "bool option"
  Background :: string
  BackgroundDark :: string
  ZIndex :: "int option"
  AriaLabel :: string
  MinimumDuration :: "int option"

record ('a, 'f) page_ctx =
  seo :: "'a seo_input \<times> bool"
  preloader :: "preloader_input \<times> bool"
  stores :: "(string \<times> (string \<times> 'f gov) list) list"
  cache_tags :: "string list"
  revalidate_tags :: "string list"
  ctx_params :: "(string \<times> 'f gov) list"
  param_parts :: "(string \<times> string list) list"
  Translator :: "(string \<Rightarrow> string) option"

definition given :: "'b option \<Rightarrow> 'b option \<Rightarrow> 'b option" where "given old new = (case new of None \<Rightarrow> old | Some v \<Rightarrow> Some v)"

definition text_given :: "string \<Rightarrow> string \<Rightarrow> string" where "text_given old new = (if new = [] then old else new)"

text \<open>\<^verbatim>\<open>UseSeo\<close> takes what the input gives and keeps the rest, the defaults of the page included.\<close>

definition seo_over :: "'a seo_input \<Rightarrow> 'a seo_input \<Rightarrow> 'a seo_input" where
  "seo_over cur i =
     \<lparr>Title = given (Title cur) (Title i), TitleKey = text_given (TitleKey cur) (TitleKey i),
      seo_params = given (seo_params cur) (seo_params i), Description = given (Description cur) (Description i),
      DescriptionKey = text_given (DescriptionKey cur) (DescriptionKey i), Image = text_given (Image cur) (Image i),
      NoIndex = given (NoIndex cur) (NoIndex i)\<rparr>"

definition UseSeo :: "'a seo_input \<Rightarrow> ('a, 'f) page_ctx \<Rightarrow> ('a, 'f) page_ctx" where
  "UseSeo i c = c\<lparr>seo := (seo_over (fst (seo c)) i, True)\<rparr>"

definition SetSEODefaults :: "'a seo_input \<Rightarrow> ('a, 'f) page_ctx \<Rightarrow> ('a, 'f) page_ctx" where
  "SetSEODefaults i c = c\<lparr>seo := (i, False)\<rparr>"

definition preloader_over :: "preloader_input \<Rightarrow> preloader_input \<Rightarrow> preloader_input" where
  "preloader_over cur i =
     \<lparr>Enabled = given (Enabled cur) (Enabled i), Transparent = given (Transparent cur) (Transparent i),
      Background = text_given (Background cur) (Background i), BackgroundDark = text_given (BackgroundDark cur) (BackgroundDark i),
      ZIndex = given (ZIndex cur) (ZIndex i), AriaLabel = text_given (AriaLabel cur) (AriaLabel i),
      MinimumDuration = given (MinimumDuration cur) (MinimumDuration i)\<rparr>"

definition UseFullscreenPreloader :: "preloader_input \<Rightarrow> ('a, 'f) page_ctx \<Rightarrow> ('a, 'f) page_ctx" where
  "UseFullscreenPreloader i c = c\<lparr>preloader := (preloader_over (fst (preloader c)) i, True)\<rparr>"

definition SetFullscreenPreloaderDefaults :: "preloader_input \<Rightarrow> ('a, 'f) page_ctx \<Rightarrow> ('a, 'f) page_ctx" where
  "SetFullscreenPreloaderDefaults i c = c\<lparr>preloader := (i, False)\<rparr>"

lemma given_assoc [simp]: "given (given a b) c = given a (given b c)" "text_given (text_given x y) z = text_given x (text_given y z)"
  by (auto simp: given_def text_given_def split: option.splits)

lemma seo_over_assoc: "seo_over (seo_over a b) c = seo_over a (seo_over b c)"
  by (simp add: seo_over_def)

lemma UseSeo_twice: "UseSeo j (UseSeo i c) = UseSeo (seo_over i j) c"
  by (simp add: UseSeo_def seo_over_assoc)

definition T :: "('a, 'f) page_ctx option \<Rightarrow> string \<Rightarrow> string" where
  "T c key = (case c of None \<Rightarrow> key | Some x \<Rightarrow> case Translator x of None \<Rightarrow> key | Some f \<Rightarrow> f key)"

text \<open>A named store: the entries of \<open>state\<close>, in the order of the range, written over it; the result is a copy.\<close>

definition UseStoreState ::
  "string \<Rightarrow> (string \<times> 'f gov) list \<Rightarrow> ('a, 'f) page_ctx \<Rightarrow> (string \<times> 'f gov) list \<times> ('a, 'f) page_ctx" where
  "UseStoreState name state c =
     (if TrimSpace name = [] then ([], c)
      else let old = (case map_of (stores c) name of None \<Rightarrow> [] | Some s \<Rightarrow> s);
               new = fold (\<lambda>(k, v) s. AList.update k v s) state old
           in (new, c\<lparr>stores := AList.update name new (stores c)\<rparr>))"

definition add_tags :: "string list \<Rightarrow> string list \<Rightarrow> string list" where
  "add_tags tags old = fold (\<lambda>t ts. if TrimSpace t = [] then ts else List.insert (TrimSpace t) ts) tags old"

definition UseCacheTags :: "string list \<Rightarrow> ('a, 'f) page_ctx \<Rightarrow> ('a, 'f) page_ctx" where
  "UseCacheTags tags c = c\<lparr>cache_tags := add_tags tags (cache_tags c)\<rparr>"

definition RevalidateTags :: "string list \<Rightarrow> ('a, 'f) page_ctx \<Rightarrow> ('a, 'f) page_ctx" where
  "RevalidateTags tags c = c\<lparr>revalidate_tags := add_tags tags (revalidate_tags c)\<rparr>"

lemma add_tags_set: "set (add_tags tags old) = set old \<union> (TrimSpace ` set tags - {[]})"
  by (induction tags arbitrary: old) (auto simp: add_tags_def)

definition ctx_Param :: "('a, 'f) page_ctx \<Rightarrow> string \<Rightarrow> string" where
  "ctx_Param c name = (case map_of (ctx_params c) name of Some (GString s) \<Rightarrow> s | _ \<Rightarrow> [])"

definition ctx_ParamParts :: "('a, 'f) page_ctx \<Rightarrow> string \<Rightarrow> string list" where
  "ctx_ParamParts c name = (case map_of (param_parts c) name of Some ps \<Rightarrow> ps | None \<Rightarrow> [])"

definition Props_String :: "(string \<times> 'f gov) list \<Rightarrow> string \<Rightarrow> string" where
  "Props_String p name = (case map_of p name of Some (GString s) \<Rightarrow> s | _ \<Rightarrow> [])"

definition Props_Bool :: "(string \<times> 'f gov) list \<Rightarrow> string \<Rightarrow> bool" where
  "Props_Bool p name = (case map_of p name of Some (GBool b) \<Rightarrow> b | _ \<Rightarrow> False)"

definition Props_Int :: "'f floats \<Rightarrow> (string \<times> 'f gov) list \<Rightarrow> string \<Rightarrow> int" where
  "Props_Int F p name =
     (case map_of p name of Some (GInt i) \<Rightarrow> i | Some (GFloat64 f) \<Rightarrow> to_int F f | Some (GString s) \<Rightarrow> atoi s | _ \<Rightarrow> 0)"

definition Props_Form :: "(string \<times> 'f gov) list \<Rightarrow> (string \<times> 'f gov) list" where
  "Props_Form p = (case map_of p ''form'' of Some (GMap m) \<Rightarrow> m | _ \<Rightarrow> [])"

text \<open>The texts of the parts that are not nil.\<close>

definition SEOText :: "('a \<Rightarrow> string) \<Rightarrow> 'a option list \<Rightarrow> string" where
  "SEOText Sprint parts = TrimSpace (concat (map (\<lambda>p. case p of None \<Rightarrow> [] | Some v \<Rightarrow> Sprint v) parts))"

lemma store_kept:
  "TrimSpace name \<noteq> [] \<Longrightarrow> fst (UseStoreState name [] (snd (UseStoreState name state c))) = fst (UseStoreState name state c)"
  by (simp add: UseStoreState_def Let_def)

lemma store_frame: "n \<noteq> name \<Longrightarrow> map_of (stores (snd (UseStoreState name state c))) n = map_of (stores c) n"
  by (simp add: UseStoreState_def Let_def)

end
