(* ===== verification/WebGraph.thy ===== *)
theory WebGraph imports WebFiles begin

text \<open>
  What a page reaches (\<^verbatim>\<open>reachableViewsForPage\<close>, \<^verbatim>\<open>AnalyzeScriptUsage\<close> and \<^verbatim>\<open>modulePlan\<close> of \<^verbatim>\<open>web_framework.go\<close>, the
  dependency graph of \<^verbatim>\<open>web_css_build.go\<close>, the files of a production build in \<^verbatim>\<open>web_production.go\<close>) and what nothing
  refers to (\<^verbatim>\<open>web_build_tools.go\<close>). A view is a component with the path of its file. The searches take the number of
  nested visits they may make; a search that marks each path once needs no more than there are paths.
\<close>

section \<open>The search\<close>

type_synonym view = "string \<times> SourceComponent"

fun node_tags :: "tnode \<Rightarrow> string list" where
  "node_tags (NElement e children) = (if el_IsComponent e then [el_Tag e] else []) @ concat (map node_tags children)"
| "node_tags _ = []"

definition view_tags :: "view \<Rightarrow> string list" where "view_tags v = concat (map node_tags (c_Template (snd v)))"

text \<open>\<open>get\<close> is the registry's \<^verbatim>\<open>Get\<close>; \<open>skip\<close> tells the views that are left out. \<open>out\<close> are the views seen so far.\<close>

fun visit_view :: "(string \<Rightarrow> view option) \<Rightarrow> (view \<Rightarrow> bool) \<Rightarrow> nat \<Rightarrow> view \<Rightarrow> view list \<Rightarrow> view list" where
  "visit_view get skip 0 v out = out"
| "visit_view get skip (Suc n) v out =
     (if fst v \<in> fst ` set out \<or> skip v then out
      else fold (\<lambda>tag out. case get tag of None \<Rightarrow> out | Some c \<Rightarrow> visit_view get skip n c out) (view_tags v) (out @ [v]))"

definition visit_tag where
  "visit_tag get skip n tag out = (case get tag of None \<Rightarrow> out | Some c \<Rightarrow> visit_view get skip n c out)"

text \<open>The relation the search follows.\<close>

inductive reaches :: "(string \<Rightarrow> view option) \<Rightarrow> (view \<Rightarrow> bool) \<Rightarrow> view \<Rightarrow> view \<Rightarrow> bool" for get skip where
  here: "\<not> skip v \<Longrightarrow> reaches get skip v v"
| there: "reaches get skip v u \<Longrightarrow> tag \<in> set (view_tags u) \<Longrightarrow> get tag = Some w \<Longrightarrow> \<not> skip w \<Longrightarrow> reaches get skip v w"

text \<open>All views are in \<open>U\<close>, and their paths tell them apart.\<close>

definition views_ok :: "(string \<Rightarrow> view option) \<Rightarrow> view set \<Rightarrow> bool" where
  "views_ok get U \<longleftrightarrow> finite U \<and> inj_on fst U \<and> (\<forall>tag c. get tag = Some c \<longrightarrow> c \<in> U)"

definition unseen :: "view set \<Rightarrow> view list \<Rightarrow> nat" where "unseen U out = card (U - set out)"

definition closed_from :: "(string \<Rightarrow> view option) \<Rightarrow> (view \<Rightarrow> bool) \<Rightarrow> view list \<Rightarrow> view list \<Rightarrow> bool" where
  "closed_from get skip new out \<longleftrightarrow> (\<forall>u \<in> set new. \<forall>tag \<in> set (view_tags u). \<forall>c. get tag = Some c \<longrightarrow> \<not> skip c \<longrightarrow> c \<in> set out)"

definition search_ok where
  "search_ok get skip U roots out out' \<longleftrightarrow>
     (\<exists>new. out' = out @ new \<and> closed_from get skip new out' \<and> distinct (map fst out') \<and> set out' \<subseteq> U \<and>
        (\<forall>u \<in> set new. \<exists>r \<in> roots. reaches get skip r u))"

lemma search_ok_refl: "distinct (map fst out) \<Longrightarrow> set out \<subseteq> U \<Longrightarrow> search_ok get skip U roots out out"
  by (simp add: search_ok_def closed_from_def)

lemma search_ok_trans:
  "search_ok get skip U roots out out1 \<Longrightarrow> search_ok get skip U roots' out1 out2 \<Longrightarrow> search_ok get skip U (roots \<union> roots') out out2"
proof -
  assume a: "search_ok get skip U roots out out1" "search_ok get skip U roots' out1 out2"
  from a(1) obtain n1 where 1: "out1 = out @ n1" "closed_from get skip n1 out1" "\<forall>u \<in> set n1. \<exists>r \<in> roots. reaches get skip r u"
    unfolding search_ok_def by blast
  from a(2) obtain n2 where 2: "out2 = out1 @ n2" "closed_from get skip n2 out2" "distinct (map fst out2)" "set out2 \<subseteq> U"
    "\<forall>u \<in> set n2. \<exists>r \<in> roots'. reaches get skip r u" unfolding search_ok_def by blast
  have "closed_from get skip n1 out2" using 1(2) unfolding closed_from_def 2(1) by (metis UnCI set_append)
  with 2(2) have "closed_from get skip (n1 @ n2) out2" unfolding closed_from_def by (metis UnE set_append)
  moreover have "\<forall>u \<in> set (n1 @ n2). \<exists>r \<in> roots \<union> roots'. reaches get skip r u"
    using 1(3) 2(5) by (metis UnCI UnE set_append)
  moreover have "out2 = out @ n1 @ n2" by (simp add: 1(1) 2(1))
  ultimately show ?thesis unfolding search_ok_def using 2(3,4) by blast
qed

lemma search_ok_mono: "search_ok get skip U roots out out' \<Longrightarrow> roots \<subseteq> roots' \<Longrightarrow> search_ok get skip U roots' out out'"
proof -
  assume a: "search_ok get skip U roots out out'" "roots \<subseteq> roots'"
  from a(1) obtain new where "out' = out @ new" "closed_from get skip new out'" "distinct (map fst out')" "set out' \<subseteq> U"
    "\<forall>u \<in> set new. \<exists>r \<in> roots. reaches get skip r u" unfolding search_ok_def by blast
  moreover from this(5) a(2) have "\<forall>u \<in> set new. \<exists>r \<in> roots'. reaches get skip r u" by (meson subsetD)
  ultimately show ?thesis unfolding search_ok_def by blast
qed

lemma unseen_mono: "finite U \<Longrightarrow> set out \<subseteq> set out' \<Longrightarrow> unseen U out' \<le> unseen U out"
  by (auto simp: unseen_def intro: card_mono)

lemma unseen_less: "finite U \<Longrightarrow> v \<in> U \<Longrightarrow> v \<notin> set out \<Longrightarrow> unseen U (out @ [v]) < unseen U out"
  unfolding unseen_def by (rule psubset_card_mono) auto

lemma search_ok_grows: "search_ok get skip U roots out out' \<Longrightarrow> set out \<subseteq> set out' \<and> distinct (map fst out') \<and> set out' \<subseteq> U"
  by (auto simp: search_ok_def)

lemma reaches_ends: "reaches get skip v u \<Longrightarrow> \<not> skip v \<and> \<not> skip u"
  by (induction rule: reaches.induct) auto

lemma reaches_trans: "reaches get skip r u \<Longrightarrow> reaches get skip v r \<Longrightarrow> reaches get skip v u"
proof (induction rule: reaches.induct)
  case (there r u tag w)
  show ?case
    by (rule reaches.there [where get = get and skip = skip and v = v and u = u and tag = tag and w = w])
      (rule there.IH [OF there.prems], rule there.hyps(2), rule there.hyps(3), rule there.hyps(4))
qed

lemma reaches_from:
  assumes "\<not> skip v" "t \<in> set (view_tags v)" "get t = Some r" "reaches get skip r u"
  shows "reaches get skip v u"
  apply (rule reaches_trans [OF assms(4)])
  apply (rule reaches.there [of get skip v v t r])
  apply (rule reaches.here)
  apply (rule assms(1))
  apply (rule assms(2))
  apply (rule assms(3))
  apply (rule conjunct1 [OF reaches_ends [OF assms(4)]])
  done

lemma fold_visit:
  assumes U: "views_ok get U"
    and IH: "\<And>c out. c \<in> U \<Longrightarrow> distinct (map fst out) \<Longrightarrow> set out \<subseteq> U \<Longrightarrow> unseen U out \<le> n \<Longrightarrow>
        search_ok get skip U {c} out (visit_view get skip n c out) \<and> (\<not> skip c \<longrightarrow> c \<in> set (visit_view get skip n c out))"
  shows "distinct (map fst out) \<Longrightarrow> set out \<subseteq> U \<Longrightarrow> unseen U out \<le> n \<Longrightarrow>
    search_ok get skip U {c. \<exists>t \<in> set tags. get t = Some c} out (fold (visit_tag get skip n) tags out) \<and>
    (\<forall>t \<in> set tags. \<forall>c. get t = Some c \<longrightarrow> \<not> skip c \<longrightarrow> c \<in> set (fold (visit_tag get skip n) tags out))"
proof (induction tags arbitrary: out)
  case Nil then show ?case by (simp add: search_ok_refl)
next
  case (Cons t ts)
  let ?o = "visit_tag get skip n t out"
  have s: "search_ok get skip U {c. get t = Some c} out ?o \<and> (\<forall>c. get t = Some c \<longrightarrow> \<not> skip c \<longrightarrow> c \<in> set ?o)"
  proof (cases "get t")
    case None with Cons.prems show ?thesis by (simp add: visit_tag_def search_ok_refl)
  next
    case (Some c)
    then have "c \<in> U" using U unfolding views_ok_def by blast
    from IH [OF this Cons.prems] Some show ?thesis by (simp add: visit_tag_def)
  qed
  from search_ok_grows [OF conjunct1 [OF s]] have g: "set out \<subseteq> set ?o" "distinct (map fst ?o)" "set ?o \<subseteq> U" by simp_all
  have "unseen U ?o \<le> n" using unseen_mono [of U out ?o] U g(1) Cons.prems(3) by (simp add: views_ok_def)
  from Cons.IH [OF g(2,3) this]
  have r: "search_ok get skip U {c. \<exists>t\<in>set ts. get t = Some c} ?o (fold (visit_tag get skip n) ts ?o)"
    "\<forall>t \<in> set ts. \<forall>c. get t = Some c \<longrightarrow> \<not> skip c \<longrightarrow> c \<in> set (fold (visit_tag get skip n) ts ?o)" by blast+
  from search_ok_trans [OF conjunct1 [OF s] r(1)]
  have "search_ok get skip U {c. \<exists>t\<in>set (t # ts). get t = Some c} out (fold (visit_tag get skip n) ts ?o)"
    by (rule search_ok_mono) auto
  moreover from search_ok_grows [OF r(1)] s
  have "\<forall>c. get t = Some c \<longrightarrow> \<not> skip c \<longrightarrow> c \<in> set (fold (visit_tag get skip n) ts ?o)" by blast
  ultimately show ?case using r(2) by simp
qed

lemma visit_view_ok:
  assumes U: "views_ok get U"
  shows "v \<in> U \<Longrightarrow> distinct (map fst out) \<Longrightarrow> set out \<subseteq> U \<Longrightarrow> unseen U out \<le> n \<Longrightarrow>
    search_ok get skip U {v} out (visit_view get skip n v out) \<and> (\<not> skip v \<longrightarrow> v \<in> set (visit_view get skip n v out))"
proof (induction n arbitrary: v out)
  case 0
  then have "U - set out = {}" using U by (simp add: unseen_def views_ok_def)
  with 0 show ?case by (auto simp: search_ok_refl)
next
  case (Suc n)
  have fin: "finite U" "inj_on fst U" using U by (simp_all add: views_ok_def)
  have mem: "fst v \<in> fst ` set out \<longleftrightarrow> v \<in> set out" using fin(2) Suc.prems(1,3) by (meson inj_on_image_mem_iff)
  show ?case
  proof (cases "fst v \<in> fst ` set out \<or> skip v")
    case True with Suc.prems mem show ?thesis by (auto simp: search_ok_refl)
  next
    case False
    let ?o = "out @ [v]"
    have o: "distinct (map fst ?o)" "set ?o \<subseteq> U" using False Suc.prems by auto
    have "v \<notin> set out" using False mem by blast
    from unseen_less [OF fin(1) Suc.prems(1) this] Suc.prems(4) have "unseen U ?o \<le> n" by simp
    from fold_visit [OF U Suc.IH o this, where tags = "view_tags v"]
    have s: "search_ok get skip U {c. \<exists>t \<in> set (view_tags v). get t = Some c} ?o (fold (visit_tag get skip n) (view_tags v) ?o)"
      and c: "\<forall>t \<in> set (view_tags v). \<forall>c. get t = Some c \<longrightarrow> \<not> skip c \<longrightarrow> c \<in> set (fold (visit_tag get skip n) (view_tags v) ?o)"
      by blast+
    have e: "visit_view get skip (Suc n) v out = fold (visit_tag get skip n) (view_tags v) ?o"
      using False by (simp add: visit_tag_def [abs_def])
    from s obtain new where new: "fold (visit_tag get skip n) (view_tags v) ?o = ?o @ new"
      "closed_from get skip new (?o @ new)" "distinct (map fst (?o @ new))" "set (?o @ new) \<subseteq> U"
      "\<forall>u \<in> set new. \<exists>r. (\<exists>t \<in> set (view_tags v). get t = Some r) \<and> reaches get skip r u"
      unfolding search_ok_def by auto
    have nv: "\<not> skip v" using False by blast
    have "\<forall>u \<in> set (v # new). reaches get skip v u"
    proof
      fix u assume "u \<in> set (v # new)"
      then consider "u = v" | "u \<in> set new" by auto
      then show "reaches get skip v u"
      proof cases
        case 1 with nv show ?thesis by (simp add: reaches.here)
      next
        case 2
        with new(5) obtain r t where "t \<in> set (view_tags v)" "get t = Some r" "reaches get skip r u" by blast
        then show ?thesis by (rule reaches_from [where skip = skip and v = v, OF nv])
      qed
    qed
    then have "\<forall>u \<in> set (v # new). \<exists>r \<in> {v}. reaches get skip r u" by simp
    moreover have "closed_from get skip (v # new) (?o @ new)"
      unfolding closed_from_def
    proof (intro ballI allI impI)
      fix u tag w assume u: "u \<in> set (v # new)" "tag \<in> set (view_tags u)" "get tag = Some w" "\<not> skip w"
      show "w \<in> set (?o @ new)"
      proof (cases "u = v")
        case True with c u show ?thesis unfolding new(1) by blast
      next
        case False with u(1) have "u \<in> set new" by simp
        with new(2) u show ?thesis unfolding closed_from_def by blast
      qed
    qed
    ultimately have "search_ok get skip U {v} out (?o @ new)"
      unfolding search_ok_def using new(3,4) by (intro exI [of _ "v # new"] conjI) simp_all
    then show ?thesis unfolding e new(1) by simp
  qed
qed

section \<open>The views of a page\<close>

text \<open>A registry's component with the path of its file below the registry's root.\<close>

definition component_view :: "string \<Rightarrow> SourceComponent \<Rightarrow> view" where
  "component_view root c = (root @ ''/'' @ s_RelativePath c, c)"

definition get_view :: "string \<Rightarrow> Components \<Rightarrow> string \<Rightarrow> view option" where
  "get_view root cs tag = map_option (component_view root) (Components_Get cs tag)"

definition disabledCookieGlobalComponent :: "string \<Rightarrow> bool" where
  "disabledCookieGlobalComponent name \<longleftrightarrow> name = ''CookieBanner'' \<or> name = ''CookieSettingsModal''"

definition cookie_skip :: "bool \<Rightarrow> view \<Rightarrow> bool" where
  "cookie_skip enabled v \<longleftrightarrow> \<not> enabled \<and> disabledCookieGlobalComponent (c_Name (snd v))"

text \<open>The layout a page is put into: its own, or the default; \<^verbatim>\<open>none\<close> is none.\<close>

definition page_layout :: "(string \<Rightarrow> view option) \<Rightarrow> string \<Rightarrow> string \<Rightarrow> view option" where
  "page_layout layout_get defaultLayout layout =
     (let name = (if layout = [] then defaultLayout else layout)
      in if name = [] \<or> name = ''none'' then None else layout_get name)"

definition visits :: "Components \<Rightarrow> nat" where "visits cs = length (Components.items cs) + 2"

definition reachableViewsForPage :: "bool \<Rightarrow> string \<Rightarrow> Components \<Rightarrow> view \<Rightarrow> view option \<Rightarrow> view list" where
  "reachableViewsForPage cookies root cs page layout =
     (let visit = visit_view (get_view root cs) (cookie_skip cookies) (visits cs);
          out = visit page []
      in sort_key fst (case layout of None \<Rightarrow> out | Some l \<Rightarrow> visit l out))"

definition page_roots :: "view \<Rightarrow> view option \<Rightarrow> view set" where
  "page_roots page layout = insert page (set_option layout)"

definition page_candidates :: "string \<Rightarrow> Components \<Rightarrow> view \<Rightarrow> view option \<Rightarrow> view list" where
  "page_candidates root cs page layout =
     page # (case layout of None \<Rightarrow> [] | Some l \<Rightarrow> [l]) @ map (component_view root \<circ> snd) (Components.items cs)"

lemma get_view_items: "get_view root cs tag = Some v \<Longrightarrow> v \<in> set (map (component_view root \<circ> snd) (Components.items cs))"
  by (auto simp: get_view_def Components_Get_def dest!: map_of_SomeD) force

lemma candidates_ok:
  "distinct (map fst (page_candidates root cs page layout)) \<Longrightarrow> views_ok (get_view root cs) (set (page_candidates root cs page layout))"
  unfolding views_ok_def
proof (intro conjI allI impI)
  assume "distinct (map fst (page_candidates root cs page layout))"
  then show "inj_on fst (set (page_candidates root cs page layout))" by (simp add: distinct_map)
next
  fix tag c assume "get_view root cs tag = Some c"
  then show "c \<in> set (page_candidates root cs page layout)" using get_view_items by (fastforce simp: page_candidates_def)
qed simp

lemma closed_reach:
  assumes "closed_from get skip out out" "r \<in> set out" "reaches get skip r u"
  shows "u \<in> set out"
  using assms(3,2)
proof (induction rule: reaches.induct)
  case (there v u tag w) with assms(1) show ?case unfolding closed_from_def by blast
qed

lemma candidates_bound: "unseen (set (page_candidates root cs page layout)) out \<le> visits cs"
proof -
  have "unseen (set (page_candidates root cs page layout)) out \<le> card (set (page_candidates root cs page layout))"
    unfolding unseen_def by (rule card_mono) auto
  also have "\<dots> \<le> length (page_candidates root cs page layout)" by (rule card_length)
  also have "\<dots> \<le> visits cs" by (simp add: page_candidates_def visits_def split: option.split)
  finally show ?thesis .
qed

lemma visit_page:
  assumes "distinct (map fst (page_candidates root cs page layout))"
    "v \<in> set (page_candidates root cs page layout)" "distinct (map fst out)" "set out \<subseteq> set (page_candidates root cs page layout)"
  shows "search_ok (get_view root cs) skip (set (page_candidates root cs page layout)) {v} out
       (visit_view (get_view root cs) skip (visits cs) v out) \<and>
     (\<not> skip v \<longrightarrow> v \<in> set (visit_view (get_view root cs) skip (visits cs) v out))"
  by (rule visit_view_ok [OF candidates_ok [OF assms(1)] assms(2-4) candidates_bound])

lemma search_result:
  assumes s: "search_ok get skip U roots [] out" and r: "\<forall>r \<in> roots. \<not> skip r \<longrightarrow> r \<in> set out"
  shows "set out = {u. \<exists>r \<in> roots. reaches get skip r u} \<and> distinct (map fst out)"
proof -
  from s have c: "closed_from get skip out out" "distinct (map fst out)" "\<forall>u \<in> set out. \<exists>r \<in> roots. reaches get skip r u"
    unfolding search_ok_def by auto
  have "u \<in> set out" if "r \<in> roots" "reaches get skip r u" for r u
  proof (rule closed_reach [OF c(1) _ that(2)])
    from reaches_ends [OF that(2)] r that(1) show "r \<in> set out" by blast
  qed
  with c show ?thesis by blast
qed

lemma distinct_map_sort [simp]: "distinct (map f (sort_key k xs)) = distinct (map f xs)"
  by (simp add: distinct_map)

lemma reachable_views:
  assumes d: "distinct (map fst (page_candidates root cs page layout))"
  shows "set (reachableViewsForPage cookies root cs page layout) =
      {u. \<exists>r \<in> page_roots page layout. reaches (get_view root cs) (cookie_skip cookies) r u}
    \<and> distinct (map fst (reachableViewsForPage cookies root cs page layout))"
proof -
  let ?U = "set (page_candidates root cs page layout)"
  let ?visit = "visit_view (get_view root cs) (cookie_skip cookies) (visits cs)"
  have p: "page \<in> ?U" by (simp add: page_candidates_def)
  from visit_page [OF d p] have 1: "search_ok (get_view root cs) (cookie_skip cookies) ?U {page} [] (?visit page [])"
    "\<not> cookie_skip cookies page \<longrightarrow> page \<in> set (?visit page [])" by simp_all
  show ?thesis
  proof (cases layout)
    case None
    from search_result [OF 1(1)] 1(2) show ?thesis by (simp add: reachableViewsForPage_def Let_def None page_roots_def)
  next
    case (Some l)
    then have l: "l \<in> ?U" by (simp add: page_candidates_def)
    from search_ok_grows [OF 1(1)] have g: "distinct (map fst (?visit page []))" "set (?visit page []) \<subseteq> ?U" by simp_all
    from visit_page [OF d l g] have 2: "search_ok (get_view root cs) (cookie_skip cookies) ?U {l} (?visit page []) (?visit l (?visit page []))"
      "\<not> cookie_skip cookies l \<longrightarrow> l \<in> set (?visit l (?visit page []))" by simp_all
    from search_ok_trans [OF 1(1) 2(1)]
    have s: "search_ok (get_view root cs) (cookie_skip cookies) ?U ({page} \<union> {l}) [] (?visit l (?visit page []))" .
    have "\<forall>r \<in> {page} \<union> {l}. \<not> cookie_skip cookies r \<longrightarrow> r \<in> set (?visit l (?visit page []))"
      using 1(2) 2(2) search_ok_grows [OF 2(1)] by blast
    from search_result [OF s this] show ?thesis
      by (simp add: reachableViewsForPage_def Let_def Some page_roots_def insert_commute)
  qed
qed

text \<open>the views found for a page are exactly those that its view or its layout leads to through component tags,
  however the components refer to each other; each is listed once, in the order of the paths.\<close>

theorem reachable_exact:
  assumes "distinct (map fst (page_candidates root cs page layout))"
  shows "set (reachableViewsForPage cookies root cs page layout) =
      {u. \<exists>r \<in> page_roots page layout. reaches (get_view root cs) (cookie_skip cookies) r u}
    \<and> distinct (map fst (reachableViewsForPage cookies root cs page layout))
    \<and> sorted (map fst (reachableViewsForPage cookies root cs page layout))"
  using reachable_views [OF assms] by (simp add: reachableViewsForPage_def Let_def)

definition mini_component :: "string \<Rightarrow> string list \<Rightarrow> SourceComponent" where
  "mini_component name tags =
     \<lparr>c_Name = name, c_Client = False, c_HasRuntimeAction = False, c_ScopeID = [],
      c_Template = map (\<lambda>t. NElement \<lparr>el_Tag = t, el_IsComponent = True, el_Attrs = [], el_ScopeAttrs = [], el_static = None, el_context = None\<rparr> []) tags,
      c_Scripts = [''run '' @ name], c_PreparedSetup = [], s_RelativePath = name @ ''.gosh'', s_Mode = ModeUniversal, s_ServerRefs = [],
      s_Layout = [], s_Head = [], s_TemplateSource = [], s_ScriptSetup = None, s_Styles = []\<rparr>"

definition mini_registry :: Components where
  "mini_registry = \<lparr>items = [(''card'', mini_component ''Card'' [''List'', ''Missing'']), (''list'', mini_component ''List'' [''Card'']),
     (''other'', mini_component ''Other'' [])], names = [''Card'', ''List'', ''Other'']\<rparr>"

definition mini_page :: view where "mini_page = (''pages/a.gosh'', mini_component ''A'' [''Card''])"

theorem reachable_exact_witness:
  "map fst (reachableViewsForPage True ''c'' mini_registry mini_page None) = [''c/Card.gosh'', ''c/List.gosh'', ''pages/a.gosh''] \<and>
   (\<forall>u \<in> set (reachableViewsForPage True ''c'' mini_registry mini_page None).
      reaches (get_view ''c'' mini_registry) (cookie_skip True) mini_page u)"
proof -
  have d: "distinct (map fst (page_candidates ''c'' mini_registry mini_page None))" by code_simp
  have "map fst (reachableViewsForPage True ''c'' mini_registry mini_page None) = [''c/Card.gosh'', ''c/List.gosh'', ''pages/a.gosh'']"
    by code_simp
  with reachable_exact [OF d, of True] show ?thesis by (simp add: page_roots_def)
qed

section \<open>The files of a production build\<close>

text \<open>A page: its file below the pages' root, its view with the path of that file, and its layout. \<open>norm\<close> is
  \<^verbatim>\<open>sourcePath\<close> of a path made relative; the other files are those of the global directories, the content, the templates,
  the style sheets with their imports and the teleports.\<close>

record build_roots =
  pagesDir :: string
  componentsDir :: string
  layoutsDir :: string

definition in_dir :: "string \<Rightarrow> string \<Rightarrow> string" where "in_dir d f = d @ ''/'' @ f"

definition view_file :: "build_roots \<Rightarrow> (string \<Rightarrow> view option) \<Rightarrow> view \<Rightarrow> string" where
  "view_file R layout_get v =
     (if map_option fst (layout_get (c_Name (snd v))) = Some (fst v) then in_dir (layoutsDir R) (s_RelativePath (snd v))
      else in_dir (componentsDir R) (s_RelativePath (snd v)))"

definition page_files :: "build_roots \<Rightarrow> bool \<Rightarrow> Components \<Rightarrow> (string \<Rightarrow> view option) \<Rightarrow> string \<Rightarrow> string \<times> view \<times> string \<Rightarrow> string list" where
  "page_files R cookies cs layout_get defaultLayout pg =
     (case pg of (file, v, layout) \<Rightarrow>
        in_dir (pagesDir R) file
        # map (view_file R layout_get)
            (filter (\<lambda>u. fst u \<noteq> fst v) (reachableViewsForPage cookies (componentsDir R) cs v (page_layout layout_get defaultLayout layout))))"

definition reachableProductionFiles ::
  "(string \<Rightarrow> string) \<Rightarrow> build_roots \<Rightarrow> bool \<Rightarrow> Components \<Rightarrow> (string \<Rightarrow> view option) \<Rightarrow> string \<Rightarrow> (string \<times> view \<times> string) list \<Rightarrow>
     view list \<Rightarrow> string list \<Rightarrow> string list" where
  "reachableProductionFiles norm R cookies cs layout_get defaultLayout pages teleports others =
     sort (remdups (map norm (filter (\<lambda>p. p \<noteq> [])
       (concat (map (page_files R cookies cs layout_get defaultLayout) pages)
        @ concat (map (\<lambda>t. map fst (reachableViewsForPage cookies (componentsDir R) cs t None)) teleports)
        @ others))))"

lemma view_file_ne: "view_file R layout_get v \<noteq> []" by (simp add: view_file_def in_dir_def)

text \<open>a production build carries the file of every page and of every component its view or its layout can lead to.\<close>

theorem production_complete:
  assumes "(file, v, layout) \<in> set pages"
    "distinct (map fst (page_candidates (componentsDir R) cs v (page_layout layout_get defaultLayout layout)))"
    "r \<in> page_roots v (page_layout layout_get defaultLayout layout)"
    "reaches (get_view (componentsDir R) cs) (cookie_skip cookies) r u"
  shows "norm (if fst u = fst v then in_dir (pagesDir R) file else view_file R layout_get u)
      \<in> set (reachableProductionFiles norm R cookies cs layout_get defaultLayout pages teleports others)"
proof -
  let ?f = "if fst u = fst v then in_dir (pagesDir R) file else view_file R layout_get u"
  from reachable_views [OF assms(2), of cookies] assms(3,4)
  have "u \<in> set (reachableViewsForPage cookies (componentsDir R) cs v (page_layout layout_get defaultLayout layout))" by blast
  then have "?f \<in> set (page_files R cookies cs layout_get defaultLayout (file, v, layout))" by (auto simp: page_files_def)
  then have "?f \<in> set (concat (map (page_files R cookies cs layout_get defaultLayout) pages))" using assms(1) by force
  moreover have "?f \<noteq> []" by (simp add: view_file_ne in_dir_def)
  ultimately have "?f \<in> set (filter (\<lambda>p. p \<noteq> []) (concat (map (page_files R cookies cs layout_get defaultLayout) pages)
        @ concat (map (\<lambda>t. map fst (reachableViewsForPage cookies (componentsDir R) cs t None)) teleports) @ others))"
    unfolding set_filter set_append by blast
  then show ?thesis unfolding reachableProductionFiles_def set_sort set_remdups set_map by (rule imageI)
qed

theorem production_complete_witness:
  "''c/List.gosh'' \<in> set (reachableProductionFiles id \<lparr>pagesDir = ''pages'', componentsDir = ''c'', layoutsDir = ''l''\<rparr> True mini_registry
     (\<lambda>_. None) [] [(''a.gosh'', mini_page, [])] [] [])"
proof -
  let ?R = "\<lparr>pagesDir = ''pages'', componentsDir = ''c'', layoutsDir = ''l''\<rparr>"
  have l: "page_layout (\<lambda>_. None) [] [] = None" by (simp add: page_layout_def)
  have d: "distinct (map fst (page_candidates (componentsDir ?R) mini_registry mini_page (page_layout (\<lambda>_. None) [] [])))"
    unfolding l by code_simp
  let ?card = "component_view ''c'' (mini_component ''Card'' [''List'', ''Missing''])"
  let ?v = "component_view ''c'' (mini_component ''List'' [''Card''])"
  have look: "normalizeComponentLookup ''Card'' = ''card''" "normalizeComponentLookup ''List'' = ''list''" by code_simp+
  have g: "get_view ''c'' mini_registry ''Card'' = Some ?card" "get_view ''c'' mini_registry ''List'' = Some ?v"
    by (simp_all add: get_view_def Components_Get_def look mini_registry_def)
  have s: "cookie_skip True = (\<lambda>_. False)" by (simp add: cookie_skip_def fun_eq_iff)
  have t: "''Card'' \<in> set (view_tags mini_page)" "''List'' \<in> set (view_tags ?card)" by code_simp+
  have "reaches (get_view ''c'' mini_registry) (\<lambda>_. False) mini_page mini_page" by (rule reaches.here) simp
  then have "reaches (get_view ''c'' mini_registry) (\<lambda>_. False) mini_page ?card"
    by (rule reaches.there [of "get_view ''c'' mini_registry" "\<lambda>_. False", OF _ t(1) g(1)]) simp
  then have "reaches (get_view ''c'' mini_registry) (\<lambda>_. False) mini_page ?v"
    by (rule reaches.there [of "get_view ''c'' mini_registry" "\<lambda>_. False", OF _ t(2) g(2)]) simp
  then have r: "reaches (get_view (componentsDir ?R) mini_registry) (cookie_skip True) mini_page ?v" by (simp add: s)
  have n: "fst ?v \<noteq> fst mini_page" by code_simp
  from production_complete [OF _ d _ r, of "''a.gosh''" "[(''a.gosh'', mini_page, [])]" id "[]" "[]"]
  show ?thesis using n by (simp add: page_roots_def view_file_def in_dir_def component_view_def mini_component_def)
qed

section \<open>Scripts and the plan of modules\<close>

definition view_scripts :: "(string \<Rightarrow> string) \<Rightarrow> view \<Rightarrow> string list" where
  "view_scripts hashText v =
     map hashText (filter (\<lambda>s. s \<noteq> []) (map TrimSpace (c_Scripts (snd v)))
       @ (if c_PreparedSetup (snd v) \<noteq> [] then [c_PreparedSetup (snd v)] else []))"

text \<open>On how many pages a script is used; layouts are not looked at.\<close>

definition page_scripts :: "(string \<Rightarrow> string) \<Rightarrow> string \<Rightarrow> Components \<Rightarrow> view \<Rightarrow> string list" where
  "page_scripts hashText root cs page =
     remdups (concat (map (view_scripts hashText) (visit_view (get_view root cs) (\<lambda>_. False) (visits cs) page [])))"

definition AnalyzeScriptUsage :: "(string \<Rightarrow> string) \<Rightarrow> string \<Rightarrow> Components \<Rightarrow> view list \<Rightarrow> string \<Rightarrow> nat" where
  "AnalyzeScriptUsage hashText root cs pages sid = length (filter (\<lambda>p. sid \<in> set (page_scripts hashText root cs p)) pages)"

lemma page_scripts_reach:
  "distinct (map fst (page_candidates root cs page None)) \<Longrightarrow>
   sid \<in> set (page_scripts hashText root cs page) \<longleftrightarrow> (\<exists>u. reaches (get_view root cs) (\<lambda>_. False) page u \<and> sid \<in> set (view_scripts hashText u))"
proof -
  assume d: "distinct (map fst (page_candidates root cs page None))"
  from visit_page [OF d, of page "[]" "\<lambda>_. False"]
  have "search_ok (get_view root cs) (\<lambda>_. False) (set (page_candidates root cs page None)) {page} []
       (visit_view (get_view root cs) (\<lambda>_. False) (visits cs) page [])"
    "page \<in> set (visit_view (get_view root cs) (\<lambda>_. False) (visits cs) page [])" by (simp_all add: page_candidates_def)
  from search_result [OF this(1)] this(2) show ?thesis by (auto simp: page_scripts_def)
qed

record module_state =
  entrySources :: "string list"
  scriptUsage :: "string \<Rightarrow> nat"
  sourceChunks :: "(string \<times> (string \<times> string) list) list"
  modules :: "(string \<times> string) list"

record ModuleBinding =
  mb_Target :: string
  mb_Selector :: string
  mb_Src :: string
  mb_ID :: string
  mb_Chunk :: string
  mb_Owner :: string

definition module_url :: "string \<Rightarrow> string" where "module_url sid = ''/_gosh/module/'' @ sid @ ''.js''"

text \<open>Where a binding is mounted: the element, or every instance of its component.\<close>

definition mount_point :: "bool \<Rightarrow> ScriptBinding \<Rightarrow> string \<times> string" where
  "mount_point aggregateComponents b =
     (if aggregateComponents \<and> sb_Owner b \<noteq> [] \<and> HasPrefix (sb_Target b) (''[data-gosh-instance='' @ [CHR 0x22])
      then ([], ''[data-gosh-component='' @ [CHR 0x22] @ sb_Owner b @ [CHR 0x22] @ '']:not([data-gosh-lazy='' @ [CHR 0x22] @ ''1'' @ [CHR 0x22] @ ''])'')
      else (sb_Target b, []))"

text \<open>What a binding is remembered by: the script with its element or its selector.\<close>

definition binding_key :: "(string \<Rightarrow> string) \<Rightarrow> bool \<Rightarrow> ScriptBinding \<Rightarrow> string" where
  "binding_key hashText agg b =
     (let sid = hashText (TrimSpace (sb_Source b)); (t, s) = mount_point agg b
      in if s \<noteq> [] then sid @ ''|selector|'' @ s else sid @ ''|'' @ t)"

definition bind_module :: "(string \<Rightarrow> string) \<Rightarrow> string \<Rightarrow> bool \<Rightarrow> ScriptBinding \<Rightarrow> module_state \<Rightarrow> ModuleBinding \<times> module_state" where
  "bind_module hashText pageKey agg b a =
     (let source = TrimSpace (sb_Source b); sid = hashText source; (t, s) = mount_point agg b;
          mb = \<lparr>mb_Target = t, mb_Selector = s, mb_Src = [], mb_ID = [], mb_Chunk = [], mb_Owner = sb_Owner b\<rparr>;
          shared = a\<lparr>modules := AList.update sid source (modules a)\<rparr>
      in if sid \<in> set (entrySources a) then (mb\<lparr>mb_ID := sid\<rparr>, a)
         else if scriptUsage a sid > 1 then (mb\<lparr>mb_Src := module_url sid\<rparr>, shared)
         else let chunk = (case map_of (sourceChunks a) pageKey of None \<Rightarrow> [] | Some cs \<Rightarrow> (case map_of cs sid of None \<Rightarrow> [] | Some c \<Rightarrow> c))
              in if chunk = [] then (mb\<lparr>mb_ID := sid, mb_Src := module_url sid\<rparr>, shared)
                 else (mb\<lparr>mb_ID := sid, mb_Chunk := chunk\<rparr>, a))"

fun plan_loop :: "(string \<Rightarrow> string) \<Rightarrow> string \<Rightarrow> bool \<Rightarrow> ScriptBinding list \<Rightarrow> string list \<Rightarrow> module_state \<Rightarrow> ModuleBinding list \<times> module_state" where
  "plan_loop hashText pageKey agg [] seen a = ([], a)"
| "plan_loop hashText pageKey agg (b # bs) seen a =
     (if TrimSpace (sb_Source b) = [] \<or> sb_Target b = [] \<or> binding_key hashText agg b \<in> set seen
      then plan_loop hashText pageKey agg bs seen a
      else case bind_module hashText pageKey agg b a of (mb, a1) \<Rightarrow>
           case plan_loop hashText pageKey agg bs (binding_key hashText agg b # seen) a1 of (mbs, a2) \<Rightarrow> (mb # mbs, a2))"

definition modulePlan :: "(string \<Rightarrow> string) \<Rightarrow> string \<Rightarrow> ScriptBinding list \<Rightarrow> bool \<Rightarrow> module_state \<Rightarrow> ModuleBinding list \<times> module_state" where
  "modulePlan hashText pageKey bs agg a =
     (if bs = [] then ([], a)
      else let key = (if pageKey = [] then ''@fragment'' else pageKey);
               a1 = (if map_of (sourceChunks a) key = None then a\<lparr>sourceChunks := (key, []) # sourceChunks a\<rparr> else a)
           in plan_loop hashText key agg bs [] a1)"

definition cachedModulePlan ::
  "(string \<Rightarrow> string) \<Rightarrow> string \<Rightarrow> string \<Rightarrow> ScriptBinding list \<Rightarrow> bool \<Rightarrow> (string \<times> ModuleBinding list) list \<Rightarrow> module_state \<Rightarrow>
     ModuleBinding list \<times> (string \<times> ModuleBinding list) list \<times> module_state" where
  "cachedModulePlan hashText cacheKey pageKey bs agg plans a =
     (if bs = [] then ([], plans, a)
      else let key = (if agg then cacheKey @ ''|aggregate'' else cacheKey)
           in case map_of plans key of
                Some p \<Rightarrow> (p, plans, a)
              | None \<Rightarrow> case modulePlan hashText pageKey bs agg a of (p, a') \<Rightarrow> (p, (key, p) # plans, a'))"

text \<open>A script's code reaches the browser: with the entry, in the page's chunk, or as a module that is registered.\<close>

definition delivered :: "(string \<Rightarrow> string) \<Rightarrow> string \<Rightarrow> module_state \<Rightarrow> ModuleBinding \<Rightarrow> string \<Rightarrow> bool" where
  "delivered hashText pageKey a mb source \<longleftrightarrow>
     (mb_ID mb = hashText source \<and> hashText source \<in> set (entrySources a)) \<or>
     (mb_Src mb = module_url (hashText source) \<and> map_of (modules a) (hashText source) = Some source) \<or>
     (mb_ID mb = hashText source \<and> mb_Chunk mb \<noteq> [] \<and>
        (\<exists>cs. map_of (sourceChunks a) pageKey = Some cs \<and> map_of cs (hashText source) = Some (mb_Chunk mb)))"

definition sources_of :: "ScriptBinding list \<Rightarrow> string set" where "sources_of bs = TrimSpace ` sb_Source ` set bs"

text \<open>What is asked of the hash and of the bindings: no two sources share a hash, a hash has no bar, and no target looks
  like a remembered selector.\<close>

definition hash_ok :: "(string \<Rightarrow> string) \<Rightarrow> ScriptBinding list \<Rightarrow> bool" where
  "hash_ok hashText bs \<longleftrightarrow> inj_on hashText (sources_of bs) \<and> (\<forall>s. CHR ''|'' \<notin> set (hashText s)) \<and>
     (\<forall>b \<in> set bs. \<not> HasPrefix (sb_Target b) ''selector|'')"

lemma bar_split: "CHR ''|'' \<notin> set x \<Longrightarrow> CHR ''|'' \<notin> set y \<Longrightarrow> x @ CHR ''|'' # s = y @ CHR ''|'' # t \<Longrightarrow> x = y \<and> s = t"
  by (induction x arbitrary: y) (case_tac y; auto)+

lemma mount_cases: "mount_point agg b = (sb_Target b, []) \<or> (\<exists>s. s \<noteq> [] \<and> mount_point agg b = ([], s))"
  by (auto simp: mount_point_def)

lemma key_inj:
  assumes "hash_ok h bs" "b \<in> set bs" "b' \<in> set bs" "binding_key h agg b = binding_key h agg b'"
  shows "TrimSpace (sb_Source b) = TrimSpace (sb_Source b') \<and> mount_point agg b = mount_point agg b'"
proof -
  obtain t s t' s' where m: "mount_point agg b = (t, s)" "mount_point agg b' = (t', s')" by fastforce
  let ?r = "\<lambda>t s. if s \<noteq> [] then ''selector|'' @ s else t"
  have k: "binding_key h agg b = h (TrimSpace (sb_Source b)) @ CHR ''|'' # ?r t s"
    "binding_key h agg b' = h (TrimSpace (sb_Source b')) @ CHR ''|'' # ?r t' s'"
    by (simp_all add: binding_key_def m Let_def)
  from bar_split [OF _ _ assms(4) [unfolded k]] assms(1)
  have e: "h (TrimSpace (sb_Source b)) = h (TrimSpace (sb_Source b'))" "?r t s = ?r t' s'" by (auto simp: hash_ok_def)
  have src: "TrimSpace (sb_Source b) = TrimSpace (sb_Source b')"
    using assms(1-3) e(1) by (auto simp: hash_ok_def sources_of_def dest: inj_onD)
  have np: "\<not> HasPrefix (sb_Target b) ''selector|''" "\<not> HasPrefix (sb_Target b') ''selector|''"
    using assms(1-3) by (auto simp: hash_ok_def)
  have "(t, s) = (t', s')"
  proof (cases "s = []"; cases "s' = []")
    assume "s = []" "s' = []" with e(2) show ?thesis by simp
  next
    assume c: "s = []" "s' \<noteq> []"
    with e(2) have "t = ''selector|'' @ s'" by simp
    moreover have "t = sb_Target b" using mount_cases [of agg b] m(1) c(1) by auto
    ultimately show ?thesis using np(1) by (simp add: HasPrefix_def)
  next
    assume c: "s \<noteq> []" "s' = []"
    with e(2) have "t' = ''selector|'' @ s" by simp
    moreover have "t' = sb_Target b'" using mount_cases [of agg b'] m(2) c(2) by auto
    ultimately show ?thesis using np(2) by (simp add: HasPrefix_def)
  next
    assume c: "s \<noteq> []" "s' \<noteq> []"
    with e(2) have "s = s'" by simp
    moreover have "t = []" "t' = []" using mount_cases [of agg b] mount_cases [of agg b'] m c by auto
    ultimately show ?thesis by simp
  qed
  with src m show ?thesis by simp
qed

definition same_but_modules :: "module_state \<Rightarrow> module_state \<Rightarrow> bool" where
  "same_but_modules a a' \<longleftrightarrow> entrySources a' = entrySources a \<and> scriptUsage a' = scriptUsage a \<and> sourceChunks a' = sourceChunks a"

lemma bind_module_frame:
  assumes "bind_module h key agg b a = (mb, a')"
  shows "same_but_modules a a' \<and> (mb_Target mb, mb_Selector mb) = mount_point agg b \<and> delivered h key a' mb (TrimSpace (sb_Source b))
    \<and> (\<forall>s. h s \<noteq> h (TrimSpace (sb_Source b)) \<or> s = TrimSpace (sb_Source b) \<longrightarrow>
         map_of (modules a) (h s) = Some s \<longrightarrow> map_of (modules a') (h s) = Some s)"
  using assms by (auto simp: bind_module_def Let_def same_but_modules_def delivered_def split: if_splits prod.splits option.splits)

lemma plan_loop_frame:
  "plan_loop h key agg bs seen a = (mbs, a') \<Longrightarrow> inj_on h (S \<union> sources_of bs) \<Longrightarrow>
     same_but_modules a a' \<and> (\<forall>s \<in> S. map_of (modules a) (h s) = Some s \<longrightarrow> map_of (modules a') (h s) = Some s)"
proof (induction h key agg bs seen a arbitrary: mbs a' rule: plan_loop.induct)
  case (2 h key agg b bs seen a)
  have inj: "inj_on h (S \<union> sources_of bs)" using 2(4) by (auto simp: sources_of_def intro: inj_on_subset)
  show ?case
  proof (cases "TrimSpace (sb_Source b) = [] \<or> sb_Target b = [] \<or> binding_key h agg b \<in> set seen")
    case True with 2(1) [OF True _ inj] 2(3) show ?thesis by simp
  next
    case False
    obtain mb a1 where b: "bind_module h key agg b a = (mb, a1)" by fastforce
    obtain mbs' a2 where l: "plan_loop h key agg bs (binding_key h agg b # seen) a1 = (mbs', a2)" by fastforce
    from 2(3) False b l have r: "a' = a2" by (auto split: if_splits)
    from 2(2) [OF False b [symmetric] l inj] have IH: "same_but_modules a1 a2"
      "\<forall>s \<in> S. map_of (modules a1) (h s) = Some s \<longrightarrow> map_of (modules a2) (h s) = Some s" by blast+
    from bind_module_frame [OF b] have f: "same_but_modules a a1"
      "\<forall>s. h s \<noteq> h (TrimSpace (sb_Source b)) \<or> s = TrimSpace (sb_Source b) \<longrightarrow>
         map_of (modules a) (h s) = Some s \<longrightarrow> map_of (modules a1) (h s) = Some s" by blast+
    have "h s \<noteq> h (TrimSpace (sb_Source b)) \<or> s = TrimSpace (sb_Source b)" if "s \<in> S" for s
    proof -
      have "s \<in> S \<union> sources_of (b # bs)" "TrimSpace (sb_Source b) \<in> S \<union> sources_of (b # bs)" using that by (simp_all add: sources_of_def)
      from inj_onD [OF 2(4) _ this] show ?thesis by blast
    qed
    with f IH r show ?thesis by (auto simp: same_but_modules_def)
  qed
qed (simp add: same_but_modules_def)

lemma delivered_later:
  "delivered h key a mb s \<Longrightarrow> same_but_modules a a' \<Longrightarrow> (map_of (modules a) (h s) = Some s \<longrightarrow> map_of (modules a') (h s) = Some s) \<Longrightarrow>
   delivered h key a' mb s"
  by (auto simp: delivered_def same_but_modules_def)

lemma plan_loop_serves:
  "plan_loop h key agg bs seen a = (mbs, a') \<Longrightarrow> hash_ok h bs \<Longrightarrow> b \<in> set bs \<Longrightarrow> TrimSpace (sb_Source b) \<noteq> [] \<Longrightarrow> sb_Target b \<noteq> [] \<Longrightarrow>
   binding_key h agg b \<notin> set seen \<Longrightarrow>
     \<exists>mb \<in> set mbs. (mb_Target mb, mb_Selector mb) = mount_point agg b \<and> delivered h key a' mb (TrimSpace (sb_Source b))"
proof (induction h key agg bs seen a arbitrary: mbs a' rule: plan_loop.induct)
  case (2 h key agg b1 bs seen a)
  have ok: "hash_ok h bs" using 2(4) by (auto simp: hash_ok_def sources_of_def intro: inj_on_subset)
  show ?case
  proof (cases "TrimSpace (sb_Source b1) = [] \<or> sb_Target b1 = [] \<or> binding_key h agg b1 \<in> set seen")
    case True
    with 2(6-8) 2(5) have "b \<in> set bs" by auto
    with 2(1) [OF True _ ok] 2(3,6-8) True show ?thesis by simp
  next
    case False
    obtain mb a1 where b: "bind_module h key agg b1 a = (mb, a1)" by fastforce
    obtain mbs' a2 where l: "plan_loop h key agg bs (binding_key h agg b1 # seen) a1 = (mbs', a2)" by fastforce
    from 2(3) False b l have r: "a' = a2" "mbs = mb # mbs'" by (auto split: if_splits)
    show ?thesis
    proof (cases "binding_key h agg b = binding_key h agg b1")
      case True
      with key_inj [OF 2(4) 2(5), of b1] have e: "TrimSpace (sb_Source b) = TrimSpace (sb_Source b1)" "mount_point agg b = mount_point agg b1" by auto
      let ?s = "TrimSpace (sb_Source b1)"
      from bind_module_frame [OF b] have f: "(mb_Target mb, mb_Selector mb) = mount_point agg b1" "delivered h key a1 mb ?s" by blast+
      have "inj_on h ({?s} \<union> sources_of bs)" using 2(4) by (auto simp: hash_ok_def sources_of_def)
      from plan_loop_frame [OF l this] have "same_but_modules a1 a2" "map_of (modules a1) (h ?s) = Some ?s \<longrightarrow> map_of (modules a2) (h ?s) = Some ?s" by blast+
      from delivered_later [OF f(2) this] f(1) e r show ?thesis by simp
    next
      case F: False
      with 2(5) have "b \<in> set bs" by auto
      from 2(2) [OF False b [symmetric] l ok this 2(6,7)] F 2(8) r show ?thesis by auto
    qed
  qed
qed simp

text \<open>Every script a page's bindings ask for has a place in the plan: it is mounted where the binding says, and its
  code is in the entry, in the page's chunk, or registered under the address the plan names.\<close>

lemma plan_delivers:
  assumes "modulePlan hashText pageKey bs agg a = (plan, a')" "hash_ok hashText bs"
    "b \<in> set bs" "TrimSpace (sb_Source b) \<noteq> []" "sb_Target b \<noteq> []"
  shows "\<exists>mb \<in> set plan. (mb_Target mb, mb_Selector mb) = mount_point agg b \<and>
    delivered hashText (if pageKey = [] then ''@fragment'' else pageKey) a' mb (TrimSpace (sb_Source b))"
proof -
  from assms(3) have "bs \<noteq> []" by auto
  with assms(1) obtain a1 where "plan_loop hashText (if pageKey = [] then ''@fragment'' else pageKey) agg bs [] a1 = (plan, a')"
    by (auto simp: modulePlan_def Let_def)
  from plan_loop_serves [OF this assms(2-5)] show ?thesis by simp
qed

text \<open>The plan is kept by the page alone: a script that the first rendering did not need is never mounted later.\<close>

lemma cached_plan_misses_script:
  assumes "modulePlan h pageKey bs1 agg a = (p1, a1)" "bs1 \<noteq> []" "bs2 \<noteq> []"
    "cachedModulePlan h k pageKey bs1 agg [] a = (r1, plans, a')"
  shows "fst (cachedModulePlan h k pageKey bs2 agg plans a') = p1"
  using assms by (auto simp: cachedModulePlan_def Let_def)

section \<open>The dependency graph\<close>

text \<open>The names of the components, the server references by their export, and the paths seen.\<close>

record DependencyGraph =
  dg_Components :: "string list"
  ServerExports :: "(string \<times> (string \<times> string)) list"
  seenViews :: "string list"

definition add_refs :: "view \<Rightarrow> DependencyGraph \<Rightarrow> DependencyGraph" where
  "add_refs v g = g\<lparr>ServerExports := fold (\<lambda>r. AList.update (snd r) r) (s_ServerRefs (snd v)) (ServerExports g)\<rparr>"

fun dep_visit :: "(string \<Rightarrow> view option) \<Rightarrow> nat \<Rightarrow> view \<Rightarrow> DependencyGraph \<Rightarrow> DependencyGraph" where
  "dep_visit get 0 v g = g"
| "dep_visit get (Suc n) v g =
     (if fst v \<in> set (seenViews g) then g
      else fold (\<lambda>tag g. case get tag of
             None \<Rightarrow> g
           | Some c \<Rightarrow> if c_Name (snd c) \<in> set (dg_Components g) then g
                       else dep_visit get n c (g\<lparr>dg_Components := c_Name (snd c) # dg_Components g\<rparr>))
         (view_tags v) (add_refs v (g\<lparr>seenViews := fst v # seenViews g\<rparr>)))"

text \<open>With layouts the views of every page are those found above.\<close>

definition BuildDependencyGraphWithLayouts ::
  "bool \<Rightarrow> string \<Rightarrow> Components \<Rightarrow> (string \<Rightarrow> view option) \<Rightarrow> string \<Rightarrow> (view \<times> string) list \<Rightarrow> DependencyGraph" where
  "BuildDependencyGraphWithLayouts cookies root cs layout_get defaultLayout pages =
     fold (dep_visit (get_view root cs) (Suc (visits cs)))
       (concat (map (\<lambda>(v, layout). reachableViewsForPage cookies root cs v (page_layout layout_get defaultLayout layout)) pages))
       \<lparr>dg_Components = [], ServerExports = [], seenViews = []\<rparr>"

text \<open>The exports of the views seen are there.\<close>

definition exports_in :: "view set \<Rightarrow> DependencyGraph \<Rightarrow> bool" where
  "exports_in U g \<longleftrightarrow> (\<forall>v \<in> U. fst v \<in> set (seenViews g) \<longrightarrow> snd ` set (s_ServerRefs (snd v)) \<subseteq> fst ` set (ServerExports g))"

lemma keys_fold_update: "fst ` set (fold (\<lambda>r. AList.update (f r) (h r)) rs al) = f ` set rs \<union> fst ` set al"
  by (induction rs arbitrary: al) (auto simp: dom_update [symmetric] update_conv' dom_map_of_conv_image_fst [symmetric])

lemma add_refs_exports:
  assumes "exports_in U g" "inj_on fst U" "v \<in> U"
  shows "exports_in U (add_refs v (g\<lparr>seenViews := fst v # seenViews g\<rparr>))"
  unfolding exports_in_def
proof (intro ballI impI)
  fix u assume u: "u \<in> U" "fst u \<in> set (seenViews (add_refs v (g\<lparr>seenViews := fst v # seenViews g\<rparr>)))"
  have k: "fst ` set (ServerExports (add_refs v (g\<lparr>seenViews := fst v # seenViews g\<rparr>))) =
      snd ` set (s_ServerRefs (snd v)) \<union> fst ` set (ServerExports g)"
    by (simp add: add_refs_def keys_fold_update [where f = snd and h = "\<lambda>r. r"])
  show "snd ` set (s_ServerRefs (snd u)) \<subseteq> fst ` set (ServerExports (add_refs v (g\<lparr>seenViews := fst v # seenViews g\<rparr>)))"
  proof (cases "u = v")
    case True then show ?thesis unfolding k by blast
  next
    case False
    with inj_onD [OF assms(2) _ u(1) assms(3)] u(2) have "fst u \<in> set (seenViews g)" by (auto simp: add_refs_def)
    with assms(1) u(1) show ?thesis unfolding k exports_in_def by blast
  qed
qed

lemma exports_in_name: "exports_in U (g\<lparr>dg_Components := c\<rparr>) = exports_in U g"
  by (simp add: exports_in_def)

lemma dep_visit_exports:
  assumes U: "views_ok get U"
  shows "v \<in> U \<Longrightarrow> exports_in U g \<Longrightarrow> exports_in U (dep_visit get n v g) \<and> set (seenViews g) \<subseteq> set (seenViews (dep_visit get n v g))
    \<and> (0 < n \<longrightarrow> fst v \<in> set (seenViews (dep_visit get n v g)))"
proof (induction n arbitrary: v g)
  case (Suc n)
  let ?f = "\<lambda>tag g. case get tag of None \<Rightarrow> g
           | Some c \<Rightarrow> if c_Name (snd c) \<in> set (dg_Components g) then g
                       else dep_visit get n c (g\<lparr>dg_Components := c_Name (snd c) # dg_Components g\<rparr>)"
  have f: "exports_in U g' \<Longrightarrow> exports_in U (fold ?f tags g') \<and> set (seenViews g') \<subseteq> set (seenViews (fold ?f tags g'))" for tags g'
  proof (induction tags arbitrary: g')
    case (Cons t ts)
    have "exports_in U (?f t g') \<and> set (seenViews g') \<subseteq> set (seenViews (?f t g'))"
    proof (cases "get t")
      case (Some c)
      then have "c \<in> U" using U unfolding views_ok_def by blast
      with Suc.IH [OF this, of "g'\<lparr>dg_Components := c_Name (snd c) # dg_Components g'\<rparr>"] Cons.prems Some show ?thesis
        by (simp add: exports_in_name)
    qed (use Cons.prems in simp)
    with Cons.IH [of "?f t g'"] show ?case by auto
  qed simp
  have inj: "inj_on fst U" using U by (simp add: views_ok_def)
  let ?g = "add_refs v (g\<lparr>seenViews := fst v # seenViews g\<rparr>)"
  have s: "set (seenViews ?g) = insert (fst v) (set (seenViews g))" by (simp add: add_refs_def)
  from f [OF add_refs_exports [OF Suc.prems(2) inj Suc.prems(1)], of "view_tags v"] Suc.prems(2) s
  show ?case by auto
qed simp

text \<open>the server logic of every view a page can lead to is in the graph the build's bindings are made from.\<close>

theorem server_exports_found:
  assumes U: "views_ok (get_view root cs) U"
    and p: "(v, layout) \<in> set pages" "u \<in> set (reachableViewsForPage cookies root cs v (page_layout layout_get defaultLayout layout))"
    and sub: "\<forall>(v, layout) \<in> set pages. set (reachableViewsForPage cookies root cs v (page_layout layout_get defaultLayout layout)) \<subseteq> U"
    and r: "r \<in> set (s_ServerRefs (snd u))"
  shows "map_of (ServerExports (BuildDependencyGraphWithLayouts cookies root cs layout_get defaultLayout pages)) (snd r) \<noteq> None"
proof -
  have f: "set vs \<subseteq> U \<Longrightarrow> exports_in U g \<Longrightarrow>
     exports_in U (fold (dep_visit (get_view root cs) (Suc n)) vs g) \<and>
     (\<forall>u \<in> set vs. fst u \<in> set (seenViews (fold (dep_visit (get_view root cs) (Suc n)) vs g))) \<and>
     set (seenViews g) \<subseteq> set (seenViews (fold (dep_visit (get_view root cs) (Suc n)) vs g))" for vs g n
  proof (induction vs arbitrary: g)
    case (Cons w ws)
    then have w: "w \<in> U" "set ws \<subseteq> U" by simp_all
    from dep_visit_exports [OF U w(1) Cons.prems(2), of "Suc n"] have s: "exports_in U (dep_visit (get_view root cs) (Suc n) w g)"
      "set (seenViews g) \<subseteq> set (seenViews (dep_visit (get_view root cs) (Suc n) w g))"
      "fst w \<in> set (seenViews (dep_visit (get_view root cs) (Suc n) w g))" by blast+
    from Cons.IH [OF w(2) s(1)] s(2,3) show ?case by (auto simp del: dep_visit.simps)
  qed simp
  let ?vs = "concat (map (\<lambda>(v, layout). reachableViewsForPage cookies root cs v (page_layout layout_get defaultLayout layout)) pages)"
  let ?g0 = "\<lparr>dg_Components = [], ServerExports = [], seenViews = []\<rparr>"
  have u: "u \<in> set ?vs" unfolding set_concat set_map using p by (intro UN_I [of "reachableViewsForPage cookies root cs v (page_layout layout_get defaultLayout layout)"] image_eqI [of _ _ "(v, layout)"]) simp_all
  have e0: "exports_in U ?g0" by (simp add: exports_in_def)
  have vs: "set ?vs \<subseteq> U"
  proof
    fix w assume "w \<in> set ?vs"
    then obtain v' l' where "(v', l') \<in> set pages"
      "w \<in> set (reachableViewsForPage cookies root cs v' (page_layout layout_get defaultLayout l'))" by auto
    with sub show "w \<in> U" by blast
  qed
  from f [OF vs e0, of "visits cs"] u
  have g: "exports_in U (BuildDependencyGraphWithLayouts cookies root cs layout_get defaultLayout pages)"
    "fst u \<in> set (seenViews (BuildDependencyGraphWithLayouts cookies root cs layout_get defaultLayout pages))"
    unfolding BuildDependencyGraphWithLayouts_def by blast+
  have "u \<in> U" using p sub by blast
  with g r have "snd r \<in> fst ` set (ServerExports (BuildDependencyGraphWithLayouts cookies root cs layout_get defaultLayout pages))"
    unfolding exports_in_def by blast
  then show ?thesis by (metis map_of_eq_None_iff)
qed

end
